(* ===== verification/Prelude.thy ===== *)
theory Prelude
  imports Complex_Main "HOL-Library.Word"
begin

unbundle bit_operations_syntax

text \<open>
  What every component of the development shares: the ways a call of the library can end abnormally
  (\<open>failure\<close>), the result type of fallible code with its sequencing combinator, the machine types, and
  the generic lemmas on lists and machine words the component proofs rest on.

  The collection \<open>res_simps\<close> holds the equations that unfold the result combinators; \<open>size_simps\<close> the
  conditional equations that read \<open>size_t\<close> arithmetic as arithmetic on natural numbers.
\<close>

named_theorems res_simps
named_theorems size_simps

section \<open>Abnormal ends and results\<close>

text \<open>
  \<open>AssertFailed\<close> is a failed \<open>assert\<close>; \<open>Fatal\<close> is a call of \<open>abort()\<close>, which also ends a
  \<open>LOG_FATAL\<close> or \<open>LOG_SYSFATAL\<close> statement; \<open>LengthError\<close> is what \<open>std::vector\<close> throws beyond \<open>max_size()\<close>;
  \<open>OutOfBounds\<close> is an access outside an object; \<open>BadFunctionCall\<close> is a call of an empty
  \<open>boost::function\<close>; \<open>NullPointer\<close> is a dereference of a null pointer; \<open>Indeterminate\<close> is the use of a value
  that was never written or never passed.
\<close>

datatype failure =
    AssertFailed
  | Fatal
  | LengthError
  | OutOfBounds
  | BadFunctionCall
  | NullPointer
  | Indeterminate

type_synonym 'a res = "failure + 'a"

fun bindR :: "'a res \<Rightarrow> ('a \<Rightarrow> 'b res) \<Rightarrow> 'b res" where
  "bindR (Inl e) f = Inl e"
| "bindR (Inr x) f = f x"

definition ensure :: "bool \<Rightarrow> failure \<Rightarrow> 'a res \<Rightarrow> 'a res" where
  "ensure b e r = (if b then r else Inl e)"

text \<open>\<open>no_fail r\<close>: the call returned.\<close>

definition no_fail :: "'a res \<Rightarrow> bool" where
  "no_fail r \<longleftrightarrow> (\<exists>x. r = Inr x)"

lemma bindR_Inr_iff [res_simps]:
  "bindR r f = Inr y \<longleftrightarrow> (\<exists>x. r = Inr x \<and> f x = Inr y)"
  by (cases r) auto

lemma bindR_Inl_iff [res_simps]:
  "bindR r f = Inl e \<longleftrightarrow> r = Inl e \<or> (\<exists>x. r = Inr x \<and> f x = Inl e)"
  by (cases r) auto

lemma bindR_assoc: "bindR (bindR r f) g = bindR r (\<lambda>x. bindR (f x) g)"
  by (cases r) auto

lemma ensure_Inr_iff [res_simps]: "ensure b e r = Inr y \<longleftrightarrow> b \<and> r = Inr y"
  by (simp add: ensure_def)

lemma ensure_True [simp]: "ensure True e r = r"
  by (simp add: ensure_def)

lemma ensure_False [simp]: "ensure False e r = Inl e"
  by (simp add: ensure_def)

lemma no_fail_Inr [simp]: "no_fail (Inr x)"
  by (simp add: no_fail_def)

lemma no_fail_Inl [simp]: "\<not> no_fail (Inl e)"
  by (simp add: no_fail_def)

text \<open>Running a list of fallible steps in order, stopping at the first failure.\<close>

fun foldR :: "('a \<Rightarrow> 's \<Rightarrow> 's res) \<Rightarrow> 'a list \<Rightarrow> 's \<Rightarrow> 's res" where
  "foldR f [] s = Inr s"
| "foldR f (x # xs) s = bindR (f x s) (foldR f xs)"

lemma foldR_append: "foldR f (xs @ ys) s = bindR (foldR f xs s) (foldR f ys)"
proof (induction xs arbitrary: s)
  case Nil
  show ?case by simp
next
  case (Cons x xs)
  then show ?case by (cases "f x s") simp_all
qed

lemma foldR_invariant:
  assumes "foldR f xs s = Inr t" and "P s"
    and "\<And>x s t. x \<in> set xs \<Longrightarrow> P s \<Longrightarrow> f x s = Inr t \<Longrightarrow> P t"
  shows "P t"
  using assms
proof (induction xs arbitrary: s)
  case Nil
  then show ?case by simp
next
  case (Cons x xs)
  from Cons.prems(1) obtain u where u: "f x s = Inr u" "foldR f xs u = Inr t"
    by (auto simp: res_simps)
  have "P u" using Cons.prems(2,3) u(1) by auto
  then show ?case using Cons.IH[OF u(2)] Cons.prems(3) by (meson list.set_intros(2))
qed

lemma foldR_no_fail:
  assumes "P s" and "\<And>x s. x \<in> set xs \<Longrightarrow> P s \<Longrightarrow> \<exists>t. f x s = Inr t \<and> P t"
  shows "\<exists>t. foldR f xs s = Inr t \<and> P t"
  using assms
proof (induction xs arbitrary: s)
  case Nil
  then show ?case by simp
next
  case (Cons x xs)
  from Cons.prems obtain u where u: "f x s = Inr u" "P u" by (meson list.set_intros(1))
  have "\<exists>t. foldR f xs u = Inr t \<and> P t"
    using Cons.IH[OF u(2)] Cons.prems(2) by (meson list.set_intros(2))
  then show ?case using u by simp
qed

section \<open>Machine types\<close>

text \<open>The library is built for 64-bit Linux: \<open>size_t\<close> and \<open>int64_t\<close> have 64 bits, \<open>int\<close> has 32.\<close>

type_synonym size_t = "64 word"
type_synonym uint16_t = "16 word"
type_synonym uint32_t = "32 word"
type_synonym int32_t = "32 word"
type_synonym int64_t = "64 word"

text \<open>\<open>std::vector<char>::max_size()\<close>, which is \<open>PTRDIFF_MAX\<close>.\<close>

abbreviation max_size :: nat where
  "max_size \<equiv> 9223372036854775807"

abbreviation sizeof_list :: "'a list \<Rightarrow> size_t" where
  "sizeof_list xs \<equiv> of_nat (length xs)"

lemma unat_minus_size [size_simps]: "b \<le> (a :: size_t) \<Longrightarrow> unat (a - b) = unat a - unat b"
  by (rule unat_sub)

lemma unat_plus_size [size_simps]:
  "unat (a :: size_t) + unat b < 18446744073709551616 \<Longrightarrow> unat (a + b) = unat a + unat b"
  by (simp add: unat_word_ariths)

lemma unat_of_nat_size [size_simps]:
  "n < 18446744073709551616 \<Longrightarrow> unat (of_nat n :: size_t) = n"
  by (simp add: unat_of_nat)

lemma unat_size_bound: "unat (a :: size_t) < 18446744073709551616"
  using unsigned_less[of a, where ?'a = nat] by simp

lemma of_nat_le_size [size_simps]:
  "n < 18446744073709551616 \<Longrightarrow> (of_nat n :: size_t) \<le> a \<longleftrightarrow> n \<le> unat a"
  by (simp add: word_le_nat_alt size_simps)

lemma le_of_nat_size [size_simps]:
  "n < 18446744073709551616 \<Longrightarrow> a \<le> (of_nat n :: size_t) \<longleftrightarrow> unat a \<le> n"
  by (simp add: word_le_nat_alt size_simps)

lemma of_nat_unat_size [simp]: "(of_nat (unat (a :: size_t)) :: size_t) = a"
  by simp

lemma size_eq_nat: "(a :: size_t) = b \<longleftrightarrow> unat a = unat b"
  by (simp add: word_unat_eq_iff)

lemma sint_int32_range: "-2147483648 \<le> sint (x :: int32_t)" "sint (x :: int32_t) < 2147483648"
  using sint_greater_eq[of x] sint_less[of x] by simp_all

lemma sint_int32_of_int:
  "-2147483648 \<le> i \<Longrightarrow> i < 2147483648 \<Longrightarrow> sint (word_of_int i :: int32_t) = i"
  by (simp add: sint_sbintrunc' signed_take_bit_int_eq_self_iff)

lemma sint_int32_add:
  "-2147483648 \<le> sint x + sint y \<Longrightarrow> sint x + sint y < 2147483648 \<Longrightarrow>
   sint (x + y :: int32_t) = sint x + sint y"
  by (simp add: sint_word_ariths signed_take_bit_int_eq_self_iff)

lemma sint_int32_sub:
  "-2147483648 \<le> sint x - sint y \<Longrightarrow> sint x - sint y < 2147483648 \<Longrightarrow>
   sint (x - y :: int32_t) = sint x - sint y"
  by (simp add: sint_word_ariths signed_take_bit_int_eq_self_iff)

section \<open>Reading and writing ranges of a vector\<close>

text \<open>
  \<open>read_range xs i n\<close> reads the \<open>n\<close> elements from index \<open>i\<close>; \<open>copy_into xs i ys\<close> is \<open>std::copy\<close> of \<open>ys\<close>
  to the positions from \<open>i\<close>. Both fail when a position is outside the vector. \<open>resize_list\<close> is
  \<open>std::vector::resize\<close>: it truncates or pads with value-initialised elements.
\<close>

definition read_range :: "'a list \<Rightarrow> nat \<Rightarrow> nat \<Rightarrow> 'a list res" where
  "read_range xs i n = ensure (i + n \<le> length xs) OutOfBounds (Inr (take n (drop i xs)))"

definition copy_into :: "'a list \<Rightarrow> nat \<Rightarrow> 'a list \<Rightarrow> 'a list res" where
  "copy_into xs i ys =
     ensure (i + length ys \<le> length xs) OutOfBounds
       (Inr (take i xs @ ys @ drop (i + length ys) xs))"

definition resize_list :: "'a \<Rightarrow> 'a list \<Rightarrow> nat \<Rightarrow> 'a list res" where
  "resize_list z xs n =
     ensure (n \<le> max_size) LengthError (Inr (take n xs @ replicate (n - length xs) z))"

lemma length_copied [simp]:
  "i + length ys \<le> length xs \<Longrightarrow> length (take i xs @ ys @ drop (i + length ys) xs) = length xs"
  by simp

lemma copy_into_ok:
  "i + length ys \<le> length xs \<Longrightarrow>
   copy_into xs i ys = Inr (take i xs @ ys @ drop (i + length ys) xs)"
  by (simp add: copy_into_def)

lemma copy_into_length: "copy_into xs i ys = Inr zs \<Longrightarrow> length zs = length xs"
  by (auto simp: copy_into_def res_simps)

lemma take_drop_mid:
  "r \<le> w \<Longrightarrow> w \<le> length xs \<Longrightarrow>
   take (w - r + length ys) (drop r (take w xs @ ys @ zs)) = take (w - r) (drop r xs) @ ys"
  by (simp add: take_drop)

lemma take_append_resized:
  "w \<le> length xs \<Longrightarrow> w \<le> n \<Longrightarrow> take w (take n xs @ replicate k z) = take w xs"
  by (simp add: min_def)

end
