(* ===== verification/Io_Channel.thy ===== *)
theory Io_Channel
  imports Prelude
begin

text \<open>
  The callbacks that the library binds (net/Callbacks.h and the \<open>boost::bind\<close> expressions of net/),
  libev's watchers as a parameter of the model, and \<open>simplev::net::Channel\<close> (net/Channel.h,
  net/Channel.cc): the interest set of one descriptor and the dispatch of its events.
\<close>

section \<open>Callbacks\<close>

text \<open>
  A \<open>boost::function\<close> that the library itself fills is a value of one of these types, one constructor
  per \<open>boost::bind\<close> expression; an empty one is \<open>None\<close>. Connections, event loops and timers are named
  by numbers, and a callback that the user of the library registers is a number of its own, whose
  effect is a parameter of the operations that call it.
\<close>

type_synonym thread_id = nat
type_synonym loop_id = nat
type_synonym conn_id = nat
type_synonym timer_ptr = nat
type_synonym user_callback = nat

datatype channel_callback =
    Cb_EventLoop_handleRead loop_id
  | Cb_TcpConnection_handleRead conn_id
  | Cb_TcpConnection_handleWrite conn_id
  | Cb_TcpConnection_handleError conn_id
  | Cb_Acceptor_handleRead
  | Cb_Connector_handleWrite
  | Cb_Connector_handleError
  | Cb_Curl_onRead int
  | Cb_Curl_onWrite int

datatype close_callback =
    Cb_TcpServer_removeConnection
  | Cb_TcpClient_removeConnection
  | Cb_detail_removeConnection loop_id

text \<open>\<open>EventLoop::Functor\<close> and \<open>TimerCallback\<close>.\<close>

datatype Functor =
    F_writeComplete user_callback conn_id
  | F_highWaterMark user_callback conn_id size_t
  | F_sendInLoop conn_id string
  | F_shutdownInLoop conn_id
  | F_connectEstablished conn_id
  | F_connectDestroyed conn_id
  | F_setCloseCallback conn_id close_callback
  | F_removeConnectionInLoop conn_id
  | F_Acceptor_listen
  | F_addTimerInLoop timer_ptr
  | F_cancelInLoop "timer_ptr \<times> int"
  | F_Connector_startInLoop
  | F_Connector_stopInLoop
  | F_Connector_resetChannel
  | F_removeConnector
  | F_user user_callback

section \<open>libev\<close>

text \<open>
  The library's event source is libev, which is not part of this repository: its watchers are records
  of the state the code can observe, and the operations that change them are a parameter \<open>libev\<close>.
  \<open>libev_ok\<close> says what the library relies on, as libev documents it: an active I/O watcher that is
  reconfigured watches the new events and stays active (for a stopped one nothing is assumed of the
  events); \<open>start\<close> activates, \<open>stop\<close> deactivates.
\<close>

type_synonym evmask = "32 word"

definition ev_NONE :: evmask where "ev_NONE = 0"
definition ev_READ :: evmask where "ev_READ = 1"
definition ev_WRITE :: evmask where "ev_WRITE = 2"
definition ev_ERROR :: evmask where "ev_ERROR = 0x80000000"

record ev_io =
  ev_fd :: int
  ev_events :: evmask
  ev_active :: bool

record ev_timer =
  tm_after :: real
  tm_repeat :: real
  tm_active :: bool

record libev =
  io_set :: "ev_io \<Rightarrow> int \<Rightarrow> evmask \<Rightarrow> ev_io"
  io_start :: "ev_io \<Rightarrow> int \<Rightarrow> evmask \<Rightarrow> ev_io"
  io_stop :: "ev_io \<Rightarrow> ev_io"
  timer_set :: "ev_timer \<Rightarrow> real \<Rightarrow> real \<Rightarrow> ev_timer"
  timer_start :: "ev_timer \<Rightarrow> ev_timer"
  timer_stop :: "ev_timer \<Rightarrow> ev_timer"

definition libev_ok :: "libev \<Rightarrow> bool" where
  "libev_ok L \<longleftrightarrow>
     (\<forall>w fd e. ev_active w \<longrightarrow> ev_events (io_set L w fd e) = e) \<and>
     (\<forall>w fd e. ev_active (io_set L w fd e) = ev_active w) \<and>
     (\<forall>w fd e. ev_events (io_start L w fd e) = e) \<and>
     (\<forall>w fd e. ev_active (io_start L w fd e)) \<and>
     (\<forall>w. ev_events (io_stop L w) = ev_events w) \<and>
     (\<forall>w. \<not> ev_active (io_stop L w)) \<and>
     (\<forall>t. tm_active (timer_start L t)) \<and>
     (\<forall>t. \<not> tm_active (timer_stop L t)) \<and>
     (\<forall>t a r. tm_active (timer_set L t a r) = tm_active t)"

text \<open>Operations that satisfy the documented laws, for the concrete runs of the witnesses.\<close>

definition libev_ref :: libev where
  "libev_ref =
     \<lparr>io_set = (\<lambda>w fd e. w\<lparr>ev_fd := fd, ev_events := e\<rparr>),
      io_start = (\<lambda>w fd e. \<lparr>ev_fd = fd, ev_events = e, ev_active = True\<rparr>),
      io_stop = (\<lambda>w. w\<lparr>ev_active := False\<rparr>),
      timer_set = (\<lambda>t a r. t\<lparr>tm_after := a, tm_repeat := r\<rparr>),
      timer_start = (\<lambda>t. t\<lparr>tm_active := True\<rparr>),
      timer_stop = (\<lambda>t. t\<lparr>tm_active := False\<rparr>)\<rparr>"

lemma libev_ref_ok: "libev_ok libev_ref"
  by (simp add: libev_ok_def libev_ref_def)

section \<open>Channel\<close>

record Channel =
  ch_loop :: loop_id
  ch_fd :: int
  ioWatcher :: ev_io
  eventHandling :: bool
  ch_tie :: "nat option"
  ch_tied :: bool
  readCallback :: "channel_callback option"
  writeCallback :: "channel_callback option"
  errorCallback :: "channel_callback option"

definition new_ev_io :: ev_io where
  "new_ev_io = \<lparr>ev_fd = -1, ev_events = 0, ev_active = False\<rparr>"

definition Channel_ctor :: "libev \<Rightarrow> loop_id \<Rightarrow> int \<Rightarrow> Channel" where
  "Channel_ctor L loop fd =
     \<lparr>ch_loop = loop, ch_fd = fd, ioWatcher = io_start L new_ev_io fd ev_NONE,
      eventHandling = False, ch_tie = None, ch_tied = False,
      readCallback = None, writeCallback = None, errorCallback = None\<rparr>"

definition Channel_dtor :: "Channel \<Rightarrow> unit res" where
  "Channel_dtor c = ensure (\<not> eventHandling c) AssertFailed (Inr ())"

definition Channel_set :: "libev \<Rightarrow> evmask \<Rightarrow> Channel \<Rightarrow> Channel" where
  "Channel_set L e c = c\<lparr>ioWatcher := io_set L (ioWatcher c) (ch_fd c) e\<rparr>"

definition Channel_enableReading :: "libev \<Rightarrow> Channel \<Rightarrow> Channel" where
  "Channel_enableReading L c = Channel_set L (ev_events (ioWatcher c) OR ev_READ) c"

definition Channel_disableReading :: "libev \<Rightarrow> Channel \<Rightarrow> Channel" where
  "Channel_disableReading L c = Channel_set L (ev_events (ioWatcher c) AND NOT ev_READ) c"

definition Channel_enableWriting :: "libev \<Rightarrow> Channel \<Rightarrow> Channel" where
  "Channel_enableWriting L c = Channel_set L (ev_events (ioWatcher c) OR ev_WRITE) c"

definition Channel_disableWriting :: "libev \<Rightarrow> Channel \<Rightarrow> Channel" where
  "Channel_disableWriting L c = Channel_set L (ev_events (ioWatcher c) AND NOT ev_WRITE) c"

definition Channel_disableAll :: "libev \<Rightarrow> Channel \<Rightarrow> Channel" where
  "Channel_disableAll L c = Channel_set L ev_NONE c"

definition Channel_isWriting :: "Channel \<Rightarrow> bool" where
  "Channel_isWriting c \<longleftrightarrow> ev_events (ioWatcher c) AND ev_WRITE \<noteq> 0"

definition Channel_isNoneEvent :: "Channel \<Rightarrow> bool" where
  "Channel_isNoneEvent c \<longleftrightarrow> ev_events (ioWatcher c) = ev_NONE"

definition Channel_setReadCallback :: "channel_callback \<Rightarrow> Channel \<Rightarrow> Channel" where
  "Channel_setReadCallback cb c = c\<lparr>readCallback := Some cb\<rparr>"

definition Channel_setWriteCallback :: "channel_callback \<Rightarrow> Channel \<Rightarrow> Channel" where
  "Channel_setWriteCallback cb c = c\<lparr>writeCallback := Some cb\<rparr>"

definition Channel_setErrorCallback :: "channel_callback \<Rightarrow> Channel \<Rightarrow> Channel" where
  "Channel_setErrorCallback cb c = c\<lparr>errorCallback := Some cb\<rparr>"

definition Channel_doTie :: "nat \<Rightarrow> Channel \<Rightarrow> Channel" where
  "Channel_doTie obj c = c\<lparr>ch_tie := Some obj, ch_tied := True\<rparr>"

text \<open>\<open>Channel::stop\<close>, given whether the caller runs in the thread of the channel's loop.\<close>

definition Channel_stop :: "libev \<Rightarrow> bool \<Rightarrow> Channel \<Rightarrow> Channel res" where
  "Channel_stop L inLoopThread c =
     ensure inLoopThread Fatal (Inr (c\<lparr>ioWatcher := io_stop L (ioWatcher c)\<rparr>))"

text \<open>
  \<open>Channel::remove\<close> with \<open>EventLoop::removeChannel\<close>, which it calls on its own loop \<open>loop_\<close> and whose
  assertion \<open>channel->ownerLoop() == this\<close> is then about that same loop.
\<close>

definition EventLoop_removeChannel :: "libev \<Rightarrow> bool \<Rightarrow> loop_id \<Rightarrow> Channel \<Rightarrow> Channel res" where
  "EventLoop_removeChannel L inLoopThread this c =
     ensure (ch_loop c = this) AssertFailed (Channel_stop L inLoopThread c)"

definition Channel_remove :: "libev \<Rightarrow> bool \<Rightarrow> Channel \<Rightarrow> Channel res" where
  "Channel_remove L inLoopThread c =
     ensure (Channel_isNoneEvent c) AssertFailed (EventLoop_removeChannel L inLoopThread (ch_loop c) c)"

text \<open>
  Dispatch of the events libev reports. The channel lives inside a state \<open>'w\<close> that the callbacks may
  change: \<open>chan\<close> reads it there, \<open>upd\<close> rewrites it, \<open>call\<close> runs a bound callback.
\<close>

definition call_if :: "bool \<Rightarrow> ('w \<Rightarrow> 'cb option) \<Rightarrow> ('cb \<Rightarrow> 'w \<Rightarrow> 'w res) \<Rightarrow> 'w \<Rightarrow> 'w res" where
  "call_if b slot call w =
     (if b then (case slot w of None \<Rightarrow> Inr w | Some cb \<Rightarrow> call cb w) else Inr w)"

definition Channel_handleEventWithGuard ::
  "('w \<Rightarrow> Channel) \<Rightarrow> ((Channel \<Rightarrow> Channel) \<Rightarrow> 'w \<Rightarrow> 'w) \<Rightarrow> (channel_callback \<Rightarrow> 'w \<Rightarrow> 'w res) \<Rightarrow>
   evmask \<Rightarrow> 'w \<Rightarrow> 'w res" where
  "Channel_handleEventWithGuard chan upd call revents w =
     bindR (call_if (revents AND ev_ERROR \<noteq> 0) (\<lambda>w. errorCallback (chan w)) call
              (upd (eventHandling_update (\<lambda>_. True)) w)) (\<lambda>w1.
     bindR (call_if (revents AND ev_READ \<noteq> 0) (\<lambda>w. readCallback (chan w)) call w1) (\<lambda>w2.
     bindR (call_if (revents AND ev_WRITE \<noteq> 0) (\<lambda>w. writeCallback (chan w)) call w2) (\<lambda>w3.
     Inr (upd (eventHandling_update (\<lambda>_. False)) w3))))"

text \<open>\<open>alive obj\<close>: the weak pointer to \<open>obj\<close> can be locked.\<close>

definition Channel_handleEvent ::
  "('w \<Rightarrow> Channel) \<Rightarrow> ((Channel \<Rightarrow> Channel) \<Rightarrow> 'w \<Rightarrow> 'w) \<Rightarrow> (channel_callback \<Rightarrow> 'w \<Rightarrow> 'w res) \<Rightarrow>
   (nat \<Rightarrow> bool) \<Rightarrow> evmask \<Rightarrow> 'w \<Rightarrow> 'w res" where
  "Channel_handleEvent chan upd call alive revents w =
     (if ch_tied (chan w)
      then (case ch_tie (chan w) of
              None \<Rightarrow> Inr w
            | Some obj \<Rightarrow>
                if alive obj then Channel_handleEventWithGuard chan upd call revents w else Inr w)
      else Channel_handleEventWithGuard chan upd call revents w)"

section \<open>The interest set\<close>

definition Channel_isReading :: "Channel \<Rightarrow> bool" where
  "Channel_isReading c \<longleftrightarrow> ev_events (ioWatcher c) AND ev_READ \<noteq> 0"

abbreviation Channel_live :: "Channel \<Rightarrow> bool" where
  "Channel_live c \<equiv> ev_active (ioWatcher c)"

lemma mask_and_one: "(e AND 1 :: evmask) \<noteq> 0 \<longleftrightarrow> bit e 0"
  by (simp add: and_one_eq odd_iff_mod_2_eq_one bit_0 flip: odd_iff_mod_2_eq_one)

lemma mask_and_two: "(e AND 2 :: evmask) \<noteq> 0 \<longleftrightarrow> bit e 1"
  by (simp add: bit_iff_and_push_bit_not_eq_0)

lemma libev_okD:
  assumes "libev_ok L"
  shows "ev_active w \<Longrightarrow> ev_events (io_set L w fd e) = e"
    and "ev_active (io_set L w fd e) = ev_active w"
    and "ev_events (io_start L w fd e) = e" and "ev_active (io_start L w fd e)"
    and "ev_events (io_stop L w) = ev_events w" and "\<not> ev_active (io_stop L w)"
    and "tm_active (timer_start L t)" and "\<not> tm_active (timer_stop L t)"
    and "tm_active (timer_set L t a r) = tm_active t"
  using assms by (simp_all add: libev_ok_def)

lemmas Channel_defs =
  Channel_enableReading_def Channel_disableReading_def Channel_enableWriting_def
  Channel_disableWriting_def Channel_disableAll_def Channel_set_def Channel_isWriting_def
  Channel_isReading_def Channel_isNoneEvent_def ev_READ_def ev_WRITE_def ev_NONE_def

lemma Channel_ctor_ok:
  assumes "libev_ok L"
  shows "Channel_live (Channel_ctor L l fd)" "Channel_isNoneEvent (Channel_ctor L l fd)"
    "\<not> Channel_isWriting (Channel_ctor L l fd)" "ch_fd (Channel_ctor L l fd) = fd"
    "ch_loop (Channel_ctor L l fd) = l"
  using assms by (simp_all add: Channel_ctor_def libev_okD Channel_defs)

text \<open>
  The contract of the toggles: on a live watcher the pair (reading, writing) follows the calls, and the
  watcher stays live. \<open>spec_toggle\<close> is the abstract machine.
\<close>

datatype toggle = EnableReading | DisableReading | EnableWriting | DisableWriting | DisableAll

fun spec_toggle :: "toggle \<Rightarrow> bool \<times> bool \<Rightarrow> bool \<times> bool" where
  "spec_toggle EnableReading (r, w) = (True, w)"
| "spec_toggle DisableReading (r, w) = (False, w)"
| "spec_toggle EnableWriting (r, w) = (r, True)"
| "spec_toggle DisableWriting (r, w) = (r, False)"
| "spec_toggle DisableAll (r, w) = (False, False)"

fun Channel_toggle :: "libev \<Rightarrow> toggle \<Rightarrow> Channel \<Rightarrow> Channel" where
  "Channel_toggle L EnableReading = Channel_enableReading L"
| "Channel_toggle L DisableReading = Channel_disableReading L"
| "Channel_toggle L EnableWriting = Channel_enableWriting L"
| "Channel_toggle L DisableWriting = Channel_disableWriting L"
| "Channel_toggle L DisableAll = Channel_disableAll L"

locale interest_set =
  fixes live :: "'c \<Rightarrow> bool"
    and interest :: "'c \<Rightarrow> bool \<times> bool"
    and toggle_op :: "toggle \<Rightarrow> 'c \<Rightarrow> 'c"
  assumes live_toggle: "live c \<Longrightarrow> live (toggle_op t c)"
    and interest_toggle: "live c \<Longrightarrow> interest (toggle_op t c) = spec_toggle t (interest c)"
begin

lemma live_toggles: "live c \<Longrightarrow> live (fold toggle_op ts c)"
  by (induction ts arbitrary: c) (simp_all add: live_toggle)

lemma interest_toggles:
  "live c \<Longrightarrow> interest (fold toggle_op ts c) = fold spec_toggle ts (interest c)"
  by (induction ts arbitrary: c) (simp_all add: live_toggle interest_toggle)

end

definition Channel_interest :: "Channel \<Rightarrow> bool \<times> bool" where
  "Channel_interest c = (Channel_isReading c, Channel_isWriting c)"

lemma Channel_toggle_live:
  "libev_ok L \<Longrightarrow> Channel_live (Channel_toggle L t c) = Channel_live c"
  by (cases t) (simp_all add: Channel_defs libev_okD)

lemma Channel_toggle_interest:
  assumes "libev_ok L" and "Channel_live c"
  shows "Channel_interest (Channel_toggle L t c) = spec_toggle t (Channel_interest c)"
  using assms
  by (cases t) (simp_all add: Channel_interest_def Channel_defs libev_okD mask_and_one mask_and_two
      bit_or_iff bit_and_iff bit_not_iff bit_simps)

lemma Channel_interest_set:
  "libev_ok L \<Longrightarrow> interest_set Channel_live Channel_interest (Channel_toggle L)"
  by unfold_locales (simp_all add: Channel_toggle_live Channel_toggle_interest)

interpretation ch: interest_set Channel_live Channel_interest "Channel_toggle libev_ref"
  by (rule Channel_interest_set[OF libev_ref_ok])

text \<open>The same, per operation, for the handlers that use one of them.\<close>

lemma Channel_writing [simp]:
  assumes "libev_ok L" and "Channel_live c"
  shows "Channel_isWriting (Channel_enableWriting L c)"
    and "\<not> Channel_isWriting (Channel_disableWriting L c)"
    and "\<not> Channel_isWriting (Channel_disableAll L c)"
    and "Channel_isWriting (Channel_enableReading L c) = Channel_isWriting c"
    and "Channel_isReading (Channel_enableWriting L c) = Channel_isReading c"
    and "Channel_isReading (Channel_disableWriting L c) = Channel_isReading c"
    and "\<not> Channel_isReading (Channel_disableAll L c)"
    and "Channel_isReading (Channel_enableReading L c)"
  using Channel_toggle_interest[OF assms, of EnableWriting] Channel_toggle_interest[OF assms, of DisableAll]
    Channel_toggle_interest[OF assms, of DisableWriting] Channel_toggle_interest[OF assms, of EnableReading]
  by (simp_all add: Channel_interest_def)

lemma Channel_live_ops [simp]:
  assumes "libev_ok L"
  shows "Channel_live (Channel_enableWriting L c) = Channel_live c"
    and "Channel_live (Channel_disableWriting L c) = Channel_live c"
    and "Channel_live (Channel_disableAll L c) = Channel_live c"
    and "Channel_live (Channel_enableReading L c) = Channel_live c"
    and "Channel_live (Channel_disableReading L c) = Channel_live c"
  using assms by (simp_all add: Channel_defs libev_okD)

lemma Channel_none_disableAll [simp]:
  "libev_ok L \<Longrightarrow> Channel_live c \<Longrightarrow> Channel_isNoneEvent (Channel_disableAll L c)"
  by (simp add: Channel_defs libev_okD)

lemma Channel_frame [simp]:
  "ch_fd (Channel_set L e c) = ch_fd c" "ch_loop (Channel_set L e c) = ch_loop c"
  "ch_fd (Channel_enableWriting L c) = ch_fd c" "ch_loop (Channel_enableWriting L c) = ch_loop c"
  "ch_fd (Channel_disableWriting L c) = ch_fd c" "ch_loop (Channel_disableWriting L c) = ch_loop c"
  "ch_fd (Channel_disableAll L c) = ch_fd c" "ch_loop (Channel_disableAll L c) = ch_loop c"
  "ch_fd (Channel_enableReading L c) = ch_fd c" "ch_loop (Channel_enableReading L c) = ch_loop c"
  by (simp_all add: Channel_defs)

lemma Channel_remove_ok:
  assumes "libev_ok L" and "Channel_isNoneEvent c"
  shows "\<exists>c'. Channel_remove L True c = Inr c' \<and> \<not> Channel_live c' \<and> Channel_isNoneEvent c'"
  using assms
  by (simp add: Channel_remove_def EventLoop_removeChannel_def Channel_stop_def libev_okD
      Channel_isNoneEvent_def)

section \<open>Dispatch\<close>

text \<open>
  The callbacks of one event run in the order error, read, write, each read from the channel as the
  ones before left it, inside a window in which \<open>eventHandling_\<close> is set.
\<close>

lemma handleEvent_untied:
  "\<not> ch_tied (chan w) \<Longrightarrow>
   Channel_handleEvent chan upd call alive revents w = Channel_handleEventWithGuard chan upd call revents w"
  by (simp add: Channel_handleEvent_def)

lemma handleEvent_dead_owner:
  "ch_tied (chan w) \<Longrightarrow> ch_tie (chan w) = Some obj \<Longrightarrow> \<not> alive obj \<Longrightarrow>
   Channel_handleEvent chan upd call alive revents w = Inr w"
  by (simp add: Channel_handleEvent_def)

lemma call_if_invariant:
  assumes "call_if b slot call w = Inr w'" and "P w"
    and "\<And>cb w w'. P w \<Longrightarrow> call cb w = Inr w' \<Longrightarrow> P w'"
  shows "P w'"
  using assms by (auto simp: call_if_def split: if_splits option.splits)

lemma handleEventWithGuard_invariant:
  assumes ret: "Channel_handleEventWithGuard chan upd call revents w = Inr w'" and P: "P w"
    and upd: "\<And>b w. P w \<Longrightarrow> P (upd (eventHandling_update (\<lambda>_. b)) w)"
    and call: "\<And>cb w w'. P w \<Longrightarrow> call cb w = Inr w' \<Longrightarrow> P w'"
  shows "P w'"
proof -
  obtain w1 w2 w3 where w:
    "call_if (revents AND ev_ERROR \<noteq> 0) (\<lambda>w. errorCallback (chan w)) call
       (upd (eventHandling_update (\<lambda>_. True)) w) = Inr w1"
    "call_if (revents AND ev_READ \<noteq> 0) (\<lambda>w. readCallback (chan w)) call w1 = Inr w2"
    "call_if (revents AND ev_WRITE \<noteq> 0) (\<lambda>w. writeCallback (chan w)) call w2 = Inr w3"
    "w' = upd (eventHandling_update (\<lambda>_. False)) w3"
    using ret by (auto simp: Channel_handleEventWithGuard_def res_simps)
  have P1: "P w1" by (rule call_if_invariant[where P = P, OF w(1) upd[OF P]]) (rule call)
  have P2: "P w2" by (rule call_if_invariant[where P = P, OF w(2) P1]) (rule call)
  have P3: "P w3" by (rule call_if_invariant[where P = P, OF w(3) P2]) (rule call)
  show ?thesis using w(4) upd[OF P3] by simp
qed

section \<open>What the class promises\<close>

text \<open>
  The interest set follows the calls. After any sequence of enabling and disabling calls on a new
  channel, the watcher is live and watches for reading (writing) exactly when the last call about
  reading (writing) enabled it.
\<close>

theorem Channel_interest_follows:
  assumes "libev_ok L"
  shows "Channel_live (fold (Channel_toggle L) ts (Channel_ctor L l fd)) \<and>
    Channel_interest (fold (Channel_toggle L) ts (Channel_ctor L l fd)) = fold spec_toggle ts (False, False)"
proof -
  note follows = interest_set.live_toggles[OF Channel_interest_set[OF assms]]
    interest_set.interest_toggles[OF Channel_interest_set[OF assms]]
  have "Channel_interest (Channel_ctor L l fd) = (False, False)"
    using Channel_ctor_ok(2,3)[OF assms] by (simp add: Channel_interest_def Channel_defs)
  then show ?thesis
    using follows Channel_ctor_ok(1)[OF assms] by metis
qed

lemma Channel_interest_follows_witness:
  "Channel_live (fold (Channel_toggle libev_ref) [EnableReading, EnableWriting, DisableWriting] (Channel_ctor libev_ref 0 9)) \<and>
   Channel_interest (fold (Channel_toggle libev_ref) [EnableReading, EnableWriting, DisableWriting]
     (Channel_ctor libev_ref 0 9)) = fold spec_toggle [EnableReading, EnableWriting, DisableWriting] (False, False)"
  by (rule Channel_interest_follows[OF libev_ref_ok])

end
