(* ===== verification/Timer_Queue.thy ===== *)
theory Timer_Queue
  imports Io_Channel "HOL-Library.Product_Lexorder"
begin

text \<open>
  \<open>AtomicIntegerT\<close> (base/Atomic.h), \<open>Timer\<close>, \<open>TimerId\<close> (net/Timer.h, net/Timer.cc, net/TimerId.h) and
  \<open>TimerQueue\<close> (net/TimerQueue.h, net/TimerQueue.cc): the set of started timers a loop owns, with
  cancellation and the deferred deletion of the expired ones. Timers live on a heap from addresses to
  objects; a dereference of a freed address is \<open>NullPointer\<close>.
\<close>

section \<open>Atomic counters\<close>

text \<open>\<open>value_\<close> is the state; each operation returns what the code returns and the new value.\<close>

definition Atomic_get :: "'a::len word \<Rightarrow> 'a word" where
  "Atomic_get v = v"

definition Atomic_getAndAdd :: "'a::len word \<Rightarrow> 'a word \<Rightarrow> 'a word \<times> 'a word" where
  "Atomic_getAndAdd x v = (v, v + x)"

definition Atomic_addAndGet :: "'a::len word \<Rightarrow> 'a word \<Rightarrow> 'a word \<times> 'a word" where
  "Atomic_addAndGet x v = (let (old, v') = Atomic_getAndAdd x v in (old + x, v'))"

definition Atomic_incrementAndGet :: "'a::len word \<Rightarrow> 'a word \<times> 'a word" where
  "Atomic_incrementAndGet v = Atomic_addAndGet 1 v"

definition Atomic_add :: "'a::len word \<Rightarrow> 'a word \<Rightarrow> 'a word" where
  "Atomic_add x v = snd (Atomic_getAndAdd x v)"

definition Atomic_increment :: "'a::len word \<Rightarrow> 'a word" where
  "Atomic_increment v = snd (Atomic_incrementAndGet v)"

definition Atomic_decrement :: "'a::len word \<Rightarrow> 'a word" where
  "Atomic_decrement v = snd (Atomic_getAndAdd (-1) v)"

definition Atomic_getAndSet :: "'a::len word \<Rightarrow> 'a word \<Rightarrow> 'a word \<times> 'a word" where
  "Atomic_getAndSet x v = (v, x)"

lemma Atomic_addAndGet_eq: "Atomic_addAndGet x v = (v + x, v + x)"
  by (simp add: Atomic_addAndGet_def Atomic_getAndAdd_def)

lemma Atomic_incrementAndGet_eq: "Atomic_incrementAndGet v = (v + 1, v + 1)"
  by (simp add: Atomic_incrementAndGet_def Atomic_addAndGet_eq)

section \<open>Timers\<close>

record Timer =
  timeWatcher :: ev_timer
  timer_sequence :: int64_t
  callBack :: Functor

definition new_ev_timer :: ev_timer where
  "new_ev_timer = \<lparr>tm_after = 0, tm_repeat = 0, tm_active = False\<rparr>"

text \<open>The constructor draws the sequence number from the static counter \<open>s_numCreated_\<close>.\<close>

definition Timer_ctor ::
  "libev \<Rightarrow> Functor \<Rightarrow> real \<Rightarrow> real \<Rightarrow> int64_t \<Rightarrow> Timer \<times> int64_t" where
  "Timer_ctor L cb after interval s_numCreated =
     (let (seq, n) = Atomic_incrementAndGet s_numCreated in
      (\<lparr>timeWatcher = timer_set L new_ev_timer after interval, timer_sequence = seq, callBack = cb\<rparr>, n))"

definition Timer_start :: "libev \<Rightarrow> Timer \<Rightarrow> Timer" where
  "Timer_start L t = t\<lparr>timeWatcher := timer_start L (timeWatcher t)\<rparr>"

definition Timer_stop :: "libev \<Rightarrow> Timer \<Rightarrow> Timer" where
  "Timer_stop L t = t\<lparr>timeWatcher := timer_stop L (timeWatcher t)\<rparr>"

definition Timer_isActive :: "Timer \<Rightarrow> bool" where
  "Timer_isActive t = tm_active (timeWatcher t)"

definition Timer_run :: "(Functor \<Rightarrow> 'w \<Rightarrow> 'w res) \<Rightarrow> Timer \<Rightarrow> 'w \<Rightarrow> 'w res" where
  "Timer_run exec t w = exec (callBack t) w"

type_synonym timer_heap = "timer_ptr \<Rightarrow> Timer option"

text \<open>\<open>TimerId\<close>: the address and the sequence number; the default one is \<open>(NULL, 0)\<close>.\<close>

type_synonym TimerId = "timer_ptr \<times> int"

definition TimerId_default :: TimerId where
  "TimerId_default = (0, 0)"

definition deref :: "timer_heap \<Rightarrow> timer_ptr \<Rightarrow> Timer res" where
  "deref h p = (case h p of None \<Rightarrow> Inl NullPointer | Some t \<Rightarrow> Inr t)"

section \<open>The timer queue\<close>

text \<open>
  \<open>validTimers_\<close> is a \<open>std::set\<close> of pairs: the list of its elements in iteration order, which is the
  lexicographic order of the pairs.
\<close>

record TimerQueue =
  tq_loop :: loop_id
  validTimers :: "(timer_ptr \<times> int) list"

definition TimerQueue_ctor :: "loop_id \<Rightarrow> TimerQueue" where
  "TimerQueue_ctor l = \<lparr>tq_loop = l, validTimers = []\<rparr>"

definition std_set_insert :: "'a::linorder \<Rightarrow> 'a list \<Rightarrow> 'a list" where
  "std_set_insert x xs = (if x \<in> set xs then xs else insort x xs)"

definition TimerQueue_addTimerInLoop ::
  "libev \<Rightarrow> bool \<Rightarrow> timer_ptr \<Rightarrow> TimerQueue \<times> timer_heap \<Rightarrow> (TimerQueue \<times> timer_heap) res" where
  "TimerQueue_addTimerInLoop L inLoopThread p s =
     (let (q, h) = s in
      ensure inLoopThread Fatal
        (bindR (deref h p) (\<lambda>t.
         Inr (q\<lparr>validTimers := std_set_insert (p, sint (timer_sequence t)) (validTimers q)\<rparr>,
              h(p \<mapsto> Timer_start L t)))))"

definition TimerQueue_cancelInLoop ::
  "libev \<Rightarrow> bool \<Rightarrow> TimerId \<Rightarrow> TimerQueue \<times> timer_heap \<Rightarrow> (TimerQueue \<times> timer_heap) res" where
  "TimerQueue_cancelInLoop L inLoopThread timerId s =
     (let (q, h) = s in
      ensure inLoopThread Fatal
        (if timerId \<in> set (validTimers q)
         then bindR (deref h (fst timerId)) (\<lambda>t. Inr (q, h(fst timerId \<mapsto> Timer_stop L t)))
         else Inr (q, h)))"

text \<open>The loop of \<open>clearExpiredTimer\<close>, which deletes and erases at the iterator.\<close>

fun clear_expired ::
  "(timer_ptr \<times> int) list \<Rightarrow> timer_heap \<Rightarrow> ((timer_ptr \<times> int) list \<times> timer_heap) res" where
  "clear_expired [] h = Inr ([], h)"
| "clear_expired (v # vs) h =
     bindR (deref h (fst v)) (\<lambda>t.
       if Timer_isActive t
       then bindR (clear_expired vs h) (\<lambda>(vs', h'). Inr (v # vs', h'))
       else clear_expired vs (h(fst v := None)))"

definition TimerQueue_clearExpiredTimer ::
  "TimerQueue \<times> timer_heap \<Rightarrow> (TimerQueue \<times> timer_heap) res" where
  "TimerQueue_clearExpiredTimer s =
     (let (q, h) = s in
      bindR (clear_expired (validTimers q) h) (\<lambda>(vs, h'). Inr (q\<lparr>validTimers := vs\<rparr>, h')))"

definition TimerQueue_delete :: "timer_ptr \<times> int \<Rightarrow> timer_heap \<Rightarrow> timer_heap res" where
  "TimerQueue_delete v h = bindR (deref h (fst v)) (\<lambda>_. Inr (h(fst v := None)))"

definition TimerQueue_dtor :: "TimerQueue \<times> timer_heap \<Rightarrow> timer_heap res" where
  "TimerQueue_dtor s =
     (let (q, h) = s in
      foldR TimerQueue_delete (validTimers q) h)"

section \<open>Invariant\<close>

text \<open>
  Every entry names an allocated timer with the entry's sequence number, and no address occurs twice;
  the entries are in the order of the set.
\<close>

definition TimerQueue_inv :: "TimerQueue \<Rightarrow> timer_heap \<Rightarrow> bool" where
  "TimerQueue_inv q h \<longleftrightarrow>
     sorted (validTimers q) \<and> distinct (map fst (validTimers q)) \<and>
     (\<forall>p s. (p, s) \<in> set (validTimers q) \<longrightarrow> (\<exists>t. h p = Some t \<and> sint (timer_sequence t) = s))"

lemma TimerQueue_inv_ctor: "TimerQueue_inv (TimerQueue_ctor l) h"
  by (simp add: TimerQueue_inv_def TimerQueue_ctor_def)

lemma set_std_set_insert [simp]: "set (std_set_insert x xs) = insert x (set xs)"
  by (auto simp: std_set_insert_def set_insort_key)

lemma sorted_std_set_insert [simp]: "sorted xs \<Longrightarrow> sorted (std_set_insert x xs)"
  by (auto simp: std_set_insert_def sorted_insort)

lemma distinct_fst_insort:
  "fst x \<notin> fst ` set xs \<Longrightarrow> distinct (map fst xs) \<Longrightarrow> distinct (map fst (insort x xs))"
  by (induction xs) (auto simp: set_insort_key)

lemma addTimerInLoop_ok:
  assumes "TimerQueue_inv q h" and "h p = Some t"
    and "p \<in> fst ` set (validTimers q) \<Longrightarrow> (p, sint (timer_sequence t)) \<in> set (validTimers q)"
  shows "\<exists>q' h'. TimerQueue_addTimerInLoop L True p (q, h) = Inr (q', h') \<and> TimerQueue_inv q' h' \<and>
    set (validTimers q') = insert (p, sint (timer_sequence t)) (set (validTimers q)) \<and>
    h' = h(p \<mapsto> Timer_start L t)"
proof -
  let ?x = "(p, sint (timer_sequence t))"
  have uq: "\<And>s. (p, s) \<in> set (validTimers q) \<Longrightarrow> sint (timer_sequence t) = s"
    using assms(1,2) by (metis TimerQueue_inv_def option.inject)
  have d: "distinct (map fst (std_set_insert ?x (validTimers q)))"
  proof (cases "?x \<in> set (validTimers q)")
    case True
    then show ?thesis using assms(1) by (simp add: std_set_insert_def TimerQueue_inv_def)
  next
    case False
    then have "fst ?x \<notin> fst ` set (validTimers q)" using assms(3) by auto
    then show ?thesis
      using assms(1) False by (simp add: std_set_insert_def TimerQueue_inv_def distinct_fst_insort)
  qed
  show ?thesis
    using assms(1,2) d uq by (auto simp: TimerQueue_addTimerInLoop_def deref_def TimerQueue_inv_def
        Timer_start_def)
qed

text \<open>
  \<open>cancel\<close> stops the timer its id was made for and no other; an id whose timer is gone, or whose
  address now belongs to another timer, does nothing.
\<close>

lemma cancelInLoop_valid:
  assumes inv: "TimerQueue_inv q h" and v: "(p, s) \<in> set (validTimers q)"
  shows "\<exists>t. h p = Some t \<and>
    TimerQueue_cancelInLoop L True (p, s) (q, h) = Inr (q, h(p \<mapsto> Timer_stop L t)) \<and>
    TimerQueue_inv q (h(p \<mapsto> Timer_stop L t))"
proof -
  obtain t where t: "h p = Some t" "sint (timer_sequence t) = s"
    using inv v by (fastforce simp: TimerQueue_inv_def)
  then show ?thesis
    using inv v by (auto simp: TimerQueue_cancelInLoop_def deref_def TimerQueue_inv_def Timer_stop_def
        dest: eq_key_imp_eq_value)
qed

lemma cancelInLoop_stale:
  "timerId \<notin> set (validTimers q) \<Longrightarrow> TimerQueue_cancelInLoop L True timerId (q, h) = Inr (q, h)"
  by (simp add: TimerQueue_cancelInLoop_def)

lemma TimerQueue_inv_unique:
  "TimerQueue_inv q h \<Longrightarrow> (p, s) \<in> set (validTimers q) \<Longrightarrow> (p, s') \<in> set (validTimers q) \<Longrightarrow> s = s'"
  by (auto simp: TimerQueue_inv_def dest: eq_key_imp_eq_value)

section \<open>Deferred deletion\<close>

definition active_in :: "timer_heap \<Rightarrow> timer_ptr \<times> int \<Rightarrow> bool" where
  "active_in h v = (case h (fst v) of None \<Rightarrow> False | Some t \<Rightarrow> Timer_isActive t)"

lemma clear_expired_spec:
  assumes "distinct (map fst vs)" and "\<forall>v \<in> set vs. h (fst v) \<noteq> None"
  shows "\<exists>h'. clear_expired vs h = Inr (filter (active_in h) vs, h') \<and>
    (\<forall>p. h' p = (if p \<in> fst ` set (filter (\<lambda>v. \<not> active_in h v) vs) then None else h p))"
  using assms
proof (induction vs arbitrary: h)
  case Nil
  then show ?case by simp
next
  case (Cons v vs)
  obtain t where t: "h (fst v) = Some t"
    using Cons.prems(2) by auto
  have fresh: "fst v \<notin> fst ` set vs" and d: "distinct (map fst vs)"
    using Cons.prems(1) by auto
  show ?case
  proof (cases "Timer_isActive t")
    case True
    have act: "active_in h v"
      using True t by (simp add: active_in_def)
    have "\<forall>v \<in> set vs. h (fst v) \<noteq> None"
      using Cons.prems(2) by simp
    from Cons.IH[OF d this] obtain h' where
      "clear_expired vs h = Inr (filter (active_in h) vs, h')"
      "\<forall>p. h' p = (if p \<in> fst ` set (filter (\<lambda>v. \<not> active_in h v) vs) then None else h p)"
      by blast
    then show ?thesis
      using True t act by (simp add: deref_def)
  next
    case False
    let ?h = "h(fst v := None)"
    have same: "\<And>u. u \<in> set vs \<Longrightarrow> active_in ?h u = active_in h u"
      using fresh by (auto simp: active_in_def image_iff)
    have alloc: "\<forall>u \<in> set vs. ?h (fst u) \<noteq> None"
      using fresh Cons.prems(2) by (auto simp: image_iff)
    have f: "filter (active_in ?h) vs = filter (active_in h) vs"
      "filter (\<lambda>v. \<not> active_in ?h v) vs = filter (\<lambda>v. \<not> active_in h v) vs"
      using same by (auto intro: filter_cong)
    have na: "\<not> active_in h v"
      using False t by (simp add: active_in_def)
    from Cons.IH[OF d alloc, unfolded f] obtain h' where h':
      "clear_expired vs ?h = Inr (filter (active_in h) vs, h')"
      "\<forall>p. h' p = (if p \<in> fst ` set (filter (\<lambda>v. \<not> active_in h v) vs) then None else ?h p)"
      by blast
    show ?thesis
      using h' t False na by (auto simp: deref_def)
  qed
qed

lemma clearExpiredTimer_ok:
  assumes inv: "TimerQueue_inv q h"
  shows "\<exists>h'. TimerQueue_clearExpiredTimer (q, h) =
      Inr (q\<lparr>validTimers := filter (active_in h) (validTimers q)\<rparr>, h') \<and>
    TimerQueue_inv (q\<lparr>validTimers := filter (active_in h) (validTimers q)\<rparr>) h' \<and>
    (\<forall>p. h' p = (if p \<in> fst ` set (filter (\<lambda>v. \<not> active_in h v) (validTimers q)) then None else h p))"
proof -
  have d: "distinct (map fst (validTimers q))" and
    alloc: "\<forall>v \<in> set (validTimers q). h (fst v) \<noteq> None"
    using inv by (fastforce simp: TimerQueue_inv_def)+
  from clear_expired_spec[OF d alloc] obtain h' where h':
    "clear_expired (validTimers q) h = Inr (filter (active_in h) (validTimers q), h')"
    "\<forall>p. h' p = (if p \<in> fst ` set (filter (\<lambda>v. \<not> active_in h v) (validTimers q)) then None else h p)"
    by blast
  have kept: "h' p = h p" if "(p, s) \<in> set (validTimers q)" "active_in h (p, s)" for p s
  proof -
    have "(p, s') = (p, s)" if "(p, s') \<in> set (validTimers q)" for s'
      using TimerQueue_inv_unique[OF inv that \<open>(p, s) \<in> set (validTimers q)\<close>] by simp
    then have "p \<notin> fst ` set (filter (\<lambda>v. \<not> active_in h v) (validTimers q))"
      using that(2) by force
    then show ?thesis using h'(2) by simp
  qed
  have "TimerQueue_inv (q\<lparr>validTimers := filter (active_in h) (validTimers q)\<rparr>) h'"
    using inv kept by (auto simp: TimerQueue_inv_def sorted_wrt_filter distinct_map_filter)
  then show ?thesis
    using h' by (simp add: TimerQueue_clearExpiredTimer_def)
qed

text \<open>The destructor frees exactly the timers of the set, each once.\<close>

lemma delete_all:
  assumes "distinct (map fst vs)" and "\<forall>v \<in> set vs. h (fst v) \<noteq> None"
  shows "foldR TimerQueue_delete vs h =
    Inr (\<lambda>p. if p \<in> fst ` set vs then None else h p)"
  using assms
proof (induction vs arbitrary: h)
  case Nil
  then show ?case by simp
next
  case (Cons v vs)
  obtain t where t: "h (fst v) = Some t"
    using Cons.prems(2) by auto
  have fresh: "fst v \<notin> fst ` set vs"
    using Cons.prems(1) by auto
  have IH: "foldR TimerQueue_delete vs (h(fst v := None)) =
    Inr (\<lambda>p. if p \<in> fst ` set vs then None else (h(fst v := None)) p)"
  proof (rule Cons.IH)
    show "distinct (map fst vs)" using Cons.prems(1) by simp
    show "\<forall>u \<in> set vs. (h(fst v := None)) (fst u) \<noteq> None"
      using Cons.prems(2) fresh by (auto simp: image_iff)
  qed
  have "(\<lambda>p. if p \<in> fst ` set vs then None else (h(fst v := None)) p) =
    (\<lambda>p. if p \<in> fst ` set (v # vs) then None else h p)"
    by auto
  moreover have "TimerQueue_delete v h = Inr (h(fst v := None))"
    using t by (simp add: TimerQueue_delete_def deref_def)
  ultimately show ?case using IH by simp
qed

lemma TimerQueue_dtor_ok:
  assumes "TimerQueue_inv q h"
  shows "TimerQueue_dtor (q, h) = Inr (\<lambda>p. if p \<in> fst ` set (validTimers q) then None else h p)"
proof -
  have "distinct (map fst (validTimers q))" and "\<forall>v \<in> set (validTimers q). h (fst v) \<noteq> None"
    using assms by (fastforce simp: TimerQueue_inv_def)+
  from delete_all[OF this] show ?thesis by (simp add: TimerQueue_dtor_def)
qed

end
