(* ===== verification/Event_Loop.thy ===== *)
theory Event_Loop
  imports Timer_Queue
begin

text \<open>
  \<open>simplev::net::EventLoop\<close> (net/EventLoop.h, net/EventLoop.cc) and the part of \<open>TimerQueue\<close> that goes
  through it (\<open>addTimer\<close>, \<open>cancel\<close>): the loop's own state, the queue of pending functors, the eventfd
  that wakes the loop, and the callback libev runs before each poll.

  An operation that may run a functor at once works on a state \<open>'w\<close> that holds the loop: \<open>get\<close> reads
  the loop there and \<open>upd\<close> rewrites it. The thread that makes a call is an argument \<open>tid\<close>.
\<close>

section \<open>State\<close>

text \<open>
  \<open>wakeupCount\<close> is the kernel's counter of the eventfd \<open>wakeupFd_\<close>; \<open>loopBroken\<close> says that
  \<open>evLoop_.break_loop()\<close> was called; \<open>timerHeap\<close> holds the timers created for the loop.
\<close>

record EventLoop =
  loopId :: loop_id
  looping :: bool
  quitFlag :: bool
  prepareStarted :: bool
  loopBroken :: bool
  callingPendingFunctors :: bool
  threadId :: thread_id
  timerQueue :: TimerQueue
  timerHeap :: timer_heap
  wakeupCount :: nat
  wakeupChannel :: Channel
  pendingFunctors :: "Functor list"

text \<open>
  The constructor registers the loop as the one of the calling thread; a second loop in a thread is
  fatal. \<open>efd\<close> is the descriptor \<open>eventfd(2)\<close> returned, negative when it failed.
\<close>

definition createEventfd :: "int \<Rightarrow> int res" where
  "createEventfd efd = ensure (efd \<ge> 0) Fatal (Inr efd)"

definition EventLoop_ctor ::
  "libev \<Rightarrow> thread_id \<Rightarrow> loop_id \<Rightarrow> int \<Rightarrow> (thread_id \<Rightarrow> loop_id option) \<Rightarrow>
   (EventLoop \<times> (thread_id \<Rightarrow> loop_id option)) res" where
  "EventLoop_ctor L tid l efd t_loopInThisThread =
     bindR (createEventfd efd) (\<lambda>wakeupFd.
     ensure (t_loopInThisThread tid = None) Fatal
       (Inr (\<lparr>loopId = l, looping = False, quitFlag = False, prepareStarted = False,
              loopBroken = False, callingPendingFunctors = False, threadId = tid,
              timerQueue = TimerQueue_ctor l, timerHeap = (\<lambda>_. None), wakeupCount = 0,
              wakeupChannel = Channel_enableReading L
                (Channel_setReadCallback (Cb_EventLoop_handleRead l) (Channel_ctor L l wakeupFd)),
              pendingFunctors = []\<rparr>,
             t_loopInThisThread(tid \<mapsto> l))))"

text \<open>
  The destructor's body is empty; the members go in reverse order, the wake-up channel before the timer
  queue. Nothing in it touches \<open>t_loopInThisThread\<close>, nor closes \<open>wakeupFd_\<close>.
\<close>

definition EventLoop_dtor ::
  "EventLoop \<times> (thread_id \<Rightarrow> loop_id option) \<Rightarrow> (timer_heap \<times> (thread_id \<Rightarrow> loop_id option)) res" where
  "EventLoop_dtor s =
     (let (l, t_loopInThisThread) = s
      in bindR (Channel_dtor (wakeupChannel l)) (\<lambda>_.
         bindR (TimerQueue_dtor (timerQueue l, timerHeap l)) (\<lambda>h.
         Inr (h, t_loopInThisThread))))"

definition EventLoop_isInLoopThread :: "thread_id \<Rightarrow> EventLoop \<Rightarrow> bool" where
  "EventLoop_isInLoopThread tid l \<longleftrightarrow> threadId l = tid"

definition EventLoop_assertInLoopThread :: "thread_id \<Rightarrow> EventLoop \<Rightarrow> 'a res \<Rightarrow> 'a res" where
  "EventLoop_assertInLoopThread tid l r = ensure (EventLoop_isInLoopThread tid l) Fatal r"

section \<open>Waking the loop\<close>

text \<open>
  \<open>write(2)\<close> of 1 adds to the eventfd's counter unless that would exceed \<open>2^64 - 2\<close>; then the call
  fails and \<open>wakeup\<close> only logs. \<open>read(2)\<close> resets the counter.
\<close>

definition eventfd_max :: nat where "eventfd_max = 18446744073709551614"

definition EventLoop_wakeup :: "EventLoop \<Rightarrow> EventLoop" where
  "EventLoop_wakeup l =
     (if wakeupCount l + 1 \<le> eventfd_max then l\<lparr>wakeupCount := wakeupCount l + 1\<rparr> else l)"

definition EventLoop_handleRead :: "EventLoop \<Rightarrow> EventLoop" where
  "EventLoop_handleRead l = l\<lparr>wakeupCount := 0\<rparr>"

definition EventLoop_quit :: "thread_id \<Rightarrow> EventLoop \<Rightarrow> EventLoop" where
  "EventLoop_quit tid l =
     (let l' = l\<lparr>quitFlag := True\<rparr>
      in if \<not> EventLoop_isInLoopThread tid l' then EventLoop_wakeup l' else l')"

section \<open>Queued functors\<close>

text \<open>The critical section of \<open>queueInLoop\<close>, and the test made after the lock is released.\<close>

definition EventLoop_pushPending :: "Functor \<Rightarrow> EventLoop \<Rightarrow> EventLoop" where
  "EventLoop_pushPending cb l = l\<lparr>pendingFunctors := pendingFunctors l @ [cb]\<rparr>"

definition EventLoop_needsWakeup :: "thread_id \<Rightarrow> EventLoop \<Rightarrow> bool" where
  "EventLoop_needsWakeup tid l \<longleftrightarrow> \<not> EventLoop_isInLoopThread tid l \<or> callingPendingFunctors l"

definition EventLoop_queueInLoop :: "thread_id \<Rightarrow> Functor \<Rightarrow> EventLoop \<Rightarrow> EventLoop" where
  "EventLoop_queueInLoop tid cb l =
     (let l' = EventLoop_pushPending cb l
      in if EventLoop_needsWakeup tid l' then EventLoop_wakeup l' else l')"

text \<open>\<open>run\<close> is the effect of calling \<open>cb\<close>.\<close>

definition EventLoop_runInLoop ::
  "('w \<Rightarrow> EventLoop) \<Rightarrow> ((EventLoop \<Rightarrow> EventLoop) \<Rightarrow> 'w \<Rightarrow> 'w) \<Rightarrow> thread_id \<Rightarrow> Functor \<Rightarrow>
   ('w \<Rightarrow> 'w res) \<Rightarrow> 'w \<Rightarrow> 'w res" where
  "EventLoop_runInLoop get upd tid cb run w =
     (if EventLoop_isInLoopThread tid (get w) then run w
      else Inr (upd (EventLoop_queueInLoop tid cb) w))"

text \<open>The swap of \<open>doPendingFunctors\<close>, under the lock.\<close>

definition EventLoop_takePending :: "EventLoop \<Rightarrow> Functor list \<times> EventLoop" where
  "EventLoop_takePending l = (pendingFunctors l, l\<lparr>pendingFunctors := []\<rparr>)"

definition EventLoop_doPendingFunctors ::
  "('w \<Rightarrow> EventLoop) \<Rightarrow> ((EventLoop \<Rightarrow> EventLoop) \<Rightarrow> 'w \<Rightarrow> 'w) \<Rightarrow> (Functor \<Rightarrow> 'w \<Rightarrow> 'w res) \<Rightarrow>
   'w \<Rightarrow> 'w res" where
  "EventLoop_doPendingFunctors get upd exec w =
     (let w1 = upd (\<lambda>l. l\<lparr>callingPendingFunctors := True\<rparr>) w;
          functors = fst (EventLoop_takePending (get w1));
          w2 = upd (\<lambda>l. snd (EventLoop_takePending l)) w1
      in bindR (foldR exec functors w2) (\<lambda>w3.
         Inr (upd (\<lambda>l. l\<lparr>callingPendingFunctors := False\<rparr>) w3)))"

definition EventLoop_clearExpiredTimer :: "EventLoop \<Rightarrow> EventLoop res" where
  "EventLoop_clearExpiredTimer l =
     bindR (TimerQueue_clearExpiredTimer (timerQueue l, timerHeap l)) (\<lambda>(q, h).
     Inr (l\<lparr>timerQueue := q, timerHeap := h\<rparr>))"

definition EventLoop_prepareCallBack ::
  "('w \<Rightarrow> EventLoop) \<Rightarrow> ((EventLoop \<Rightarrow> EventLoop) \<Rightarrow> 'w \<Rightarrow> 'w) \<Rightarrow> (Functor \<Rightarrow> 'w \<Rightarrow> 'w res) \<Rightarrow>
   'w \<Rightarrow> 'w res" where
  "EventLoop_prepareCallBack get upd exec w =
     bindR (EventLoop_clearExpiredTimer (get w)) (\<lambda>l.
     bindR (EventLoop_doPendingFunctors get upd exec (upd (\<lambda>_. l) w)) (\<lambda>w'.
     Inr (if quitFlag (get w') then upd (\<lambda>l. l\<lparr>loopBroken := True\<rparr>) w' else w')))"

text \<open>\<open>loop\<close>; \<open>evRun\<close> is \<open>evLoop_.run()\<close>.\<close>

definition EventLoop_loop ::
  "('w \<Rightarrow> EventLoop) \<Rightarrow> ((EventLoop \<Rightarrow> EventLoop) \<Rightarrow> 'w \<Rightarrow> 'w) \<Rightarrow> thread_id \<Rightarrow> ('w \<Rightarrow> 'w res) \<Rightarrow>
   'w \<Rightarrow> 'w res" where
  "EventLoop_loop get upd tid evRun w =
     ensure (\<not> looping (get w)) AssertFailed
       (EventLoop_assertInLoopThread tid (get w)
         (bindR (evRun (upd (\<lambda>l. l\<lparr>looping := True, prepareStarted := True\<rparr>) w)) (\<lambda>w'.
          Inr (upd (\<lambda>l. l\<lparr>looping := False\<rparr>) w'))))"

section \<open>Timers through the loop\<close>

definition EventLoop_addTimerInLoop ::
  "libev \<Rightarrow> thread_id \<Rightarrow> timer_ptr \<Rightarrow> EventLoop \<Rightarrow> EventLoop res" where
  "EventLoop_addTimerInLoop L tid p l =
     bindR (TimerQueue_addTimerInLoop L (EventLoop_isInLoopThread tid l) p (timerQueue l, timerHeap l))
       (\<lambda>(q, h). Inr (l\<lparr>timerQueue := q, timerHeap := h\<rparr>))"

definition EventLoop_cancelInLoop ::
  "libev \<Rightarrow> thread_id \<Rightarrow> TimerId \<Rightarrow> EventLoop \<Rightarrow> EventLoop res" where
  "EventLoop_cancelInLoop L tid timerId l =
     bindR (TimerQueue_cancelInLoop L (EventLoop_isInLoopThread tid l) timerId (timerQueue l, timerHeap l))
       (\<lambda>(q, h). Inr (l\<lparr>timerQueue := q, timerHeap := h\<rparr>))"

text \<open>
  \<open>TimerQueue::addTimer\<close>: \<open>p\<close> is the address \<open>new\<close> returned, which the allocator guarantees to be free,
  and \<open>n\<close> the static counter of timers. The sequence number is read through the pointer after
  \<open>runInLoop\<close> returned.
\<close>

definition TimerQueue_addTimer ::
  "libev \<Rightarrow> thread_id \<Rightarrow> timer_ptr \<Rightarrow> Functor \<Rightarrow> real \<Rightarrow> real \<Rightarrow> int64_t \<times> EventLoop \<Rightarrow>
   (TimerId \<times> int64_t \<times> EventLoop) res" where
  "TimerQueue_addTimer L tid p cb after interval s =
     (let (n, l) = s;
          (timer, n') = Timer_ctor L cb after interval n;
          l1 = l\<lparr>timerHeap := (timerHeap l)(p \<mapsto> timer)\<rparr>
      in bindR (EventLoop_runInLoop (\<lambda>l. l) (\<lambda>f. f) tid (F_addTimerInLoop p)
                  (EventLoop_addTimerInLoop L tid p) l1) (\<lambda>l2.
         bindR (deref (timerHeap l2) p) (\<lambda>t.
         Inr ((p, sint (timer_sequence t)), n', l2))))"

definition TimerQueue_cancel ::
  "libev \<Rightarrow> thread_id \<Rightarrow> TimerId \<Rightarrow> EventLoop \<Rightarrow> EventLoop res" where
  "TimerQueue_cancel L tid timerId l =
     EventLoop_runInLoop (\<lambda>l. l) (\<lambda>f. f) tid (F_cancelInLoop timerId)
       (EventLoop_cancelInLoop L tid timerId) l"

definition EventLoop_runAfter ::
  "libev \<Rightarrow> thread_id \<Rightarrow> timer_ptr \<Rightarrow> real \<Rightarrow> Functor \<Rightarrow> int64_t \<times> EventLoop \<Rightarrow>
   (TimerId \<times> int64_t \<times> EventLoop) res" where
  "EventLoop_runAfter L tid p delay cb s = TimerQueue_addTimer L tid p cb delay 0 s"

definition EventLoop_runEvery ::
  "libev \<Rightarrow> thread_id \<Rightarrow> timer_ptr \<Rightarrow> real \<Rightarrow> Functor \<Rightarrow> int64_t \<times> EventLoop \<Rightarrow>
   (TimerId \<times> int64_t \<times> EventLoop) res" where
  "EventLoop_runEvery L tid p interval cb s = TimerQueue_addTimer L tid p cb 0 interval s"

definition EventLoop_cancel ::
  "libev \<Rightarrow> thread_id \<Rightarrow> TimerId \<Rightarrow> EventLoop \<Rightarrow> EventLoop res" where
  "EventLoop_cancel L tid timerId l = TimerQueue_cancel L tid timerId l"

section \<open>The queue of functors as an interface\<close>

text \<open>
  What the classes that post functors rely on: a functor that is posted waits behind those posted
  before it, and a drain takes all of them, in order.
\<close>

locale task_queue =
  fixes waiting :: "'l \<Rightarrow> Functor list"
    and post :: "thread_id \<Rightarrow> Functor \<Rightarrow> 'l \<Rightarrow> 'l"
    and drain :: "'l \<Rightarrow> Functor list \<times> 'l"
  assumes waiting_post: "waiting (post t f l) = waiting l @ [f]"
    and fst_drain: "fst (drain l) = waiting l"
    and waiting_drain: "waiting (snd (drain l)) = []"
begin

lemma waiting_posts: "waiting (fold (\<lambda>(t, f). post t f) fs l) = waiting l @ map snd fs"
  by (induction fs arbitrary: l) (auto simp: waiting_post)

end

text \<open>A schedule of posts (by any threads) and drains, and the functors the drains took, in order.\<close>

fun task_run :: "(thread_id \<Rightarrow> Functor \<Rightarrow> 'l \<Rightarrow> 'l) \<Rightarrow> ('l \<Rightarrow> Functor list \<times> 'l) \<Rightarrow>
    (thread_id \<times> Functor) option list \<Rightarrow> 'l \<Rightarrow> Functor list \<times> 'l" where
  "task_run post drain [] l = ([], l)"
| "task_run post drain (Some (t, f) # es) l = task_run post drain es (post t f l)"
| "task_run post drain (None # es) l =
     (let (fs, l1) = drain l; (gs, l2) = task_run post drain es l1 in (fs @ gs, l2))"

definition task_posts :: "(thread_id \<times> Functor) option list \<Rightarrow> Functor list" where
  "task_posts es = concat (map (\<lambda>e. case e of None \<Rightarrow> [] | Some (t, f) \<Rightarrow> [f]) es)"

context task_queue begin

lemma task_run_conserves:
  "task_run post drain es l = (taken, l') \<Longrightarrow> taken @ waiting l' = waiting l @ task_posts es"
proof (induction es arbitrary: l taken)
  case Nil
  then show ?case by (simp add: task_posts_def)
next
  case (Cons e es)
  show ?case
  proof (cases e)
    case None
    obtain gs l2 where e: "task_run post drain es (snd (drain l)) = (gs, l2)" by fastforce
    have gs: "task_run post drain es (snd (drain l)) = (gs, l')" "taken = waiting l @ gs"
      using Cons.prems None fst_drain[of l] e by (auto simp: case_prod_beta)
    have "gs @ waiting l' = task_posts es"
      using Cons.IH[OF gs(1)] by (simp add: waiting_drain)
    then show ?thesis using gs(2) None by (simp add: task_posts_def)
  next
    case (Some tf)
    obtain t f where tf: "tf = (t, f)" by fastforce
    have "taken @ waiting l' = waiting (post t f l) @ task_posts es"
      using Cons.prems Some tf by (intro Cons.IH) simp
    then show ?thesis using Some tf by (simp add: waiting_post task_posts_def)
  qed
qed

end

lemma wakeup_frame [simp]:
  "pendingFunctors (EventLoop_wakeup l) = pendingFunctors l"
  "threadId (EventLoop_wakeup l) = threadId l" "quitFlag (EventLoop_wakeup l) = quitFlag l"
  "callingPendingFunctors (EventLoop_wakeup l) = callingPendingFunctors l"
  "timerQueue (EventLoop_wakeup l) = timerQueue l" "timerHeap (EventLoop_wakeup l) = timerHeap l"
  "loopBroken (EventLoop_wakeup l) = loopBroken l"
  by (simp_all add: EventLoop_wakeup_def)

lemma wakeup_readable [simp]: "0 < wakeupCount (EventLoop_wakeup l)"
  by (simp add: EventLoop_wakeup_def eventfd_max_def)

lemma queueInLoop_frame [simp]:
  "pendingFunctors (EventLoop_queueInLoop t f l) = pendingFunctors l @ [f]"
  "threadId (EventLoop_queueInLoop t f l) = threadId l"
  "quitFlag (EventLoop_queueInLoop t f l) = quitFlag l"
  "callingPendingFunctors (EventLoop_queueInLoop t f l) = callingPendingFunctors l"
  "timerQueue (EventLoop_queueInLoop t f l) = timerQueue l"
  "timerHeap (EventLoop_queueInLoop t f l) = timerHeap l"
  "loopBroken (EventLoop_queueInLoop t f l) = loopBroken l"
  by (simp_all add: EventLoop_queueInLoop_def EventLoop_pushPending_def Let_def)

interpretation tasks: task_queue pendingFunctors EventLoop_queueInLoop EventLoop_takePending
  by unfold_locales (simp_all add: EventLoop_takePending_def)

section \<open>A round of pending functors\<close>

text \<open>
  A functor may queue further functors on its own loop and ask it to quit: \<open>spawn f\<close> is the list of
  those that \<open>f\<close> queues from thread \<open>t\<close>, \<open>quits f\<close> whether it calls \<open>quit\<close>. \<open>logging_exec\<close> runs it that
  way and keeps the list of the functors that ran.
\<close>

definition logging_exec ::
  "thread_id \<Rightarrow> (Functor \<Rightarrow> Functor list) \<Rightarrow> (Functor \<Rightarrow> bool) \<Rightarrow> Functor \<Rightarrow>
   EventLoop \<times> Functor list \<Rightarrow> (EventLoop \<times> Functor list) res" where
  "logging_exec t spawn quits f s =
     (let l = fold (EventLoop_queueInLoop t) (spawn f) (fst s)
      in Inr (if quits f then EventLoop_quit t l else l, snd s @ [f]))"

lemma quit_frame [simp]:
  "pendingFunctors (EventLoop_quit t l) = pendingFunctors l" "quitFlag (EventLoop_quit t l)"
  "threadId (EventLoop_quit t l) = threadId l"
  "callingPendingFunctors (EventLoop_quit t l) = callingPendingFunctors l"
  "loopBroken (EventLoop_quit t l) = loopBroken l"
  "wakeupCount l \<le> wakeupCount (EventLoop_quit t l)"
  by (simp_all add: EventLoop_quit_def EventLoop_wakeup_def Let_def)

lemma queue_many_frame [simp]:
  "pendingFunctors (fold (EventLoop_queueInLoop t) fs l) = pendingFunctors l @ fs"
  "threadId (fold (EventLoop_queueInLoop t) fs l) = threadId l"
  "callingPendingFunctors (fold (EventLoop_queueInLoop t) fs l) = callingPendingFunctors l"
  "quitFlag (fold (EventLoop_queueInLoop t) fs l) = quitFlag l"
  "loopBroken (fold (EventLoop_queueInLoop t) fs l) = loopBroken l"
  by (induction fs arbitrary: l) auto

lemma queue_wakes:
  "callingPendingFunctors l \<or> threadId l \<noteq> t \<Longrightarrow> 0 < wakeupCount (EventLoop_queueInLoop t f l)"
  by (auto simp: EventLoop_queueInLoop_def EventLoop_needsWakeup_def EventLoop_isInLoopThread_def
      EventLoop_pushPending_def Let_def)

lemma queueInLoop_wakeupCount_mono: "wakeupCount l \<le> wakeupCount (EventLoop_queueInLoop t f l)"
  by (simp add: EventLoop_queueInLoop_def EventLoop_pushPending_def EventLoop_wakeup_def Let_def)

lemma queue_many_wakes:
  "callingPendingFunctors l \<Longrightarrow> fs \<noteq> [] \<or> 0 < wakeupCount l \<Longrightarrow>
   0 < wakeupCount (fold (EventLoop_queueInLoop t) fs l)"
proof (induction fs arbitrary: l)
  case Nil
  then show ?case by simp
next
  case (Cons f fs)
  then show ?case using queue_wakes[of l t f] by simp
qed

lemma logging_exec_step:
  assumes "callingPendingFunctors l" and "pendingFunctors l \<noteq> [] \<longrightarrow> 0 < wakeupCount l"
  shows "\<exists>l'. logging_exec t spawn quits f (l, hist) = Inr (l', hist @ [f]) \<and>
    pendingFunctors l' = pendingFunctors l @ spawn f \<and> callingPendingFunctors l' \<and>
    (pendingFunctors l' \<noteq> [] \<longrightarrow> 0 < wakeupCount l') \<and>
    quitFlag l' = (quitFlag l \<or> quits f) \<and> loopBroken l' = loopBroken l"
proof -
  let ?l = "fold (EventLoop_queueInLoop t) (spawn f) l"
  have "pendingFunctors ?l \<noteq> [] \<longrightarrow> 0 < wakeupCount ?l"
    using assms queue_many_wakes[of l "spawn f" t] by auto
  then have q: "pendingFunctors ?l \<noteq> [] \<longrightarrow> 0 < wakeupCount (EventLoop_quit t ?l)"
    "pendingFunctors ?l \<noteq> [] \<longrightarrow> 0 < wakeupCount ?l"
    using quit_frame(6)[of ?l t] by linarith+
  show ?thesis
  proof (cases "quits f")
    case True
    then show ?thesis
      using q assms(1) by (intro exI[of _ "EventLoop_quit t ?l"]) (simp add: logging_exec_def Let_def)
  next
    case False
    then show ?thesis using q assms(1) by (intro exI[of _ ?l]) (simp add: logging_exec_def Let_def)
  qed
qed

lemma logging_round:
  assumes "callingPendingFunctors l" and "pendingFunctors l \<noteq> [] \<longrightarrow> 0 < wakeupCount l"
  shows "\<exists>l'. foldR (logging_exec t spawn quits) fs (l, hist) = Inr (l', hist @ fs) \<and>
    pendingFunctors l' = pendingFunctors l @ concat (map spawn fs) \<and>
    callingPendingFunctors l' \<and> (pendingFunctors l' \<noteq> [] \<longrightarrow> 0 < wakeupCount l') \<and>
    quitFlag l' = (quitFlag l \<or> (\<exists>f \<in> set fs. quits f)) \<and> loopBroken l' = loopBroken l"
  using assms
proof (induction fs arbitrary: l hist)
  case Nil
  then show ?case by simp
next
  case (Cons f fs)
  from logging_exec_step[OF Cons.prems, of t spawn quits f hist] obtain l1 where
    l1: "logging_exec t spawn quits f (l, hist) = Inr (l1, hist @ [f])"
    "pendingFunctors l1 = pendingFunctors l @ spawn f" "callingPendingFunctors l1"
    "pendingFunctors l1 \<noteq> [] \<longrightarrow> 0 < wakeupCount l1" "quitFlag l1 = (quitFlag l \<or> quits f)"
    "loopBroken l1 = loopBroken l" by blast
  from Cons.IH[OF l1(3,4), of "hist @ [f]"] show ?case using l1 by auto
qed

lemma doPendingFunctors_round:
  "\<exists>l'. EventLoop_doPendingFunctors fst (\<lambda>g (l, hist). (g l, hist)) (logging_exec t spawn quits) (l, hist) =
      Inr (l', hist @ pendingFunctors l) \<and>
    pendingFunctors l' = concat (map spawn (pendingFunctors l)) \<and> \<not> callingPendingFunctors l' \<and>
    (pendingFunctors l' \<noteq> [] \<longrightarrow> 0 < wakeupCount l') \<and>
    quitFlag l' = (quitFlag l \<or> (\<exists>f \<in> set (pendingFunctors l). quits f)) \<and> loopBroken l' = loopBroken l"
proof -
  let ?l = "l\<lparr>callingPendingFunctors := True, pendingFunctors := []\<rparr>"
  have "\<exists>l'. foldR (logging_exec t spawn quits) (pendingFunctors l) (?l, hist) = Inr (l', hist @ pendingFunctors l) \<and>
      pendingFunctors l' = pendingFunctors ?l @ concat (map spawn (pendingFunctors l)) \<and>
      callingPendingFunctors l' \<and> (pendingFunctors l' \<noteq> [] \<longrightarrow> 0 < wakeupCount l') \<and>
      quitFlag l' = (quitFlag ?l \<or> (\<exists>f \<in> set (pendingFunctors l). quits f)) \<and> loopBroken l' = loopBroken ?l"
    by (rule logging_round) simp_all
  then show ?thesis
  proof (elim exE conjE)
    fix l'
    assume "foldR (logging_exec t spawn quits) (pendingFunctors l) (?l, hist) = Inr (l', hist @ pendingFunctors l)"
      and "pendingFunctors l' = pendingFunctors ?l @ concat (map spawn (pendingFunctors l))"
      and "pendingFunctors l' \<noteq> [] \<longrightarrow> 0 < wakeupCount l'"
      and "quitFlag l' = (quitFlag ?l \<or> (\<exists>f \<in> set (pendingFunctors l). quits f))"
      and "loopBroken l' = loopBroken ?l"
    then show ?thesis
      by (intro exI[of _ "l'\<lparr>callingPendingFunctors := False\<rparr>"])
         (simp add: EventLoop_doPendingFunctors_def EventLoop_takePending_def Let_def)
  qed
qed

section \<open>Timers of a loop\<close>

definition EventLoop_timers_inv :: "EventLoop \<Rightarrow> bool" where
  "EventLoop_timers_inv l = TimerQueue_inv (timerQueue l) (timerHeap l)"

text \<open>An allocated address that the queue does not hold (yet).\<close>

definition fresh_timer :: "timer_ptr \<Rightarrow> EventLoop \<Rightarrow> bool" where
  "fresh_timer p l \<longleftrightarrow> timerHeap l p = None"

lemma fresh_not_valid:
  "EventLoop_timers_inv l \<Longrightarrow> fresh_timer p l \<Longrightarrow> p \<notin> fst ` set (validTimers (timerQueue l))"
  by (force simp: EventLoop_timers_inv_def fresh_timer_def TimerQueue_inv_def)

lemma timers_inv_new:
  assumes "EventLoop_timers_inv l" and "fresh_timer p l"
  shows "EventLoop_timers_inv (l\<lparr>timerHeap := (timerHeap l)(p \<mapsto> t)\<rparr>)"
  using assms fresh_not_valid[OF assms] by (force simp: EventLoop_timers_inv_def TimerQueue_inv_def)

lemma Timer_ctor_eq:
  "Timer_ctor L cb a r n = (\<lparr>timeWatcher = timer_set L new_ev_timer a r, timer_sequence = n + 1, callBack = cb\<rparr>, n + 1)"
  by (simp add: Timer_ctor_def Atomic_incrementAndGet_eq)

lemma addTimer_in_loop:
  assumes L: "libev_ok L" and inv: "EventLoop_timers_inv l" and fresh: "fresh_timer p l"
    and tid: "threadId l = tid"
  shows "\<exists>l' t. TimerQueue_addTimer L tid p cb after interval (n, l) = Inr ((p, sint (n + 1)), n + 1, l') \<and>
    EventLoop_timers_inv l' \<and> timerHeap l' = (timerHeap l)(p \<mapsto> t) \<and> Timer_isActive t \<and> callBack t = cb \<and>
    timer_sequence t = n + 1 \<and> threadId l' = tid \<and>
    set (validTimers (timerQueue l')) = insert (p, sint (n + 1)) (set (validTimers (timerQueue l)))"
proof -
  let ?t = "\<lparr>timeWatcher = timer_set L new_ev_timer after interval, timer_sequence = n + 1, callBack = cb\<rparr>"
  let ?l = "l\<lparr>timerHeap := (timerHeap l)(p \<mapsto> ?t)\<rparr>"
  have "TimerQueue_inv (timerQueue l) ((timerHeap l)(p \<mapsto> ?t))"
    using timers_inv_new[OF inv fresh, of ?t] by (simp add: EventLoop_timers_inv_def)
  moreover have "p \<notin> fst ` set (validTimers (timerQueue l))"
    by (rule fresh_not_valid[OF inv fresh])
  ultimately obtain q' h' where q': "TimerQueue_addTimerInLoop L True p (timerQueue l, (timerHeap l)(p \<mapsto> ?t)) =
      Inr (q', h')" "TimerQueue_inv q' h'"
    "set (validTimers q') = insert (p, sint (n + 1)) (set (validTimers (timerQueue l)))"
    "h' = (timerHeap l)(p \<mapsto> Timer_start L ?t)"
    using addTimerInLoop_ok[of "timerQueue l" "(timerHeap l)(p \<mapsto> ?t)" p ?t L] by auto
  moreover have "Timer_isActive (Timer_start L ?t) \<and> callBack (Timer_start L ?t) = cb \<and>
      timer_sequence (Timer_start L ?t) = n + 1"
    using L by (simp add: Timer_start_def Timer_isActive_def libev_okD)
  ultimately show ?thesis
    using tid by (intro exI[of _ "l\<lparr>timerHeap := h', timerQueue := q'\<rparr>"] exI[of _ "Timer_start L ?t"])
      (simp add: TimerQueue_addTimer_def Timer_ctor_eq EventLoop_runInLoop_def
        EventLoop_isInLoopThread_def EventLoop_addTimerInLoop_def EventLoop_timers_inv_def deref_def)
qed

text \<open>
  From another thread the timer is allocated at once but started only when the queued functor runs, so a
  cancellation that the loop's own thread makes in between finds nothing to stop.
\<close>

lemma addTimer_other_thread:
  assumes "threadId l \<noteq> tid"
  shows "TimerQueue_addTimer L tid p cb after interval (n, l) =
    Inr ((p, sint (n + 1)), n + 1, EventLoop_queueInLoop tid (F_addTimerInLoop p)
      (l\<lparr>timerHeap := (timerHeap l)(p \<mapsto>
         \<lparr>timeWatcher = timer_set L new_ev_timer after interval, timer_sequence = n + 1, callBack = cb\<rparr>)\<rparr>))"
  using assms by (simp add: TimerQueue_addTimer_def Timer_ctor_eq EventLoop_runInLoop_def
      EventLoop_isInLoopThread_def deref_def)

lemma cancel_in_loop_valid:
  assumes L: "libev_ok L" and inv: "EventLoop_timers_inv l" and tid: "threadId l = tid"
    and v: "(p, s) \<in> set (validTimers (timerQueue l))"
  shows "\<exists>t. timerHeap l p = Some t \<and>
    TimerQueue_cancel L tid (p, s) l = Inr (l\<lparr>timerHeap := (timerHeap l)(p \<mapsto> Timer_stop L t)\<rparr>) \<and>
    EventLoop_timers_inv (l\<lparr>timerHeap := (timerHeap l)(p \<mapsto> Timer_stop L t)\<rparr>) \<and>
    \<not> Timer_isActive (Timer_stop L t)"
proof -
  obtain t where "timerHeap l p = Some t"
    "TimerQueue_cancelInLoop L True (p, s) (timerQueue l, timerHeap l) =
       Inr (timerQueue l, (timerHeap l)(p \<mapsto> Timer_stop L t))"
    "TimerQueue_inv (timerQueue l) ((timerHeap l)(p \<mapsto> Timer_stop L t))"
    using cancelInLoop_valid[OF inv[unfolded EventLoop_timers_inv_def] v, of L] by auto
  then show ?thesis
    using tid L by (simp add: TimerQueue_cancel_def EventLoop_runInLoop_def EventLoop_isInLoopThread_def
        EventLoop_cancelInLoop_def EventLoop_timers_inv_def Timer_stop_def Timer_isActive_def libev_okD)
qed

lemma cancel_in_loop_stale:
  assumes "threadId l = tid" and "timerId \<notin> set (validTimers (timerQueue l))"
  shows "TimerQueue_cancel L tid timerId l = Inr l"
  using assms by (simp add: TimerQueue_cancel_def EventLoop_runInLoop_def EventLoop_isInLoopThread_def
      EventLoop_cancelInLoop_def cancelInLoop_stale)

section \<open>The life of a timer\<close>

text \<open>
  All that happens to the timers of a loop in its own thread: creation at an address the allocator
  hands out, cancellation of any id (also of one that was never issued or is stale), the end of a
  one-shot timer in libev, and the clearing before each poll; timers created for other loops move the
  static counter.
\<close>

type_synonym timers_state = "int64_t \<times> EventLoop"

inductive timer_step :: "libev \<Rightarrow> timers_state \<Rightarrow> timers_state \<Rightarrow> bool" for L where
  timer_created: "fresh_timer p l \<Longrightarrow>
    TimerQueue_addTimer L (threadId l) p cb after interval (n, l) = Inr (timerId, n', l') \<Longrightarrow>
    timer_step L (n, l) (n', l')"
| timer_cancelled: "TimerQueue_cancel L (threadId l) timerId l = Inr l' \<Longrightarrow>
    timer_step L (n, l) (n, l')"
| timer_fired: "timerHeap l p = Some t \<Longrightarrow> Timer_isActive t \<Longrightarrow> tm_repeat (timeWatcher t) = 0 \<Longrightarrow>
    timer_step L (n, l)
      (n, l\<lparr>timerHeap := (timerHeap l)(p \<mapsto> t\<lparr>timeWatcher := (timeWatcher t)\<lparr>tm_active := False\<rparr>\<rparr>)\<rparr>)"
| timers_cleared: "EventLoop_clearExpiredTimer l = Inr l' \<Longrightarrow> timer_step L (n, l) (n, l')"
| timer_elsewhere: "timer_step L (n, l) (n + 1, l)"

inductive timer_reachable :: "libev \<Rightarrow> timers_state \<Rightarrow> bool" for L where
  timers_initial: "validTimers (timerQueue l) = [] \<Longrightarrow> timerHeap l = (\<lambda>_. None) \<Longrightarrow>
    timer_reachable L (n, l)"
| timers_step: "timer_reachable L s \<Longrightarrow> timer_step L s s' \<Longrightarrow> timer_reachable L s'"

text \<open>The queue holds exactly the allocated timers: nothing leaks and nothing dangles.\<close>

definition timers_owned :: "EventLoop \<Rightarrow> bool" where
  "timers_owned l \<longleftrightarrow>
     EventLoop_timers_inv l \<and> dom (timerHeap l) = fst ` set (validTimers (timerQueue l))"

lemma timers_owned_valid:
  assumes "timers_owned l"
  shows "(p, s) \<in> set (validTimers (timerQueue l)) \<longleftrightarrow>
    (\<exists>t. timerHeap l p = Some t \<and> sint (timer_sequence t) = s)"
proof
  assume "(p, s) \<in> set (validTimers (timerQueue l))"
  then show "\<exists>t. timerHeap l p = Some t \<and> sint (timer_sequence t) = s"
    using assms by (simp add: timers_owned_def EventLoop_timers_inv_def TimerQueue_inv_def)
next
  assume "\<exists>t. timerHeap l p = Some t \<and> sint (timer_sequence t) = s"
  then obtain t where t: "timerHeap l p = Some t" "sint (timer_sequence t) = s" by blast
  then have "p \<in> fst ` set (validTimers (timerQueue l))"
    using assms by (auto simp: timers_owned_def)
  then obtain s' where s': "(p, s') \<in> set (validTimers (timerQueue l))" by auto
  then have "\<exists>t. timerHeap l p = Some t \<and> sint (timer_sequence t) = s'"
    using assms by (simp add: timers_owned_def EventLoop_timers_inv_def TimerQueue_inv_def)
  then have "s' = s" using t by simp
  then show "(p, s) \<in> set (validTimers (timerQueue l))" using s' by simp
qed

lemma timers_owned_update:
  assumes "timers_owned l" and "timerHeap l p = Some t" and "timer_sequence t' = timer_sequence t"
  shows "timers_owned (l\<lparr>timerHeap := (timerHeap l)(p \<mapsto> t')\<rparr>)"
  using assms by (force simp: timers_owned_def EventLoop_timers_inv_def TimerQueue_inv_def)

lemma EventLoop_clear_ok:
  assumes "timers_owned l"
  shows "\<exists>l'. EventLoop_clearExpiredTimer l = Inr l' \<and> timers_owned l' \<and> threadId l' = threadId l \<and>
    validTimers (timerQueue l') = filter (active_in (timerHeap l)) (validTimers (timerQueue l)) \<and>
    (\<forall>p. timerHeap l' p =
       (case timerHeap l p of Some t \<Rightarrow> if Timer_isActive t then Some t else None | None \<Rightarrow> None))"
proof -
  let ?q = "timerQueue l" and ?h = "timerHeap l"
  have inv: "TimerQueue_inv ?q ?h" and d: "dom ?h = fst ` set (validTimers ?q)"
    using assms by (simp_all add: timers_owned_def EventLoop_timers_inv_def)
  from clearExpiredTimer_ok[OF inv] obtain h' where h':
    "TimerQueue_clearExpiredTimer (?q, ?h) =
      Inr (?q\<lparr>validTimers := filter (active_in ?h) (validTimers ?q)\<rparr>, h')"
    "TimerQueue_inv (?q\<lparr>validTimers := filter (active_in ?h) (validTimers ?q)\<rparr>) h'"
    "\<forall>p. h' p = (if p \<in> fst ` set (filter (\<lambda>v. \<not> active_in ?h v) (validTimers ?q)) then None else ?h p)"
    by blast
  have at: "h' p = (case ?h p of Some t \<Rightarrow> if Timer_isActive t then Some t else None | None \<Rightarrow> None)" for p
  proof (cases "?h p")
    case None
    then show ?thesis using h'(3) by simp
  next
    case (Some t)
    then obtain s where s: "(p, s) \<in> set (validTimers ?q)" using d by force
    have "p \<in> fst ` set (filter (\<lambda>v. \<not> active_in ?h v) (validTimers ?q)) \<longleftrightarrow> \<not> Timer_isActive t"
      using Some s by (force simp: active_in_def)
    then show ?thesis using Some h'(3) by simp
  qed
  have "dom h' = fst ` set (filter (active_in ?h) (validTimers ?q))"
  proof (intro equalityI subsetI)
    fix p assume "p \<in> dom h'"
    then obtain t where t: "?h p = Some t" "Timer_isActive t"
      by (auto simp: at split: option.splits if_splits)
    then obtain s where "(p, s) \<in> set (validTimers ?q)" using d by force
    then show "p \<in> fst ` set (filter (active_in ?h) (validTimers ?q))"
      using t by (force simp: active_in_def)
  next
    fix p assume "p \<in> fst ` set (filter (active_in ?h) (validTimers ?q))"
    then show "p \<in> dom h'" by (auto simp: at active_in_def split: option.splits)
  qed
  then show ?thesis
    using h' at by (intro exI[of _ "l\<lparr>timerQueue := ?q\<lparr>validTimers := filter (active_in ?h) (validTimers ?q)\<rparr>,
        timerHeap := h'\<rparr>"]) (simp add: EventLoop_clearExpiredTimer_def timers_owned_def EventLoop_timers_inv_def)
qed

lemma EventLoop_cancel_ok:
  assumes L: "libev_ok L" and own: "timers_owned l"
  shows "\<exists>l'. TimerQueue_cancel L (threadId l) (p, s) l = Inr l' \<and> timers_owned l' \<and>
    threadId l' = threadId l \<and> timerQueue l' = timerQueue l \<and>
    ((p, s) \<notin> set (validTimers (timerQueue l)) \<longrightarrow> l' = l) \<and>
    ((p, s) \<in> set (validTimers (timerQueue l)) \<longrightarrow>
       (\<exists>t. timerHeap l p = Some t \<and> timerHeap l' = (timerHeap l)(p \<mapsto> Timer_stop L t) \<and>
            \<not> Timer_isActive (Timer_stop L t)))"
proof (cases "(p, s) \<in> set (validTimers (timerQueue l))")
  case True
  have "EventLoop_timers_inv l" using own by (simp add: timers_owned_def)
  from cancel_in_loop_valid[OF L this refl True] obtain t where t: "timerHeap l p = Some t"
    "TimerQueue_cancel L (threadId l) (p, s) l = Inr (l\<lparr>timerHeap := (timerHeap l)(p \<mapsto> Timer_stop L t)\<rparr>)"
    "\<not> Timer_isActive (Timer_stop L t)" by blast
  then show ?thesis
    using True timers_owned_update[OF own t(1), of "Timer_stop L t"] by (simp add: Timer_stop_def)
next
  case False
  then show ?thesis using cancel_in_loop_stale[OF refl False, of L] own by simp
qed

lemma timer_step_owned:
  assumes L: "libev_ok L" and "timer_step L s s'" and "timers_owned (snd s)"
  shows "timers_owned (snd s')"
  using assms(2,3)
proof (induction rule: timer_step.induct)
  case (timer_created p l cb after interval n timerId n' l')
  have inv: "EventLoop_timers_inv l" and d: "dom (timerHeap l) = fst ` set (validTimers (timerQueue l))"
    using timer_created by (simp_all add: timers_owned_def)
  from addTimer_in_loop[OF L inv timer_created(1) refl, of cb after interval n] timer_created(2)
  obtain t where "EventLoop_timers_inv l'" "timerHeap l' = (timerHeap l)(p \<mapsto> t)"
    "set (validTimers (timerQueue l')) = insert (p, sint (n + 1)) (set (validTimers (timerQueue l)))"
    by auto
  then show ?case using d by (simp add: timers_owned_def)
next
  case (timer_cancelled l timerId l' n)
  then show ?case using EventLoop_cancel_ok[OF L, of l "fst timerId" "snd timerId"] by auto
next
  case (timer_fired l p t n)
  then show ?case using timers_owned_update[of l p t] by simp
next
  case (timers_cleared l l' n)
  then show ?case using EventLoop_clear_ok[of l] by auto
qed simp

lemma timer_reachable_owned: "timer_reachable L s \<Longrightarrow> libev_ok L \<Longrightarrow> timers_owned (snd s)"
proof (induction rule: timer_reachable.induct)
  case (timers_initial l n)
  then show ?case by (simp add: timers_owned_def EventLoop_timers_inv_def TimerQueue_inv_def)
next
  case (timers_step s s')
  then show ?case using timer_step_owned by blast
qed

section \<open>What the class promises\<close>

text \<open>
  C18. A round of pending functors runs exactly the functors that were waiting when it began, in the
  order in which they were queued. Functors queued during the round are not run in it: they wait, in
  order, for the next one, and if there are any the eventfd is readable, so that the next poll returns
  at once.
\<close>

theorem pending_round_exact:
  "\<exists>l'. EventLoop_doPendingFunctors fst (\<lambda>g (l, hist). (g l, hist)) (logging_exec t spawn quits) (l, hist) =
      Inr (l', hist @ pendingFunctors l) \<and>
    pendingFunctors l' = concat (map spawn (pendingFunctors l)) \<and> \<not> callingPendingFunctors l' \<and>
    (pendingFunctors l' = [] \<or> 0 < wakeupCount l')"
  using doPendingFunctors_round[of t spawn quits l hist] by auto

text \<open>
  No functor is lost, duplicated or reordered: over any schedule of \<open>queueInLoop\<close> calls by any
  threads and of swaps by the loop, the functors taken followed by those still waiting are the ones
  that waited first followed by the ones queued.
\<close>

theorem queued_functors_conserved:
  "fst (task_run EventLoop_queueInLoop EventLoop_takePending es l) @
     pendingFunctors (snd (task_run EventLoop_queueInLoop EventLoop_takePending es l)) =
   pendingFunctors l @ task_posts es"
  by (rule tasks.task_run_conserves) simp

text \<open>
  Timers neither leak nor dangle. In every state a loop's timers can reach, the timer queue holds
  exactly the allocated timers, each under its own sequence number, and no operation can fail: clearing
  frees the timers that are not active and keeps the others; cancelling an id stops the timer it was
  issued for while that timer exists, and changes nothing when it is gone or its address was reused.
\<close>

theorem timers_safe:
  assumes "libev_ok L" and "timer_reachable L (n, l)"
  shows "timers_owned l \<and>
    (\<exists>l'. EventLoop_clearExpiredTimer l = Inr l' \<and>
       (\<forall>p. timerHeap l' p =
          (case timerHeap l p of Some t \<Rightarrow> if Timer_isActive t then Some t else None | None \<Rightarrow> None))) \<and>
    (\<forall>p s. \<exists>l'. TimerQueue_cancel L (threadId l) (p, s) l = Inr l' \<and>
       (case timerHeap l p of
          Some t \<Rightarrow> if sint (timer_sequence t) = s
            then timerHeap l' = (timerHeap l)(p \<mapsto> Timer_stop L t) \<and> \<not> Timer_isActive (Timer_stop L t)
            else l' = l
        | None \<Rightarrow> l' = l))"
proof (intro conjI allI)
  show own: "timers_owned l" using timer_reachable_owned[OF assms(2,1)] by simp
  show "\<exists>l'. EventLoop_clearExpiredTimer l = Inr l' \<and>
       (\<forall>p. timerHeap l' p =
          (case timerHeap l p of Some t \<Rightarrow> if Timer_isActive t then Some t else None | None \<Rightarrow> None))"
    using EventLoop_clear_ok[OF own] by blast
  fix p s
  have "(p, s) \<in> set (validTimers (timerQueue l)) \<longleftrightarrow>
      (\<exists>t. timerHeap l p = Some t \<and> sint (timer_sequence t) = s)"
    by (rule timers_owned_valid[OF own])
  then show "\<exists>l'. TimerQueue_cancel L (threadId l) (p, s) l = Inr l' \<and>
       (case timerHeap l p of
          Some t \<Rightarrow> if sint (timer_sequence t) = s
            then timerHeap l' = (timerHeap l)(p \<mapsto> Timer_stop L t) \<and> \<not> Timer_isActive (Timer_stop L t)
            else l' = l
        | None \<Rightarrow> l' = l)"
    using EventLoop_cancel_ok[OF assms(1) own, of p s] by (auto split: option.splits)
qed

text \<open>A loop as its constructor leaves it, in thread 1.\<close>

definition fresh_loop :: "libev \<Rightarrow> EventLoop" where
  "fresh_loop L =
     (case EventLoop_ctor L 1 0 3 (\<lambda>_. None) of Inr (l, _) \<Rightarrow> l | Inl _ \<Rightarrow> undefined)"

lemma fresh_loop_simps [simp]:
  "threadId (fresh_loop L) = 1" "pendingFunctors (fresh_loop L) = []"
  "callingPendingFunctors (fresh_loop L) = False" "wakeupCount (fresh_loop L) = 0"
  "quitFlag (fresh_loop L) = False" "validTimers (timerQueue (fresh_loop L)) = []"
  "timerHeap (fresh_loop L) = (\<lambda>_. None)" "loopId (fresh_loop L) = 0"
  by (simp_all add: fresh_loop_def EventLoop_ctor_def createEventfd_def TimerQueue_ctor_def)

lemma timers_safe_witness:
  "\<exists>t l. timerHeap l 7 = Some t \<and> timers_owned l \<and>
     (\<exists>l'. TimerQueue_cancel libev_ref 1 (7, 1) l = Inr l' \<and> timerHeap l' = (timerHeap l)(7 \<mapsto> Timer_stop libev_ref t))"
proof -
  have r0: "timer_reachable libev_ref (0, fresh_loop libev_ref)"
    by (rule timers_initial) simp_all
  have own: "EventLoop_timers_inv (fresh_loop libev_ref)"
    by (simp add: EventLoop_timers_inv_def TimerQueue_inv_def)
  have fresh: "fresh_timer 7 (fresh_loop libev_ref)" by (simp add: fresh_timer_def)
  obtain l t where l: "TimerQueue_addTimer libev_ref 1 7 (F_user 0) 1 0 (0, fresh_loop libev_ref) =
      Inr ((7, sint (0 + 1 :: int64_t)), 0 + 1, l)" "timerHeap l 7 = Some t" "timer_sequence t = 0 + 1"
      "threadId l = 1"
    using addTimer_in_loop[OF libev_ref_ok own fresh, of 1 "F_user 0" 1 0 0] by auto
  have "timer_reachable libev_ref (0 + 1, l)"
    by (rule timers_step[OF r0]) (rule timer_created[OF fresh], simp only: fresh_loop_simps, rule l(1))
  from timers_safe[OF libev_ref_ok this] have "timers_owned l"
    "\<exists>l'. TimerQueue_cancel libev_ref (threadId l) (7, 1) l = Inr l' \<and>
       (case timerHeap l 7 of
          Some t \<Rightarrow> if sint (timer_sequence t) = 1
            then timerHeap l' = (timerHeap l)(7 \<mapsto> Timer_stop libev_ref t) \<and> \<not> Timer_isActive (Timer_stop libev_ref t)
            else l' = l
        | None \<Rightarrow> l' = l)" by blast+
  then show ?thesis using l(2,3,4) by auto
qed

text \<open>
  Before each poll the loop clears its expired timers, runs the functors that were pending, and
  breaks exactly when \<open>quit\<close> had been called or one of those functors called it: a functor that was
  queued before the request to quit is run before the loop ends.
\<close>

theorem prepare_then_quit:
  assumes "timers_owned l"
  shows "\<exists>l'. EventLoop_prepareCallBack fst (\<lambda>g (l, hist). (g l, hist)) (logging_exec t spawn quits) (l, hist) =
      Inr (l', hist @ pendingFunctors l) \<and>
    pendingFunctors l' = concat (map spawn (pendingFunctors l)) \<and>
    (loopBroken l' \<longleftrightarrow> loopBroken l \<or> quitFlag l \<or> (\<exists>f. f \<in> set (pendingFunctors l) \<and> quits f))"
proof -
  obtain q h where l1: "EventLoop_clearExpiredTimer l = Inr (l\<lparr>timerQueue := q, timerHeap := h\<rparr>)"
    using EventLoop_clear_ok[OF assms] by (auto simp: EventLoop_clearExpiredTimer_def res_simps)
  let ?l = "l\<lparr>timerQueue := q, timerHeap := h\<rparr>"
  from doPendingFunctors_round[of t spawn quits ?l hist] obtain l2 where l2:
    "EventLoop_doPendingFunctors fst (\<lambda>g (l, hist). (g l, hist)) (logging_exec t spawn quits) (?l, hist) =
      Inr (l2, hist @ pendingFunctors l)"
    "pendingFunctors l2 = concat (map spawn (pendingFunctors l))"
    "quitFlag l2 = (quitFlag l \<or> (\<exists>f \<in> set (pendingFunctors l). quits f))" "loopBroken l2 = loopBroken l"
    by auto
  show ?thesis
  proof (cases "quitFlag l2")
    case True
    then show ?thesis using l1 l2
      by (intro exI[of _ "l2\<lparr>loopBroken := True\<rparr>"]) (auto simp: EventLoop_prepareCallBack_def)
  next
    case False
    then show ?thesis using l1 l2 by (intro exI[of _ l2]) (auto simp: EventLoop_prepareCallBack_def)
  qed
qed

lemma prepare_then_quit_witness:
  "\<exists>l'. EventLoop_prepareCallBack fst (\<lambda>g (l, hist). (g l, hist)) (logging_exec 1 (\<lambda>_. []) (\<lambda>f. f = F_user 2))
      (EventLoop_queueInLoop 1 (F_user 2) (fresh_loop libev_ref), []) = Inr (l', [F_user 2]) \<and>
    pendingFunctors l' = [] \<and> loopBroken l'"
proof -
  let ?l = "EventLoop_queueInLoop 1 (F_user 2) (fresh_loop libev_ref)"
  have "timers_owned ?l"
    by (simp add: timers_owned_def EventLoop_timers_inv_def TimerQueue_inv_def)
  from prepare_then_quit[OF this, of 1 "\<lambda>_. []" "\<lambda>f. f = F_user 2" "[]"] show ?thesis by simp
qed

section \<open>One loop per thread, ever\<close>

text \<open>
  Destroying a loop deletes the timers that were started and not those whose \<open>addTimerInLoop\<close> still
  waits among the functors; and the thread never gets rid of the registration.
\<close>

lemma EventLoop_dtor_exact:
  assumes "TimerQueue_inv (timerQueue l) (timerHeap l)" "\<not> eventHandling (wakeupChannel l)"
  shows "EventLoop_dtor (l, ts) =
    Inr (\<lambda>p. if p \<in> fst ` set (validTimers (timerQueue l)) then None else timerHeap l p, ts)"
  using assms by (simp add: EventLoop_dtor_def Channel_dtor_def TimerQueue_dtor_ok ensure_def)

lemma EventLoop_dtor_registration: "EventLoop_dtor (l, ts) = Inr (h, ts') \<Longrightarrow> ts' = ts"
  by (auto simp: EventLoop_dtor_def bindR_Inr_iff)

lemma EventLoop_ctor_registers: "EventLoop_ctor L t n efd ts = Inr (l, ts') \<Longrightarrow> ts' t = Some n"
  by (auto simp: EventLoop_ctor_def bindR_Inr_iff ensure_Inr_iff)

lemma second_loop_is_fatal:
  assumes "EventLoop_ctor L t n efd ts = Inr (l, ts1)"
    and "EventLoop_dtor (l1, ts1) = Inr (h, ts2)"
  shows "EventLoop_ctor L t n' efd' ts2 = Inl Fatal"
  using EventLoop_ctor_registers[OF assms(1)] EventLoop_dtor_registration[OF assms(2)]
  by (simp add: EventLoop_ctor_def createEventfd_def ensure_def)

end
