(* ===== verification/Wakeup_Protocol.thy ===== *)
theory Wakeup_Protocol
  imports Event_Loop
begin

text \<open>
  The loop thread and the threads that post to it, interleaved at the granularity of the code
  (net/EventLoop.cc): a foreign thread takes the lock, pushes and releases it in one step and writes to
  the eventfd in a later one; the loop thread goes through the prepare callback, the functors, the test
  of \<open>quit_\<close>, the poll and the dispatch of the events. The result is that no wake-up is lost: the loop
  never sleeps in its poll over a functor or a quit request that nobody will signal.
\<close>

section \<open>States and steps\<close>

text \<open>
  \<open>Prepare\<close>: libev is about to call \<open>prepareCallBack\<close>. \<open>Calling fs\<close>: inside the loop of
  \<open>doPendingFunctors\<close>, \<open>fs\<close> still to run. \<open>Testing\<close>: before \<open>if(quit_ == true)\<close>. \<open>Polling\<close>: blocked in
  libev's backend. \<open>Dispatching\<close>: watcher callbacks run. \<open>Ended\<close>: \<open>break_loop\<close> was called.
\<close>

datatype phase = Prepare | Calling "Functor list" | Testing | Polling | Dispatching | Ended

text \<open>\<open>mid t\<close>: thread \<open>t\<close> has pushed a functor or set \<open>quit_\<close> and has not yet called \<open>wakeup()\<close>.\<close>

record psys =
  ploop :: EventLoop
  phase :: phase
  mid :: "thread_id \<Rightarrow> bool"

definition owner :: "psys \<Rightarrow> thread_id" where
  "owner s = threadId (ploop s)"

definition psys_init :: "EventLoop \<Rightarrow> psys" where
  "psys_init l = \<lparr>ploop = l, phase = Prepare, mid = (\<lambda>_. False)\<rparr>"

text \<open>What user code that runs in the loop thread does to the loop: queue functors, perhaps quit.\<close>

definition in_loop_effect :: "Functor list \<Rightarrow> bool \<Rightarrow> EventLoop \<Rightarrow> EventLoop" where
  "in_loop_effect gs q l =
     (let l' = fold (EventLoop_queueInLoop (threadId l)) gs l
      in if q then EventLoop_quit (threadId l) l' else l')"

inductive pstep :: "psys \<Rightarrow> psys \<Rightarrow> bool" where
  start_functors: "phase s = Prepare \<Longrightarrow>
    pstep s (s\<lparr>ploop := snd (EventLoop_takePending ((ploop s)\<lparr>callingPendingFunctors := True\<rparr>)),
               phase := Calling (fst (EventLoop_takePending (ploop s)))\<rparr>)"
| run_functor: "phase s = Calling (f # fs) \<Longrightarrow>
    pstep s (s\<lparr>ploop := in_loop_effect gs q (ploop s), phase := Calling fs\<rparr>)"
| end_functors: "phase s = Calling [] \<Longrightarrow>
    pstep s (s\<lparr>ploop := (ploop s)\<lparr>callingPendingFunctors := False\<rparr>, phase := Testing\<rparr>)"
| test_quit: "phase s = Testing \<Longrightarrow> quitFlag (ploop s) \<Longrightarrow>
    pstep s (s\<lparr>ploop := (ploop s)\<lparr>loopBroken := True\<rparr>, phase := Ended\<rparr>)"
| test_continue: "phase s = Testing \<Longrightarrow> \<not> quitFlag (ploop s) \<Longrightarrow> pstep s (s\<lparr>phase := Polling\<rparr>)"
| poll_wakeup: "phase s = Polling \<Longrightarrow> 0 < wakeupCount (ploop s) \<Longrightarrow>
    pstep s (s\<lparr>ploop := EventLoop_handleRead (ploop s), phase := Dispatching\<rparr>)"
| poll_event: "phase s = Polling \<Longrightarrow> pstep s (s\<lparr>phase := Dispatching\<rparr>)"
| dispatch: "phase s = Dispatching \<Longrightarrow> pstep s (s\<lparr>ploop := in_loop_effect gs q (ploop s)\<rparr>)"
| dispatch_done: "phase s = Dispatching \<Longrightarrow> pstep s (s\<lparr>phase := Prepare\<rparr>)"
| foreign_push: "t \<noteq> owner s \<Longrightarrow> \<not> mid s t \<Longrightarrow>
    pstep s (s\<lparr>ploop := EventLoop_pushPending f (ploop s), mid := (mid s)(t := True)\<rparr>)"
| foreign_quit: "t \<noteq> owner s \<Longrightarrow> \<not> mid s t \<Longrightarrow>
    pstep s (s\<lparr>ploop := (ploop s)\<lparr>quitFlag := True\<rparr>, mid := (mid s)(t := True)\<rparr>)"
| foreign_wakeup: "mid s t \<Longrightarrow> EventLoop_needsWakeup t (ploop s) \<Longrightarrow>
    pstep s (s\<lparr>ploop := EventLoop_wakeup (ploop s), mid := (mid s)(t := False)\<rparr>)"

inductive preachable :: "psys \<Rightarrow> bool" where
  initial: "\<not> callingPendingFunctors l \<Longrightarrow> preachable (psys_init l)"
| step: "preachable s \<Longrightarrow> pstep s s' \<Longrightarrow> preachable s'"

inductive_simps preachable_simps: "preachable s"

text \<open>The two steps of a foreign thread together are the code's \<open>queueInLoop\<close> and \<open>quit\<close>.\<close>

lemma foreign_queue_is_queueInLoop:
  "t \<noteq> threadId l \<Longrightarrow> EventLoop_wakeup (EventLoop_pushPending f l) = EventLoop_queueInLoop t f l"
  by (simp add: EventLoop_queueInLoop_def EventLoop_needsWakeup_def EventLoop_isInLoopThread_def
      EventLoop_pushPending_def)

lemma foreign_quit_is_quit:
  "t \<noteq> threadId l \<Longrightarrow> EventLoop_wakeup (l\<lparr>quitFlag := True\<rparr>) = EventLoop_quit t l"
  by (simp add: EventLoop_quit_def EventLoop_isInLoopThread_def)

section \<open>The invariant\<close>

definition signalled :: "psys \<Rightarrow> bool" where
  "signalled s \<longleftrightarrow> 0 < wakeupCount (ploop s) \<or> (\<exists>t. mid s t)"

fun phase_inv :: "phase \<Rightarrow> psys \<Rightarrow> bool" where
  "phase_inv (Calling fs) s \<longleftrightarrow>
     callingPendingFunctors (ploop s) \<and> (pendingFunctors (ploop s) \<noteq> [] \<longrightarrow> signalled s)"
| "phase_inv Testing s \<longleftrightarrow>
     \<not> callingPendingFunctors (ploop s) \<and> (pendingFunctors (ploop s) \<noteq> [] \<longrightarrow> signalled s)"
| "phase_inv Polling s \<longleftrightarrow>
     \<not> callingPendingFunctors (ploop s) \<and>
     (pendingFunctors (ploop s) \<noteq> [] \<or> quitFlag (ploop s) \<longrightarrow> signalled s)"
| "phase_inv _ s \<longleftrightarrow> \<not> callingPendingFunctors (ploop s)"

definition psys_inv :: "psys \<Rightarrow> bool" where
  "psys_inv s \<longleftrightarrow> phase_inv (phase s) s \<and> \<not> mid s (owner s)"

lemma handleRead_frame [simp]:
  "pendingFunctors (EventLoop_handleRead l) = pendingFunctors l"
  "threadId (EventLoop_handleRead l) = threadId l" "quitFlag (EventLoop_handleRead l) = quitFlag l"
  "callingPendingFunctors (EventLoop_handleRead l) = callingPendingFunctors l"
  by (simp_all add: EventLoop_handleRead_def)

lemma pushPending_frame [simp]:
  "threadId (EventLoop_pushPending f l) = threadId l"
  "quitFlag (EventLoop_pushPending f l) = quitFlag l"
  "wakeupCount (EventLoop_pushPending f l) = wakeupCount l"
  "callingPendingFunctors (EventLoop_pushPending f l) = callingPendingFunctors l"
  "pendingFunctors (EventLoop_pushPending f l) = pendingFunctors l @ [f]"
  by (simp_all add: EventLoop_pushPending_def)

lemma quit_in_loop: "EventLoop_quit (threadId l) l = l\<lparr>quitFlag := True\<rparr>"
  by (simp add: EventLoop_quit_def EventLoop_isInLoopThread_def)

lemma queue_many_count_mono:
  "wakeupCount l \<le> wakeupCount (fold (EventLoop_queueInLoop t) gs l)"
proof (induction gs arbitrary: l)
  case Nil
  show ?case by simp
next
  case (Cons g gs)
  then show ?case by (metis fold_simps(2) order_trans queueInLoop_wakeupCount_mono)
qed

lemma in_loop_effect_frame [simp]:
  "threadId (in_loop_effect gs q l) = threadId l"
  "callingPendingFunctors (in_loop_effect gs q l) = callingPendingFunctors l"
  "pendingFunctors (in_loop_effect gs q l) = pendingFunctors l @ gs"
  "wakeupCount l \<le> wakeupCount (in_loop_effect gs q l)"
  using quit_in_loop[of "fold (EventLoop_queueInLoop (threadId l)) gs l"]
    queue_many_count_mono[of l "threadId l" gs]
  by (simp_all add: in_loop_effect_def Let_def)

lemma in_loop_effect_wakes:
  "callingPendingFunctors l \<Longrightarrow> gs \<noteq> [] \<Longrightarrow> 0 < wakeupCount (in_loop_effect gs q l)"
  using quit_in_loop[of "fold (EventLoop_queueInLoop (threadId l)) gs l"]
    queue_many_wakes[of l gs "threadId l"]
  by (simp add: in_loop_effect_def Let_def)

lemma takePending_frame [simp]:
  "fst (EventLoop_takePending l) = pendingFunctors l"
  "pendingFunctors (snd (EventLoop_takePending l)) = []"
  "threadId (snd (EventLoop_takePending l)) = threadId l"
  "callingPendingFunctors (snd (EventLoop_takePending l)) = callingPendingFunctors l"
  "wakeupCount (snd (EventLoop_takePending l)) = wakeupCount l"
  "quitFlag (snd (EventLoop_takePending l)) = quitFlag l"
  by (simp_all add: EventLoop_takePending_def)

lemma run_functor_signalled:
  assumes "callingPendingFunctors l" and "pendingFunctors l \<noteq> [] \<longrightarrow> 0 < wakeupCount l \<or> (\<exists>t. m t)"
    and "pendingFunctors l \<noteq> [] \<or> gs \<noteq> []"
  shows "0 < wakeupCount (in_loop_effect gs q l) \<or> (\<exists>t. m t)"
  using assms in_loop_effect_wakes[of l gs q] in_loop_effect_frame(4)[of l gs q]
  by (metis order_less_le_trans)

lemma phase_inv_signal:
  assumes "phase_inv ph s" and "signalled s'"
    and "callingPendingFunctors (ploop s') = callingPendingFunctors (ploop s)"
  shows "phase_inv ph s'"
  using assms by (cases ph) auto

lemma pstep_inv: "pstep s s' \<Longrightarrow> psys_inv s \<Longrightarrow> psys_inv s'"
proof (induction rule: pstep.induct)
  case (run_functor s f fs gs q)
  then show ?case
    using run_functor_signalled[of "ploop s" "mid s" gs q]
    by (auto simp: psys_inv_def owner_def signalled_def)
next
  case (foreign_push t s f)
  have "signalled (s\<lparr>ploop := EventLoop_pushPending f (ploop s), mid := (mid s)(t := True)\<rparr>)"
    by (auto simp: signalled_def)
  with foreign_push show ?case
    using phase_inv_signal[of "phase s" s] by (auto simp: psys_inv_def owner_def)
next
  case (foreign_quit t s)
  have "signalled (s\<lparr>ploop := (ploop s)\<lparr>quitFlag := True\<rparr>, mid := (mid s)(t := True)\<rparr>)"
    by (auto simp: signalled_def)
  with foreign_quit show ?case
    using phase_inv_signal[of "phase s" s] by (auto simp: psys_inv_def owner_def)
next
  case (foreign_wakeup s t)
  have "signalled (s\<lparr>ploop := EventLoop_wakeup (ploop s), mid := (mid s)(t := False)\<rparr>)"
    by (auto simp: signalled_def)
  with foreign_wakeup show ?case
    using phase_inv_signal[of "phase s" s] by (auto simp: psys_inv_def owner_def)
qed (auto simp: psys_inv_def owner_def signalled_def)

lemma preachable_inv: "preachable s \<Longrightarrow> psys_inv s"
proof (induction rule: preachable.induct)
  case (initial l)
  then show ?case by (simp add: psys_inv_def psys_init_def)
next
  case (step s s')
  then show ?case by (blast intro: pstep_inv)
qed

section \<open>No lost wake-up\<close>

lemma mid_can_wake:
  "psys_inv s \<Longrightarrow> mid s t \<Longrightarrow> EventLoop_needsWakeup t (ploop s)"
  by (auto simp: psys_inv_def EventLoop_needsWakeup_def EventLoop_isInLoopThread_def owner_def)

section \<open>Progress of the loop thread\<close>

text \<open>
  A run until the next round of functors begins, of whatever interleaving, with the number of steps in it that
  move the loop thread on. These are the steps that change its phase; the others, which do not, are those of
  the other threads and the watcher callbacks of one dispatch.
\<close>

inductive wait_run :: "psys \<Rightarrow> nat \<Rightarrow> psys \<Rightarrow> bool" for s where
  wait_none: "wait_run s 0 s"
| wait_step: "wait_run s n s1 \<Longrightarrow> pstep s1 s2 \<Longrightarrow> (phase s1 = Prepare \<Longrightarrow> phase s2 = Prepare) \<Longrightarrow>
    wait_run s (if phase s2 = phase s1 then n else Suc n) s2"

text \<open>How many such steps are left.\<close>

fun phase_left :: "phase \<Rightarrow> nat" where
  "phase_left (Calling fs) = 4 + length fs" | "phase_left Testing = 3" | "phase_left Polling = 2"
| "phase_left Dispatching = 1" | "phase_left _ = 0"

lemma pstep_left:
  "pstep s s' \<Longrightarrow> (phase s = Prepare \<Longrightarrow> phase s' = Prepare) \<Longrightarrow>
   (if phase s' = phase s then phase_left (phase s') = phase_left (phase s)
    else phase_left (phase s') < phase_left (phase s)) \<and>
   set (pendingFunctors (ploop s)) \<subseteq> set (pendingFunctors (ploop s'))"
  by (induction rule: pstep.induct) auto

lemma wait_run_left:
  "wait_run s n s' \<Longrightarrow> n + phase_left (phase s') \<le> phase_left (phase s) \<and>
   set (pendingFunctors (ploop s)) \<subseteq> set (pendingFunctors (ploop s'))"
proof (induction rule: wait_run.induct)
  case (wait_step n s1 s2)
  then show ?case using pstep_left[of s1 s2] by (auto split: if_splits)
qed simp

lemma wait_run_reachable: "wait_run s n s' \<Longrightarrow> preachable s \<Longrightarrow> preachable s'"
  by (induction rule: wait_run.induct) (blast intro: preachable.step)+

text \<open>The loop has ended only if somebody called \<open>quit\<close>.\<close>

lemma quit_kept [simp]:
  "quitFlag (fold (EventLoop_queueInLoop t) gs l) = quitFlag l" "quitFlag l \<Longrightarrow> quitFlag (in_loop_effect gs q l)"
proof -
  show q: "quitFlag (fold (EventLoop_queueInLoop t) gs l) = quitFlag l" for t and l
    by (induction gs arbitrary: l) (simp_all add: EventLoop_queueInLoop_def EventLoop_pushPending_def EventLoop_wakeup_def Let_def)
  show "quitFlag l \<Longrightarrow> quitFlag (in_loop_effect gs q l)"
    using quit_in_loop[of "fold (EventLoop_queueInLoop (threadId l)) gs l"] by (simp add: in_loop_effect_def Let_def q)
qed

lemma preachable_ended: "preachable s \<Longrightarrow> phase s = Ended \<Longrightarrow> quitFlag (ploop s)"
proof (induction rule: preachable.induct)
  case (initial l)
  then show ?case by (simp add: psys_init_def)
next
  case (step s s')
  from step(2) show ?case
    by (cases rule: pstep.cases) (use step in \<open>auto simp: EventLoop_wakeup_def\<close>)
qed

text \<open>
  In every phase but the poll the loop thread can go on by itself, and from \<open>Prepare\<close> only into the round
  of all that waits.
\<close>

lemma loop_moves:
  assumes "phase s \<noteq> Ended" and "phase s = Polling \<Longrightarrow> 0 < wakeupCount (ploop s)"
  shows "\<exists>s'. pstep s s' \<and> phase s' \<noteq> phase s"
proof (cases "phase s")
  case Prepare
  then show ?thesis using pstep.start_functors[OF Prepare] by fastforce
next
  case (Calling fs)
  then show ?thesis
  proof (cases fs)
    case Nil
    then show ?thesis using pstep.end_functors[of s] Calling by fastforce
  next
    case (Cons f gs)
    then have "phase s = Calling (f # gs)" using Calling by simp
    from pstep.run_functor[OF this, of "[]" False] this show ?thesis by fastforce
  qed
next
  case Testing
  then show ?thesis using pstep.test_quit[OF Testing] pstep.test_continue[OF Testing]
    by (cases "quitFlag (ploop s)") fastforce+
next
  case Polling
  then show ?thesis using pstep.poll_wakeup[OF Polling] assms(2) by fastforce
next
  case Dispatching
  then show ?thesis using pstep.dispatch_done[OF Dispatching] by fastforce
qed (use assms(1) in simp)

lemma prepare_takes:
  "pstep s s' \<Longrightarrow> phase s = Prepare \<Longrightarrow> phase s' = Prepare \<or> phase s' = Calling (pendingFunctors (ploop s))"
  by (induction rule: pstep.induct) simp_all

section \<open>What the protocol promises\<close>

text \<open>
  C16. No lost wake-up. Whenever the loop thread sleeps in its poll while a functor waits or \<open>quit\<close> was
  called, either the eventfd is readable, so that the poll returns, or another thread is between its
  push (or its setting of \<open>quit_\<close>) and the test that will make it write to the eventfd.
\<close>

theorem no_lost_wakeup:
  assumes "preachable s" and "phase s = Polling" and "pendingFunctors (ploop s) \<noteq> [] \<or> quitFlag (ploop s)"
  shows "0 < wakeupCount (ploop s) \<or> (\<exists>t. t \<noteq> owner s \<and> mid s t \<and> EventLoop_needsWakeup t (ploop s))"
proof -
  have inv: "psys_inv s" by (rule preachable_inv[OF assms(1)])
  then have "signalled s" using assms(2,3) by (simp add: psys_inv_def)
  then show ?thesis
    using mid_can_wake[OF inv] inv by (metis signalled_def psys_inv_def)
qed

text \<open>The loop sleeps, and thread 2 queues a functor.\<close>

definition sleeping :: psys where
  "sleeping = (psys_init (fresh_loop libev_ref))\<lparr>phase := Polling\<rparr>"

definition sleeping_pushed :: psys where
  "sleeping_pushed = sleeping\<lparr>ploop := EventLoop_pushPending (F_user 5) (ploop sleeping),
     mid := (mid sleeping)(2 := True)\<rparr>"

lemma sleeping_reachable: "preachable sleeping_pushed"
proof -
  let ?l = "fresh_loop libev_ref"
  let ?s0 = "psys_init ?l"
  let ?s1 = "?s0\<lparr>ploop := ?l\<lparr>callingPendingFunctors := True, pendingFunctors := []\<rparr>, phase := Calling []\<rparr>"
  let ?s2 = "?s0\<lparr>ploop := ?l\<lparr>pendingFunctors := []\<rparr>, phase := Testing\<rparr>"
  have pf: "?l\<lparr>pendingFunctors := []\<rparr> = ?l"
    by (rule EventLoop.equality) simp_all
  have cf: "?l\<lparr>callingPendingFunctors := False\<rparr> = ?l"
    by (rule EventLoop.equality) simp_all
  have "preachable ?s0" by (rule preachable.initial) simp
  moreover have "pstep ?s0 ?s1"
    using pstep.start_functors[of ?s0] by (simp add: psys_init_def EventLoop_takePending_def)
  moreover have "pstep ?s1 ?s2"
    using pstep.end_functors[of ?s1] cf by (simp add: psys_init_def pf)
  moreover have "pstep ?s2 sleeping"
    using pstep.test_continue[of ?s2] by (simp add: psys_init_def sleeping_def pf)
  moreover have "pstep sleeping sleeping_pushed"
    unfolding sleeping_pushed_def
    by (rule pstep.foreign_push) (simp_all add: sleeping_def psys_init_def owner_def)
  ultimately show ?thesis by (meson preachable.step)
qed

lemma no_lost_wakeup_witness:
  "0 < wakeupCount (ploop sleeping_pushed) \<or>
   (\<exists>t. t \<noteq> owner sleeping_pushed \<and> mid sleeping_pushed t \<and> EventLoop_needsWakeup t (ploop sleeping_pushed))"
  by (rule no_lost_wakeup[OF sleeping_reachable]) (simp_all add: sleeping_pushed_def sleeping_def)

text \<open>
  C17. Waiting work is run. However the threads interleave from a reachable state in which a functor waits,
  until the next round begins: the functor stays in the queue; the loop thread makes at most four steps more
  than functors are left in the present round; its next step from there begins a round that runs the
  functor; and it never gets stuck on the way unless it ended because \<open>quit\<close> was called. It can always go on,
  in its poll without any event but a write to the eventfd: either that was written already, or a thread is
  past its push or its \<open>quit\<close> and its next step writes it.
\<close>

theorem waiting_functor_runs:
  assumes "preachable s" and "f \<in> set (pendingFunctors (ploop s))" and "wait_run s n s'"
  shows "f \<in> set (pendingFunctors (ploop s')) \<and>
    n \<le> 4 + (case phase s of Calling fs \<Rightarrow> length fs | _ \<Rightarrow> 0) \<and>
    (\<forall>s''. phase s' = Prepare \<and> pstep s' s'' \<and> phase s'' \<noteq> Prepare \<longrightarrow>
       (\<exists>fs. phase s'' = Calling fs \<and> f \<in> set fs)) \<and>
    (phase s' = Ended \<longrightarrow> quitFlag (ploop s')) \<and>
    (phase s' \<noteq> Ended \<longrightarrow>
       (phase s' = Polling \<longrightarrow> 0 < wakeupCount (ploop s')) \<and> (\<exists>s''. pstep s' s'' \<and> phase s'' \<noteq> phase s') \<or>
       (\<exists>t s''. mid s' t \<and> pstep s' s'' \<and> \<not> mid s'' t \<and> 0 < wakeupCount (ploop s'') \<and> phase s'' = phase s'))"
proof -
  note left = wait_run_left[OF assms(3)]
  have reach: "preachable s'" by (rule wait_run_reachable[OF assms(3,1)])
  have inv: "psys_inv s'" by (rule preachable_inv[OF reach])
  have f: "f \<in> set (pendingFunctors (ploop s'))" using left assms(2) by blast
  have "phase_left (phase s) \<le> 4 + (case phase s of Calling fs \<Rightarrow> length fs | _ \<Rightarrow> 0)" by (cases "phase s") simp_all
  then have n: "n \<le> 4 + (case phase s of Calling fs \<Rightarrow> length fs | _ \<Rightarrow> 0)" using left by linarith
  have commit: "\<exists>t s''. mid s' t \<and> pstep s' s'' \<and> \<not> mid s'' t \<and> 0 < wakeupCount (ploop s'') \<and> phase s'' = phase s'"
    if ph: "phase s' = Polling" "wakeupCount (ploop s') = 0"
  proof -
    have "pendingFunctors (ploop s') \<noteq> []" using f by auto
    then obtain t where t: "mid s' t" using inv by (auto simp: psys_inv_def signalled_def ph)
    from pstep.foreign_wakeup[OF t mid_can_wake[OF inv t]] t show ?thesis
      by (intro exI[of _ t] exI[of _ "s'\<lparr>ploop := EventLoop_wakeup (ploop s'), mid := (mid s')(t := False)\<rparr>"])
        (simp add: EventLoop_wakeup_def ph eventfd_max_def)
  qed
  show ?thesis
    using f n prepare_takes[of s'] preachable_ended[OF reach] loop_moves[of s'] commit
    by (cases "phase s' = Polling \<and> wakeupCount (ploop s') = 0") auto
qed

text \<open>Thread 2 writes to the eventfd after its push, and the loop can go on.\<close>

lemma waiting_functor_runs_witness:
  "\<exists>s n s''. wait_run sleeping_pushed n s \<and> 0 < wakeupCount (ploop s) \<and> pstep s s'' \<and> phase s'' \<noteq> Polling \<and>
     F_user 5 \<in> set (pendingFunctors (ploop s))"
proof -
  have f: "F_user 5 \<in> set (pendingFunctors (ploop sleeping_pushed))" by (simp add: sleeping_pushed_def)
  note T = waiting_functor_runs[OF sleeping_reachable f]
  let ?s = "sleeping_pushed\<lparr>ploop := EventLoop_wakeup (ploop sleeping_pushed), mid := (mid sleeping_pushed)(2 := False)\<rparr>"
  have ph: "phase sleeping_pushed = Polling" by (simp add: sleeping_pushed_def sleeping_def)
  have "mid sleeping_pushed 2" by (simp add: sleeping_pushed_def)
  then have "pstep sleeping_pushed ?s"
    using pstep.foreign_wakeup mid_can_wake[OF preachable_inv[OF sleeping_reachable]] by blast
  from wait_step[OF wait_none this] ph have r: "wait_run sleeping_pushed 0 ?s" by simp
  have none: "\<not> mid ?s t" for t
    by (simp add: sleeping_pushed_def sleeping_def psys_init_def)
  from T[OF r] ph none have "0 < wakeupCount (ploop ?s)" "\<exists>s''. pstep ?s s'' \<and> phase s'' \<noteq> Polling"
    "F_user 5 \<in> set (pendingFunctors (ploop ?s))" by auto
  then show ?thesis using r by blast
qed

end
