(* ===== verification/Timer_Threads.thy ===== *)
theory Timer_Threads
  imports Event_Loop
begin

text \<open>
  Timers of a loop used from several threads (net/TimerQueue.cc, and \<open>runAfter\<close>, \<open>runEvery\<close> and \<open>cancel\<close> of
  net/EventLoop.h, which are declared thread safe). From another thread, \<open>addTimer\<close> allocates the timer,
  queues its start, and then reads the timer's sequence number for the id it returns; the loop may act in between.
  The loop's side is safe; the caller's last read is not.
\<close>

section \<open>The two halves of addTimer\<close>

text \<open>Until \<open>runInLoop\<close> has returned, and the id that is made after it through the pointer.\<close>

definition TimerQueue_postTimer ::
  "libev \<Rightarrow> thread_id \<Rightarrow> timer_ptr \<Rightarrow> Functor \<Rightarrow> real \<Rightarrow> real \<Rightarrow> int64_t \<times> EventLoop \<Rightarrow> (int64_t \<times> EventLoop) res" where
  "TimerQueue_postTimer L tid p cb after interval s =
     (let (n, l) = s;
          (timer, n') = Timer_ctor L cb after interval n
      in bindR (EventLoop_runInLoop (\<lambda>l. l) (\<lambda>f. f) tid (F_addTimerInLoop p) (EventLoop_addTimerInLoop L tid p)
           (l\<lparr>timerHeap := (timerHeap l)(p \<mapsto> timer)\<rparr>)) (\<lambda>l1. Inr (n', l1)))"

definition TimerQueue_newId :: "timer_ptr \<Rightarrow> EventLoop \<Rightarrow> TimerId res" where
  "TimerQueue_newId p l = bindR (deref (timerHeap l) p) (\<lambda>t. Inr (p, sint (timer_sequence t)))"

lemma addTimer_halves:
  "TimerQueue_addTimer L tid p cb after interval s =
    bindR (TimerQueue_postTimer L tid p cb after interval s) (\<lambda>(n, l).
    bindR (TimerQueue_newId p l) (\<lambda>i. Inr (i, n, l)))"
  by (simp add: TimerQueue_addTimer_def TimerQueue_postTimer_def TimerQueue_newId_def Let_def bindR_assoc
      split: prod.splits)

section \<open>Threads\<close>

text \<open>
  Where a thread is in its call of \<open>runAfter\<close> or \<open>runEvery\<close>: not in one; after \<open>runInLoop\<close>, for the timer at
  \<open>p\<close> that got the number \<open>q\<close>; returned with an id; and having read a timer that is gone.
\<close>

datatype caller_pc = C_idle | C_posted timer_ptr int64_t | C_returned TimerId | C_dangling

text \<open>\<open>ts_started\<close> are the numbers of the timers whose \<open>addTimerInLoop\<close> has run.\<close>

record timer_sys =
  ts_loop :: EventLoop
  ts_count :: int64_t
  ts_callers :: "thread_id \<Rightarrow> caller_pc"
  ts_started :: "int64_t set"

fun run_timer_functor :: "libev \<Rightarrow> Functor \<Rightarrow> EventLoop \<Rightarrow> EventLoop res" where
  "run_timer_functor L (F_addTimerInLoop p) l = EventLoop_addTimerInLoop L (threadId l) p l"
| "run_timer_functor L (F_cancelInLoop i) l = EventLoop_cancelInLoop L (threadId l) i l"
| "run_timer_functor L _ l = Inr l"

fun started_by :: "EventLoop \<Rightarrow> Functor \<Rightarrow> int64_t set" where
  "started_by l (F_addTimerInLoop p) = (case timerHeap l p of Some t \<Rightarrow> {timer_sequence t} | None \<Rightarrow> {})"
| "started_by l _ = {}"

text \<open>
  The steps: those of the callers, of the functors at the head of the loop's queue, and of the loop's own thread
  as in \<open>timer_step\<close>. A cancellation may be for any id.
\<close>

inductive timers_step :: "libev \<Rightarrow> timer_sys \<Rightarrow> timer_sys \<Rightarrow> bool" for L where
  caller_posts: "i \<noteq> threadId (ts_loop s) \<Longrightarrow> (\<forall>p q. ts_callers s i \<noteq> C_posted p q) \<Longrightarrow> fresh_timer p (ts_loop s) \<Longrightarrow>
    TimerQueue_postTimer L i p cb after interval (ts_count s, ts_loop s) = Inr (n, l) \<Longrightarrow>
    timers_step L s (s\<lparr>ts_count := n, ts_loop := l, ts_callers := (ts_callers s)(i := C_posted p n)\<rparr>)"
| caller_returns: "ts_callers s i = C_posted p q \<Longrightarrow> TimerQueue_newId p (ts_loop s) = Inr r \<Longrightarrow>
    timers_step L s (s\<lparr>ts_callers := (ts_callers s)(i := C_returned r)\<rparr>)"
| caller_dangles: "ts_callers s i = C_posted p q \<Longrightarrow> TimerQueue_newId p (ts_loop s) = Inl e \<Longrightarrow>
    timers_step L s (s\<lparr>ts_callers := (ts_callers s)(i := C_dangling)\<rparr>)"
| caller_cancels: "i \<noteq> threadId (ts_loop s) \<Longrightarrow> TimerQueue_cancel L i r (ts_loop s) = Inr l \<Longrightarrow>
    timers_step L s (s\<lparr>ts_loop := l\<rparr>)"
| loop_runs: "pendingFunctors (ts_loop s) = f # fs \<Longrightarrow>
    run_timer_functor L f ((ts_loop s)\<lparr>pendingFunctors := fs\<rparr>) = Inr l \<Longrightarrow>
    timers_step L s (s\<lparr>ts_loop := l, ts_started := ts_started s \<union> started_by (ts_loop s) f\<rparr>)"
| loop_acts: "timer_step L (ts_count s, ts_loop s) (n, l) \<Longrightarrow> timers_step L s (s\<lparr>ts_count := n, ts_loop := l\<rparr>)"

definition timers_new :: "EventLoop \<Rightarrow> int64_t \<Rightarrow> timer_sys" where
  "timers_new l n = \<lparr>ts_loop = l, ts_count = n, ts_callers = (\<lambda>_. C_idle), ts_started = {}\<rparr>"

inductive timers_reach :: "libev \<Rightarrow> timer_sys \<Rightarrow> bool" for L where
  timers_begin: "validTimers (timerQueue l) = [] \<Longrightarrow> timerHeap l = (\<lambda>_. None) \<Longrightarrow> pendingFunctors l = [] \<Longrightarrow>
    timers_reach L (timers_new l n)"
| timers_next: "timers_reach L s \<Longrightarrow> timers_step L s s' \<Longrightarrow> timers_reach L s'"

section \<open>The invariant\<close>

text \<open>The timers that wait to be started.\<close>

fun waiting_timers :: "Functor list \<Rightarrow> timer_ptr list" where
  "waiting_timers [] = []"
| "waiting_timers (F_addTimerInLoop p # fs) = p # waiting_timers fs"
| "waiting_timers (_ # fs) = waiting_timers fs"

lemma waiting_timers_append: "waiting_timers (fs @ gs) = waiting_timers fs @ waiting_timers gs"
  by (induction fs rule: waiting_timers.induct) simp_all

definition waiting :: "EventLoop \<Rightarrow> timer_ptr list" where
  "waiting l = waiting_timers (pendingFunctors l)"

text \<open>
  Every allocated timer is registered or waits to be, not both and not twice; and the timer of a caller
  whose functor has not run is the one it made.
\<close>

definition timers_shared :: "EventLoop \<Rightarrow> bool" where
  "timers_shared l \<longleftrightarrow> EventLoop_timers_inv l \<and> distinct (waiting l) \<and>
     dom (timerHeap l) = fst ` set (validTimers (timerQueue l)) \<union> set (waiting l) \<and>
     fst ` set (validTimers (timerQueue l)) \<inter> set (waiting l) = {}"

definition callers_ok :: "timer_sys \<Rightarrow> bool" where
  "callers_ok s \<longleftrightarrow> (\<forall>i p q. ts_callers s i = C_posted p q \<and> q \<notin> ts_started s \<longrightarrow>
     p \<in> set (waiting (ts_loop s)) \<and> (\<exists>t. timerHeap (ts_loop s) p = Some t \<and> timer_sequence t = q))"

text \<open>What a step of the loop's side leaves of the timers that wait.\<close>

definition waiting_kept :: "EventLoop \<Rightarrow> EventLoop \<Rightarrow> bool" where
  "waiting_kept l l' \<longleftrightarrow> (\<forall>p \<in> set (waiting l). \<forall>t. timerHeap l p = Some t \<longrightarrow>
     (\<exists>t'. timerHeap l' p = Some t' \<and> timer_sequence t' = timer_sequence t)) \<and> set (waiting l) \<subseteq> set (waiting l')"

lemma callers_ok_kept:
  assumes "callers_ok s" and "waiting_kept (ts_loop s) l"
  shows "callers_ok (s\<lparr>ts_loop := l\<rparr>)"
  using assms unfolding callers_ok_def waiting_kept_def by (fastforce simp: subset_iff)

text \<open>The loop's timers, seen without those that wait.\<close>

lemma shared_validD:
  assumes "timers_shared l" and "timerHeap l p = Some t" and "p \<notin> set (waiting l)"
  shows "(p, sint (timer_sequence t)) \<in> set (validTimers (timerQueue l))"
proof -
  have "p \<in> fst ` set (validTimers (timerQueue l))" using assms by (auto simp: timers_shared_def)
  then obtain r where r: "(p, r) \<in> set (validTimers (timerQueue l))" by auto
  then have "r = sint (timer_sequence t)"
    using assms(1,2) by (fastforce simp: timers_shared_def EventLoop_timers_inv_def TimerQueue_inv_def)
  then show ?thesis using r by simp
qed

lemma addTimerInLoop_others:
  "EventLoop_addTimerInLoop L t p l = Inr l' \<Longrightarrow> pendingFunctors l' = pendingFunctors l \<and> threadId l' = threadId l"
  by (auto simp: EventLoop_addTimerInLoop_def res_simps)

lemma cancelInLoop_others:
  "EventLoop_cancelInLoop L t i l = Inr l' \<Longrightarrow> pendingFunctors l' = pendingFunctors l \<and> threadId l' = threadId l"
  by (auto simp: EventLoop_cancelInLoop_def res_simps)

lemma postTimer_elsewhere:
  assumes "i \<noteq> threadId l" and "TimerQueue_postTimer L i p cb after interval (n, l) = Inr (n', l')"
  shows "\<exists>t. timer_sequence t = n' \<and> timerHeap l' = (timerHeap l)(p \<mapsto> t) \<and> timerQueue l' = timerQueue l \<and>
    pendingFunctors l' = pendingFunctors l @ [F_addTimerInLoop p] \<and> threadId l' = threadId l"
  using assms by (intro exI[of _ "\<lparr>timeWatcher = timer_set L new_ev_timer after interval, timer_sequence = n + 1, callBack = cb\<rparr>"])
    (auto simp: TimerQueue_postTimer_def Timer_ctor_eq EventLoop_runInLoop_def EventLoop_isInLoopThread_def)

lemma shared_post:
  assumes "timers_shared l" and "i \<noteq> threadId l" and "fresh_timer p l"
    and "TimerQueue_postTimer L i p cb after interval (n, l) = Inr (n', l')"
  shows "timers_shared l' \<and> waiting_kept l l' \<and> p \<in> set (waiting l') \<and> (\<exists>t. timerHeap l' p = Some t \<and> timer_sequence t = n')"
proof -
  obtain t where l': "timer_sequence t = n'" "timerHeap l' = (timerHeap l)(p \<mapsto> t)" "timerQueue l' = timerQueue l"
    "pendingFunctors l' = pendingFunctors l @ [F_addTimerInLoop p]"
    using postTimer_elsewhere[OF assms(2,4)] by blast
  have w: "waiting l' = waiting l @ [p]" by (simp add: waiting_def l' waiting_timers_append)
  have "p \<notin> dom (timerHeap l)" using assms(3) by (simp add: fresh_timer_def domIff)
  then have new: "p \<notin> set (waiting l)" "p \<notin> fst ` set (validTimers (timerQueue l))"
    using assms(1) unfolding timers_shared_def by blast+
  have "EventLoop_timers_inv (l\<lparr>timerHeap := (timerHeap l)(p \<mapsto> t)\<rparr>)"
    by (rule timers_inv_new[OF _ assms(3)]) (use assms(1) in \<open>simp add: timers_shared_def\<close>)
  then have "EventLoop_timers_inv l'" by (simp add: EventLoop_timers_inv_def l')
  then have "timers_shared l'" using assms(1) new by (auto simp: timers_shared_def w l')
  then show ?thesis using l' w new(1) by (auto simp: waiting_kept_def)
qed

text \<open>A functor that starts a timer finds it.\<close>

lemma shared_start:
  assumes "libev_ok L" and "timers_shared l" and "pendingFunctors l = F_addTimerInLoop p # fs"
  shows "\<exists>l' t. timerHeap l p = Some t \<and> EventLoop_addTimerInLoop L (threadId l) p (l\<lparr>pendingFunctors := fs\<rparr>) = Inr l' \<and>
    timers_shared l' \<and> timerHeap l' = (timerHeap l)(p \<mapsto> Timer_start L t) \<and> waiting l = p # waiting l' \<and>
    Timer_isActive (Timer_start L t) \<and> threadId l' = threadId l"
proof -
  have w: "waiting l = p # waiting_timers fs" by (simp add: waiting_def assms(3))
  then have "p \<in> dom (timerHeap l)" using assms(2) by (simp add: timers_shared_def)
  then obtain t where t: "timerHeap l p = Some t" by blast
  have p: "p \<notin> fst ` set (validTimers (timerQueue l))" "p \<notin> set (waiting_timers fs)"
    using assms(2) w by (auto simp: timers_shared_def)
  have inv: "TimerQueue_inv (timerQueue l) (timerHeap l)" using assms(2) by (simp add: timers_shared_def EventLoop_timers_inv_def)
  from addTimerInLoop_ok[OF inv t, of L] p(1) obtain q' where q': "TimerQueue_addTimerInLoop L True p (timerQueue l, timerHeap l) =
      Inr (q', (timerHeap l)(p \<mapsto> Timer_start L t))" "TimerQueue_inv q' ((timerHeap l)(p \<mapsto> Timer_start L t))"
    "set (validTimers q') = insert (p, sint (timer_sequence t)) (set (validTimers (timerQueue l)))" by blast
  let ?l = "l\<lparr>pendingFunctors := fs, timerQueue := q', timerHeap := (timerHeap l)(p \<mapsto> Timer_start L t)\<rparr>"
  have "EventLoop_addTimerInLoop L (threadId l) p (l\<lparr>pendingFunctors := fs\<rparr>) = Inr ?l"
    using q'(1) by (simp add: EventLoop_addTimerInLoop_def EventLoop_isInLoopThread_def)
  moreover have "timers_shared ?l"
    using assms(2) w p q'(2,3) by (auto simp: timers_shared_def EventLoop_timers_inv_def waiting_def)
  moreover have "Timer_isActive (Timer_start L t)" using assms(1) by (simp add: Timer_start_def Timer_isActive_def libev_okD)
  ultimately show ?thesis using t w by (intro exI[of _ ?l] exI[of _ t]) (simp add: waiting_def)
qed

text \<open>A change of a timer that keeps its number.\<close>

lemma shared_update:
  assumes "timers_shared l" and "timerHeap l p = Some t" and "timer_sequence t' = timer_sequence t"
    and "l' = l\<lparr>timerHeap := (timerHeap l)(p \<mapsto> t')\<rparr>"
  shows "timers_shared l' \<and> waiting_kept l l'"
proof -
  have "EventLoop_timers_inv l'"
    using assms by (force simp: timers_shared_def EventLoop_timers_inv_def TimerQueue_inv_def)
  moreover have "dom (timerHeap l') = dom (timerHeap l)" using assms(2,4) by auto
  ultimately have "timers_shared l'" using assms(1,4) by (simp add: timers_shared_def waiting_def)
  moreover have "waiting_kept l l'" using assms(2-4) by (simp add: waiting_kept_def waiting_def)
  ultimately show ?thesis by blast
qed

lemma shared_pop:
  assumes "timers_shared l" and "pendingFunctors l = f # fs" and "\<forall>p. f \<noteq> F_addTimerInLoop p"
  shows "timers_shared (l\<lparr>pendingFunctors := fs\<rparr>) \<and> waiting (l\<lparr>pendingFunctors := fs\<rparr>) = waiting l"
proof -
  have "waiting_timers (f # fs) = waiting_timers fs" using assms(3) by (cases f) simp_all
  then show ?thesis using assms(1,2) by (simp add: timers_shared_def waiting_def EventLoop_timers_inv_def)
qed

lemma shared_cancel:
  assumes "libev_ok L" and "timers_shared l"
  shows "\<exists>l'. EventLoop_cancelInLoop L (threadId l) (p, r) l = Inr l' \<and> timers_shared l' \<and> waiting_kept l l' \<and> threadId l' = threadId l \<and>
    (case timerHeap l p of
       Some t \<Rightarrow> if sint (timer_sequence t) = r \<and> p \<notin> set (waiting l)
         then timerHeap l' = (timerHeap l)(p \<mapsto> Timer_stop L t) \<and> \<not> Timer_isActive (Timer_stop L t)
         else l' = l
     | None \<Rightarrow> l' = l)"
proof (cases "(p, r) \<in> set (validTimers (timerQueue l))")
  case True
  have inv: "EventLoop_timers_inv l" using assms(2) by (simp add: timers_shared_def)
  from cancel_in_loop_valid[OF assms(1) inv refl True] obtain t where t: "timerHeap l p = Some t"
    "TimerQueue_cancel L (threadId l) (p, r) l = Inr (l\<lparr>timerHeap := (timerHeap l)(p \<mapsto> Timer_stop L t)\<rparr>)"
    "\<not> Timer_isActive (Timer_stop L t)" by blast
  have "sint (timer_sequence t) = r" using inv True t(1) by (fastforce simp: EventLoop_timers_inv_def TimerQueue_inv_def)
  moreover have "p \<notin> set (waiting l)" using assms(2) True by (force simp: timers_shared_def)
  ultimately show ?thesis
    using t shared_update[OF assms(2) t(1) _ refl, of "Timer_stop L t"]
    by (simp add: TimerQueue_cancel_def EventLoop_runInLoop_def EventLoop_isInLoopThread_def Timer_stop_def)
next
  case False
  then have "EventLoop_cancelInLoop L (threadId l) (p, r) l = Inr l"
    by (simp add: EventLoop_cancelInLoop_def EventLoop_isInLoopThread_def cancelInLoop_stale)
  moreover have "timerHeap l p = Some t \<Longrightarrow> sint (timer_sequence t) = r \<Longrightarrow> p \<in> set (waiting l)" for t
    using shared_validD[OF assms(2), of p t] False by blast
  ultimately show ?thesis using assms(2) by (auto simp: waiting_kept_def split: option.split)
qed

lemma shared_clear:
  assumes "timers_shared l"
  shows "\<exists>l'. EventLoop_clearExpiredTimer l = Inr l' \<and> timers_shared l' \<and> waiting_kept l l' \<and> threadId l' = threadId l \<and>
    (\<forall>p. timerHeap l' p = (case timerHeap l p of
       Some t \<Rightarrow> if Timer_isActive t \<or> p \<in> set (waiting l) then Some t else None | None \<Rightarrow> None))"
proof -
  let ?q = "timerQueue l" and ?h = "timerHeap l"
  have inv: "TimerQueue_inv ?q ?h" and d: "dom ?h = fst ` set (validTimers ?q) \<union> set (waiting l)"
    and disj: "fst ` set (validTimers ?q) \<inter> set (waiting l) = {}"
    using assms by (simp_all add: timers_shared_def EventLoop_timers_inv_def)
  from clearExpiredTimer_ok[OF inv] obtain h' where h':
    "TimerQueue_clearExpiredTimer (?q, ?h) = Inr (?q\<lparr>validTimers := filter (active_in ?h) (validTimers ?q)\<rparr>, h')"
    "TimerQueue_inv (?q\<lparr>validTimers := filter (active_in ?h) (validTimers ?q)\<rparr>) h'"
    "\<forall>p. h' p = (if p \<in> fst ` set (filter (\<lambda>v. \<not> active_in ?h v) (validTimers ?q)) then None else ?h p)"
    by blast
  let ?l = "l\<lparr>timerQueue := ?q\<lparr>validTimers := filter (active_in ?h) (validTimers ?q)\<rparr>, timerHeap := h'\<rparr>"
  have at: "h' p = (case ?h p of Some t \<Rightarrow> if Timer_isActive t \<or> p \<in> set (waiting l) then Some t else None | None \<Rightarrow> None)" for p
  proof (cases "?h p")
    case None
    then show ?thesis using h'(3) by simp
  next
    case (Some t)
    have "p \<in> fst ` set (filter (\<lambda>v. \<not> active_in ?h v) (validTimers ?q)) \<longleftrightarrow> \<not> Timer_isActive t \<and> p \<notin> set (waiting l)"
      using Some d disj by (fastforce simp: active_in_def domIff set_eq_iff)
    then show ?thesis using Some h'(3) by simp
  qed
  have "dom h' = fst ` set (filter (active_in ?h) (validTimers ?q)) \<union> set (waiting l)"
  proof (intro set_eqI)
    fix p
    show "p \<in> dom h' \<longleftrightarrow> p \<in> fst ` set (filter (active_in ?h) (validTimers ?q)) \<union> set (waiting l)"
    proof (cases "?h p")
      case None
      then show ?thesis using d by (force simp: at active_in_def domIff)
    next
      case (Some t)
      then have "p \<in> fst ` set (validTimers ?q) \<or> p \<in> set (waiting l)" using d by blast
      then show ?thesis using Some by (force simp: at active_in_def domIff)
    qed
  qed
  then have "timers_shared ?l"
    using assms h'(2) disj by (auto simp: timers_shared_def EventLoop_timers_inv_def waiting_def)
  moreover have "waiting_kept l ?l" by (auto simp: waiting_kept_def waiting_def at)
  ultimately show ?thesis using h'(1) at by (intro exI[of _ ?l]) (simp add: EventLoop_clearExpiredTimer_def)
qed

section \<open>Every step\<close>

lemma addTimer_own_thread:
  "TimerQueue_addTimer L (threadId l) p cb after interval (n, l) = Inr (i, n', l') \<Longrightarrow> pendingFunctors l' = pendingFunctors l"
  by (auto simp: TimerQueue_addTimer_def Timer_ctor_eq EventLoop_runInLoop_def EventLoop_isInLoopThread_def res_simps
      dest: addTimerInLoop_others)

lemma shared_timer_step:
  assumes L: "libev_ok L" and "timer_step L (n, l) (n', l')" and S: "timers_shared l"
  shows "timers_shared l' \<and> waiting_kept l l'"
  using assms(2)
proof cases
  case (timer_created p cb after interval timerId)
  have inv: "EventLoop_timers_inv l" using S by (simp add: timers_shared_def)
  from addTimer_in_loop[OF L inv timer_created(1) refl, of cb after interval n] timer_created(2)
  obtain t where t: "EventLoop_timers_inv l'" "timerHeap l' = (timerHeap l)(p \<mapsto> t)"
    "set (validTimers (timerQueue l')) = insert (p, sint (n + 1)) (set (validTimers (timerQueue l)))" by auto
  have w: "waiting l' = waiting l" using addTimer_own_thread[OF timer_created(2)] by (simp add: waiting_def)
  have "p \<notin> dom (timerHeap l)" using timer_created(1) by (simp add: fresh_timer_def domIff)
  then have "p \<notin> set (waiting l)" using S unfolding timers_shared_def by blast
  then show ?thesis using t S by (auto simp: timers_shared_def waiting_kept_def w)
next
  case (timer_cancelled timerId)
  then have "EventLoop_cancelInLoop L (threadId l) timerId l = Inr l'"
    by (simp add: TimerQueue_cancel_def EventLoop_runInLoop_def EventLoop_isInLoopThread_def)
  then show ?thesis using shared_cancel[OF L S, of "fst timerId" "snd timerId"] by auto
next
  case (timer_fired p t)
  then show ?thesis using shared_update[OF S timer_fired(3), of "t\<lparr>timeWatcher := (timeWatcher t)\<lparr>tm_active := False\<rparr>\<rparr>"] by simp
next
  case timers_cleared
  then show ?thesis using shared_clear[OF S] by auto
next
  case timer_elsewhere
  then show ?thesis using S by (simp add: waiting_kept_def)
qed

lemma shared_runs:
  assumes "libev_ok L" and "timers_shared l" and "pendingFunctors l = f # fs"
  shows "\<exists>l'. run_timer_functor L f (l\<lparr>pendingFunctors := fs\<rparr>) = Inr l' \<and> timers_shared l' \<and>
    (\<forall>p \<in> set (waiting l). \<forall>t. timerHeap l p = Some t \<and> timer_sequence t \<notin> started_by l f \<longrightarrow>
       p \<in> set (waiting l') \<and> (\<exists>t'. timerHeap l' p = Some t' \<and> timer_sequence t' = timer_sequence t))"
proof (cases "\<exists>p. f = F_addTimerInLoop p")
  case True
  then obtain p where f: "f = F_addTimerInLoop p" by blast
  from shared_start[OF assms(1,2), of p fs] assms(3) f obtain l' t where l': "timerHeap l p = Some t"
    "EventLoop_addTimerInLoop L (threadId l) p (l\<lparr>pendingFunctors := fs\<rparr>) = Inr l'" "timers_shared l'"
    "timerHeap l' = (timerHeap l)(p \<mapsto> Timer_start L t)" "waiting l = p # waiting l'" by blast
  then show ?thesis using f by (auto intro!: exI[of _ l'])
next
  case False
  let ?l = "l\<lparr>pendingFunctors := fs\<rparr>"
  have pop: "timers_shared ?l" "waiting ?l = waiting l" using shared_pop[OF assms(2,3)] False by blast+
  show ?thesis
  proof (cases "\<exists>p r. f = F_cancelInLoop (p, r)")
    case True
    then obtain p r where f: "f = F_cancelInLoop (p, r)" by blast
    from shared_cancel[OF assms(1) pop(1), of p r] obtain l' where "EventLoop_cancelInLoop L (threadId l) (p, r) ?l = Inr l'"
      "timers_shared l'" "waiting_kept ?l l'" by auto
    then show ?thesis using f pop(2) by (intro exI[of _ l']) (auto simp: waiting_kept_def)
  next
    case no: False
    then have "run_timer_functor L f ?l = Inr ?l" using False by (cases f) auto
    then show ?thesis using pop by auto
  qed
qed

lemma timers_step_inv:
  assumes L: "libev_ok L" and "timers_step L s s'" and S: "timers_shared (ts_loop s)" and C: "callers_ok s"
  shows "timers_shared (ts_loop s') \<and> callers_ok s'"
  using assms(2)
proof cases
  case (caller_posts i p cb after interval n l)
  from shared_post[OF S caller_posts(2,4,5)] have
    "timers_shared l" "waiting_kept (ts_loop s) l" "p \<in> set (waiting l)" "\<exists>t. timerHeap l p = Some t \<and> timer_sequence t = n"
    by auto
  then show ?thesis using callers_ok_kept[OF C, of l] caller_posts(1) by (auto simp: callers_ok_def)
next
  case (caller_cancels i r l)
  then have l: "l = EventLoop_queueInLoop i (F_cancelInLoop r) (ts_loop s)"
    by (simp add: TimerQueue_cancel_def EventLoop_runInLoop_def EventLoop_isInLoopThread_def)
  then have "waiting l = waiting (ts_loop s)" by (simp add: waiting_def waiting_timers_append)
  then have "timers_shared l \<and> waiting_kept (ts_loop s) l"
    using S l by (simp add: timers_shared_def waiting_kept_def EventLoop_timers_inv_def)
  then show ?thesis using callers_ok_kept[OF C] caller_cancels(1) by simp
next
  case (loop_runs f fs l)
  from shared_runs[OF L S loop_runs(2)] loop_runs(3) have "timers_shared l" and
    kept: "\<And>p t. p \<in> set (waiting (ts_loop s)) \<Longrightarrow> timerHeap (ts_loop s) p = Some t \<Longrightarrow>
      timer_sequence t \<notin> started_by (ts_loop s) f \<Longrightarrow>
      p \<in> set (waiting l) \<and> (\<exists>t'. timerHeap l p = Some t' \<and> timer_sequence t' = timer_sequence t)" by auto
  moreover have "callers_ok s'" using C kept unfolding callers_ok_def loop_runs(1) by fastforce
  ultimately show ?thesis using loop_runs(1) by simp
next
  case (loop_acts n l)
  then show ?thesis using shared_timer_step[OF L _ S] callers_ok_kept[OF C, of l] by (auto simp: callers_ok_def)
qed (use S C in \<open>auto simp: callers_ok_def\<close>)

lemma timers_reach_inv:
  assumes "timers_reach L s" and "libev_ok L"
  shows "timers_shared (ts_loop s) \<and> callers_ok s"
  using assms(1)
proof (induction rule: timers_reach.induct)
  case (timers_begin l n)
  then show ?case by (simp add: timers_new_def timers_shared_def callers_ok_def waiting_def EventLoop_timers_inv_def TimerQueue_inv_def)
next
  case (timers_next s s')
  then show ?case using timers_step_inv[OF assms(2)] by blast
qed

section \<open>What is safe\<close>

text \<open>
  C31. The loop's side of timers is safe with callers in other threads. Whatever they do, every allocated timer
  is either registered or waits in the queue to be, so none leaks; the functor at the head of the queue and the
  clearing always find the timers they dereference; clearing frees exactly the registered timers that are no
  longer active; cancelling an id stops its timer once that is registered, but has no effect while the timer
  still waits to be started, whoever made it; and a caller whose functor has not run yet gets the id of its own timer.
\<close>

theorem timers_thread_safe:
  assumes "libev_ok L" and "timers_reach L s"
  defines "l \<equiv> ts_loop s"
  shows "dom (timerHeap l) = fst ` set (validTimers (timerQueue l)) \<union> set (waiting l) \<and>
    (\<forall>f fs. pendingFunctors l = f # fs \<longrightarrow> (\<exists>l'. run_timer_functor L f (l\<lparr>pendingFunctors := fs\<rparr>) = Inr l')) \<and>
    (\<exists>l'. EventLoop_clearExpiredTimer l = Inr l' \<and>
      (\<forall>p. timerHeap l' p = (case timerHeap l p of
         Some t \<Rightarrow> if Timer_isActive t \<or> p \<in> set (waiting l) then Some t else None | None \<Rightarrow> None))) \<and>
    (\<forall>p r. \<exists>l'. EventLoop_cancelInLoop L (threadId l) (p, r) l = Inr l' \<and>
      (case timerHeap l p of
         Some t \<Rightarrow> if sint (timer_sequence t) = r \<and> p \<notin> set (waiting l)
           then timerHeap l' = (timerHeap l)(p \<mapsto> Timer_stop L t) \<and> \<not> Timer_isActive (Timer_stop L t)
           else l' = l
       | None \<Rightarrow> l' = l)) \<and>
    (\<forall>i p q. ts_callers s i = C_posted p q \<and> q \<notin> ts_started s \<longrightarrow> TimerQueue_newId p l = Inr (p, sint q))"
proof -
  have S: "timers_shared l" and C: "callers_ok s" using timers_reach_inv[OF assms(2,1)] by (simp_all add: l_def)
  have "\<forall>i p q. ts_callers s i = C_posted p q \<and> q \<notin> ts_started s \<longrightarrow>
      (\<exists>t. timerHeap l p = Some t \<and> timer_sequence t = q)" using C unfolding callers_ok_def l_def by fast
  then have own: "\<forall>i p q. ts_callers s i = C_posted p q \<and> q \<notin> ts_started s \<longrightarrow> TimerQueue_newId p l = Inr (p, sint q)"
    by (fastforce simp: TimerQueue_newId_def deref_def)
  have clear: "\<exists>l'. EventLoop_clearExpiredTimer l = Inr l' \<and>
      (\<forall>p. timerHeap l' p = (case timerHeap l p of
         Some t \<Rightarrow> if Timer_isActive t \<or> p \<in> set (waiting l) then Some t else None | None \<Rightarrow> None))"
    using shared_clear[OF S] by blast
  have "\<forall>f fs. pendingFunctors l = f # fs \<longrightarrow> (\<exists>l'. run_timer_functor L f (l\<lparr>pendingFunctors := fs\<rparr>) = Inr l')"
    using shared_runs[OF assms(1) S] by blast
  moreover have "dom (timerHeap l) = fst ` set (validTimers (timerQueue l)) \<union> set (waiting l)"
    using S by (simp add: timers_shared_def)
  ultimately show ?thesis
    by (intro conjI clear own) (assumption+, use shared_cancel[OF assms(1) S] in blast)
qed

section \<open>What is not\<close>

text \<open>A registered one-shot timer ends, and the loop clears it.\<close>

abbreviation timers_steps :: "libev \<Rightarrow> timer_sys \<Rightarrow> timer_sys \<Rightarrow> bool" where
  "timers_steps L \<equiv> (timers_step L)\<^sup>*\<^sup>*"

lemma timers_reach_steps: "timers_steps L s s' \<Longrightarrow> timers_reach L s \<Longrightarrow> timers_reach L s'"
  by (induction rule: rtranclp_induct) (auto intro: timers_next)

lemma cleared_when_inactive:
  assumes "timers_reach L s" and "libev_ok L" and "timerHeap (ts_loop s) p = Some t" and "p \<notin> set (waiting (ts_loop s))"
    and "\<not> Timer_isActive t" and "pendingFunctors (ts_loop s) = []"
  shows "\<exists>l'. timers_step L s (s\<lparr>ts_loop := l'\<rparr>) \<and> timerHeap l' p = None \<and> threadId l' = threadId (ts_loop s) \<and>
    pendingFunctors l' = []"
proof -
  let ?l = "ts_loop s"
  have S: "timers_shared ?l" using timers_reach_inv[OF assms(1,2)] by blast
  from shared_clear[OF S] obtain l' where l': "EventLoop_clearExpiredTimer ?l = Inr l'" "threadId l' = threadId ?l"
    "\<forall>p. timerHeap l' p = (case timerHeap ?l p of
       Some t \<Rightarrow> if Timer_isActive t \<or> p \<in> set (waiting ?l) then Some t else None | None \<Rightarrow> None)" by blast
  have "pendingFunctors l' = pendingFunctors ?l" using l'(1) by (auto simp: EventLoop_clearExpiredTimer_def res_simps)
  moreover have "timerHeap l' p = None" using l'(3) assms(3-5) by simp
  moreover have "timers_step L s (s\<lparr>ts_loop := l'\<rparr>)"
    using loop_acts[of L s "ts_count s" l', OF timer_step.timers_cleared] l'(1) by simp
  ultimately show ?thesis using l'(2) assms(6) by auto
qed

lemma timer_gone:
  assumes "timers_reach L s" and "libev_ok L" and "timerHeap (ts_loop s) p = Some t" and "waiting (ts_loop s) = []"
    and "Timer_isActive t" and "tm_repeat (timeWatcher t) = 0" and "pendingFunctors (ts_loop s) = []"
  shows "\<exists>l'. timers_steps L s (s\<lparr>ts_loop := l'\<rparr>) \<and> timerHeap l' p = None \<and> threadId l' = threadId (ts_loop s) \<and>
    pendingFunctors l' = []"
proof -
  let ?l = "ts_loop s" and ?t = "t\<lparr>timeWatcher := (timeWatcher t)\<lparr>tm_active := False\<rparr>\<rparr>"
  let ?l1 = "?l\<lparr>timerHeap := (timerHeap ?l)(p \<mapsto> ?t)\<rparr>" and ?s1 = "s\<lparr>ts_loop := ?l\<lparr>timerHeap := (timerHeap ?l)(p \<mapsto> ?t)\<rparr>\<rparr>"
  have st: "timers_step L s ?s1" using loop_acts[OF timer_fired[OF assms(3,5,6), of L "ts_count s"]] by simp
  then have r1: "timers_reach L ?s1" using assms(1) timers_next by blast
  from cleared_when_inactive[OF r1 assms(2), of p ?t] assms(4,7) obtain l' where
    "timers_step L ?s1 (?s1\<lparr>ts_loop := l'\<rparr>)" "timerHeap l' p = None" "threadId l' = threadId ?l" "pendingFunctors l' = []"
    by (auto simp: waiting_def Timer_isActive_def)
  then show ?thesis using st by (intro exI[of _ l']) auto
qed

text \<open>
  The first half of \<open>runAfter\<close> and of \<open>runEvery\<close> in another thread than the loop's; the second half is to
  make the id.
\<close>

definition posts :: "libev \<Rightarrow> thread_id \<Rightarrow> timer_ptr \<Rightarrow> Functor \<Rightarrow> real \<Rightarrow> real \<Rightarrow> timer_sys \<Rightarrow> timer_sys \<Rightarrow> bool" where
  "posts L i p cb after interval s s' \<longleftrightarrow>
     (\<exists>n l. TimerQueue_postTimer L i p cb after interval (ts_count s, ts_loop s) = Inr (n, l) \<and>
        s' = s\<lparr>ts_count := n, ts_loop := l, ts_callers := (ts_callers s)(i := C_posted p n)\<rparr> \<and> timers_step L s s')"

abbreviation runAfter_posts :: "libev \<Rightarrow> thread_id \<Rightarrow> timer_ptr \<Rightarrow> real \<Rightarrow> Functor \<Rightarrow> timer_sys \<Rightarrow> timer_sys \<Rightarrow> bool" where
  "runAfter_posts L i p delay cb \<equiv> posts L i p cb delay 0"

abbreviation runEvery_posts :: "libev \<Rightarrow> thread_id \<Rightarrow> timer_ptr \<Rightarrow> real \<Rightarrow> Functor \<Rightarrow> timer_sys \<Rightarrow> timer_sys \<Rightarrow> bool" where
  "runEvery_posts L i p interval cb \<equiv> posts L i p cb 0 interval"

lemma runAfter_halves:
  "EventLoop_runAfter L tid p delay cb s =
    bindR (TimerQueue_postTimer L tid p cb delay 0 s) (\<lambda>(n, l). bindR (TimerQueue_newId p l) (\<lambda>i. Inr (i, n, l)))"
  "EventLoop_runEvery L tid p interval cb s =
    bindR (TimerQueue_postTimer L tid p cb 0 interval s) (\<lambda>(n, l). bindR (TimerQueue_newId p l) (\<lambda>i. Inr (i, n, l)))"
  by (simp_all add: EventLoop_runAfter_def EventLoop_runEvery_def addTimer_halves)

text \<open>A caller posts a timer, and the loop starts it at once.\<close>

lemma post_and_start:
  assumes "timers_reach libev_ref s" and "i \<noteq> threadId (ts_loop s)" and "\<forall>p q. ts_callers s i \<noteq> C_posted p q"
    and "fresh_timer p (ts_loop s)" and "pendingFunctors (ts_loop s) = []"
  shows "\<exists>s1 s2 t. posts libev_ref i p cb after interval s s1 \<and> timers_steps libev_ref s1 s2 \<and>
    ts_callers s1 = (ts_callers s)(i := C_posted p (ts_count s + 1)) \<and> ts_callers s2 = ts_callers s1 \<and>
    timers_reach libev_ref s2 \<and> timerHeap (ts_loop s2) p = Some t \<and> timer_sequence t = ts_count s + 1 \<and> callBack t = cb \<and>
    Timer_isActive t \<and> tm_repeat (timeWatcher t) = interval \<and>
    pendingFunctors (ts_loop s2) = [] \<and> waiting (ts_loop s2) = [] \<and> threadId (ts_loop s2) = threadId (ts_loop s)"
proof -
  let ?L = libev_ref
  let ?t = "\<lparr>timeWatcher = timer_set ?L new_ev_timer after interval, timer_sequence = ts_count s + 1, callBack = cb\<rparr>"
  let ?l = "EventLoop_queueInLoop i (F_addTimerInLoop p) ((ts_loop s)\<lparr>timerHeap := (timerHeap (ts_loop s))(p \<mapsto> ?t)\<rparr>)"
  let ?s = "s\<lparr>ts_count := ts_count s + 1, ts_loop := ?l, ts_callers := (ts_callers s)(i := C_posted p (ts_count s + 1))\<rparr>"
  have post: "TimerQueue_postTimer ?L i p cb after interval (ts_count s, ts_loop s) = Inr (ts_count s + 1, ?l)"
    using assms(2) by (simp add: TimerQueue_postTimer_def Timer_ctor_eq EventLoop_runInLoop_def EventLoop_isInLoopThread_def)
  have st: "timers_step ?L s ?s" by (rule caller_posts[OF assms(2,3,4) post])
  then have r1: "timers_reach ?L ?s" using assms(1) timers_next by blast
  have q: "pendingFunctors ?l = [F_addTimerInLoop p]" by (simp add: assms(5))
  from shared_start[OF libev_ref_ok _ q] timers_reach_inv[OF r1 libev_ref_ok] obtain l' where l':
    "EventLoop_addTimerInLoop ?L (threadId ?l) p (?l\<lparr>pendingFunctors := []\<rparr>) = Inr l'"
    "timerHeap l' = (timerHeap ?l)(p \<mapsto> Timer_start ?L ?t)" "threadId l' = threadId ?l" "Timer_isActive (Timer_start ?L ?t)"
    by auto
  have p': "pendingFunctors l' = []" using addTimerInLoop_others[OF l'(1)] by simp
  let ?s' = "?s\<lparr>ts_loop := l', ts_started := ts_started ?s \<union> started_by ?l (F_addTimerInLoop p)\<rparr>"
  have go: "timers_step ?L ?s ?s'" using loop_runs[of ?s "F_addTimerInLoop p" "[]" ?L l'] q l'(1) by simp
  have rep: "tm_repeat (timeWatcher (Timer_start ?L ?t)) = interval" by (simp add: Timer_start_def libev_ref_def)
  have "posts ?L i p cb after interval s ?s" unfolding posts_def using post st by blast
  then show ?thesis
    using l' p' go r1 timers_next[OF r1 go] rep
    by (intro exI[of _ ?s] exI[of _ ?s'] exI[of _ "Timer_start ?L ?t"]) (simp add: Timer_start_def waiting_def r_into_rtranclp)
qed

text \<open>A thread cancels an id, and the loop runs that and clears the timer.\<close>

lemma cancel_and_clear:
  assumes "timers_reach libev_ref s" and "i \<noteq> threadId (ts_loop s)" and "timerHeap (ts_loop s) p = Some t"
    and "pendingFunctors (ts_loop s) = []"
  shows "\<exists>l l'. TimerQueue_cancel libev_ref i (p, sint (timer_sequence t)) (ts_loop s) = Inr l \<and>
    timers_step libev_ref s (s\<lparr>ts_loop := l\<rparr>) \<and> timers_steps libev_ref (s\<lparr>ts_loop := l\<rparr>) (s\<lparr>ts_loop := l'\<rparr>) \<and> timerHeap l' p = None"
proof -
  let ?L = libev_ref and ?r = "(p, sint (timer_sequence t))" and ?base = "ts_loop s"
  let ?l = "EventLoop_queueInLoop i (F_cancelInLoop ?r) ?base" and ?s = "s\<lparr>ts_loop := EventLoop_queueInLoop i (F_cancelInLoop (p, sint (timer_sequence t))) (ts_loop s)\<rparr>"
  have c: "TimerQueue_cancel ?L i ?r ?base = Inr ?l"
    using assms(2) by (simp add: TimerQueue_cancel_def EventLoop_runInLoop_def EventLoop_isInLoopThread_def)
  have st: "timers_step ?L s ?s" using caller_cancels[OF assms(2) c] .
  then have r1: "timers_reach ?L ?s" using assms(1) timers_next by blast
  let ?l1 = "?l\<lparr>pendingFunctors := []\<rparr>"
  have q: "pendingFunctors ?l = [F_cancelInLoop ?r]" by (simp add: assms(4))
  have S: "timers_shared ?l" using timers_reach_inv[OF r1 libev_ref_ok] by simp
  have pop: "timers_shared ?l1" "waiting ?l1 = waiting ?l" using shared_pop[OF S q] by auto
  have w: "waiting ?l = []" unfolding waiting_def q by simp
  from shared_cancel[OF libev_ref_ok pop(1), of p "sint (timer_sequence t)"] assms(3) w pop(2) obtain l2 where l2:
    "EventLoop_cancelInLoop ?L (threadId ?l1) ?r ?l1 = Inr l2" "timers_shared l2"
    "timerHeap l2 = (timerHeap ?l1)(p \<mapsto> Timer_stop ?L t)" "\<not> Timer_isActive (Timer_stop ?L t)"
    by (auto simp: assms(3))
  have p2: "pendingFunctors l2 = []" using cancelInLoop_others[OF l2(1)] by simp
  have go: "timers_step ?L ?s (s\<lparr>ts_loop := l2\<rparr>)" using loop_runs[of ?s "F_cancelInLoop ?r" "[]" ?L l2] q l2(1) by simp
  then have r2: "timers_reach ?L (s\<lparr>ts_loop := l2\<rparr>)" using r1 timers_next by blast
  from cleared_when_inactive[OF r2 libev_ref_ok, of p "Timer_stop ?L t"] l2 p2 obtain l' where
    "timers_step ?L (s\<lparr>ts_loop := l2\<rparr>) (s\<lparr>ts_loop := l'\<rparr>)" "timerHeap l' p = None" by (auto simp: waiting_def)
  then show ?thesis using c st go by (intro exI[of _ ?l] exI[of _ l']) auto
qed

text \<open>
  C32. \<open>runAfter\<close> and \<open>runEvery\<close> are not thread safe. A thread \<open>i\<close> calls \<open>runAfter\<close>, and the loop starts, runs and
  deletes the one-shot timer before the caller reads its number: read now, it is freed memory. Or another
  thread \<open>j\<close> calls \<open>runEvery\<close> and gets the same address for its timer, which the loop starts: then the first caller
  returns the id of that active, periodic timer. When it cancels by this id what it takes for its own timer, the loop
  stops and deletes the timer of \<open>j\<close>; and where \<open>j\<close> has not read its number yet, that read is of freed memory too.
\<close>

theorem timer_id_races:
  assumes "i \<noteq> 1" and "j \<noteq> 1" and "i \<noteq> j" and "0 < every"
  defines "s0 \<equiv> timers_new (fresh_loop libev_ref) 0"
  shows "\<exists>s1 s2 s3 s4 s5 t l s6 q.
    runAfter_posts libev_ref i p delay cb s0 s1 \<and> timers_steps libev_ref s1 s2 \<and>
    ts_callers s2 = ts_callers s1 \<and> TimerQueue_newId p (ts_loop s2) = Inl NullPointer \<and>
    runEvery_posts libev_ref j p every cb' s2 s3 \<and> timers_steps libev_ref s3 s4 \<and> ts_callers s4 = ts_callers s3 \<and>
    timerHeap (ts_loop s4) p = Some t \<and> callBack t = cb' \<and> Timer_isActive t \<and> tm_repeat (timeWatcher t) = every \<and>
    TimerQueue_newId p (ts_loop s4) = Inr (p, sint (timer_sequence t)) \<and>
    timers_step libev_ref s4 s5 \<and> s5 = s4\<lparr>ts_callers := (ts_callers s4)(i := C_returned (p, sint (timer_sequence t)))\<rparr> \<and>
    TimerQueue_cancel libev_ref i (p, sint (timer_sequence t)) (ts_loop s5) = Inr l \<and>
    timers_step libev_ref s5 (s5\<lparr>ts_loop := l\<rparr>) \<and> timers_steps libev_ref (s5\<lparr>ts_loop := l\<rparr>) s6 \<and>
    ts_callers s6 j = C_posted p q \<and> TimerQueue_newId p (ts_loop s6) = Inl NullPointer"
proof -
  let ?L = libev_ref
  have r0: "timers_reach ?L s0" unfolding s0_def by (rule timers_begin) simp_all
  have th: "threadId (ts_loop s0) = 1" by (simp add: s0_def timers_new_def)
  have i0: "i \<noteq> threadId (ts_loop s0)" using th assms(1) by simp
  have pre: "\<forall>p q. ts_callers s0 i \<noteq> C_posted p q" "fresh_timer p (ts_loop s0)"
    "pendingFunctors (ts_loop s0) = []" "ts_callers s0 j = C_idle"
    by (simp_all add: s0_def timers_new_def fresh_timer_def)
  from post_and_start[OF r0 i0 pre(1-3), of cb delay 0] obtain s1 u t1 where
    s1: "runAfter_posts ?L i p delay cb s0 s1" "ts_callers s1 = (ts_callers s0)(i := C_posted p (ts_count s0 + 1))"
    and u: "timers_steps ?L s1 u" "ts_callers u = ts_callers s1" "timers_reach ?L u" "timerHeap (ts_loop u) p = Some t1"
      "Timer_isActive t1" "tm_repeat (timeWatcher t1) = 0" "pendingFunctors (ts_loop u) = []" "waiting (ts_loop u) = []"
      "threadId (ts_loop u) = 1"
    using th by auto
  from timer_gone[OF u(3) libev_ref_ok u(4,8,5,6,7)] u(9) obtain l2 where
    l2: "timers_steps ?L u (u\<lparr>ts_loop := l2\<rparr>)" "timerHeap l2 p = None" "threadId l2 = 1" "pendingFunctors l2 = []"
    by auto
  let ?s2 = "u\<lparr>ts_loop := l2\<rparr>"
  have s2: "timers_steps ?L s1 ?s2" "timers_reach ?L ?s2" using u(1,3) l2(1) timers_reach_steps by auto
  have j2: "j \<noteq> threadId (ts_loop ?s2)" "\<forall>p q. ts_callers ?s2 j \<noteq> C_posted p q" "fresh_timer p (ts_loop ?s2)"
    "pendingFunctors (ts_loop ?s2) = []"
    using l2 assms(2,3) pre(4) u(2) s1(2) by (simp_all add: fresh_timer_def)
  from post_and_start[OF s2(2) j2, of cb' 0 every] obtain s3 s4 t where
    s3: "runEvery_posts ?L j p every cb' ?s2 s3" "ts_callers s3 = (ts_callers ?s2)(j := C_posted p (ts_count ?s2 + 1))"
    and s4: "timers_steps ?L s3 s4" "ts_callers s4 = ts_callers s3" "timers_reach ?L s4" "timerHeap (ts_loop s4) p = Some t"
      "callBack t = cb'" "Timer_isActive t" "tm_repeat (timeWatcher t) = every" "pendingFunctors (ts_loop s4) = []"
      "threadId (ts_loop s4) = 1"
    using l2(3) by auto
  let ?r = "(p, sint (timer_sequence t))"
  have newId: "TimerQueue_newId p (ts_loop s4) = Inr ?r" using s4(4) by (simp add: TimerQueue_newId_def deref_def)
  have "ts_callers s4 i = C_posted p (ts_count s0 + 1)" using s4(2) s3(2) u(2) s1(2) assms(3) by simp
  from caller_returns[OF this newId] have s5: "timers_step ?L s4 (s4\<lparr>ts_callers := (ts_callers s4)(i := C_returned ?r)\<rparr>)"
    (is "timers_step _ _ ?s5") .
  then have r5: "timers_reach ?L ?s5" using s4(3) timers_next by blast
  from cancel_and_clear[OF r5, of i p t] s4(4,8,9) assms(1) obtain l l' where
    l: "TimerQueue_cancel ?L i ?r (ts_loop ?s5) = Inr l" "timers_step ?L ?s5 (?s5\<lparr>ts_loop := l\<rparr>)"
    "timers_steps ?L (?s5\<lparr>ts_loop := l\<rparr>) (?s5\<lparr>ts_loop := l'\<rparr>)" "timerHeap l' p = None" by auto
  have dead: "TimerQueue_newId p (ts_loop ?s2) = Inl NullPointer" "TimerQueue_newId p (ts_loop (?s5\<lparr>ts_loop := l'\<rparr>)) = Inl NullPointer"
    using l2(2) l(4) by (simp_all add: TimerQueue_newId_def deref_def)
  have cj: "ts_callers (?s5\<lparr>ts_loop := l'\<rparr>) j = C_posted p (ts_count ?s2 + 1)" using s4(2) s3(2) assms(3) by simp
  have "ts_callers ?s2 = ts_callers s1" using u(2) by simp
  then show ?thesis using s1(1) s2(1) dead s3(1) s4 newId s5 l cj
    by (intro exI[of _ s1] exI[of _ ?s2] exI[of _ s3] exI[of _ s4] exI[of _ ?s5] exI[of _ t] exI[of _ l]
        exI[of _ "?s5\<lparr>ts_loop := l'\<rparr>"] exI[of _ "ts_count ?s2 + 1"]) blast
qed

lemma timer_id_races_witness:
  "\<exists>s1 s2 s3. runAfter_posts libev_ref 2 9 (1 / 100) (F_user 2) (timers_new (fresh_loop libev_ref) 0) s1 \<and>
     timers_steps libev_ref s1 s2 \<and> TimerQueue_newId 9 (ts_loop s2) = Inl NullPointer \<and>
     runEvery_posts libev_ref 3 9 5 (F_user 3) s2 s3"
  using timer_id_races[where i = 2 and j = 3 and every = 5 and p = 9 and delay = "1 / 100" and cb = "F_user 2" and cb' = "F_user 3"] by auto

text \<open>Two timers, one registered and one that waits.\<close>

lemma timers_thread_safe_witness:
  "\<exists>(s :: timer_sys) l'. ts_callers s 2 = C_posted 9 1 \<and> EventLoop_clearExpiredTimer (ts_loop s) = Inr l' \<and>
    dom (timerHeap (ts_loop s)) = fst ` set (validTimers (timerQueue (ts_loop s))) \<union> set (waiting (ts_loop s)) \<and> 9 \<in> dom (timerHeap (ts_loop s))"
proof -
  let ?s0 = "timers_new (fresh_loop libev_ref) 0"
  have r0: "timers_reach libev_ref ?s0" by (rule timers_begin) simp_all
  have pre: "2 \<noteq> threadId (ts_loop ?s0)" "\<forall>p q. ts_callers ?s0 2 \<noteq> C_posted p q" "fresh_timer 9 (ts_loop ?s0)"
    "pendingFunctors (ts_loop ?s0) = []" by (simp_all add: timers_new_def fresh_timer_def)
  obtain s t where s: "timers_reach libev_ref s" "ts_callers s = (ts_callers ?s0)(2 := C_posted 9 (ts_count ?s0 + 1))"
    "timerHeap (ts_loop s) 9 = Some t"
    using post_and_start[where cb = "F_user 2", OF r0 pre] by metis
  have "ts_callers s 2 = C_posted 9 1" using s(2) by (simp add: timers_new_def)
  moreover from timers_thread_safe[OF libev_ref_ok s(1)] obtain l' where "EventLoop_clearExpiredTimer (ts_loop s) = Inr l'"
    "dom (timerHeap (ts_loop s)) = fst ` set (validTimers (timerQueue (ts_loop s))) \<union> set (waiting (ts_loop s))" by (elim conjE exE)
  moreover have "9 \<in> dom (timerHeap (ts_loop s))" using s(3) by (simp add: domIff)
  ultimately show ?thesis by (intro exI[of _ s] exI[of _ l'] conjI)
qed

end
