(* ===== verification/Byte_Buffer.thy ===== *)
theory Byte_Buffer
  imports Prelude
begin

text \<open>
  \<open>simplev::net::Buffer\<close> (net/Buffer.h, net/Buffer.cc): a byte vector with a read and a write index.
  Indices are machine words and every assertion, \<open>std::vector\<close> limit and memory access of the code is
  a branch of the model. The abstraction \<open>Buffer_bytes\<close> is the readable part; the lemmas show that the
  class is a byte queue with room for a prepended header.
\<close>

section \<open>State\<close>

definition kCheapPrepend :: size_t where "kCheapPrepend = 8"
definition kInitialSize :: size_t where "kInitialSize = 1024"

record Buffer =
  buffer :: "char list"
  readerIndex :: size_t
  writerIndex :: size_t

definition Buffer_ctor :: Buffer where
  "Buffer_ctor =
     \<lparr>buffer = replicate (unat (kCheapPrepend + kInitialSize)) (CHR 0x00),
      readerIndex = kCheapPrepend, writerIndex = kCheapPrepend\<rparr>"

definition Buffer_swap :: "Buffer \<Rightarrow> Buffer \<Rightarrow> Buffer \<times> Buffer" where
  "Buffer_swap lhs rhs =
     (lhs\<lparr>buffer := buffer rhs, readerIndex := readerIndex rhs, writerIndex := writerIndex rhs\<rparr>,
      rhs\<lparr>buffer := buffer lhs, readerIndex := readerIndex lhs, writerIndex := writerIndex lhs\<rparr>)"

definition Buffer_readableBytes :: "Buffer \<Rightarrow> size_t" where
  "Buffer_readableBytes b = writerIndex b - readerIndex b"

definition Buffer_writableBytes :: "Buffer \<Rightarrow> size_t" where
  "Buffer_writableBytes b = sizeof_list (buffer b) - writerIndex b"

definition Buffer_prependableBytes :: "Buffer \<Rightarrow> size_t" where
  "Buffer_prependableBytes b = readerIndex b"

text \<open>Pointers into the vector are offsets from \<open>begin()\<close>.\<close>

definition Buffer_peek :: "Buffer \<Rightarrow> size_t" where
  "Buffer_peek b = readerIndex b"

definition Buffer_beginWrite :: "Buffer \<Rightarrow> size_t" where
  "Buffer_beginWrite b = writerIndex b"

section \<open>Taking bytes out\<close>

definition Buffer_retrieve :: "size_t \<Rightarrow> Buffer \<Rightarrow> Buffer res" where
  "Buffer_retrieve len b =
     ensure (len \<le> Buffer_readableBytes b) AssertFailed
       (Inr (b\<lparr>readerIndex := readerIndex b + len\<rparr>))"

definition Buffer_retrieveUntil :: "size_t \<Rightarrow> Buffer \<Rightarrow> Buffer res" where
  "Buffer_retrieveUntil e b =
     ensure (Buffer_peek b \<le> e) AssertFailed
       (ensure (e \<le> Buffer_beginWrite b) AssertFailed
         (Buffer_retrieve (e - Buffer_peek b) b))"

definition Buffer_retrieveAll :: "Buffer \<Rightarrow> Buffer" where
  "Buffer_retrieveAll b = b\<lparr>readerIndex := kCheapPrepend, writerIndex := kCheapPrepend\<rparr>"

text \<open>\<open>std::string(peek(), readableBytes())\<close> reads the vector; outside it the read is an error.\<close>

definition Buffer_string :: "Buffer \<Rightarrow> string res" where
  "Buffer_string b =
     read_range (buffer b) (unat (Buffer_peek b)) (unat (Buffer_readableBytes b))"

definition Buffer_retrieveAsString :: "Buffer \<Rightarrow> (string \<times> Buffer) res" where
  "Buffer_retrieveAsString b =
     bindR (Buffer_string b) (\<lambda>str. Inr (str, Buffer_retrieveAll b))"

section \<open>Putting bytes in\<close>

definition Buffer_hasWritten :: "size_t \<Rightarrow> Buffer \<Rightarrow> Buffer" where
  "Buffer_hasWritten len b = b\<lparr>writerIndex := writerIndex b + len\<rparr>"

definition Buffer_makeSpace :: "size_t \<Rightarrow> Buffer \<Rightarrow> Buffer res" where
  "Buffer_makeSpace len b =
     (if Buffer_writableBytes b + Buffer_prependableBytes b < len + kCheapPrepend
      then bindR (resize_list (CHR 0x00) (buffer b) (unat (writerIndex b + len)))
             (\<lambda>xs. Inr (b\<lparr>buffer := xs\<rparr>))
      else ensure (kCheapPrepend < readerIndex b) AssertFailed
             (let readable = Buffer_readableBytes b in
              bindR (read_range (buffer b) (unat (readerIndex b)) (unat readable)) (\<lambda>ys.
              bindR (copy_into (buffer b) (unat kCheapPrepend) ys) (\<lambda>xs.
              let b' = b\<lparr>buffer := xs, readerIndex := kCheapPrepend,
                         writerIndex := kCheapPrepend + readable\<rparr>
              in ensure (readable = Buffer_readableBytes b') AssertFailed (Inr b')))))"

definition Buffer_ensureWritableBytes :: "size_t \<Rightarrow> Buffer \<Rightarrow> Buffer res" where
  "Buffer_ensureWritableBytes len b =
     bindR (if Buffer_writableBytes b < len then Buffer_makeSpace len b else Inr b) (\<lambda>b'.
     ensure (Buffer_writableBytes b' \<ge> len) AssertFailed (Inr b'))"

definition Buffer_append :: "char list \<Rightarrow> Buffer \<Rightarrow> Buffer res" where
  "Buffer_append data b =
     bindR (Buffer_ensureWritableBytes (sizeof_list data) b) (\<lambda>b1.
     bindR (copy_into (buffer b1) (unat (Buffer_beginWrite b1)) data) (\<lambda>xs.
     Inr (Buffer_hasWritten (sizeof_list data) (b1\<lparr>buffer := xs\<rparr>))))"

definition Buffer_prepend :: "char list \<Rightarrow> Buffer \<Rightarrow> Buffer res" where
  "Buffer_prepend data b =
     ensure (sizeof_list data \<le> Buffer_prependableBytes b) AssertFailed
       (let r = readerIndex b - sizeof_list data in
        bindR (copy_into (buffer b) (unat r) data) (\<lambda>xs.
        Inr (b\<lparr>buffer := xs, readerIndex := r\<rparr>)))"

definition Buffer_shrink :: "size_t \<Rightarrow> Buffer \<Rightarrow> Buffer res" where
  "Buffer_shrink reserve b =
     bindR (resize_list (CHR 0x00) [] (unat (kCheapPrepend + Buffer_readableBytes b + reserve))) (\<lambda>buf.
     bindR (read_range (buffer b) (unat (Buffer_peek b)) (unat (Buffer_readableBytes b))) (\<lambda>ys.
     bindR (copy_into buf (unat kCheapPrepend) ys) (\<lambda>buf'.
     Inr (b\<lparr>buffer := buf'\<rparr>))))"

text \<open>
  \<open>readv(2)\<close> on the connection: the bytes that wait in the socket (none of them: end of file), of
  which the call delivers as many as the two areas hold, or a failure with its \<open>errno\<close>.
\<close>

datatype readv_result = Waiting "char list" | Read_failed int

definition extrabuf_size :: nat where "extrabuf_size = 65536"

text \<open>
  \<open>Buffer::readFd\<close> returns the result of the call, the saved \<open>errno\<close> (0: untouched), the new buffer
  and what stays in the socket.
\<close>

definition Buffer_readFd ::
  "readv_result \<Rightarrow> Buffer \<Rightarrow> (int \<times> int \<times> Buffer \<times> char list) res" where
  "Buffer_readFd rv b =
     (case rv of
        Read_failed e \<Rightarrow> Inr (-1, e, b, [])
      | Waiting queue \<Rightarrow>
          (let writable = Buffer_writableBytes b;
               got = take (unat writable + extrabuf_size) queue;
               n = length got
           in bindR (copy_into (buffer b) (unat (writerIndex b)) (take (unat writable) got)) (\<lambda>xs.
              bindR (if (of_nat n :: size_t) \<le> writable
                     then Inr (b\<lparr>buffer := xs, writerIndex := writerIndex b + of_nat n\<rparr>)
                     else Buffer_append (drop (unat writable) got)
                            (b\<lparr>buffer := xs, writerIndex := sizeof_list xs\<rparr>)) (\<lambda>b'.
              Inr (int n, 0, b', drop n queue)))))"

section \<open>Invariant and abstraction\<close>

definition Buffer_inv :: "Buffer \<Rightarrow> bool" where
  "Buffer_inv b \<longleftrightarrow>
     unat (readerIndex b) \<le> unat (writerIndex b) \<and>
     unat (writerIndex b) \<le> length (buffer b) \<and>
     8 \<le> unat (writerIndex b) \<and> length (buffer b) \<le> max_size"

text \<open>The readable bytes, in order: what the class promises to be.\<close>

definition Buffer_bytes :: "Buffer \<Rightarrow> char list" where
  "Buffer_bytes b =
     take (unat (writerIndex b) - unat (readerIndex b)) (drop (unat (readerIndex b)) (buffer b))"

text \<open>A byte string the vector still has room to grow for.\<close>

definition Buffer_fits :: "char list \<Rightarrow> Buffer \<Rightarrow> bool" where
  "Buffer_fits data b \<longleftrightarrow> unat (writerIndex b) + length data \<le> max_size"

lemma unat_kCheapPrepend [simp]: "unat kCheapPrepend = 8"
  by (simp add: kCheapPrepend_def)

lemma unat_readable [size_simps]:
  "Buffer_inv b \<Longrightarrow>
   unat (Buffer_readableBytes b) = unat (writerIndex b) - unat (readerIndex b)"
  by (simp add: Buffer_readableBytes_def Buffer_inv_def word_le_nat_alt size_simps)

lemma unat_writable [size_simps]:
  "Buffer_inv b \<Longrightarrow>
   unat (Buffer_writableBytes b) = length (buffer b) - unat (writerIndex b)"
  by (simp add: Buffer_writableBytes_def Buffer_inv_def word_le_nat_alt size_simps)

lemma length_Buffer_bytes:
  "Buffer_inv b \<Longrightarrow> length (Buffer_bytes b) = unat (Buffer_readableBytes b)"
  by (auto simp: Buffer_bytes_def size_simps) (auto simp: Buffer_inv_def)

lemma Buffer_bytes_bound: "Buffer_inv b \<Longrightarrow> length (Buffer_bytes b) \<le> max_size"
  by (auto simp: length_Buffer_bytes size_simps) (auto simp: Buffer_inv_def)

lemma readable_zero_iff:
  "Buffer_inv b \<Longrightarrow> Buffer_readableBytes b = 0 \<longleftrightarrow> Buffer_bytes b = []"
  using length_Buffer_bytes[of b] by (auto simp: size_eq_nat)

lemma Buffer_string_ok: "Buffer_inv b \<Longrightarrow> Buffer_string b = Inr (Buffer_bytes b)"
  by (auto simp: Buffer_string_def read_range_def Buffer_peek_def Buffer_bytes_def size_simps)
     (auto simp: Buffer_inv_def)

section \<open>Operations: no failure, invariant, effect on the readable bytes\<close>

lemma Buffer_ctor_ok: "Buffer_inv Buffer_ctor" "Buffer_bytes Buffer_ctor = []"
  by (simp_all add: Buffer_inv_def Buffer_ctor_def Buffer_bytes_def kCheapPrepend_def
        kInitialSize_def)

lemma Buffer_retrieve_ok:
  assumes inv: "Buffer_inv b" and len: "unat len \<le> length (Buffer_bytes b)"
  defines "b' \<equiv> b\<lparr>readerIndex := readerIndex b + len\<rparr>"
  shows "Buffer_retrieve len b = Inr b'" "Buffer_inv b'"
    "Buffer_bytes b' = drop (unat len) (Buffer_bytes b)"
proof -
  have le: "unat len \<le> unat (writerIndex b) - unat (readerIndex b)"
    using len inv by (simp add: length_Buffer_bytes size_simps)
  have r: "unat (readerIndex b + len) = unat (readerIndex b) + unat len"
    using le inv by (intro unat_plus_size) (auto simp: Buffer_inv_def)
  show "Buffer_retrieve len b = Inr b'"
    using le inv by (simp add: Buffer_retrieve_def b'_def word_le_nat_alt size_simps)
  show "Buffer_inv b'"
    using le inv by (auto simp: Buffer_inv_def b'_def r)
  show "Buffer_bytes b' = drop (unat len) (Buffer_bytes b)"
    using r by (simp add: Buffer_bytes_def b'_def drop_take add.commute[of "unat len"])
qed

lemma Buffer_retrieve_Inr:
  assumes "Buffer_inv b" and "Buffer_retrieve len b = Inr b'"
  shows "Buffer_inv b'" "Buffer_bytes b' = drop (unat len) (Buffer_bytes b)"
    "unat len \<le> length (Buffer_bytes b)"
proof -
  show le: "unat len \<le> length (Buffer_bytes b)"
    using assms by (simp add: Buffer_retrieve_def res_simps length_Buffer_bytes word_le_nat_alt)
  show "Buffer_inv b'" "Buffer_bytes b' = drop (unat len) (Buffer_bytes b)"
    using Buffer_retrieve_ok[OF assms(1) le] assms(2) by simp_all
qed

lemma Buffer_retrieveAll_ok:
  assumes "Buffer_inv b"
  shows "Buffer_inv (Buffer_retrieveAll b)" "Buffer_bytes (Buffer_retrieveAll b) = []"
  using assms by (simp_all add: Buffer_inv_def Buffer_retrieveAll_def Buffer_bytes_def)

lemma Buffer_retrieveAsString_ok:
  "Buffer_inv b \<Longrightarrow> Buffer_retrieveAsString b = Inr (Buffer_bytes b, Buffer_retrieveAll b)"
  by (simp add: Buffer_retrieveAsString_def Buffer_string_ok)

text \<open>The branch of \<open>makeSpace\<close> that enlarges the vector.\<close>

lemma makeSpace_grow:
  assumes inv: "Buffer_inv b" and short: "unat (Buffer_writableBytes b) < unat len"
    and cond: "Buffer_writableBytes b + Buffer_prependableBytes b < len + kCheapPrepend"
    and room: "unat (writerIndex b) + unat len \<le> max_size"
  shows "\<exists>b'. Buffer_makeSpace len b = Inr b' \<and> Buffer_inv b' \<and> Buffer_bytes b' = Buffer_bytes b \<and>
    unat len \<le> unat (Buffer_writableBytes b') \<and> writerIndex b' = writerIndex b"
proof -
  have n: "unat (writerIndex b + len) = unat (writerIndex b) + unat len"
    using room by (simp add: size_simps)
  define xs where "xs = take (unat (writerIndex b) + unat len) (buffer b) @
    replicate (unat (writerIndex b) + unat len - length (buffer b)) (CHR 0x00)"
  have long: "length (buffer b) \<le> unat (writerIndex b) + unat len"
    using short inv by (simp add: size_simps)
  have lxs: "length xs = unat (writerIndex b) + unat len"
    using long by (simp add: xs_def)
  have eq: "Buffer_makeSpace len b = Inr (b\<lparr>buffer := xs\<rparr>)"
    using cond room by (simp add: Buffer_makeSpace_def resize_list_def n xs_def)
  have inv': "Buffer_inv (b\<lparr>buffer := xs\<rparr>)"
    using inv lxs room by (simp add: Buffer_inv_def)
  have bytes: "Buffer_bytes (b\<lparr>buffer := xs\<rparr>) = Buffer_bytes b"
    using long inv by (simp add: Buffer_bytes_def xs_def Buffer_inv_def)
  show ?thesis
    using eq inv' bytes lxs by (auto simp: size_simps)
qed

text \<open>The branch that moves the readable bytes to the front; its assertions hold.\<close>

lemma makeSpace_move:
  assumes inv: "Buffer_inv b" and short: "unat (Buffer_writableBytes b) < unat len"
    and cond: "\<not> Buffer_writableBytes b + Buffer_prependableBytes b < len + kCheapPrepend"
    and len: "unat len \<le> max_size"
  shows "\<exists>b'. Buffer_makeSpace len b = Inr b' \<and> Buffer_inv b' \<and> Buffer_bytes b' = Buffer_bytes b \<and>
    unat len \<le> unat (Buffer_writableBytes b') \<and> unat (writerIndex b') \<le> unat (writerIndex b) \<and>
    length (buffer b') = length (buffer b)"
proof -
  let ?r = "unat (readerIndex b)" and ?w = "unat (writerIndex b)" and ?L = "length (buffer b)"
  have facts: "?r \<le> ?w" "?w \<le> ?L" "8 \<le> ?w" "?L \<le> max_size"
    using inv by (simp_all add: Buffer_inv_def)
  have sum: "unat (Buffer_writableBytes b + Buffer_prependableBytes b) = ?L - ?w + ?r"
    using facts inv by (simp add: Buffer_prependableBytes_def size_simps)
  have lenw: "unat (len + kCheapPrepend) = unat len + 8"
    using len by (simp add: size_simps)
  have enough: "unat len + 8 \<le> ?L - ?w + ?r"
    using cond by (simp add: word_less_nat_alt sum lenw)
  have short': "?L - ?w < unat len"
    using short inv by (simp add: size_simps)
  have r8: "8 < ?r"
    using enough short' by linarith
  define ys where "ys = Buffer_bytes b"
  have ly: "length ys = ?w - ?r"
    using inv by (simp add: ys_def length_Buffer_bytes size_simps)
  define xs where "xs = take 8 (buffer b) @ ys @ drop (8 + length ys) (buffer b)"
  have lxs: "length xs = ?L"
    using facts r8 by (simp add: xs_def ly)
  define b' where "b' = b\<lparr>buffer := xs, readerIndex := kCheapPrepend,
    writerIndex := kCheapPrepend + Buffer_readableBytes b\<rparr>"
  have w': "unat (kCheapPrepend + Buffer_readableBytes b) = 8 + (?w - ?r)"
    using facts inv by (simp add: size_simps)
  have readable: "Buffer_readableBytes b = Buffer_readableBytes b'"
    by (simp add: b'_def Buffer_readableBytes_def)
  have rd: "read_range (buffer b) ?r (unat (Buffer_readableBytes b)) = Inr ys"
    using Buffer_string_ok[OF inv] by (simp add: Buffer_string_def Buffer_peek_def ys_def)
  have cp: "copy_into (buffer b) 8 ys = Inr xs"
    using facts r8 by (simp add: copy_into_ok ly xs_def)
  have eq: "Buffer_makeSpace len b = Inr b'"
    using cond r8 readable
    by (simp add: Buffer_makeSpace_def word_less_nat_alt rd cp Let_def b'_def)
  have inv': "Buffer_inv b'"
    using facts r8 by (auto simp: b'_def Buffer_inv_def w' lxs)
  have bytes: "Buffer_bytes b' = ys"
    using facts r8 by (simp add: b'_def Buffer_bytes_def w' xs_def ly)
  have wb: "unat (Buffer_writableBytes b') = ?L - (8 + (?w - ?r))"
    using inv' by (simp add: size_simps) (simp add: b'_def w' lxs)
  show ?thesis
    using eq inv' bytes wb enough facts r8 lxs w' by (auto simp: ys_def b'_def)
qed

lemma ensureWritableBytes_ok:
  assumes inv: "Buffer_inv b" and room: "unat (writerIndex b) + unat len \<le> max_size"
  shows "\<exists>b'. Buffer_ensureWritableBytes len b = Inr b' \<and> Buffer_inv b' \<and>
    Buffer_bytes b' = Buffer_bytes b \<and> unat len \<le> unat (Buffer_writableBytes b') \<and>
    unat (writerIndex b') \<le> unat (writerIndex b)"
proof (cases "Buffer_writableBytes b < len")
  case True
  then have short: "unat (Buffer_writableBytes b) < unat len"
    by (simp add: word_less_nat_alt)
  obtain b' where "Buffer_makeSpace len b = Inr b'" "Buffer_inv b'"
    "Buffer_bytes b' = Buffer_bytes b" "unat len \<le> unat (Buffer_writableBytes b')"
    "unat (writerIndex b') \<le> unat (writerIndex b)"
    using makeSpace_grow[OF inv short _ room] makeSpace_move[OF inv short] room by force
  then show ?thesis
    using True by (simp add: Buffer_ensureWritableBytes_def word_le_nat_alt)
next
  case False
  then show ?thesis
    using inv by (simp add: Buffer_ensureWritableBytes_def word_le_nat_alt word_less_nat_alt)
qed

text \<open>Beyond \<open>max_size()\<close> bytes the vector throws; there is no other failure.\<close>

lemma ensureWritableBytes_cases:
  assumes inv: "Buffer_inv b" and len: "unat len \<le> max_size"
  shows "Buffer_ensureWritableBytes len b = Inl LengthError \<or>
    (\<exists>b'. Buffer_ensureWritableBytes len b = Inr b' \<and> Buffer_inv b' \<and>
      Buffer_bytes b' = Buffer_bytes b \<and> unat len \<le> unat (Buffer_writableBytes b') \<and>
      unat (writerIndex b') \<le> unat (writerIndex b))"
proof (cases "unat (writerIndex b) + unat len \<le> max_size")
  case True
  then show ?thesis using ensureWritableBytes_ok[OF inv] by blast
next
  case False
  then have short: "unat (Buffer_writableBytes b) < unat len"
    using inv by (simp add: size_simps) (auto simp: Buffer_inv_def)
  show ?thesis
  proof (cases "Buffer_writableBytes b + Buffer_prependableBytes b < len + kCheapPrepend")
    case True
    have "unat (writerIndex b + len) = unat (writerIndex b) + unat len"
      using inv len by (intro unat_plus_size) (auto simp: Buffer_inv_def)
    then have "Buffer_makeSpace len b = Inl LengthError"
      using True False by (simp add: Buffer_makeSpace_def resize_list_def)
    then show ?thesis
      using short by (simp add: Buffer_ensureWritableBytes_def word_less_nat_alt)
  next
    case no: False
    show ?thesis
      using makeSpace_move[OF inv short no len] short
      by (auto simp: Buffer_ensureWritableBytes_def word_less_nat_alt word_le_nat_alt)
  qed
qed

lemma append_after_ensure:
  assumes e: "Buffer_ensureWritableBytes (sizeof_list data) b = Inr b1" and inv: "Buffer_inv b1"
    and room: "length data \<le> unat (Buffer_writableBytes b1)"
  shows "\<exists>b'. Buffer_append data b = Inr b' \<and> Buffer_inv b' \<and>
    Buffer_bytes b' = Buffer_bytes b1 @ data \<and>
    unat (writerIndex b') = unat (writerIndex b1) + length data"
proof -
  let ?r = "unat (readerIndex b1)" and ?w = "unat (writerIndex b1)"
  have facts: "?r \<le> ?w" "8 \<le> ?w" "?w + length data \<le> length (buffer b1)"
    "length (buffer b1) \<le> max_size"
    using inv room by (auto simp: size_simps) (auto simp: Buffer_inv_def)
  have ld: "unat (sizeof_list data) = length data"
    using facts by (simp add: size_simps)
  define xs where "xs = take ?w (buffer b1) @ data @ drop (?w + length data) (buffer b1)"
  define b' where "b' = b1\<lparr>buffer := xs, writerIndex := writerIndex b1 + sizeof_list data\<rparr>"
  have w': "unat (writerIndex b1 + sizeof_list data) = ?w + length data"
    using facts ld by (simp add: size_simps)
  have "Buffer_append data b = Inr b'"
    using facts by (simp add: Buffer_append_def e Buffer_beginWrite_def copy_into_ok
        Buffer_hasWritten_def b'_def xs_def)
  moreover have "length xs = length (buffer b1)"
    using facts by (simp add: xs_def)
  then have "Buffer_inv b'"
    using facts by (simp add: b'_def Buffer_inv_def w')
  moreover have "Buffer_bytes b' = Buffer_bytes b1 @ data"
    using facts by (simp add: b'_def Buffer_bytes_def w' xs_def drop_take)
  ultimately show ?thesis
    using w' by (simp add: b'_def)
qed

lemma Buffer_append_cases:
  assumes inv: "Buffer_inv b" and len: "length data \<le> max_size"
  shows "Buffer_append data b = Inl LengthError \<or>
    (\<exists>b'. Buffer_append data b = Inr b' \<and> Buffer_inv b' \<and> Buffer_bytes b' = Buffer_bytes b @ data)"
proof -
  have ld: "unat (sizeof_list data) = length data"
    using len by (simp add: size_simps)
  have "unat (sizeof_list data) \<le> max_size"
    using len ld by simp
  from ensureWritableBytes_cases[OF inv this] show ?thesis
  proof
    assume "Buffer_ensureWritableBytes (sizeof_list data) b = Inl LengthError"
    then show ?thesis by (simp add: Buffer_append_def)
  next
    assume "\<exists>b'. Buffer_ensureWritableBytes (sizeof_list data) b = Inr b' \<and> Buffer_inv b' \<and>
      Buffer_bytes b' = Buffer_bytes b \<and> unat (sizeof_list data) \<le> unat (Buffer_writableBytes b') \<and>
      unat (writerIndex b') \<le> unat (writerIndex b)"
    then show ?thesis using append_after_ensure by (metis ld)
  qed
qed

lemma Buffer_append_ok:
  assumes inv: "Buffer_inv b" and fits: "Buffer_fits data b"
  shows "\<exists>b'. Buffer_append data b = Inr b' \<and> Buffer_inv b' \<and>
    Buffer_bytes b' = Buffer_bytes b @ data \<and>
    unat (writerIndex b') \<le> unat (writerIndex b) + length data"
proof -
  have ld: "unat (sizeof_list data) = length data"
    using fits by (simp add: Buffer_fits_def size_simps)
  have room: "unat (writerIndex b) + unat (sizeof_list data) \<le> max_size"
    using fits by (simp only: ld) (simp add: Buffer_fits_def)
  show ?thesis
    using ensureWritableBytes_ok[OF inv room] append_after_ensure[of data b] by (fastforce simp: ld)
qed

lemma Buffer_prepend_ok:
  assumes inv: "Buffer_inv b" and len: "length data \<le> unat (Buffer_prependableBytes b)"
  shows "\<exists>b'. Buffer_prepend data b = Inr b' \<and> Buffer_inv b' \<and>
    Buffer_bytes b' = data @ Buffer_bytes b"
proof -
  let ?r = "unat (readerIndex b)" and ?w = "unat (writerIndex b)"
  have facts: "length data \<le> ?r" "?r \<le> ?w" "8 \<le> ?w" "?w \<le> length (buffer b)"
    "length (buffer b) \<le> max_size"
    using inv len by (auto simp: Buffer_inv_def Buffer_prependableBytes_def)
  have ld: "unat (sizeof_list data) = length data"
    using facts by (simp add: size_simps)
  have le: "sizeof_list data \<le> readerIndex b"
    using facts by (simp add: word_le_nat_alt ld)
  have r': "unat (readerIndex b - sizeof_list data) = ?r - length data"
    using le by (simp add: size_simps ld)
  define xs where "xs = take (?r - length data) (buffer b) @ data @ drop ?r (buffer b)"
  define b' where "b' = b\<lparr>buffer := xs, readerIndex := readerIndex b - sizeof_list data\<rparr>"
  have "Buffer_prepend data b = Inr b'"
    using facts le by (simp add: Buffer_prepend_def Buffer_prependableBytes_def copy_into_def r'
        b'_def xs_def)
  moreover have "Buffer_inv b'"
    using facts by (auto simp: b'_def Buffer_inv_def r' xs_def)
  moreover have "Buffer_bytes b' = data @ Buffer_bytes b"
    using facts by (simp add: b'_def Buffer_bytes_def r' xs_def)
  ultimately show ?thesis by blast
qed

lemma Buffer_readFd_cases:
  fixes queue :: "char list"
  assumes inv: "Buffer_inv b"
  defines "n \<equiv> min (length queue) (unat (Buffer_writableBytes b) + extrabuf_size)"
  shows "Buffer_readFd (Waiting queue) b = Inl LengthError \<and> max_size < length (buffer b) + extrabuf_size \<or>
    (\<exists>b'. Buffer_readFd (Waiting queue) b = Inr (int n, 0, b', drop n queue) \<and> Buffer_inv b' \<and>
      Buffer_bytes b' = Buffer_bytes b @ take n queue)"
proof -
  let ?r = "unat (readerIndex b)" and ?w = "unat (writerIndex b)"
  let ?wr = "unat (Buffer_writableBytes b)"
  let ?got = "take (?wr + extrabuf_size) queue"
  have facts: "?r \<le> ?w" "8 \<le> ?w" "?w + ?wr = length (buffer b)" "length (buffer b) \<le> max_size"
    using inv by (auto simp: size_simps) (auto simp: Buffer_inv_def)
  have n: "length ?got = n"
    by (simp add: n_def)
  have got: "?got = take n queue"
    by (auto simp: n_def min_def)
  have nle: "n \<le> ?wr + extrabuf_size"
    by (simp add: n_def)
  have un: "unat (of_nat n :: size_t) = n"
    using nle facts by (intro unat_of_nat_size) (simp add: extrabuf_size_def)
  define ys where "ys = take ?wr ?got"
  define xs where "xs = take ?w (buffer b) @ ys @ drop (?w + length ys) (buffer b)"
  have lys: "length ys = min n ?wr"
    using n by (simp add: ys_def)
  have lxs: "length xs = length (buffer b)"
    using facts lys by (simp add: xs_def)
  have cp: "copy_into (buffer b) ?w ys = Inr xs"
    using facts lys by (simp add: copy_into_ok xs_def)
  have bytes_gen: "take (?w - ?r + length ys) (drop ?r xs) = Buffer_bytes b @ ys"
    using facts by (simp add: xs_def Buffer_bytes_def drop_take)
  show ?thesis
  proof (cases "n \<le> ?wr")
    case True
    define b' where "b' = b\<lparr>buffer := xs, writerIndex := writerIndex b + of_nat n\<rparr>"
    have w': "unat (writerIndex b + of_nat n) = ?w + n"
      using True facts un by (simp add: size_simps)
    have ys': "ys = take n queue" "length ys = n"
      using True n got by (simp_all add: ys_def)
    have "copy_into (buffer b) ?w ?got = Inr xs"
      using cp ys'(1) got by simp
    then have "Buffer_readFd (Waiting queue) b = Inr (int n, 0, b', drop n queue)"
      using True by (simp add: Buffer_readFd_def Let_def n un
          word_le_nat_alt b'_def del: length_take take_take)
    moreover have "Buffer_inv b'"
      using True facts by (simp add: b'_def Buffer_inv_def w' lxs)
    moreover have "Buffer_bytes b' = Buffer_bytes b @ take n queue"
    proof -
      have "?w + n - ?r = ?w - ?r + length ys"
        using facts(1) ys'(2) by linarith
      then have "Buffer_bytes b' = take (?w - ?r + length ys) (drop ?r xs)"
        by (simp add: b'_def Buffer_bytes_def w')
      also have "\<dots> = Buffer_bytes b @ ys" by (rule bytes_gen)
      finally show ?thesis by (simp only: ys'(1))
    qed
    ultimately show ?thesis by blast
  next
    case False
    define b1 where "b1 = b\<lparr>buffer := xs, writerIndex := sizeof_list xs\<rparr>"
    let ?rest = "drop ?wr ?got"
    have w1: "unat (of_nat (length (buffer b)) :: size_t) = length (buffer b)"
      using facts by (simp add: size_simps)
    have inv1: "Buffer_inv b1"
      using facts by (auto simp: b1_def Buffer_inv_def w1 lxs)
    have rest: "length ?rest \<le> max_size"
      using nle by (simp add: extrabuf_size_def)
    have fits: "Buffer_fits ?rest b1" if "length (buffer b) + extrabuf_size \<le> max_size"
      using that nle n facts by (simp add: Buffer_fits_def b1_def w1 lxs)
    have run: "Buffer_readFd (Waiting queue) b =
        bindR (Buffer_append ?rest b1) (\<lambda>b'. Inr (int n, 0, b', drop n queue))"
      using False by (simp add: Buffer_readFd_def Let_def n un cp[unfolded ys_def]
          word_le_nat_alt b1_def del: length_take take_take)
    have lys': "length ys = ?wr"
      using False lys by simp
    have "Buffer_bytes b1 = Buffer_bytes b @ ys"
    proof -
      have "length (buffer b) - ?r = ?w - ?r + length ys"
        using facts(1,3) lys' by linarith
      then have "Buffer_bytes b1 = take (?w - ?r + length ys) (drop ?r xs)"
        by (simp add: b1_def Buffer_bytes_def w1 lxs)
      then show ?thesis by (simp only: bytes_gen)
    qed
    then have bytes1: "Buffer_bytes b1 @ ?rest = Buffer_bytes b @ take n queue"
      by (simp only: ys_def got append.assoc append_take_drop_id)
    show ?thesis
    proof (cases "Buffer_append ?rest b1 = Inl LengthError")
      case True
      then have "\<not> length (buffer b) + extrabuf_size \<le> max_size"
        using Buffer_append_ok[OF inv1 fits] by force
      then show ?thesis using run True by simp
    next
      case False
      then obtain b' where "Buffer_append ?rest b1 = Inr b'" "Buffer_inv b'" "Buffer_bytes b' = Buffer_bytes b1 @ ?rest"
        using Buffer_append_cases[OF inv1 rest] by blast
      then show ?thesis using run bytes1 by simp
    qed
  qed
qed

lemma Buffer_readFd_ok:
  fixes queue :: "char list"
  assumes inv: "Buffer_inv b" and room: "length (buffer b) + extrabuf_size \<le> max_size"
  defines "n \<equiv> min (length queue) (unat (Buffer_writableBytes b) + extrabuf_size)"
  shows "\<exists>b'. Buffer_readFd (Waiting queue) b = Inr (int n, 0, b', drop n queue) \<and> Buffer_inv b' \<and>
    Buffer_bytes b' = Buffer_bytes b @ take n queue"
  using Buffer_readFd_cases[OF inv, of queue] room unfolding n_def by simp


text \<open>A failed read leaves the buffer as it was and saves \<open>errno\<close>.\<close>

lemma Buffer_readFd_failed: "Buffer_readFd (Read_failed e) b = Inr (-1, e, b, [])"
  by (simp add: Buffer_readFd_def)

text \<open>
  \<open>shrink\<close> copies the readable bytes to \<open>kCheapPrepend\<close> of a new vector and swaps the vectors, but
  leaves both indices as they were: it is correct exactly where the readable bytes already start there.
\<close>

lemma shrink_vector:
  assumes inv: "Buffer_inv b"
    and room: "8 + length (Buffer_bytes b) + unat reserve \<le> max_size"
  shows "Buffer_shrink reserve b =
    Inr (b\<lparr>buffer := replicate 8 (CHR 0x00) @ Buffer_bytes b @ replicate (unat reserve) (CHR 0x00)\<rparr>)"
proof -
  let ?n = "length (Buffer_bytes b)"
  have n: "unat (Buffer_readableBytes b) = ?n"
    using inv by (simp add: length_Buffer_bytes)
  have k: "unat (kCheapPrepend + Buffer_readableBytes b) = 8 + ?n"
    using room n by (subst unat_plus_size) simp_all
  have total: "unat (kCheapPrepend + Buffer_readableBytes b + reserve) = 8 + ?n + unat reserve"
    using room k by (subst unat_plus_size) simp_all
  have rd: "read_range (buffer b) (unat (Buffer_peek b)) ?n = Inr (Buffer_bytes b)"
    using Buffer_string_ok[OF inv] by (simp add: Buffer_string_def n)
  show ?thesis
    using room by (simp add: Buffer_shrink_def resize_list_def total n rd copy_into_def)
qed

lemma Buffer_shrink_aligned:
  assumes inv: "Buffer_inv b" and start: "readerIndex b = kCheapPrepend"
    and room: "8 + length (Buffer_bytes b) + unat reserve \<le> max_size"
  shows "\<exists>b'. Buffer_shrink reserve b = Inr b' \<and> Buffer_inv b' \<and> Buffer_bytes b' = Buffer_bytes b \<and>
    unat (Buffer_writableBytes b') = unat reserve"
proof -
  let ?b = "b\<lparr>buffer := replicate 8 (CHR 0x00) @ Buffer_bytes b @ replicate (unat reserve) (CHR 0x00)\<rparr>"
  have w: "unat (writerIndex b) = 8 + length (Buffer_bytes b)"
    using inv start by (simp add: length_Buffer_bytes size_simps) (simp add: Buffer_inv_def)
  have inv': "Buffer_inv ?b"
    using room w start by (simp add: Buffer_inv_def)
  moreover have "Buffer_bytes ?b = Buffer_bytes b"
    by (simp add: Buffer_bytes_def[of ?b] w start)
  moreover have "unat (Buffer_writableBytes ?b) = unat reserve"
    using inv' by (simp add: size_simps w)
  ultimately show ?thesis using shrink_vector[OF inv room] by blast
qed

lemma Buffer_shrink_misaligned:
  assumes inv: "Buffer_inv b"
    and room: "8 + length (Buffer_bytes b) + unat reserve \<le> max_size"
    and off: "8 + unat reserve < unat (readerIndex b)"
  shows "\<exists>b'. Buffer_shrink reserve b = Inr b' \<and> length (buffer b') < unat (writerIndex b')"
proof -
  have "unat (writerIndex b) = unat (readerIndex b) + length (Buffer_bytes b)"
    using inv by (simp add: length_Buffer_bytes size_simps) (simp add: Buffer_inv_def)
  then show ?thesis using shrink_vector[OF inv room] off by simp
qed

section \<open>The byte-queue interface\<close>

text \<open>
  A sequence of operations on a byte queue given by its \<open>put\<close> and \<open>get\<close>: what comes out is read off the
  contents before each \<open>get\<close>, as the code reads at \<open>peek()\<close> before it retrieves.
\<close>

fun queue_run :: "(char list \<Rightarrow> 'b \<Rightarrow> 'b res) \<Rightarrow> (size_t \<Rightarrow> 'b \<Rightarrow> 'b res) \<Rightarrow> ('b \<Rightarrow> char list) \<Rightarrow>
    (char list + size_t) list \<Rightarrow> 'b \<Rightarrow> (char list \<times> 'b) res" where
  "queue_run put get bytes [] b = Inr ([], b)"
| "queue_run put get bytes (Inl d # ops) b = bindR (put d b) (queue_run put get bytes ops)"
| "queue_run put get bytes (Inr n # ops) b =
     bindR (get n b) (\<lambda>b'.
     bindR (queue_run put get bytes ops b') (\<lambda>(out, b'').
     Inr (take (unat n) (bytes b) @ out, b'')))"

fun queue_puts :: "(char list + size_t) list \<Rightarrow> char list" where
  "queue_puts [] = []"
| "queue_puts (Inl d # ops) = d @ queue_puts ops"
| "queue_puts (Inr n # ops) = queue_puts ops"

text \<open>
  The same operations on the contents alone, the abstract queue: what comes out in all and what is left, or
  nothing when a \<open>get\<close> asks for more than is there.
\<close>

fun queue_spec :: "(char list + size_t) list \<Rightarrow> char list \<Rightarrow> (char list \<times> char list) option" where
  "queue_spec [] xs = Some ([], xs)"
| "queue_spec (Inl d # ops) xs = queue_spec ops (xs @ d)"
| "queue_spec (Inr n # ops) xs =
     (if unat n \<le> length xs
      then map_option (\<lambda>(out, left). (take (unat n) xs @ out, left)) (queue_spec ops (drop (unat n) xs))
      else None)"

text \<open>
  What the connection relies on: \<open>put\<close> appends, \<open>get\<close> drops a prefix no longer than the contents, and
  neither loses or reorders a byte. \<open>used\<close> bounds how far the provider can still grow.
\<close>

locale byte_queue =
  fixes inv :: "'b \<Rightarrow> bool"
    and bytes :: "'b \<Rightarrow> char list"
    and used :: "'b \<Rightarrow> nat"
    and put :: "char list \<Rightarrow> 'b \<Rightarrow> 'b res"
    and get :: "size_t \<Rightarrow> 'b \<Rightarrow> 'b res"
  assumes put_ok: "inv b \<Longrightarrow> used b + length d \<le> max_size \<Longrightarrow>
      \<exists>b'. put d b = Inr b' \<and> inv b' \<and> bytes b' = bytes b @ d \<and> used b' \<le> used b + length d"
    and get_ok: "inv b \<Longrightarrow> unat n \<le> length (bytes b) \<Longrightarrow>
      \<exists>b'. get n b = Inr b' \<and> inv b' \<and> bytes b' = drop (unat n) (bytes b) \<and> used b' = used b"
    and get_too_much: "inv b \<Longrightarrow> length (bytes b) < unat n \<Longrightarrow> get n b = Inl AssertFailed"
begin

lemma run_refines:
  assumes "inv b" and "used b + length (queue_puts ops) \<le> max_size"
  shows "case queue_spec ops (bytes b) of
      None \<Rightarrow> queue_run put get bytes ops b = Inl AssertFailed
    | Some (out, left) \<Rightarrow> \<exists>b'. queue_run put get bytes ops b = Inr (out, b') \<and> inv b' \<and> bytes b' = left"
  using assms
proof (induction ops arbitrary: b)
  case Nil
  then show ?case by simp
next
  case (Cons x ops)
  show ?case
  proof (cases x)
    case (Inl d)
    have "used b + length d \<le> max_size" using Cons.prems(2) Inl by simp
    from put_ok[OF Cons.prems(1) this] obtain c where c: "put d b = Inr c" "inv c"
      "bytes c = bytes b @ d" "used c \<le> used b + length d" by blast
    then show ?thesis using Cons.IH[OF c(2)] Cons.prems(2) Inl by (auto split: option.splits)
  next
    case (Inr n)
    show ?thesis
    proof (cases "unat n \<le> length (bytes b)")
      case True
      from get_ok[OF Cons.prems(1) True] obtain c where c: "get n b = Inr c" "inv c"
        "bytes c = drop (unat n) (bytes b)" "used c = used b" by blast
      then show ?thesis using Cons.IH[OF c(2)] Cons.prems(2) Inr True
        by (auto split: option.splits)
    next
      case False
      then show ?thesis using get_too_much[OF Cons.prems(1), of n] Inr by simp
    qed
  qed
qed

end

lemma Buffer_retrieve_too_much:
  "Buffer_inv b \<Longrightarrow> length (Buffer_bytes b) < unat n \<Longrightarrow> Buffer_retrieve n b = Inl AssertFailed"
  by (simp add: Buffer_retrieve_def length_Buffer_bytes word_le_nat_alt)

interpretation bq: byte_queue Buffer_inv Buffer_bytes "\<lambda>b. unat (writerIndex b)" Buffer_append Buffer_retrieve
proof
  fix b :: Buffer and d :: "char list"
  assume "Buffer_inv b" and "unat (writerIndex b) + length d \<le> max_size"
  then show "\<exists>b'. Buffer_append d b = Inr b' \<and> Buffer_inv b' \<and> Buffer_bytes b' = Buffer_bytes b @ d \<and>
      unat (writerIndex b') \<le> unat (writerIndex b) + length d"
    by (intro Buffer_append_ok) (simp_all add: Buffer_fits_def)
next
  fix b :: Buffer and n :: size_t
  assume "Buffer_inv b" and "unat n \<le> length (Buffer_bytes b)"
  from Buffer_retrieve_ok[OF this]
  show "\<exists>b'. Buffer_retrieve n b = Inr b' \<and> Buffer_inv b' \<and>
      Buffer_bytes b' = drop (unat n) (Buffer_bytes b) \<and> unat (writerIndex b') = unat (writerIndex b)"
    by auto
next
  fix b :: Buffer and n :: size_t
  assume "Buffer_inv b" and "length (Buffer_bytes b) < unat n"
  then show "Buffer_retrieve n b = Inl AssertFailed" by (rule Buffer_retrieve_too_much)
qed

section \<open>What the class promises\<close>

text \<open>The assertions at the end of the constructor hold.\<close>

lemma Buffer_ctor_assertions:
  "Buffer_readableBytes Buffer_ctor = 0 \<and> Buffer_writableBytes Buffer_ctor = kInitialSize \<and>
   Buffer_prependableBytes Buffer_ctor = kCheapPrepend"
  by (simp add: Buffer_readableBytes_def Buffer_writableBytes_def Buffer_prependableBytes_def
      Buffer_ctor_def kCheapPrepend_def kInitialSize_def)

text \<open>
  C14. A buffer is a byte queue. Whatever sequence of \<open>append\<close> and \<open>retrieve\<close> calls runs on a buffer
  that satisfies the class invariant and has room for the bytes appended, it does what the same sequence
  does on the abstract queue of the readable bytes: when every \<open>retrieve\<close> asks for no more than is there, all
  calls return, the bytes read before the retrieves are those the abstract queue gives, in order, and the
  readable bytes left are what is left in it; and it fails exactly when some \<open>retrieve\<close> asks for more, on the
  assertion of that call, never on memory or on a vector limit.
\<close>

theorem Buffer_byte_queue:
  assumes "Buffer_inv b" and "unat (writerIndex b) + length (queue_puts ops) \<le> max_size"
  shows "case queue_spec ops (Buffer_bytes b) of
      None \<Rightarrow> queue_run Buffer_append Buffer_retrieve Buffer_bytes ops b = Inl AssertFailed
    | Some (out, left) \<Rightarrow> \<exists>b'. queue_run Buffer_append Buffer_retrieve Buffer_bytes ops b = Inr (out, b') \<and>
        Buffer_inv b' \<and> Buffer_bytes b' = left"
  by (rule bq.run_refines[OF assms])

lemma Buffer_byte_queue_witness:
  "(\<exists>b'. queue_run Buffer_append Buffer_retrieve Buffer_bytes [Inl ''abc'', Inr 2, Inl ''d'', Inr 1] Buffer_ctor =
      Inr (''abc'', b') \<and> Buffer_bytes b' = ''d'') \<and>
   queue_run Buffer_append Buffer_retrieve Buffer_bytes [Inl ''abc'', Inr 4] Buffer_ctor = Inl AssertFailed"
proof -
  have used: "unat (writerIndex Buffer_ctor) = 8" by (simp add: Buffer_ctor_def)
  show ?thesis
    using Buffer_byte_queue[OF Buffer_ctor_ok(1), of "[Inl ''abc'', Inr 2, Inl ''d'', Inr 1]"]
      Buffer_byte_queue[OF Buffer_ctor_ok(1), of "[Inl ''abc'', Inr 4]"]
    by (auto simp add: used Buffer_ctor_ok(2) simp del: queue_run.simps)
qed

text \<open>
  \<open>append\<close> is all or nothing on every branch of \<open>makeSpace\<close>: on a buffer that satisfies the
  invariant it either fails because the vector cannot grow that far, or returns a buffer that satisfies
  the invariant and whose readable bytes are the old ones followed by the data. No assertion of
  \<open>ensureWritableBytes\<close> or \<open>makeSpace\<close> fails and no byte is written outside the vector.
\<close>

theorem Buffer_append_exact:
  assumes "Buffer_inv b" and "length data \<le> max_size"
  shows "Buffer_append data b = Inl LengthError \<or>
    (\<exists>b'. Buffer_append data b = Inr b' \<and> Buffer_inv b' \<and> Buffer_bytes b' = Buffer_bytes b @ data)"
  using assms by (rule Buffer_append_cases)

lemma Buffer_append_exact_witness:
  "Buffer_append ''hello'' Buffer_ctor = Inl LengthError \<or>
    (\<exists>b'. Buffer_append ''hello'' Buffer_ctor = Inr b' \<and> Buffer_inv b' \<and>
      Buffer_bytes b' = Buffer_bytes Buffer_ctor @ ''hello'')"
  by (rule Buffer_append_exact) (simp_all add: Buffer_ctor_ok)

text \<open>
  C15. \<open>readFd\<close> takes from the socket exactly as many of the waiting bytes as the writable part of the
  buffer and the 64 KiB stack area hold, appends them in order, leaves the rest in the socket and
  returns their number; its result is 0 only at the end of the stream.
\<close>

theorem Buffer_readFd_exact:
  assumes "Buffer_inv b" and "length (buffer b) + extrabuf_size \<le> max_size"
  shows "\<exists>b' n. Buffer_readFd (Waiting queue) b = Inr (int n, 0, b', drop n queue) \<and>
    n = min (length queue) (unat (Buffer_writableBytes b) + extrabuf_size) \<and> (n = 0 \<longleftrightarrow> queue = []) \<and>
    Buffer_inv b' \<and> Buffer_bytes b' = Buffer_bytes b @ take n queue"
proof -
  have "0 < unat (Buffer_writableBytes b) + extrabuf_size" by (simp add: extrabuf_size_def)
  then have "min (length queue) (unat (Buffer_writableBytes b) + extrabuf_size) = 0 \<longleftrightarrow> queue = []"
    by (auto simp: min_def)
  then show ?thesis using Buffer_readFd_ok[OF assms, of queue]
    by (elim exE, intro exI[of _ "min (length queue) (unat (Buffer_writableBytes b) + extrabuf_size)"] exI)
      blast
qed

lemma Buffer_readFd_exact_witness:
  "\<exists>b' n. Buffer_readFd (Waiting ''GET'') Buffer_ctor = Inr (int n, 0, b', drop n ''GET'') \<and>
    n = min (length ''GET'') (unat (Buffer_writableBytes Buffer_ctor) + extrabuf_size) \<and>
    (n = 0 \<longleftrightarrow> ''GET'' = []) \<and>
    Buffer_inv b' \<and> Buffer_bytes b' = Buffer_bytes Buffer_ctor @ take n ''GET''"
  by (rule Buffer_readFd_exact[OF Buffer_ctor_ok(1)])
     (simp add: Buffer_ctor_def extrabuf_size_def kCheapPrepend_def kInitialSize_def)

text \<open>
  The room for a header: a header no longer than what lies before the read index is prepended in
  place, without failure, and the \<open>retrieve\<close> of its length gives the old contents back.
\<close>

theorem Buffer_prepend_roundtrip:
  assumes "Buffer_inv b" and "length data \<le> unat (Buffer_prependableBytes b)"
  shows "\<exists>b1 b2. Buffer_prepend data b = Inr b1 \<and> Buffer_bytes b1 = data @ Buffer_bytes b \<and>
    Buffer_retrieve (sizeof_list data) b1 = Inr b2 \<and> Buffer_inv b2 \<and> Buffer_bytes b2 = Buffer_bytes b"
proof -
  from Buffer_prepend_ok[OF assms] obtain b1 where b1: "Buffer_prepend data b = Inr b1"
    "Buffer_inv b1" "Buffer_bytes b1 = data @ Buffer_bytes b" by blast
  have n: "unat (sizeof_list data) = length data"
    using assms(2) unat_size_bound[of "Buffer_prependableBytes b"] by (intro unat_of_nat_size) linarith
  show ?thesis
    using Buffer_retrieve_ok[OF b1(2), of "sizeof_list data"] b1 n by auto
qed

lemma Buffer_prepend_roundtrip_witness:
  "\<exists>b1 b2. Buffer_prepend ''len:'' Buffer_ctor = Inr b1 \<and> Buffer_bytes b1 = ''len:'' @ Buffer_bytes Buffer_ctor \<and>
    Buffer_retrieve (sizeof_list ''len:'') b1 = Inr b2 \<and> Buffer_inv b2 \<and>
    Buffer_bytes b2 = Buffer_bytes Buffer_ctor"
  by (rule Buffer_prepend_roundtrip[OF Buffer_ctor_ok(1)])
     (simp add: Buffer_ctor_def Buffer_prependableBytes_def)

text \<open>
  C40. \<open>shrink\<close> replaces the vector and keeps both indices: it preserves the contents when they start at
  the cheap-prepend mark, and otherwise, for a read index beyond the mark plus the reserve, it leaves
  the write index outside the new vector, so that the class invariant is broken.
\<close>

theorem Buffer_shrink_keeps_indices:
  assumes "Buffer_inv b" and "8 + length (Buffer_bytes b) + unat reserve \<le> max_size"
  shows "\<exists>b'. Buffer_shrink reserve b = Inr b' \<and>
    (readerIndex b = kCheapPrepend \<longrightarrow> Buffer_inv b' \<and> Buffer_bytes b' = Buffer_bytes b \<and>
       unat (Buffer_writableBytes b') = unat reserve) \<and>
    (8 + unat reserve < unat (readerIndex b) \<longrightarrow> length (buffer b') < unat (writerIndex b') \<and> \<not> Buffer_inv b')"
  using Buffer_shrink_aligned[OF assms(1) _ assms(2)] Buffer_shrink_misaligned[OF assms]
  by (cases "readerIndex b = kCheapPrepend"; cases "8 + unat reserve < unat (readerIndex b)")
     (auto simp: Buffer_inv_def shrink_vector[OF assms])

text \<open>A buffer after 16 bytes came in and 12 of them were retrieved.\<close>

definition used_buffer :: Buffer where
  "used_buffer = Buffer_ctor\<lparr>readerIndex := 20, writerIndex := 24\<rparr>"

lemma Buffer_shrink_keeps_indices_witness:
  "8 + unat (2 :: size_t) < unat (readerIndex used_buffer) \<and>
   (\<exists>b'. Buffer_shrink 2 used_buffer = Inr b' \<and>
    (readerIndex used_buffer = kCheapPrepend \<longrightarrow> Buffer_inv b' \<and> Buffer_bytes b' = Buffer_bytes used_buffer \<and>
       unat (Buffer_writableBytes b') = unat (2 :: size_t)) \<and>
    (8 + unat (2 :: size_t) < unat (readerIndex used_buffer) \<longrightarrow>
       length (buffer b') < unat (writerIndex b') \<and> \<not> Buffer_inv b'))"
  by (intro conjI Buffer_shrink_keeps_indices)
     (simp_all add: used_buffer_def Buffer_inv_def Buffer_ctor_def Buffer_bytes_def kCheapPrepend_def
        kInitialSize_def)

end
