(* ===== verification/Socket_Ops.thy ===== *)
theory Socket_Ops
  imports Byte_Buffer
begin

text \<open>
  \<open>simplev::net::sockets\<close>, \<open>Socket\<close> and \<open>InetAddress\<close> (net/SocketsOps.h, net/SocketsOps.cc,
  net/Socket.h, net/Socket.cc, net/InetAddress.h, net/InetAddress.cc). What the kernel answers to each
  system call is not fixed: a socket carries the outcomes its next calls will have, any list of them,
  and the record of what the calls did to it.
\<close>

section \<open>errno\<close>

definition EPERM :: int where "EPERM = 1"
definition EINTR :: int where "EINTR = 4"
definition EBADF :: int where "EBADF = 9"
definition EAGAIN :: int where "EAGAIN = 11"
definition EWOULDBLOCK :: int where "EWOULDBLOCK = 11"
definition ENOMEM :: int where "ENOMEM = 12"
definition EACCES :: int where "EACCES = 13"
definition EFAULT :: int where "EFAULT = 14"
definition EINVAL :: int where "EINVAL = 22"
definition ENFILE :: int where "ENFILE = 23"
definition EMFILE :: int where "EMFILE = 24"
definition EPIPE :: int where "EPIPE = 32"
definition EPROTO :: int where "EPROTO = 71"
definition ENOTSOCK :: int where "ENOTSOCK = 88"
definition EOPNOTSUPP :: int where "EOPNOTSUPP = 95"
definition EAFNOSUPPORT :: int where "EAFNOSUPPORT = 97"
definition EADDRINUSE :: int where "EADDRINUSE = 98"
definition EADDRNOTAVAIL :: int where "EADDRNOTAVAIL = 99"
definition ENETUNREACH :: int where "ENETUNREACH = 101"
definition ECONNABORTED :: int where "ECONNABORTED = 103"
definition ECONNRESET :: int where "ECONNRESET = 104"
definition ENOBUFS :: int where "ENOBUFS = 105"
definition EISCONN :: int where "EISCONN = 106"
definition ECONNREFUSED :: int where "ECONNREFUSED = 111"
definition EALREADY :: int where "EALREADY = 114"
definition EINPROGRESS :: int where "EINPROGRESS = 115"

lemmas errno_defs =
  EPERM_def EINTR_def EBADF_def EAGAIN_def EWOULDBLOCK_def ENOMEM_def EACCES_def EFAULT_def EINVAL_def
  ENFILE_def EMFILE_def EPIPE_def EPROTO_def ENOTSOCK_def EOPNOTSUPP_def EAFNOSUPPORT_def EADDRINUSE_def
  EADDRNOTAVAIL_def ENETUNREACH_def ECONNABORTED_def ECONNRESET_def ENOBUFS_def EISCONN_def
  ECONNREFUSED_def EALREADY_def EINPROGRESS_def

section \<open>Addresses\<close>

text \<open>
  \<open>sockaddr_in\<close> with its fields in network byte order, on a little-endian host: the conversions swap
  the bytes.
\<close>

definition bswap16 :: "uint16_t \<Rightarrow> uint16_t" where
  "bswap16 x = push_bit 8 x OR drop_bit 8 x"

definition bswap32 :: "uint32_t \<Rightarrow> uint32_t" where
  "bswap32 x = push_bit 24 (x AND 0xFF) OR push_bit 8 (x AND 0xFF00) OR
     drop_bit 8 (x AND 0xFF0000) OR drop_bit 24 x"

definition bswap64 :: "64 word \<Rightarrow> 64 word" where
  "bswap64 x = push_bit 32 (ucast (bswap32 (ucast x))) OR ucast (bswap32 (ucast (drop_bit 32 x)))"

definition hostToNetwork64 :: "64 word \<Rightarrow> 64 word" where "hostToNetwork64 h = bswap64 h"
definition hostToNetwork32 :: "uint32_t \<Rightarrow> uint32_t" where "hostToNetwork32 h = bswap32 h"
definition hostToNetwork16 :: "uint16_t \<Rightarrow> uint16_t" where "hostToNetwork16 h = bswap16 h"
definition networkToHost64 :: "64 word \<Rightarrow> 64 word" where "networkToHost64 n = bswap64 n"
definition networkToHost32 :: "uint32_t \<Rightarrow> uint32_t" where "networkToHost32 n = bswap32 n"
definition networkToHost16 :: "uint16_t \<Rightarrow> uint16_t" where "networkToHost16 n = bswap16 n"

record sockaddr_in =
  sin_family :: nat
  sin_port :: uint16_t
  sin_addr :: uint32_t

definition AF_INET :: nat where "AF_INET = 2"

definition zero_sockaddr :: sockaddr_in where
  "zero_sockaddr = \<lparr>sin_family = 0, sin_port = 0, sin_addr = 0\<rparr>"

definition kInaddrAny :: uint32_t where "kInaddrAny = 0"

text \<open>\<open>printf("%u")\<close> and \<open>printf("%d")\<close>.\<close>

fun digits_of :: "nat \<Rightarrow> string" where
  "digits_of n = (if n < 10 then [char_of (48 + n)] else digits_of (n div 10) @ [char_of (48 + n mod 10)])"

declare digits_of.simps [simp del]

definition show_int :: "int \<Rightarrow> string" where
  "show_int i = (if i < 0 then CHR ''-'' # digits_of (nat (- i)) else digits_of (nat i))"

text \<open>
  \<open>inet_ntop\<close> writes the four bytes of an address in memory order, which on a little-endian host is
  from the lowest; \<open>inet_pton\<close> reads the dotted decimal form, at most three digits and at most 255 in
  each part.
\<close>

definition octet :: "nat \<Rightarrow> uint32_t \<Rightarrow> nat" where
  "octet i a = unat (drop_bit (8 * i) a AND 0xFF)"

definition inet_ntop :: "uint32_t \<Rightarrow> string" where
  "inet_ntop a = digits_of (octet 0 a) @ ''.'' @ digits_of (octet 1 a) @ ''.'' @
     digits_of (octet 2 a) @ ''.'' @ digits_of (octet 3 a)"

fun split_at_dot :: "string \<Rightarrow> string list" where
  "split_at_dot [] = [[]]"
| "split_at_dot (c # cs) =
     (if c = CHR ''.'' then [] # split_at_dot cs
      else (case split_at_dot cs of [] \<Rightarrow> [[c]] | p # ps \<Rightarrow> (c # p) # ps))"

definition is_digit :: "char \<Rightarrow> bool" where
  "is_digit c \<longleftrightarrow> 48 \<le> (of_char c :: nat) \<and> (of_char c :: nat) \<le> 57"

definition digits_value :: "string \<Rightarrow> nat" where
  "digits_value s = foldl (\<lambda>n c. 10 * n + (of_char c - 48)) 0 s"

definition octet_of_string :: "string \<Rightarrow> nat option" where
  "octet_of_string s =
     (if s \<noteq> [] \<and> length s \<le> 3 \<and> list_all is_digit s \<and> digits_value s \<le> 255 \<and>
         (length s = 1 \<or> hd s \<noteq> CHR ''0'')
      then Some (digits_value s) else None)"

definition inet_pton :: "string \<Rightarrow> uint32_t option" where
  "inet_pton s =
     (case map octet_of_string (split_at_dot s) of
        [Some a, Some b, Some c, Some d] \<Rightarrow>
          Some (of_nat a OR push_bit 8 (of_nat b) OR push_bit 16 (of_nat c) OR push_bit 24 (of_nat d))
      | _ \<Rightarrow> None)"

text \<open>\<open>snprintf(buf + end, size - end, ...)\<close> after \<open>inet_ntop\<close>: the result is cut at \<open>size - 1\<close> characters.\<close>

definition INET_ADDRSTRLEN :: nat where "INET_ADDRSTRLEN = 16"

definition sockets_toIpPort :: "nat \<Rightarrow> sockaddr_in \<Rightarrow> string res" where
  "sockets_toIpPort bufsize addr =
     ensure (INET_ADDRSTRLEN \<le> bufsize) AssertFailed
       (let ip = inet_ntop (sin_addr addr); port = networkToHost16 (sin_port addr)
        in ensure (length ip < bufsize) AssertFailed
             (Inr (ip @ take (bufsize - length ip - 1) (CHR '':'' # digits_of (unat port)))))"

text \<open>An address that cannot be parsed is only logged; the field keeps its value.\<close>

definition sockets_fromHostPort :: "string \<Rightarrow> uint16_t \<Rightarrow> sockaddr_in \<Rightarrow> sockaddr_in" where
  "sockets_fromHostPort ip port addr =
     (let addr1 = addr\<lparr>sin_family := AF_INET, sin_port := hostToNetwork16 port\<rparr>
      in case inet_pton ip of Some a \<Rightarrow> addr1\<lparr>sin_addr := a\<rparr> | None \<Rightarrow> addr1)"

definition InetAddress_ctor_port :: "uint16_t \<Rightarrow> sockaddr_in" where
  "InetAddress_ctor_port port =
     zero_sockaddr\<lparr>sin_family := AF_INET, sin_addr := hostToNetwork32 kInaddrAny,
       sin_port := hostToNetwork16 port\<rparr>"

definition InetAddress_ctor :: "string \<Rightarrow> uint16_t \<Rightarrow> sockaddr_in" where
  "InetAddress_ctor ip port = sockets_fromHostPort ip port zero_sockaddr"

definition InetAddress_toIpPort :: "sockaddr_in \<Rightarrow> string res" where
  "InetAddress_toIpPort addr = sockets_toIpPort 32 addr"

section \<open>Sockets\<close>

text \<open>
  \<open>sk_in\<close> are the bytes that arrived and wait to be read, \<open>sk_taken\<close> all bytes that reads have returned
  so far, and \<open>sk_fin\<close> says that the peer closed its side; \<open>sk_rderr\<close> are errors that the next reads meet. \<open>sk_wr\<close> are the outcomes of the next writes: how many bytes the kernel
  has room for, or an error; with nothing foreseen a write
  of at least one byte would block. \<open>sk_out\<close> are all bytes accepted,
  \<open>sk_shutWr\<close> says that the write side was shut down, after which a write fails with \<open>EPIPE\<close>.
\<close>

datatype write_outcome = Wr_room nat | Wr_error int

record Sock =
  sk_in :: string
  sk_taken :: string
  sk_fin :: bool
  sk_rderr :: "int list"
  sk_wr :: "write_outcome list"
  sk_out :: string
  sk_shutWr :: bool
  sk_error :: int
  sk_closed :: bool
  sk_local :: sockaddr_in
  sk_peer :: sockaddr_in
  sk_keepAlive :: bool
  sk_noDelay :: bool

text \<open>A system call returns its result and, when that is negative, \<open>errno\<close>.\<close>

fun sockets_write :: "string \<Rightarrow> Sock \<Rightarrow> int \<times> int \<times> Sock" where
  "sockets_write bytes s =
     (if sk_shutWr s then (-1, EPIPE, s)
      else case sk_wr s of
        [] \<Rightarrow> if bytes = [] then (0, 0, s) else (-1, EWOULDBLOCK, s)
      | Wr_error e # os \<Rightarrow> (-1, e, s\<lparr>sk_wr := os\<rparr>)
      | Wr_room n # os \<Rightarrow>
          (int (min n (length bytes)), 0, s\<lparr>sk_wr := os, sk_out := sk_out s @ take n bytes\<rparr>))"

declare sockets_write.simps [simp del]

text \<open>What \<open>readv\<close> finds.\<close>

definition sockets_readable :: "Sock \<Rightarrow> readv_result" where
  "sockets_readable s =
     (case sk_rderr s of
        e # _ \<Rightarrow> Read_failed e
      | [] \<Rightarrow> if sk_in s = [] \<and> \<not> sk_fin s then Read_failed EAGAIN else Waiting (sk_in s))"

definition sockets_readDone :: "string \<Rightarrow> Sock \<Rightarrow> Sock" where
  "sockets_readDone rest s = (if sk_rderr s \<noteq> [] then s\<lparr>sk_rderr := tl (sk_rderr s)\<rparr>
      else s\<lparr>sk_in := rest, sk_taken := sk_taken s @ take (length (sk_in s) - length rest) (sk_in s)\<rparr>)"

definition sockets_shutdownWrite :: "Sock \<Rightarrow> Sock" where
  "sockets_shutdownWrite s = s\<lparr>sk_shutWr := True\<rparr>"

definition sockets_close :: "Sock \<Rightarrow> Sock" where
  "sockets_close s = s\<lparr>sk_closed := True\<rparr>"

text \<open>\<open>SO_ERROR\<close> is cleared by the call that reads it; a descriptor that is not open gives \<open>EBADF\<close>.\<close>

definition sockets_getSocketError :: "Sock \<Rightarrow> int \<times> Sock" where
  "sockets_getSocketError s = (if sk_closed s then (EBADF, s) else (sk_error s, s\<lparr>sk_error := 0\<rparr>))"

definition sockets_getLocalAddr :: "Sock \<Rightarrow> sockaddr_in" where
  "sockets_getLocalAddr s = (if sk_closed s then zero_sockaddr else sk_local s)"

definition sockets_getPeerAddr :: "Sock \<Rightarrow> sockaddr_in" where
  "sockets_getPeerAddr s = (if sk_closed s then zero_sockaddr else sk_peer s)"

definition sockets_isSelfConnect :: "Sock \<Rightarrow> bool" where
  "sockets_isSelfConnect s \<longleftrightarrow>
     sin_port (sockets_getLocalAddr s) = sin_port (sockets_getPeerAddr s) \<and>
     sin_addr (sockets_getLocalAddr s) = sin_addr (sockets_getPeerAddr s)"

text \<open>
  \<open>socket(2)\<close>, \<open>bind(2)\<close> and \<open>listen(2)\<close> with the result of the call as argument: a failure is fatal.
\<close>

definition sockets_createNonblockingOrDie :: "int \<Rightarrow> int res" where
  "sockets_createNonblockingOrDie sockfd = ensure (\<not> sockfd < 0) Fatal (Inr sockfd)"

definition sockets_bindOrDie :: "int \<Rightarrow> unit res" where
  "sockets_bindOrDie ret = ensure (\<not> ret < 0) Fatal (Inr ())"

definition sockets_listenOrDie :: "int \<Rightarrow> unit res" where
  "sockets_listenOrDie ret = ensure (\<not> ret < 0) Fatal (Inr ())"

text \<open>
  \<open>accept4(2)\<close> with its outcome as argument: a descriptor with the peer's address, or an \<open>errno\<close>, which
  the code classifies.
\<close>

datatype accept_outcome = Accepted int sockaddr_in | Accept_failed int

fun sockets_accept :: "accept_outcome \<Rightarrow> (int \<times> int \<times> sockaddr_in) res" where
  "sockets_accept (Accepted connfd addr) = Inr (connfd, 0, addr)"
| "sockets_accept (Accept_failed savedErrno) =
     (if savedErrno = EAGAIN \<or> savedErrno = ECONNABORTED \<or> savedErrno = EINTR \<or> savedErrno = EPROTO \<or>
         savedErrno = EPERM \<or> savedErrno = EMFILE
      then Inr (-1, savedErrno, zero_sockaddr)
      else Inl Fatal)"

section \<open>Socket\<close>

definition Socket_bindAddress :: "int \<Rightarrow> unit res" where
  "Socket_bindAddress ret = sockets_bindOrDie ret"

definition Socket_listen :: "int \<Rightarrow> unit res" where
  "Socket_listen ret = sockets_listenOrDie ret"

text \<open>On success the peer's address is written to \<open>peeraddr\<close>, otherwise it is left as it was.\<close>

definition Socket_accept :: "accept_outcome \<Rightarrow> sockaddr_in \<Rightarrow> (int \<times> int \<times> sockaddr_in) res" where
  "Socket_accept r peeraddr =
     bindR (sockets_accept r) (\<lambda>(connfd, e, addr).
     Inr (connfd, e, if connfd \<ge> 0 then addr else peeraddr))"

definition Socket_shutdownWrite :: "Sock \<Rightarrow> Sock" where
  "Socket_shutdownWrite s = sockets_shutdownWrite s"

definition Socket_dtor :: "Sock \<Rightarrow> Sock" where
  "Socket_dtor s = sockets_close s"

text \<open>\<open>setsockopt(2)\<close> with its result as argument; a failure is only logged.\<close>

definition Socket_setTcpNoDelay :: "int \<Rightarrow> bool \<Rightarrow> Sock \<Rightarrow> Sock" where
  "Socket_setTcpNoDelay ret on s = (if ret < 0 then s else s\<lparr>sk_noDelay := on\<rparr>)"

definition Socket_setKeepAlive :: "int \<Rightarrow> bool \<Rightarrow> Sock \<Rightarrow> Sock" where
  "Socket_setKeepAlive ret on s = (if ret < 0 then s else s\<lparr>sk_keepAlive := on\<rparr>)"

text \<open>The options of a listening socket; the build has \<open>SO_REUSEPORT\<close>.\<close>

record reuse_options =
  so_reuseAddr :: bool
  so_reusePort :: bool

definition Socket_setReuseAddr :: "int \<Rightarrow> bool \<Rightarrow> reuse_options \<Rightarrow> reuse_options" where
  "Socket_setReuseAddr ret on s = (if ret < 0 then s else s\<lparr>so_reuseAddr := on\<rparr>)"

definition Socket_setReusePort :: "int \<Rightarrow> bool \<Rightarrow> reuse_options \<Rightarrow> reuse_options" where
  "Socket_setReusePort ret on s = (if ret < 0 then s else s\<lparr>so_reusePort := on\<rparr>)"

section \<open>Byte order\<close>

lemma bswap16_bswap16 [simp]: "bswap16 (bswap16 x) = x"
  by (rule bit_word_eqI) (auto simp: bswap16_def bit_simps)

lemma bswap32_bit:
  "bit (bswap32 x) n \<longleftrightarrow> n < 32 \<and> bit x (if n < 8 then 24 + n else if n < 16 then 8 + n else if n < 24 then n - 8 else n - 24)"
proof -
  have m: "(0xFF :: uint32_t) = mask 8" "(0xFF00 :: uint32_t) = push_bit 8 (mask 8)"
    "(0xFF0000 :: uint32_t) = push_bit 16 (mask 8)"
    by (simp_all add: mask_eq_exp_minus_1 push_bit_eq_mult)
  show ?thesis
    unfolding bswap32_def m
    by (auto simp: bit_simps not_less intro: impossible_bit dest: bit_imp_le_length)
qed

lemma bswap32_bswap32 [simp]: "bswap32 (bswap32 x) = x"
  by (rule bit_word_eqI) (auto simp: bswap32_bit)

lemma bswap64_halves:
  "(ucast (bswap64 x) :: uint32_t) = bswap32 (ucast (drop_bit 32 x))"
  "(ucast (drop_bit 32 (bswap64 x)) :: uint32_t) = bswap32 (ucast x)"
  by (rule bit_word_eqI, simp add: bswap64_def bit_simps impossible_bit)+

lemma join_halves:
  "push_bit 32 (ucast (ucast (drop_bit 32 x) :: uint32_t)) OR ucast (ucast x :: uint32_t) = (x :: 64 word)"
  by (rule bit_word_eqI) (auto simp: bit_simps not_less)

lemma bswap64_bswap64 [simp]: "bswap64 (bswap64 x) = x"
  by (subst bswap64_def) (simp add: bswap64_halves join_halves)

section \<open>Printing and parsing addresses\<close>

lemma char_digit [simp]: "d < 10 \<Longrightarrow> (of_char (char_of (48 + d) :: char) :: nat) = 48 + d"
  by simp

lemma digits_of_nonempty [simp]: "digits_of n \<noteq> []"
  by (subst digits_of.simps) simp

lemma digits_of_digits: "list_all is_digit (digits_of n)"
proof (induction n rule: digits_of.induct)
  case (1 n)
  have "is_digit (char_of (48 + n mod 10))" by (simp add: is_digit_def)
  moreover have "is_digit (char_of (48 + n))" if "n < 10" using that by (simp add: is_digit_def)
  ultimately show ?case using 1 by (subst digits_of.simps) (simp add: list_all_append)
qed

lemma digits_value_append: "digits_value (s @ [c]) = 10 * digits_value s + (of_char c - 48)"
  by (simp add: digits_value_def)

lemma digits_value_of: "digits_value (digits_of n) = n"
proof (induction n rule: digits_of.induct)
  case (1 n)
  show ?case
  proof (cases "n < 10")
    case True
    then show ?thesis by (subst digits_of.simps) (simp add: digits_value_def)
  next
    case False
    have "digits_value (digits_of n) = 10 * digits_value (digits_of (n div 10)) + n mod 10"
      using False by (subst digits_of.simps) (simp add: digits_value_append)
    then show ?thesis using 1 False by simp
  qed
qed

lemma length_digits_of: "n < 10 ^ Suc k \<Longrightarrow> length (digits_of n) \<le> Suc k"
proof (induction k arbitrary: n)
  case 0
  then show ?case by (subst digits_of.simps) simp
next
  case (Suc k)
  have "n div 10 < 10 ^ Suc k" using Suc.prems by (simp add: div_less_iff_less_mult)
  from Suc.IH[OF this] show ?case by (subst digits_of.simps) simp
qed

lemma hd_digits_of: "0 < n \<Longrightarrow> hd (digits_of n) \<noteq> CHR ''0''"
proof (induction n rule: digits_of.induct)
  case (1 n)
  show ?case
  proof (cases "n < 10")
    case True
    have "(of_char (char_of (48 + n) :: char) :: nat) \<noteq> of_char CHR ''0''"
      using True 1(2) by simp
    then have "(char_of (48 + n) :: char) \<noteq> CHR ''0''" by metis
    then show ?thesis using True by (subst digits_of.simps) simp
  next
    case False
    then have "hd (digits_of (n div 10)) \<noteq> CHR ''0''" using 1 by simp
    then show ?thesis using False by (subst digits_of.simps) simp
  qed
qed

lemma octet_of_digits: "n \<le> 255 \<Longrightarrow> octet_of_string (digits_of n) = Some n"
proof -
  assume n: "n \<le> 255"
  have "length (digits_of n) \<le> 3" using length_digits_of[of n 2] n by simp
  moreover have "length (digits_of n) = 1 \<or> hd (digits_of n) \<noteq> CHR ''0''"
    using hd_digits_of[of n] by (cases "n = 0") (subst digits_of.simps, simp_all)
  ultimately show ?thesis
    using n digits_of_digits[of n] by (auto simp: octet_of_string_def digits_value_of)
qed

lemma digit_not_punct: "is_digit c \<Longrightarrow> c \<noteq> CHR ''.'' \<and> c \<noteq> CHR '':''"
  by (auto simp: is_digit_def)

lemma split_at_dot_nonempty [simp]: "split_at_dot s \<noteq> []"
  by (induction s) (auto split: list.splits)

lemma split_digits: "list_all is_digit s \<Longrightarrow> split_at_dot s = [s]"
  by (induction s) (auto simp: digit_not_punct)

lemma split_digits_dot: "list_all is_digit s \<Longrightarrow> split_at_dot (s @ CHR ''.'' # t) = s # split_at_dot t"
  by (induction s) (auto simp: digit_not_punct)

lemma octet_le: "octet i a \<le> 255"
  using word_and_le1[of "drop_bit (8 * i) a" "0xFF"] by (simp add: octet_def word_le_nat_alt)

lemma octet_word: "(of_nat (octet i a) :: uint32_t) = drop_bit (8 * i) a AND 0xFF"
  by (simp add: octet_def)

lemma octets_compose:
  "of_nat (octet 0 a) OR push_bit 8 (of_nat (octet 1 a)) OR push_bit 16 (of_nat (octet 2 a)) OR
   push_bit 24 (of_nat (octet 3 a)) = a"
proof -
  have m: "(0xFF :: uint32_t) = mask 8" by (simp add: mask_eq_exp_minus_1)
  show ?thesis
    unfolding octet_word m
  proof (rule bit_word_eqI)
    fix n :: nat
    assume n: "n < LENGTH(32)"
    consider "n < 8" | "8 \<le> n" "n < 16" | "16 \<le> n" "n < 24" | "24 \<le> n" by linarith
    then show "bit (drop_bit (8 * 0) a AND mask 8 OR push_bit 8 (drop_bit (8 * 1) a AND mask 8) OR
        push_bit 16 (drop_bit (8 * 2) a AND mask 8) OR push_bit 24 (drop_bit (8 * 3) a AND mask 8)) n =
      bit a n"
      using n by cases (auto simp: bit_simps)
  qed
qed

lemma inet_roundtrip: "inet_pton (inet_ntop a) = Some a"
proof -
  have sp: "split_at_dot (inet_ntop a) = map digits_of [octet 0 a, octet 1 a, octet 2 a, octet 3 a]"
    by (simp add: inet_ntop_def split_digits_dot split_digits digits_of_digits)
  show ?thesis
    by (simp add: inet_pton_def sp octet_of_digits octet_le octets_compose[unfolded One_nat_def])
qed

lemma length_inet_ntop: "length (inet_ntop a) \<le> 15"
proof -
  have "length (digits_of (octet i a)) \<le> 3" for i
    using length_digits_of[of "octet i a" 2] octet_le[of i a] by simp
  from this[of 0] this[of 1] this[of 2] this[of 3] show ?thesis by (simp add: inet_ntop_def)
qed

lemma inet_ntop_no_colon: "CHR '':'' \<notin> set (inet_ntop a)"
proof -
  have "CHR '':'' \<notin> set (digits_of n)" for n
    using digits_of_digits[of n] digit_not_punct by (auto simp: list_all_iff)
  then show ?thesis by (simp add: inet_ntop_def)
qed

text \<open>The text form always fits the 32-byte buffer of \<open>InetAddress::toIpPort\<close>.\<close>

lemma toIpPort_eq:
  "InetAddress_toIpPort addr =
     Inr (inet_ntop (sin_addr addr) @ CHR '':'' # digits_of (unat (networkToHost16 (sin_port addr))))"
proof -
  let ?p = "unat (networkToHost16 (sin_port addr))"
  have "?p < 2 ^ 16" using unsigned_less[of "networkToHost16 (sin_port addr)"] by simp
  then have "length (digits_of ?p) \<le> 5" using length_digits_of[of ?p 4] by simp
  then show ?thesis
    using length_inet_ntop[of "sin_addr addr"]
    by (simp add: InetAddress_toIpPort_def sockets_toIpPort_def INET_ADDRSTRLEN_def Let_def)
qed

section \<open>What the functions promise\<close>

text \<open>
  C34. Printing an IPv4 endpoint and parsing it back gives the same endpoint: \<open>toIpPort\<close> always succeeds
  and its text fits the buffer, and the \<open>InetAddress\<close> built from the part before the colon and the port
  number after it is the one that was printed, byte order included.
\<close>

theorem InetAddress_roundtrip:
  assumes "sin_family addr = AF_INET"
  shows "\<exists>str. InetAddress_toIpPort addr = Inr str \<and> length str < 32 \<and>
    InetAddress_ctor (takeWhile (\<lambda>c. c \<noteq> CHR '':'') str)
      (of_nat (digits_value (tl (dropWhile (\<lambda>c. c \<noteq> CHR '':'') str)))) = addr"
proof -
  let ?ip = "inet_ntop (sin_addr addr)" and ?p = "unat (networkToHost16 (sin_port addr))"
  let ?str = "?ip @ CHR '':'' # digits_of ?p"
  have "?p < 2 ^ 16" using unsigned_less[of "networkToHost16 (sin_port addr)"] by simp
  then have "length (digits_of ?p) \<le> 5" using length_digits_of[of ?p 4] by simp
  then have len: "length ?str < 32" using length_inet_ntop[of "sin_addr addr"] by simp
  have nc: "\<And>c. c \<in> set ?ip \<Longrightarrow> c \<noteq> CHR '':''" using inet_ntop_no_colon by metis
  have tw: "takeWhile (\<lambda>c. c \<noteq> CHR '':'') ?str = ?ip" "dropWhile (\<lambda>c. c \<noteq> CHR '':'') ?str = CHR '':'' # digits_of ?p"
    using nc by (simp_all add: takeWhile_append2 dropWhile_append2)
  have "InetAddress_ctor ?ip (of_nat ?p) = addr"
    using assms by (intro sockaddr_in.equality)
      (simp_all add: InetAddress_ctor_def sockets_fromHostPort_def inet_roundtrip zero_sockaddr_def
        hostToNetwork16_def networkToHost16_def)
  then show ?thesis using toIpPort_eq[of addr] len tw by (simp add: digits_value_of)
qed

lemma InetAddress_roundtrip_witness:
  "\<exists>str. InetAddress_toIpPort (InetAddress_ctor_port 8080) = Inr str \<and> length str < 32 \<and>
    InetAddress_ctor (takeWhile (\<lambda>c. c \<noteq> CHR '':'') str)
      (of_nat (digits_value (tl (dropWhile (\<lambda>c. c \<noteq> CHR '':'') str)))) = InetAddress_ctor_port 8080"
  by (rule InetAddress_roundtrip) (simp add: InetAddress_ctor_port_def)

end
