(* ===== verification/Tcp_Connection.thy ===== *)
theory Tcp_Connection
  imports Event_Loop Socket_Ops
begin

text \<open>
  \<open>simplev::net::TcpConnection\<close> (net/TcpConnection.h, net/TcpConnection.cc), on a state \<open>net\<close> that holds
  the event loops, the connection objects and the kernel's sockets, so that a handler can reach all of
  them. The state record is extensible: the server and the client add their own fields.
\<close>

section \<open>State\<close>

datatype StateE = kConnecting | kConnected | kDisconnecting | kDisconnected

record TcpConnection =
  conn_loop :: loop_id
  conn_name :: string
  conn_state :: StateE
  conn_socket :: int
  conn_channel :: Channel
  localAddr :: sockaddr_in
  peerAddr :: sockaddr_in
  connectionCallback :: "user_callback option"
  messageCallback :: "user_callback option"
  closeCallback :: "close_callback option"
  writeCompleteCallback :: "user_callback option"
  highWaterMarkCallback :: "user_callback option"
  highWaterMark :: size_t
  inputBuffer :: Buffer
  outputBuffer :: Buffer

text \<open>\<open>timersCreated\<close> is the static counter \<open>Timer::s_numCreated_\<close>.\<close>

record net =
  loops :: "loop_id \<Rightarrow> EventLoop"
  conns :: "conn_id \<Rightarrow> TcpConnection"
  socks :: "int \<Rightarrow> Sock"
  timersCreated :: int64_t

definition upd_loop :: "loop_id \<Rightarrow> (EventLoop \<Rightarrow> EventLoop) \<Rightarrow> 'a net_scheme \<Rightarrow> 'a net_scheme" where
  "upd_loop l f w = w\<lparr>loops := (loops w)(l := f (loops w l))\<rparr>"

definition upd_conn :: "conn_id \<Rightarrow> (TcpConnection \<Rightarrow> TcpConnection) \<Rightarrow> 'a net_scheme \<Rightarrow> 'a net_scheme" where
  "upd_conn c f w = w\<lparr>conns := (conns w)(c := f (conns w c))\<rparr>"

definition upd_sock :: "int \<Rightarrow> (Sock \<Rightarrow> Sock) \<Rightarrow> 'a net_scheme \<Rightarrow> 'a net_scheme" where
  "upd_sock fd f w = w\<lparr>socks := (socks w)(fd := f (socks w fd))\<rparr>"

definition conn_fd :: "TcpConnection \<Rightarrow> int" where
  "conn_fd c = ch_fd (conn_channel c)"

text \<open>The loop a connection belongs to.\<close>

definition loop_of :: "conn_id \<Rightarrow> 'a net_scheme \<Rightarrow> EventLoop" where
  "loop_of this w = loops w (conn_loop (conns w this))"

definition on_channel :: "(Channel \<Rightarrow> Channel) \<Rightarrow> TcpConnection \<Rightarrow> TcpConnection" where
  "on_channel f c = c\<lparr>conn_channel := f (conn_channel c)\<rparr>"

text \<open>
  What the operations take from outside: libev, the calling thread, the user's callbacks and what the
  close callback does. A user callback sees the connection, and its time or size where it has one.
\<close>

datatype user_arg =
    On_connection conn_id
  | On_message conn_id real
  | On_writeComplete conn_id
  | On_highWaterMark conn_id size_t

record 'w env =
  ev :: libev
  tid :: thread_id
  user :: "user_callback \<Rightarrow> user_arg \<Rightarrow> 'w \<Rightarrow> 'w res"
  closer :: "close_callback \<Rightarrow> conn_id \<Rightarrow> 'w \<Rightarrow> 'w res"

text \<open>The environment of a thread whose callbacks do nothing.\<close>

definition base_env :: "libev \<Rightarrow> thread_id \<Rightarrow> 'w env" where
  "base_env L t = \<lparr>ev = L, tid = t, user = (\<lambda>_ _ w. Inr w), closer = (\<lambda>_ _ w. Inr w)\<rparr>"

lemma base_env_simps [simp]: "ev (base_env L t) = L" "tid (base_env L t) = t"
  by (simp_all add: base_env_def)

text \<open>Calling a \<open>boost::function\<close>; an empty one throws.\<close>

definition call_user ::
  "('w, 'b) env_scheme \<Rightarrow> user_callback option \<Rightarrow> user_arg \<Rightarrow> 'w \<Rightarrow> 'w res" where
  "call_user E cb arg w = (case cb of None \<Rightarrow> Inl BadFunctionCall | Some f \<Rightarrow> user E f arg w)"

definition call_close ::
  "('w, 'b) env_scheme \<Rightarrow> close_callback option \<Rightarrow> conn_id \<Rightarrow> 'w \<Rightarrow> 'w res" where
  "call_close E cb this w = (case cb of None \<Rightarrow> Inl BadFunctionCall | Some f \<Rightarrow> closer E f this w)"

section \<open>Construction and setters\<close>

definition TcpConnection_ctor ::
  "libev \<Rightarrow> conn_id \<Rightarrow> loop_id \<Rightarrow> string \<Rightarrow> int \<Rightarrow> sockaddr_in \<Rightarrow> sockaddr_in \<Rightarrow> TcpConnection" where
  "TcpConnection_ctor L this loop nm sockfd local peer =
     \<lparr>conn_loop = loop, conn_name = nm, conn_state = kConnecting, conn_socket = sockfd,
      conn_channel =
        Channel_setErrorCallback (Cb_TcpConnection_handleError this)
          (Channel_setWriteCallback (Cb_TcpConnection_handleWrite this)
            (Channel_setReadCallback (Cb_TcpConnection_handleRead this) (Channel_ctor L loop sockfd))),
      localAddr = local, peerAddr = peer, connectionCallback = None, messageCallback = None,
      closeCallback = None, writeCompleteCallback = None, highWaterMarkCallback = None,
      highWaterMark = 64 * 1024 * 1024, inputBuffer = Buffer_ctor, outputBuffer = Buffer_ctor\<rparr>"

definition TcpConnection_connected :: "TcpConnection \<Rightarrow> bool" where
  "TcpConnection_connected c \<longleftrightarrow> conn_state c = kConnected"

definition TcpConnection_setConnectionCallback :: "user_callback option \<Rightarrow> TcpConnection \<Rightarrow> TcpConnection" where
  "TcpConnection_setConnectionCallback cb c = c\<lparr>connectionCallback := cb\<rparr>"

definition TcpConnection_setMessageCallback :: "user_callback option \<Rightarrow> TcpConnection \<Rightarrow> TcpConnection" where
  "TcpConnection_setMessageCallback cb c = c\<lparr>messageCallback := cb\<rparr>"

definition TcpConnection_setWriteCompleteCallback :: "user_callback option \<Rightarrow> TcpConnection \<Rightarrow> TcpConnection" where
  "TcpConnection_setWriteCompleteCallback cb c = c\<lparr>writeCompleteCallback := cb\<rparr>"

definition TcpConnection_setHighWaterMarkCallback ::
  "user_callback option \<Rightarrow> size_t \<Rightarrow> TcpConnection \<Rightarrow> TcpConnection" where
  "TcpConnection_setHighWaterMarkCallback cb hwm c = c\<lparr>highWaterMarkCallback := cb, highWaterMark := hwm\<rparr>"

definition TcpConnection_setCloseCallback :: "close_callback option \<Rightarrow> TcpConnection \<Rightarrow> TcpConnection" where
  "TcpConnection_setCloseCallback cb c = c\<lparr>closeCallback := cb\<rparr>"

definition TcpConnection_setState :: "StateE \<Rightarrow> TcpConnection \<Rightarrow> TcpConnection" where
  "TcpConnection_setState s c = c\<lparr>conn_state := s\<rparr>"

definition TcpConnection_setTcpNoDelay :: "int \<Rightarrow> conn_id \<Rightarrow> bool \<Rightarrow> 'a net_scheme \<Rightarrow> 'a net_scheme" where
  "TcpConnection_setTcpNoDelay ret this on w =
     upd_sock (conn_socket (conns w this)) (Socket_setTcpNoDelay ret on) w"

definition TcpConnection_setKeepAlive :: "int \<Rightarrow> conn_id \<Rightarrow> bool \<Rightarrow> 'a net_scheme \<Rightarrow> 'a net_scheme" where
  "TcpConnection_setKeepAlive ret this on w =
     upd_sock (conn_socket (conns w this)) (Socket_setKeepAlive ret on) w"

section \<open>Establishing and destroying\<close>

definition TcpConnection_connectEstablished ::
  "('a net_scheme, 'b) env_scheme \<Rightarrow> conn_id \<Rightarrow> 'a net_scheme \<Rightarrow> 'a net_scheme res" where
  "TcpConnection_connectEstablished E this w =
     EventLoop_assertInLoopThread (tid E) (loop_of this w)
       (ensure (conn_state (conns w this) = kConnecting) AssertFailed
         (let w1 = upd_conn this (TcpConnection_setState kConnected) w;
              w2 = upd_conn this (on_channel (Channel_enableReading (ev E))) w1
          in call_user E (connectionCallback (conns w2 this)) (On_connection this) w2))"

definition TcpConnection_connectDestroyed ::
  "('a net_scheme, 'b) env_scheme \<Rightarrow> conn_id \<Rightarrow> 'a net_scheme \<Rightarrow> 'a net_scheme res" where
  "TcpConnection_connectDestroyed E this w =
     EventLoop_assertInLoopThread (tid E) (loop_of this w)
       (ensure (conn_state (conns w this) = kConnected \<or> conn_state (conns w this) = kDisconnecting) AssertFailed
         (let w1 = upd_conn this (TcpConnection_setState kDisconnected) w;
              w2 = upd_conn this (on_channel (Channel_disableAll (ev E))) w1
          in bindR (call_user E (connectionCallback (conns w2 this)) (On_connection this) w2) (\<lambda>w3.
             bindR (Channel_remove (ev E) (EventLoop_isInLoopThread (tid E) (loop_of this w3))
                      (conn_channel (conns w3 this))) (\<lambda>ch.
             Inr (upd_conn this (on_channel (\<lambda>_. ch)) w3)))))"

text \<open>The destructor releases the socket; it has \<open>Channel\<close>'s assertion.\<close>

definition TcpConnection_dtor :: "conn_id \<Rightarrow> 'a net_scheme \<Rightarrow> 'a net_scheme res" where
  "TcpConnection_dtor this w =
     bindR (Channel_dtor (conn_channel (conns w this))) (\<lambda>_.
     Inr (upd_sock (conn_socket (conns w this)) Socket_dtor w))"

section \<open>Shutdown\<close>

definition TcpConnection_shutdownInLoop ::
  "('a net_scheme, 'b) env_scheme \<Rightarrow> conn_id \<Rightarrow> 'a net_scheme \<Rightarrow> 'a net_scheme res" where
  "TcpConnection_shutdownInLoop E this w =
     EventLoop_assertInLoopThread (tid E) (loop_of this w)
       (Inr (if \<not> Channel_isWriting (conn_channel (conns w this))
             then upd_sock (conn_socket (conns w this)) Socket_shutdownWrite w else w))"

definition TcpConnection_shutdown ::
  "('a net_scheme, 'b) env_scheme \<Rightarrow> conn_id \<Rightarrow> 'a net_scheme \<Rightarrow> 'a net_scheme res" where
  "TcpConnection_shutdown E this w =
     (if conn_state (conns w this) = kConnected
      then let w1 = upd_conn this (TcpConnection_setState kDisconnecting) w
           in EventLoop_runInLoop (loop_of this) (upd_loop (conn_loop (conns w this))) (tid E)
                (F_shutdownInLoop this) (TcpConnection_shutdownInLoop E this) w1
      else Inr w)"

section \<open>Sending\<close>

text \<open>\<open>if (writeCompleteCallback_) loop_->queueInLoop(...)\<close>, which occurs twice.\<close>

definition TcpConnection_queueWriteComplete :: "thread_id \<Rightarrow> conn_id \<Rightarrow> 'a net_scheme \<Rightarrow> 'a net_scheme" where
  "TcpConnection_queueWriteComplete t this w =
     (case writeCompleteCallback (conns w this) of
        Some cb \<Rightarrow> upd_loop (conn_loop (conns w this)) (EventLoop_queueInLoop t (F_writeComplete cb this)) w
      | None \<Rightarrow> w)"

text \<open>
  \<open>sendInLoop\<close> first tries to write at once (\<open>numWrite\<close>, \<open>remaining\<close> and \<open>faultError\<close> are its local
  variables), and then appends what is left to the output buffer (\<open>bufferRest\<close>).
\<close>

definition TcpConnection_tryWrite ::
  "thread_id \<Rightarrow> conn_id \<Rightarrow> string \<Rightarrow> 'a net_scheme \<Rightarrow> int \<times> size_t \<times> bool \<times> 'a net_scheme" where
  "TcpConnection_tryWrite t this message w =
     (let c = conns w this in
      if \<not> Channel_isWriting (conn_channel c) \<and> Buffer_readableBytes (outputBuffer c) = 0
      then
        (case sockets_write message (socks w (conn_fd c)) of
           (n, e, s) \<Rightarrow>
             let w1 = upd_sock (conn_fd c) (\<lambda>_. s) w in
             if n \<ge> 0
             then let remaining = sizeof_list message - word_of_int n in
                  (n, remaining, False,
                   if remaining = 0 then TcpConnection_queueWriteComplete t this w1 else w1)
             else (0, sizeof_list message,
                   e \<noteq> EWOULDBLOCK \<and> (e = EPIPE \<or> e = ECONNRESET), w1))
      else (0, sizeof_list message, False, w))"

text \<open>The block that keeps the rest for later, with the high-water mark.\<close>

definition TcpConnection_queueHighWaterMark ::
  "('a net_scheme, 'b) env_scheme \<Rightarrow> conn_id \<Rightarrow> size_t \<Rightarrow> 'a net_scheme \<Rightarrow> 'a net_scheme" where
  "TcpConnection_queueHighWaterMark E this remaining w =
     (let c = conns w this; oldLen = Buffer_readableBytes (outputBuffer c)
      in case highWaterMarkCallback c of
           Some cb \<Rightarrow>
             if oldLen + remaining \<ge> highWaterMark c \<and> oldLen < highWaterMark c
             then upd_loop (conn_loop c) (EventLoop_queueInLoop (tid E)
                    (F_highWaterMark cb this (oldLen + remaining))) w
             else w
         | None \<Rightarrow> w)"

definition TcpConnection_bufferRest ::
  "('a net_scheme, 'b) env_scheme \<Rightarrow> conn_id \<Rightarrow> string \<Rightarrow> int \<Rightarrow> size_t \<Rightarrow> 'a net_scheme \<Rightarrow> 'a net_scheme res" where
  "TcpConnection_bufferRest E this message numWrite remaining w =
     (let w1 = TcpConnection_queueHighWaterMark E this remaining w
      in bindR (Buffer_append (take (unat remaining) (drop (nat numWrite) message)) (outputBuffer (conns w1 this))) (\<lambda>b.
         let w2 = upd_conn this (\<lambda>c. c\<lparr>outputBuffer := b\<rparr>) w1
         in Inr (if \<not> Channel_isWriting (conn_channel (conns w2 this))
                 then upd_conn this (on_channel (Channel_enableWriting (ev E))) w2
                 else w2)))"

definition TcpConnection_sendInLoop ::
  "('a net_scheme, 'b) env_scheme \<Rightarrow> conn_id \<Rightarrow> string \<Rightarrow> 'a net_scheme \<Rightarrow> 'a net_scheme res" where
  "TcpConnection_sendInLoop E this message w =
     EventLoop_assertInLoopThread (tid E) (loop_of this w)
       (case TcpConnection_tryWrite (tid E) this message w of
          (numWrite, remaining, faultError, w1) \<Rightarrow>
            ensure (numWrite \<ge> 0) AssertFailed
              (if \<not> faultError \<and> remaining > 0
               then TcpConnection_bufferRest E this message numWrite remaining w1
               else Inr w1))"

definition TcpConnection_send ::
  "('a net_scheme, 'b) env_scheme \<Rightarrow> conn_id \<Rightarrow> string \<Rightarrow> 'a net_scheme \<Rightarrow> 'a net_scheme res" where
  "TcpConnection_send E this message w =
     (if conn_state (conns w this) = kConnected
      then if EventLoop_isInLoopThread (tid E) (loop_of this w)
           then TcpConnection_sendInLoop E this message w
           else Inr (upd_loop (conn_loop (conns w this))
                       (EventLoop_queueInLoop (tid E) (F_sendInLoop this message)) w)
      else Inr w)"

section \<open>Event handlers\<close>

definition TcpConnection_handleClose ::
  "('a net_scheme, 'b) env_scheme \<Rightarrow> conn_id \<Rightarrow> 'a net_scheme \<Rightarrow> 'a net_scheme res" where
  "TcpConnection_handleClose E this w =
     EventLoop_assertInLoopThread (tid E) (loop_of this w)
       (ensure (conn_state (conns w this) = kConnected \<or> conn_state (conns w this) = kDisconnecting) AssertFailed
         (let w1 = upd_conn this (on_channel (Channel_disableAll (ev E))) w
          in call_close E (closeCallback (conns w1 this)) this w1))"

text \<open>\<open>handleError\<close> reads \<open>SO_ERROR\<close> and logs it.\<close>

definition TcpConnection_handleError :: "conn_id \<Rightarrow> 'a net_scheme \<Rightarrow> 'a net_scheme res" where
  "TcpConnection_handleError this w =
     Inr (upd_sock (conn_fd (conns w this)) (\<lambda>s. snd (sockets_getSocketError s)) w)"

definition TcpConnection_handleRead ::
  "('a net_scheme, 'b) env_scheme \<Rightarrow> conn_id \<Rightarrow> real \<Rightarrow> 'a net_scheme \<Rightarrow> 'a net_scheme res" where
  "TcpConnection_handleRead E this receiveTime w =
     (let fd = conn_fd (conns w this) in
      bindR (Buffer_readFd (sockets_readable (socks w fd)) (inputBuffer (conns w this)))
        (\<lambda>(n, savedErrno, b, rest).
          let w1 = upd_sock fd (sockets_readDone rest) (upd_conn this (\<lambda>c. c\<lparr>inputBuffer := b\<rparr>) w) in
          if n > 0
          then call_user E (messageCallback (conns w1 this)) (On_message this receiveTime) w1
          else if n = 0 then TcpConnection_handleClose E this w1
          else TcpConnection_handleError this w1))"

definition TcpConnection_handleWrite ::
  "('a net_scheme, 'b) env_scheme \<Rightarrow> conn_id \<Rightarrow> 'a net_scheme \<Rightarrow> 'a net_scheme res" where
  "TcpConnection_handleWrite E this w =
     EventLoop_assertInLoopThread (tid E) (loop_of this w)
       (if Channel_isWriting (conn_channel (conns w this))
        then
          let c = conns w this in
          bindR (Buffer_string (outputBuffer c)) (\<lambda>bytes.
            case sockets_write bytes (socks w (conn_fd c)) of
              (numWrite, e, s) \<Rightarrow>
                let w1 = upd_sock (conn_fd c) (\<lambda>_. s) w in
                if numWrite > 0
                then
                  bindR (Buffer_retrieve (word_of_int numWrite) (outputBuffer c)) (\<lambda>b.
                  let w2 = upd_conn this (\<lambda>c. c\<lparr>outputBuffer := b\<rparr>) w1 in
                  if Buffer_readableBytes b = 0
                  then
                    let w3 = upd_conn this (on_channel (Channel_disableWriting (ev E))) w2;
                        w4 = TcpConnection_queueWriteComplete (tid E) this w3
                    in if conn_state (conns w4 this) = kDisconnecting
                       then TcpConnection_shutdownInLoop E this w4 else Inr w4
                  else Inr w2)
                else Inr w1)
        else Inr w)"

text \<open>The callbacks of the channel, for the dispatch of its events.\<close>

fun TcpConnection_callback ::
  "('a net_scheme, 'b) env_scheme \<Rightarrow> real \<Rightarrow> channel_callback \<Rightarrow> 'a net_scheme \<Rightarrow> 'a net_scheme res" where
  "TcpConnection_callback E now (Cb_TcpConnection_handleRead c) w = TcpConnection_handleRead E c now w"
| "TcpConnection_callback E now (Cb_TcpConnection_handleWrite c) w = TcpConnection_handleWrite E c w"
| "TcpConnection_callback E now (Cb_TcpConnection_handleError c) w = TcpConnection_handleError c w"
| "TcpConnection_callback E now _ w = Inr w"

definition TcpConnection_event ::
  "('a net_scheme, 'b) env_scheme \<Rightarrow> conn_id \<Rightarrow> real \<Rightarrow> evmask \<Rightarrow> 'a net_scheme \<Rightarrow> 'a net_scheme res" where
  "TcpConnection_event E this now revents w =
     Channel_handleEvent (\<lambda>w. conn_channel (conns w this)) (\<lambda>f. upd_conn this (on_channel f))
       (TcpConnection_callback E now) (\<lambda>_. True) revents w"

section \<open>Reading updated states\<close>

lemma upd_simps [simp]:
  "loops (upd_loop l f w) = (loops w)(l := f (loops w l))"
  "conns (upd_loop l f w) = conns w" "socks (upd_loop l f w) = socks w"
  "conns (upd_conn c g w) = (conns w)(c := g (conns w c))"
  "loops (upd_conn c g w) = loops w" "socks (upd_conn c g w) = socks w"
  "socks (upd_sock fd h w) = (socks w)(fd := h (socks w fd))"
  "conns (upd_sock fd h w) = conns w" "loops (upd_sock fd h w) = loops w"
  "timersCreated (upd_loop l f w) = timersCreated w" "timersCreated (upd_conn c g w) = timersCreated w"
  "timersCreated (upd_sock fd h w) = timersCreated w"
  "net.more (upd_loop l f w) = net.more w" "net.more (upd_conn c g w) = net.more w"
  "net.more (upd_sock fd h w) = net.more w"
  by (simp_all add: upd_loop_def upd_conn_def upd_sock_def)

lemma on_channel_simps [simp]:
  "conn_channel (on_channel f c) = f (conn_channel c)" "conn_loop (on_channel f c) = conn_loop c"
  "conn_state (on_channel f c) = conn_state c" "conn_socket (on_channel f c) = conn_socket c"
  "inputBuffer (on_channel f c) = inputBuffer c" "outputBuffer (on_channel f c) = outputBuffer c"
  "connectionCallback (on_channel f c) = connectionCallback c"
  "messageCallback (on_channel f c) = messageCallback c" "closeCallback (on_channel f c) = closeCallback c"
  "writeCompleteCallback (on_channel f c) = writeCompleteCallback c"
  "highWaterMarkCallback (on_channel f c) = highWaterMarkCallback c"
  "highWaterMark (on_channel f c) = highWaterMark c"
  by (simp_all add: on_channel_def)

lemma setState_simps [simp]:
  "conn_channel (TcpConnection_setState st c) = conn_channel c"
  "conn_loop (TcpConnection_setState st c) = conn_loop c"
  "conn_state (TcpConnection_setState st c) = st" "conn_socket (TcpConnection_setState st c) = conn_socket c"
  "inputBuffer (TcpConnection_setState st c) = inputBuffer c"
  "outputBuffer (TcpConnection_setState st c) = outputBuffer c"
  "connectionCallback (TcpConnection_setState st c) = connectionCallback c"
  "messageCallback (TcpConnection_setState st c) = messageCallback c"
  "closeCallback (TcpConnection_setState st c) = closeCallback c"
  "writeCompleteCallback (TcpConnection_setState st c) = writeCompleteCallback c"
  by (simp_all add: TcpConnection_setState_def)

lemma Channel_callbacks_frame [simp]:
  "readCallback (Channel_enableReading L ch) = readCallback ch"
  "writeCallback (Channel_enableReading L ch) = writeCallback ch"
  "errorCallback (Channel_enableReading L ch) = errorCallback ch"
  "readCallback (Channel_enableWriting L ch) = readCallback ch"
  "writeCallback (Channel_enableWriting L ch) = writeCallback ch"
  "errorCallback (Channel_enableWriting L ch) = errorCallback ch"
  "readCallback (Channel_disableWriting L ch) = readCallback ch"
  "writeCallback (Channel_disableWriting L ch) = writeCallback ch"
  "errorCallback (Channel_disableWriting L ch) = errorCallback ch"
  "readCallback (Channel_disableAll L ch) = readCallback ch"
  "writeCallback (Channel_disableAll L ch) = writeCallback ch"
  "errorCallback (Channel_disableAll L ch) = errorCallback ch"
  "ch_tied (Channel_enableReading L ch) = ch_tied ch" "ch_tied (Channel_enableWriting L ch) = ch_tied ch"
  "ch_tied (Channel_disableWriting L ch) = ch_tied ch" "ch_tied (Channel_disableAll L ch) = ch_tied ch"
  by (simp_all add: Channel_defs)

text \<open>Queueing the write-complete callback changes only the queue of the loop.\<close>

lemma queueWriteComplete_frame [simp]:
  "conns (TcpConnection_queueWriteComplete t this w) = conns w"
  "socks (TcpConnection_queueWriteComplete t this w) = socks w"
  "threadId (loop_of c (TcpConnection_queueWriteComplete t this w)) = threadId (loop_of c w)"
  "net.more (TcpConnection_queueWriteComplete t this w) = net.more w"
  by (simp_all add: TcpConnection_queueWriteComplete_def loop_of_def split: option.split)

lemma queueWriteComplete_queue:
  "pendingFunctors (loop_of this (TcpConnection_queueWriteComplete t this w)) =
   pendingFunctors (loop_of this w) @
     (case writeCompleteCallback (conns w this) of None \<Rightarrow> [] | Some cb \<Rightarrow> [F_writeComplete cb this])"
  by (simp add: TcpConnection_queueWriteComplete_def loop_of_def split: option.split)

text \<open>Queueing the high-water mark callback changes only the queue of the loop.\<close>

lemma queueHighWaterMark_frame [simp]:
  "conns (TcpConnection_queueHighWaterMark E this r w) = conns w"
  "socks (TcpConnection_queueHighWaterMark E this r w) = socks w"
  "threadId (loop_of c (TcpConnection_queueHighWaterMark E this r w)) = threadId (loop_of c w)"
  "net.more (TcpConnection_queueHighWaterMark E this r w) = net.more w"
  by (simp_all add: TcpConnection_queueHighWaterMark_def loop_of_def Let_def split: option.split)

lemma queueHighWaterMark_queue:
  "pendingFunctors (loop_of this (TcpConnection_queueHighWaterMark E this r w)) =
   pendingFunctors (loop_of this w) @
     (case highWaterMarkCallback (conns w this) of
        None \<Rightarrow> []
      | Some cb \<Rightarrow>
          let old = Buffer_readableBytes (outputBuffer (conns w this)) in
          if old + r \<ge> highWaterMark (conns w this) \<and> old < highWaterMark (conns w this)
          then [F_highWaterMark cb this (old + r)] else [])"
  by (auto simp: TcpConnection_queueHighWaterMark_def loop_of_def Let_def split: option.split)

end
