(* ===== verification/Tcp_Stream.thy ===== *)
theory Tcp_Stream
  imports Tcp_Connection
begin

text \<open>
  What a connection promises, over every behaviour of its user, of other threads, of the peer and of the
  kernel: the bytes it accepts reach the socket in order and exactly once, the interest in write events
  follows the output buffer, the write side is shut down only after the buffer was flushed, and no
  assertion of the class fails between its construction and its destruction.

  \<open>tcp_step\<close> is one step of that world and \<open>tcp_reachable\<close> the states it can reach; the invariants are in
  \<open>tcp_inv\<close>, one definition per subject.
\<close>

section \<open>The user of a connection\<close>

text \<open>
  \<open>accepted\<close> records the messages that \<open>sendInLoop\<close> has to deliver, in order: all it was given, except a
  message for which the kernel answered at once that the peer is gone (\<open>peer_gone\<close>, said of the socket and
  not of the code's flag). \<open>consumed\<close> records the bytes that the user retrieved from the
  input buffer, in order.
\<close>

record gnet = net +
  accepted :: "string list"
  consumed :: string

text \<open>A user callback is a list of calls on its connection, which may depend on all of the state.\<close>

datatype user_action =
    A_send string
  | A_shutdown
  | A_retrieve size_t
  | A_retrieveAll
  | A_setWriteCompleteCallback "user_callback option"
  | A_setHighWaterMarkCallback "user_callback option" size_t

text \<open>
  Nothing waits to be written, and the kernel answers a write of the message with \<open>EPIPE\<close> or \<open>ECONNRESET\<close>.
  After any other answer, a full socket or another error, the message has to be delivered.
\<close>

definition peer_gone :: "conn_id \<Rightarrow> string \<Rightarrow> gnet \<Rightarrow> bool" where
  "peer_gone this m w \<longleftrightarrow>
     Buffer_bytes (outputBuffer (conns w this)) = [] \<and> \<not> Channel_isWriting (conn_channel (conns w this)) \<and>
     (case sockets_write m (socks w (conn_fd (conns w this))) of
        (n, e, s) \<Rightarrow> n < 0 \<and> e \<in> {EPIPE, ECONNRESET})"

definition log_message :: "conn_id \<Rightarrow> string \<Rightarrow> gnet \<Rightarrow> gnet \<Rightarrow> gnet" where
  "log_message this m w w' = w'\<lparr>accepted := accepted w @ (if peer_gone this m w then [] else [m])\<rparr>"

definition logged_sendInLoop ::
  "libev \<Rightarrow> thread_id \<Rightarrow> conn_id \<Rightarrow> string \<Rightarrow> gnet \<Rightarrow> gnet res" where
  "logged_sendInLoop L t this m w =
     bindR (TcpConnection_sendInLoop (base_env L t) this m w) (\<lambda>w'. Inr (log_message this m w w'))"

definition logged_send :: "libev \<Rightarrow> thread_id \<Rightarrow> conn_id \<Rightarrow> string \<Rightarrow> gnet \<Rightarrow> gnet res" where
  "logged_send L t this m w =
     bindR (TcpConnection_send (base_env L t) this m w) (\<lambda>w'.
     Inr (if TcpConnection_connected (conns w this) \<and> EventLoop_isInLoopThread t (loop_of this w)
          then log_message this m w w' else w'))"

definition log_consumed :: "string \<Rightarrow> gnet \<Rightarrow> gnet" where
  "log_consumed bytes w = w\<lparr>consumed := consumed w @ bytes\<rparr>"

fun user_step :: "libev \<Rightarrow> thread_id \<Rightarrow> conn_id \<Rightarrow> user_action \<Rightarrow> gnet \<Rightarrow> gnet res" where
  "user_step L t this (A_send m) w = logged_send L t this m w"
| "user_step L t this A_shutdown w = TcpConnection_shutdown (base_env L t) this w"
| "user_step L t this (A_retrieve n) w =
     (if n \<le> Buffer_readableBytes (inputBuffer (conns w this))
      then bindR (Buffer_retrieve n (inputBuffer (conns w this))) (\<lambda>b.
             Inr (log_consumed (take (unat n) (Buffer_bytes (inputBuffer (conns w this))))
               (upd_conn this (\<lambda>c. c\<lparr>inputBuffer := b\<rparr>) w)))
      else Inr w)"
| "user_step L t this A_retrieveAll w =
     Inr (log_consumed (Buffer_bytes (inputBuffer (conns w this)))
       (upd_conn this (\<lambda>c. c\<lparr>inputBuffer := Buffer_retrieveAll (inputBuffer c)\<rparr>) w))"
| "user_step L t this (A_setWriteCompleteCallback cb) w =
     Inr (upd_conn this (TcpConnection_setWriteCompleteCallback cb) w)"
| "user_step L t this (A_setHighWaterMarkCallback cb n) w =
     Inr (upd_conn this (TcpConnection_setHighWaterMarkCallback cb n) w)"

type_synonym user_script = "user_callback \<Rightarrow> user_arg \<Rightarrow> gnet \<Rightarrow> user_action list"

text \<open>
  The close callback queues \<open>connectDestroyed\<close> on the connection's loop, as \<open>detail::removeConnection\<close>
  does and, once they have dropped the connection, \<open>TcpServer\<close> and \<open>TcpClient\<close> do.
\<close>

definition queue_destroy :: "thread_id \<Rightarrow> conn_id \<Rightarrow> 'a net_scheme \<Rightarrow> 'a net_scheme" where
  "queue_destroy t this w =
     upd_loop (conn_loop (conns w this)) (EventLoop_queueInLoop t (F_connectDestroyed this)) w"

definition script_env :: "libev \<Rightarrow> thread_id \<Rightarrow> conn_id \<Rightarrow> user_script \<Rightarrow> gnet env" where
  "script_env L t this S =
     \<lparr>ev = L, tid = t,
      user = (\<lambda>f arg w. foldR (user_step L t this) (S f arg w) w),
      closer = (\<lambda>_ c w. Inr (queue_destroy t c w))\<rparr>"

section \<open>Steps\<close>

text \<open>The functors that concern the connection; others leave it alone.\<close>

fun run_functor :: "libev \<Rightarrow> thread_id \<Rightarrow> conn_id \<Rightarrow> user_script \<Rightarrow> Functor \<Rightarrow> gnet \<Rightarrow> gnet res" where
  "run_functor L t this S (F_sendInLoop c m) w = (if c = this then logged_sendInLoop L t this m w else Inr w)"
| "run_functor L t this S (F_shutdownInLoop c) w =
     (if c = this then TcpConnection_shutdownInLoop (script_env L t this S) this w else Inr w)"
| "run_functor L t this S (F_connectEstablished c) w =
     (if c = this then TcpConnection_connectEstablished (script_env L t this S) this w else Inr w)"
| "run_functor L t this S (F_connectDestroyed c) w =
     (if c = this then TcpConnection_connectDestroyed (script_env L t this S) this w else Inr w)"
| "run_functor L t this S (F_writeComplete cb c) w =
     (if c = this then call_user (script_env L t this S) (Some cb) (On_writeComplete this) w else Inr w)"
| "run_functor L t this S (F_highWaterMark cb c n) w =
     (if c = this then call_user (script_env L t this S) (Some cb) (On_highWaterMark this n) w else Inr w)"
| "run_functor L t this S _ w = Inr w"

text \<open>libev reports an event only for a live watcher, and only one it watches for (or an error).\<close>

definition reportable :: "evmask \<Rightarrow> Channel \<Rightarrow> bool" where
  "reportable revents ch \<longleftrightarrow> Channel_live ch \<and>
     (revents AND ev_READ \<noteq> 0 \<longrightarrow> Channel_isReading ch) \<and> (revents AND ev_WRITE \<noteq> 0 \<longrightarrow> Channel_isWriting ch)"

text \<open>
  What the kernel and the peer do to the socket: bytes and errors come in, room for writes comes and
  goes. They do not touch what was written or read nor the shut-down flag.
\<close>

definition kernel_change :: "Sock \<Rightarrow> Sock \<Rightarrow> bool" where
  "kernel_change s s' \<longleftrightarrow> sk_out s' = sk_out s \<and> sk_taken s' = sk_taken s \<and> sk_shutWr s' = sk_shutWr s"

text \<open>
  The operations a step can run, as one function, so that their failures can be spoken about:
  \<open>Do_functor\<close> runs the functor at the head of the queue, \<open>Do_event\<close> dispatches an event,
  \<open>Do_foreign_send\<close> and \<open>Do_foreign_shutdown\<close> are calls from another thread.
\<close>

datatype tcp_act =
    Do_functor
  | Do_event evmask real
  | Do_foreign_send thread_id string
  | Do_foreign_shutdown thread_id

fun tcp_enabled :: "thread_id \<Rightarrow> conn_id \<Rightarrow> tcp_act \<Rightarrow> gnet \<Rightarrow> bool" where
  "tcp_enabled t this Do_functor w \<longleftrightarrow> pendingFunctors (loop_of this w) \<noteq> []"
| "tcp_enabled t this (Do_event revents now) w \<longleftrightarrow> reportable revents (conn_channel (conns w this))"
| "tcp_enabled t this (Do_foreign_send t' m) w \<longleftrightarrow> t' \<noteq> t"
| "tcp_enabled t this (Do_foreign_shutdown t') w \<longleftrightarrow> t' \<noteq> t"

text \<open>Messages are no longer than a string can be.\<close>

fun act_ok :: "tcp_act \<Rightarrow> bool" where
  "act_ok (Do_foreign_send t' m) \<longleftrightarrow> length m \<le> max_size"
| "act_ok _ \<longleftrightarrow> True"

definition drop_head :: "conn_id \<Rightarrow> gnet \<Rightarrow> gnet" where
  "drop_head this w =
     upd_loop (conn_loop (conns w this)) (\<lambda>l. l\<lparr>pendingFunctors := tl (pendingFunctors l)\<rparr>) w"

fun tcp_do :: "libev \<Rightarrow> thread_id \<Rightarrow> conn_id \<Rightarrow> user_script \<Rightarrow> tcp_act \<Rightarrow> gnet \<Rightarrow> gnet res" where
  "tcp_do L t this S Do_functor w =
     run_functor L t this S (hd (pendingFunctors (loop_of this w))) (drop_head this w)"
| "tcp_do L t this S (Do_event revents now) w = TcpConnection_event (script_env L t this S) this now revents w"
| "tcp_do L t this S (Do_foreign_send t' m) w = TcpConnection_send (base_env L t') this m w"
| "tcp_do L t this S (Do_foreign_shutdown t') w = TcpConnection_shutdown (base_env L t') this w"

inductive tcp_step :: "libev \<Rightarrow> thread_id \<Rightarrow> conn_id \<Rightarrow> user_script \<Rightarrow> gnet \<Rightarrow> gnet \<Rightarrow> bool"
  for L t this S where
  tcp_acts: "tcp_enabled t this a w \<Longrightarrow> act_ok a \<Longrightarrow> tcp_do L t this S a w = Inr w' \<Longrightarrow> tcp_step L t this S w w'"
| tcp_kernel: "kernel_change (socks w (conn_fd (conns w this))) s \<Longrightarrow>
    tcp_step L t this S w (upd_sock (conn_fd (conns w this)) (\<lambda>_. s) w)"
| tcp_other: "tcp_step L t this S w (upd_loop (conn_loop (conns w this)) (EventLoop_queueInLoop t' (F_user cb)) w)"

text \<open>
  A connection as its owner makes it: constructed on a loop of thread \<open>t\<close>, its callbacks set, and
  \<open>connectEstablished\<close> queued on its loop.
\<close>

definition tcp_initial :: "libev \<Rightarrow> thread_id \<Rightarrow> conn_id \<Rightarrow> gnet \<Rightarrow> bool" where
  "tcp_initial L t this w \<longleftrightarrow>
     (\<exists>l nm fd la pa cb mb wb cl.
        conns w this = TcpConnection_setCloseCallback (Some cl) (TcpConnection_setWriteCompleteCallback wb
          (TcpConnection_setMessageCallback (Some mb) (TcpConnection_setConnectionCallback (Some cb)
            (TcpConnection_ctor L this l nm fd la pa)))) \<and>
        threadId (loops w l) = t \<and> pendingFunctors (loops w l) = [F_connectEstablished this] \<and>
        sk_out (socks w fd) = [] \<and> sk_taken (socks w fd) = [] \<and> \<not> sk_shutWr (socks w fd) \<and>
        accepted w = [] \<and> consumed w = [])"

inductive tcp_reachable :: "libev \<Rightarrow> thread_id \<Rightarrow> conn_id \<Rightarrow> user_script \<Rightarrow> gnet \<Rightarrow> bool"
  for L t this S where
  tcp_start: "tcp_initial L t this w \<Longrightarrow> tcp_reachable L t this S w"
| tcp_next: "tcp_reachable L t this S w \<Longrightarrow> tcp_step L t this S w w' \<Longrightarrow> tcp_reachable L t this S w'"

section \<open>Invariants\<close>

text \<open>The channel is bound to the connection's handlers, and the callbacks that are called unconditionally are set.\<close>

definition wired :: "conn_id \<Rightarrow> TcpConnection \<Rightarrow> bool" where
  "wired this c \<longleftrightarrow>
     conn_fd c = conn_socket c \<and> \<not> ch_tied (conn_channel c) \<and>
     readCallback (conn_channel c) = Some (Cb_TcpConnection_handleRead this) \<and>
     writeCallback (conn_channel c) = Some (Cb_TcpConnection_handleWrite this) \<and>
     errorCallback (conn_channel c) = Some (Cb_TcpConnection_handleError this) \<and>
     connectionCallback c \<noteq> None \<and> messageCallback c \<noteq> None \<and> closeCallback c \<noteq> None"

definition out_bytes :: "TcpConnection \<Rightarrow> string" where
  "out_bytes c = Buffer_bytes (outputBuffer c)"

abbreviation writing :: "TcpConnection \<Rightarrow> bool" where
  "writing c \<equiv> Channel_isWriting (conn_channel c)"

abbreviation reading :: "TcpConnection \<Rightarrow> bool" where
  "reading c \<equiv> Channel_isReading (conn_channel c)"

abbreviation live :: "TcpConnection \<Rightarrow> bool" where
  "live c \<equiv> Channel_live (conn_channel c)"

definition buffers_ok :: "TcpConnection \<Rightarrow> bool" where
  "buffers_ok c \<longleftrightarrow> Buffer_inv (inputBuffer c) \<and> Buffer_inv (outputBuffer c)"

text \<open>The byte stream: what the kernel took, followed by what the output buffer holds.\<close>

definition stream_ok :: "TcpConnection \<Rightarrow> Sock \<Rightarrow> string list \<Rightarrow> bool" where
  "stream_ok c s acc \<longleftrightarrow> sk_out s @ out_bytes c = concat acc"

text \<open>While the watcher is live, write events are wanted only with bytes to write, and, until the
  connection is closed (reading is disabled), whenever there are some.\<close>

definition flow_ok :: "TcpConnection \<Rightarrow> Sock \<Rightarrow> bool" where
  "flow_ok c s \<longleftrightarrow>
     (live c \<longrightarrow> (writing c \<longrightarrow> out_bytes c \<noteq> []) \<and> (reading c \<and> out_bytes c \<noteq> [] \<longrightarrow> writing c) \<and>
        (reading c \<and> sk_shutWr s \<longrightarrow> out_bytes c = []))"

definition life_ok :: "conn_id \<Rightarrow> TcpConnection \<Rightarrow> Functor list \<Rightarrow> bool" where
  "life_ok this c q \<longleftrightarrow>
     (live c \<longleftrightarrow> conn_state c \<noteq> kDisconnected) \<and>
     count_list q (F_connectEstablished this) = (if conn_state c = kConnecting then 1 else 0) \<and>
     count_list q (F_connectDestroyed this) =
       (if conn_state c \<in> {kConnected, kDisconnecting} \<and> \<not> reading c then 1 else 0) \<and>
     (conn_state c = kConnecting \<longrightarrow> \<not> reading c \<and> \<not> writing c \<and> out_bytes c = [] \<and>
        (\<forall>m. F_sendInLoop this m \<notin> set q))"

definition fin_ok :: "conn_id \<Rightarrow> TcpConnection \<Rightarrow> Sock \<Rightarrow> Functor list \<Rightarrow> bool" where
  "fin_ok this c s q \<longleftrightarrow>
     (F_shutdownInLoop this \<in> set q \<or> sk_shutWr s \<longrightarrow> conn_state c \<in> {kDisconnecting, kDisconnected}) \<and>
     (conn_state c = kDisconnecting \<and> reading c \<and> F_shutdownInLoop this \<notin> set q \<longrightarrow> sk_shutWr s \<or> writing c)"

text \<open>No string is longer than \<open>std::string\<close> allows.\<close>

definition queue_ok :: "conn_id \<Rightarrow> Functor list \<Rightarrow> bool" where
  "queue_ok this q \<longleftrightarrow> (\<forall>m. F_sendInLoop this m \<in> set q \<longrightarrow> length m \<le> max_size)"

definition tcp_inv_on :: "conn_id \<Rightarrow> TcpConnection \<Rightarrow> Sock \<Rightarrow> Functor list \<Rightarrow> string list \<Rightarrow> bool" where
  "tcp_inv_on this c s q acc \<longleftrightarrow>
     wired this c \<and> buffers_ok c \<and> stream_ok c s acc \<and> flow_ok c s \<and> life_ok this c q \<and>
     fin_ok this c s q \<and> queue_ok this q"

definition tcp_inv :: "thread_id \<Rightarrow> conn_id \<Rightarrow> gnet \<Rightarrow> bool" where
  "tcp_inv t this w \<longleftrightarrow>
     threadId (loop_of this w) = t \<and>
     tcp_inv_on this (conns w this) (socks w (conn_fd (conns w this)))
       (pendingFunctors (loop_of this w)) (accepted w)"

definition script_ok :: "user_script \<Rightarrow> bool" where
  "script_ok S \<longleftrightarrow> (\<forall>f arg w m. A_send m \<in> set (S f arg w) \<longrightarrow> length m \<le> max_size)"

text \<open>The only failure is a buffer that cannot grow, and otherwise the invariant holds afterwards.\<close>

definition keeps :: "thread_id \<Rightarrow> conn_id \<Rightarrow> gnet res \<Rightarrow> bool" where
  "keeps t this r \<longleftrightarrow> (case r of Inl e \<Rightarrow> e = LengthError | Inr w \<Rightarrow> tcp_inv t this w)"

lemma keeps_simps [simp]: "keeps t this (Inl e) \<longleftrightarrow> e = LengthError" "keeps t this (Inr w) \<longleftrightarrow> tcp_inv t this w"
  by (simp_all add: keeps_def)

lemma keeps_bind:
  "keeps t this r \<Longrightarrow> (\<And>w. r = Inr w \<Longrightarrow> tcp_inv t this w \<Longrightarrow> keeps t this (f w)) \<Longrightarrow> keeps t this (bindR r f)"
  by (cases r) simp_all

lemmas tcp_inv_defs =
  tcp_inv_on_def wired_def buffers_ok_def stream_ok_def flow_ok_def life_ok_def fin_ok_def queue_ok_def

lemma conn_fd_simps [simp]:
  "conn_fd (on_channel (Channel_enableReading L) c) = conn_fd c"
  "conn_fd (on_channel (Channel_enableWriting L) c) = conn_fd c"
  "conn_fd (on_channel (Channel_disableWriting L) c) = conn_fd c"
  "conn_fd (on_channel (Channel_disableAll L) c) = conn_fd c"
  "conn_fd (TcpConnection_setState st c) = conn_fd c"
  "conn_fd (c\<lparr>inputBuffer := b\<rparr>) = conn_fd c" "conn_fd (c\<lparr>outputBuffer := b\<rparr>) = conn_fd c"
  "conn_fd (TcpConnection_setWriteCompleteCallback cb c) = conn_fd c"
  "conn_fd (TcpConnection_setHighWaterMarkCallback cb n c) = conn_fd c"
  by (simp_all add: conn_fd_def TcpConnection_setWriteCompleteCallback_def
      TcpConnection_setHighWaterMarkCallback_def)

lemma out_bytes_simps [simp]:
  "out_bytes (on_channel f c) = out_bytes c" "out_bytes (TcpConnection_setState st c) = out_bytes c"
  "out_bytes (c\<lparr>inputBuffer := b\<rparr>) = out_bytes c" "out_bytes (c\<lparr>outputBuffer := b\<rparr>) = Buffer_bytes b"
  "out_bytes (TcpConnection_setWriteCompleteCallback cb c) = out_bytes c"
  "out_bytes (TcpConnection_setHighWaterMarkCallback cb n c) = out_bytes c"
  by (simp_all add: out_bytes_def TcpConnection_setWriteCompleteCallback_def
      TcpConnection_setHighWaterMarkCallback_def)

section \<open>Sending keeps the invariant\<close>

text \<open>A functor that is neither about the life of the connection nor a send or shutdown of it.\<close>

fun neutral :: "conn_id \<Rightarrow> Functor \<Rightarrow> bool" where
  "neutral this (F_sendInLoop c m) \<longleftrightarrow> c \<noteq> this"
| "neutral this (F_shutdownInLoop c) \<longleftrightarrow> c \<noteq> this"
| "neutral this (F_connectEstablished c) \<longleftrightarrow> c \<noteq> this"
| "neutral this (F_connectDestroyed c) \<longleftrightarrow> c \<noteq> this"
| "neutral this _ \<longleftrightarrow> True"

lemma neutral_neq:
  assumes "neutral this f"
  shows "f \<noteq> F_shutdownInLoop this" "F_shutdownInLoop this \<noteq> f"
    "f \<noteq> F_connectEstablished this" "F_connectEstablished this \<noteq> f"
    "f \<noteq> F_connectDestroyed this" "F_connectDestroyed this \<noteq> f"
    "f \<noteq> F_sendInLoop this m" "F_sendInLoop this m \<noteq> f"
  using assms by (cases f; simp)+

lemma accepted_simps [simp]:
  "accepted (upd_loop l f w) = accepted w" "accepted (upd_conn c g w) = accepted w"
  "accepted (upd_sock fd h w) = accepted w"
  "consumed (upd_loop l f w) = consumed w" "consumed (upd_conn c g w) = consumed w"
  "consumed (upd_sock fd h w) = consumed w"
  by (simp_all add: upd_loop_def upd_conn_def upd_sock_def)

lemma count_list_snoc [simp]: "count_list (xs @ ys) x = count_list xs x + count_list ys x"
  by (induction xs) auto

lemma life_ok_neutral: "life_ok this c q \<Longrightarrow> neutral this f \<Longrightarrow> life_ok this c (q @ [f])"
  by (simp add: life_ok_def neutral_neq)

lemma fin_ok_neutral: "fin_ok this c s q \<Longrightarrow> neutral this f \<Longrightarrow> fin_ok this c s (q @ [f])"
  by (simp add: fin_ok_def neutral_neq)

lemma queue_ok_neutral: "queue_ok this q \<Longrightarrow> neutral this f \<Longrightarrow> queue_ok this (q @ [f])"
  by (simp add: queue_ok_def neutral_neq)

lemma tcp_inv_on_neutral:
  "tcp_inv_on this c s q acc \<Longrightarrow> neutral this f \<Longrightarrow> tcp_inv_on this c s (q @ [f]) acc"
  by (simp add: tcp_inv_on_def life_ok_neutral fin_ok_neutral queue_ok_neutral)

lemma tcp_inv_queue:
  assumes "tcp_inv t this w" and "neutral this f"
  shows "tcp_inv t this (upd_loop (conn_loop (conns w this)) (EventLoop_queueInLoop t' f) w)"
  using assms by (simp add: tcp_inv_def loop_of_def tcp_inv_on_neutral)

lemma tcp_invD:
  assumes "tcp_inv t this w"
  shows "threadId (loop_of this w) = t" "EventLoop_isInLoopThread t (loop_of this w)"
    "wired this (conns w this)" "buffers_ok (conns w this)"
    "stream_ok (conns w this) (socks w (conn_fd (conns w this))) (accepted w)"
    "flow_ok (conns w this) (socks w (conn_fd (conns w this)))"
    "life_ok this (conns w this) (pendingFunctors (loop_of this w))"
    "fin_ok this (conns w this) (socks w (conn_fd (conns w this))) (pendingFunctors (loop_of this w))"
    "queue_ok this (pendingFunctors (loop_of this w))"
  using assms by (simp_all add: tcp_inv_def tcp_inv_on_def EventLoop_isInLoopThread_def)

text \<open>The first attempt of \<open>sendInLoop\<close>: what was written and what remains make up the message.\<close>

lemma sockets_write_cases:
  obtains (fail) e os where "sockets_write m s = (-1, e, s\<lparr>sk_wr := os\<rparr>)" "sk_shutWr s \<longrightarrow> e = EPIPE"
  | (ok) n os where "n \<le> length m" "\<not> sk_shutWr s"
      "sockets_write m s = (int n, 0, s\<lparr>sk_wr := os, sk_out := sk_out s @ take n m\<rparr>)"
proof (cases "sk_shutWr s")
  case True
  then have "sockets_write m s = (-1, EPIPE, s\<lparr>sk_wr := sk_wr s\<rparr>)" by (simp add: sockets_write.simps)
  then show ?thesis using fail by blast
next
  case False
  show ?thesis
  proof (cases "sk_wr s")
    case Nil
    show ?thesis
    proof (cases "m = []")
      case True
      then have "sockets_write m s = (int 0, 0, s\<lparr>sk_wr := sk_wr s, sk_out := sk_out s @ take 0 m\<rparr>)"
        using False Nil by (simp add: sockets_write.simps)
      then show ?thesis by (intro ok[of 0 "sk_wr s"]) (use False in simp_all)
    next
      case m: False
      then have "sockets_write m s = (-1, EWOULDBLOCK, s\<lparr>sk_wr := sk_wr s\<rparr>)"
        using False Nil by (simp add: sockets_write.simps)
      then show ?thesis using fail False by blast
    qed
  next
    case (Cons a os)
    show ?thesis
    proof (cases a)
      case (Wr_room n)
      then have "sockets_write m s =
          (int (min n (length m)), 0, s\<lparr>sk_wr := os, sk_out := sk_out s @ take (min n (length m)) m\<rparr>)"
        using False Cons by (simp add: sockets_write.simps min_def)
      then show ?thesis using ok[of "min n (length m)"] False by simp
    next
      case (Wr_error e)
      then have "sockets_write m s = (-1, e, s\<lparr>sk_wr := os\<rparr>)"
        using False Cons by (simp add: sockets_write.simps)
      then show ?thesis using fail False by blast
    qed
  qed
qed

lemma word_of_int_nat_size: "(word_of_int (int n) :: size_t) = of_nat n"
  by simp

lemma size_remaining:
  assumes "n \<le> length m" and "length m \<le> max_size"
  shows "unat (sizeof_list m - word_of_int (int n)) = length m - n"
    and "sizeof_list m - word_of_int (int n) = 0 \<longleftrightarrow> n = length m"
    and "0 < sizeof_list m - word_of_int (int n) \<longleftrightarrow> n < length m"
proof -
  have "unat (of_nat n :: size_t) = n" "unat (sizeof_list m) = length m"
    using assms by (simp_all add: size_simps)
  then show u: "unat (sizeof_list m - word_of_int (int n)) = length m - n"
    using assms by (simp add: unat_sub word_le_nat_alt)
  show "sizeof_list m - word_of_int (int n) = 0 \<longleftrightarrow> n = length m"
    using u assms(1) by (auto simp: size_eq_nat)
  show "0 < sizeof_list m - word_of_int (int n) \<longleftrightarrow> n < length m"
    using u assms(1) by (simp add: word_less_nat_alt)
qed

lemma sent_append:
  assumes L: "libev_ok L" and inv: "wired this c" "buffers_ok c" "flow_ok c s" "life_ok this c q" "fin_ok this c s q"
      "queue_ok this q"
    and st: "conn_state c \<noteq> kConnecting" and open_end: "live c \<and> reading c \<Longrightarrow> \<not> sk_shutWr s"
    and b: "Buffer_inv b" "Buffer_bytes b = out_bytes c @ d" "d \<noteq> []"
    and stream: "sk_out s @ out_bytes c @ d = concat acc"
    and c': "c' = (if writing c then c\<lparr>outputBuffer := b\<rparr> else on_channel (Channel_enableWriting L) (c\<lparr>outputBuffer := b\<rparr>))"
  shows "tcp_inv_on this c' s q acc"
proof -
  have w': "live c \<Longrightarrow> writing c'" "live c' = live c" "live c \<Longrightarrow> reading c' = reading c" "out_bytes c' = out_bytes c @ d"
    "conn_state c' = conn_state c"
    using L b(2) by (auto simp: c')
  have "wired this c'" using inv(1) by (simp add: wired_def c')
  moreover have "buffers_ok c'" using inv(2) b(1) by (simp add: buffers_ok_def c')
  moreover have "stream_ok c' s acc" using stream by (simp add: stream_ok_def w')
  moreover have "flow_ok c' s" using w' b(3) open_end by (auto simp: flow_ok_def)
  moreover have "life_ok this c' q"
    using inv(4) st w' by (auto simp: life_ok_def)
  moreover have "fin_ok this c' s q"
    using inv(4,5) w' by (auto simp: fin_ok_def life_ok_def)
  ultimately show ?thesis using inv(6) by (simp add: tcp_inv_on_def)
qed

lemma script_env_simps [simp]: "ev (script_env L t this S) = L" "tid (script_env L t this S) = t"
  by (simp_all add: script_env_def)

lemma bufferRest_keeps:
  fixes w :: gnet and this :: conn_id
  defines "c \<equiv> conns w this" and "q \<equiv> pendingFunctors (loop_of this w)"
  defines "s \<equiv> socks w (conn_fd c)"
  assumes L: "libev_ok L" and t: "threadId (loop_of this w) = t"
    and inv: "wired this c" "buffers_ok c" "flow_ok c s" "life_ok this c q" "fin_ok this c s q" "queue_ok this q"
    and st: "conn_state c \<noteq> kConnecting" and open_end: "live c \<and> reading c \<Longrightarrow> \<not> sk_shutWr s"
    and n: "n < length m" and len: "length m \<le> max_size"
    and stream: "sk_out s @ out_bytes c @ drop n m = concat acc"
  shows "keeps t this (bindR (TcpConnection_bufferRest (base_env L t) this m (int n)
      (sizeof_list m - word_of_int (int n)) w) (\<lambda>w'. Inr (w'\<lparr>accepted := acc\<rparr>)))"
proof -
  let ?r = "sizeof_list m - word_of_int (int n) :: size_t"
  define w1 where "w1 = TcpConnection_queueHighWaterMark (base_env L t) this ?r w"
  define q1 where "q1 = pendingFunctors (loop_of this w1)"
  have w1: "conns w1 = conns w" "socks w1 = socks w" "threadId (loop_of this w1) = t"
    using t by (simp_all add: w1_def)
  have q1: "q1 = q \<or> (\<exists>f. neutral this f \<and> q1 = q @ [f])"
    by (auto simp: q1_def w1_def q_def queueHighWaterMark_queue Let_def split: option.split)
  have inv1: "life_ok this c q1" "fin_ok this c s q1" "queue_ok this q1"
    using q1 inv life_ok_neutral fin_ok_neutral queue_ok_neutral by auto
  have data: "take (unat ?r) (drop (nat (int n)) m) = drop n m" "drop n m \<noteq> []"
    using n size_remaining(1)[of n m] len by simp_all
  have "length (drop n m) \<le> max_size" using len by simp
  from Buffer_append_cases[OF _ this, of "outputBuffer c"] inv(2) have
    "Buffer_append (drop n m) (outputBuffer c) = Inl LengthError \<or>
     (\<exists>b. Buffer_append (drop n m) (outputBuffer c) = Inr b \<and> Buffer_inv b \<and>
        Buffer_bytes b = out_bytes c @ drop n m)"
    by (simp add: buffers_ok_def out_bytes_def)
  then show ?thesis
  proof
    assume "Buffer_append (drop n m) (outputBuffer c) = Inl LengthError"
    then show ?thesis
      using data w1(1) unfolding TcpConnection_bufferRest_def Let_def w1_def[symmetric] by (simp add: c_def)
  next
    assume "\<exists>b. Buffer_append (drop n m) (outputBuffer c) = Inr b \<and> Buffer_inv b \<and>
        Buffer_bytes b = out_bytes c @ drop n m"
    then obtain b where b: "Buffer_append (drop n m) (outputBuffer c) = Inr b" "Buffer_inv b"
        "Buffer_bytes b = out_bytes c @ drop n m" by blast
    define c' where "c' = (if writing c then c\<lparr>outputBuffer := b\<rparr>
      else on_channel (Channel_enableWriting L) (c\<lparr>outputBuffer := b\<rparr>))"
    have on: "tcp_inv_on this c' s q1 acc"
      by (rule sent_append[OF L inv(1,2,3) inv1 st open_end b(2,3) data(2) stream c'_def])
    have run: "TcpConnection_bufferRest (base_env L t) this m (int n) ?r w =
        Inr (w1\<lparr>conns := (conns w1)(this := c')\<rparr>)"
      using b(1) data(1) unfolding TcpConnection_bufferRest_def Let_def w1_def[symmetric]
      by (simp add: w1(1) c'_def c_def[symmetric] upd_conn_def)
    have fd: "conn_fd c' = conn_fd c" by (simp add: c'_def)
    have lp: "conn_loop c' = conn_loop c" by (simp add: c'_def)
    have "tcp_inv t this (w1\<lparr>conns := (conns w1)(this := c'), accepted := acc\<rparr>)"
      using on fd lp w1 by (simp add: tcp_inv_def loop_of_def s_def q1_def c_def)
    then show ?thesis using run by simp
  qed
qed

text \<open>\<open>sendInLoop\<close> takes charge of the message, or drops it as a whole when the peer is gone.\<close>

lemma logged_sendInLoop_eq:
  assumes "EventLoop_isInLoopThread t (loop_of this w)"
    and "TcpConnection_tryWrite t this m w = (n, r, fault, w1)" and "0 \<le> n" and "fault = peer_gone this m w"
  shows "logged_sendInLoop L t this m w =
    (if \<not> fault \<and> 0 < r
     then bindR (TcpConnection_bufferRest (base_env L t) this m n r w1)
            (\<lambda>w'. Inr (w'\<lparr>accepted := accepted w @ [m]\<rparr>))
     else Inr (w1\<lparr>accepted := accepted w @ (if fault then [] else [m])\<rparr>))"
  using assms
  by (simp add: logged_sendInLoop_def TcpConnection_sendInLoop_def EventLoop_assertInLoopThread_def
      log_message_def)

text \<open>Nothing was written: the message goes to the output buffer (or there is nothing to do).\<close>

lemma logged_buffered_keeps:
  assumes L: "libev_ok L" and inv: "tcp_inv t this w" and len: "length m \<le> max_size"
    and st: "conn_state (conns w this) \<noteq> kConnecting"
    and w1: "w1 = upd_sock (conn_fd (conns w this)) (\<lambda>_. s') w"
    and s': "sk_out s' = sk_out (socks w (conn_fd (conns w this))) @ take n m"
      "sk_shutWr s' = sk_shutWr (socks w (conn_fd (conns w this)))" and n: "n \<le> length m"
    and direct: "n = 0 \<or> out_bytes (conns w this) = []"
    and open_end: "live (conns w this) \<and> reading (conns w this) \<Longrightarrow> \<not> sk_shutWr s' \<or> m = []"
  shows "n < length m \<Longrightarrow> keeps t this (bindR (TcpConnection_bufferRest (base_env L t) this m (int n)
      (sizeof_list m - word_of_int (int n)) w1) (\<lambda>w'. Inr (w'\<lparr>accepted := accepted w @ [m]\<rparr>)))"
    and "n = length m \<Longrightarrow> tcp_inv t this (w1\<lparr>accepted := accepted w @ [m]\<rparr>)"
proof -
  define c where "c = conns w this"
  define s where "s = socks w (conn_fd c)"
  define q where "q = pendingFunctors (loop_of this w)"
  note I = tcp_invD[OF inv, folded c_def, folded s_def q_def]
  have c1: "conns w1 this = c" "socks w1 (conn_fd c) = s'" "pendingFunctors (loop_of this w1) = q"
    "threadId (loop_of this w1) = t"
    using I(1) by (simp_all add: w1 c_def q_def loop_of_def)
  have flow: "flow_ok c s'" using I(6) s'(2) by (simp add: flow_ok_def s_def c_def)
  have fin: "fin_ok this c s' q" using I(8) s'(2) by (simp add: fin_ok_def s_def c_def)
  have "sk_out s' @ out_bytes c @ drop n m = concat (accepted w @ [m])"
    using I(5) s'(1) direct by (auto simp: stream_ok_def s_def c_def)
  then have stream: "sk_out s' @ out_bytes c @ drop n m = concat (accepted w @ [m])" .
  show "keeps t this (bindR (TcpConnection_bufferRest (base_env L t) this m (int n)
      (sizeof_list m - word_of_int (int n)) w1) (\<lambda>w'. Inr (w'\<lparr>accepted := accepted w @ [m]\<rparr>)))"
    if "n < length m"
  proof (rule bufferRest_keeps[OF L])
    show "live (conns w1 this) \<and> reading (conns w1 this) \<Longrightarrow> \<not> sk_shutWr (socks w1 (conn_fd (conns w1 this)))"
      using open_end that c1 by (auto simp: c_def)
  qed (use c1 I flow fin st stream that len in \<open>simp_all add: c_def\<close>)
  show "tcp_inv t this (w1\<lparr>accepted := accepted w @ [m]\<rparr>)" if "n = length m"
    using c1 I flow fin stream that
    by (simp add: tcp_inv_def loop_of_def tcp_inv_on_def stream_ok_def)
qed

lemma upd_sock_same [simp]: "upd_sock fd (\<lambda>_. socks w fd) w = w"
  by (simp add: upd_sock_def)

lemma upd_loop_accepted: "(upd_loop l f w)\<lparr>accepted := a\<rparr> = upd_loop l f (w\<lparr>accepted := a\<rparr>)"
  by (simp add: upd_loop_def)

lemma readable_zero_out: "buffers_ok c \<Longrightarrow> Buffer_readableBytes (outputBuffer c) = 0 \<longleftrightarrow> out_bytes c = []"
  using readable_zero_iff[of "outputBuffer c"] by (simp add: buffers_ok_def out_bytes_def)

lemma tcp_inv_accepted_sock:
  assumes "tcp_inv t this w" and "sk_out s' = sk_out (socks w (conn_fd (conns w this)))"
    and "sk_shutWr s' = sk_shutWr (socks w (conn_fd (conns w this)))"
  shows "tcp_inv t this (upd_sock (conn_fd (conns w this)) (\<lambda>_. s') w)"
  using assms by (simp add: tcp_inv_def loop_of_def tcp_inv_on_def stream_ok_def flow_ok_def fin_ok_def)

lemma logged_sendInLoop_keeps:
  assumes L: "libev_ok L" and inv: "tcp_inv t this w" and len: "length m \<le> max_size"
    and st: "conn_state (conns w this) \<noteq> kConnecting"
  shows "keeps t this (logged_sendInLoop L t this m w)"
proof -
  define c where "c = conns w this"
  define s where "s = socks w (conn_fd c)"
  note I = tcp_invD[OF inv, folded c_def, folded s_def]
  note rd0 = readable_zero_out[OF I(4)]
  note eq = logged_sendInLoop_eq[OF I(2), where L = L]
  have sz0: "sizeof_list m - word_of_int (int 0) = sizeof_list m" by simp
  note buffered = logged_buffered_keeps[OF L inv len st refl, folded c_def, folded s_def]
  show ?thesis
  proof (cases "\<not> writing c \<and> out_bytes c = []")
    case False
    then have try_eq: "TcpConnection_tryWrite t this m w = (0, sizeof_list m, False, w)"
      using rd0 by (auto simp: TcpConnection_tryWrite_def Let_def c_def[symmetric])
    have flag: "False = peer_gone this m w" using False by (auto simp: peer_gone_def c_def out_bytes_def)
    have open_end: "live c \<and> reading c \<Longrightarrow> \<not> sk_shutWr s \<or> m = []"
      using I(6) False by (auto simp: flow_ok_def)
    have w: "upd_sock (conn_fd c) (\<lambda>_. s) w = w" by (simp add: s_def)
    show ?thesis
      unfolding eq[OF try_eq order_refl flag]
      using buffered[of s 0, OF _ _ _ _ open_end] size_remaining(3)[of 0 m] len
      by (cases "m = []") (simp_all add: w)
  next
    case True
    then have direct: "\<not> writing c" "out_bytes c = []" by simp_all
    then have gone: "peer_gone this m w \<longleftrightarrow> (case sockets_write m s of (n, e, s) \<Rightarrow> n < 0 \<and> e \<in> {EPIPE, ECONNRESET})"
      by (simp add: peer_gone_def s_def c_def out_bytes_def)
    show ?thesis
    proof (cases rule: sockets_write_cases[of m s])
      case (fail e os)
      let ?fault = "e \<noteq> EWOULDBLOCK \<and> (e = EPIPE \<or> e = ECONNRESET)"
      let ?w1 = "upd_sock (conn_fd c) (\<lambda>_. s\<lparr>sk_wr := os\<rparr>) w"
      have try_eq: "TcpConnection_tryWrite t this m w = (0, sizeof_list m, ?fault, ?w1)"
        using direct rd0 fail(1) by (simp add: TcpConnection_tryWrite_def Let_def c_def[symmetric] s_def[symmetric])
      have flag: "?fault = peer_gone this m w" unfolding gone fail(1) by (auto simp: errno_defs)
      show ?thesis
      proof (cases ?fault)
        case True
        have "tcp_inv t this ?w1"
          using tcp_inv_accepted_sock[OF inv, of "s\<lparr>sk_wr := os\<rparr>"] by (simp add: c_def s_def)
        then show ?thesis using True by (simp add: eq[OF try_eq order_refl flag] tcp_inv_def loop_of_def)
      next
        case no: False
        then have open_end: "live c \<and> reading c \<Longrightarrow> \<not> sk_shutWr (s\<lparr>sk_wr := os\<rparr>) \<or> m = []"
          using fail(2) by (auto simp: errno_defs)
        have nf: "?fault \<longleftrightarrow> False" using no by simp
        show ?thesis
          unfolding eq[OF try_eq order_refl flag] nf
          using buffered[of "s\<lparr>sk_wr := os\<rparr>" 0, OF _ _ _ _ open_end] size_remaining(3)[of 0 m] len
          by (cases "m = []") simp_all
      qed
    next
      case (ok n os)
      let ?r = "sizeof_list m - word_of_int (int n) :: size_t"
      let ?s = "s\<lparr>sk_wr := os, sk_out := sk_out s @ take n m\<rparr>"
      let ?w1 = "upd_sock (conn_fd c) (\<lambda>_. ?s) w"
      let ?w2 = "if ?r = 0 then TcpConnection_queueWriteComplete t this ?w1 else ?w1"
      have try_eq: "TcpConnection_tryWrite t this m w = (int n, ?r, False, ?w2)"
        using direct rd0 ok(3)
        by (simp add: TcpConnection_tryWrite_def Let_def c_def[symmetric] s_def[symmetric] del: of_int_of_nat_eq)
      have open_end: "live c \<and> reading c \<Longrightarrow> \<not> sk_shutWr ?s \<or> m = []" using ok(2) by simp
      note buffered_n = buffered[of ?s n, OF _ _ ok(1) _ open_end]
      have flag: "False = peer_gone this m w" unfolding gone ok(3) by simp
      have "0 \<le> int n" by simp
      note eq_n = eq[OF try_eq this flag]
      show ?thesis
      proof (cases "n = length m")
        case True
        then have r0: "?r = 0" using size_remaining(2)[OF ok(1) len] by blast
        have inv1: "tcp_inv t this (?w1\<lparr>accepted := accepted w @ [m]\<rparr>)"
          using buffered_n True direct by simp
        have "tcp_inv t this (?w2\<lparr>accepted := accepted w @ [m]\<rparr>)"
          using inv1 tcp_inv_queue[OF inv1, of "F_writeComplete cb this" t for cb] r0
          by (auto simp: TcpConnection_queueWriteComplete_def upd_loop_accepted c_def split: option.split)
        then show ?thesis using r0 by (simp only: eq_n) simp
      next
        case False
        then have lt: "n < length m" using ok(1) by simp
        then have r: "0 < ?r" "?r \<noteq> 0" using size_remaining(2,3)[OF ok(1) len] by auto
        have w2: "?w2 = ?w1" using r(2) by simp
        show ?thesis
          using buffered_n lt direct r(1) by (simp only: eq_n w2) simp
      qed
    qed
  qed
qed

section \<open>Shutting down keeps the invariant\<close>

lemma shutdownInLoop_keeps:
  fixes w :: gnet and this :: conn_id
  defines "c \<equiv> conns w this" and "q \<equiv> pendingFunctors (loop_of this w)"
  defines "s \<equiv> socks w (conn_fd c)"
  assumes E: "tid E = t" and t: "threadId (loop_of this w) = t"
    and inv: "wired this c" "buffers_ok c" "stream_ok c s (accepted w)" "flow_ok c s" "life_ok this c q" "queue_ok this q"
    and st: "conn_state c \<in> {kDisconnecting, kDisconnected}"
  shows "keeps t this (TcpConnection_shutdownInLoop E this w)"
proof -
  let ?s = "Socket_shutdownWrite s"
  have fd: "conn_socket c = conn_fd c" using inv(1) by (simp add: wired_def)
  have "fin_ok this c s q" if "writing c" using st that by (auto simp: fin_ok_def)
  moreover have "fin_ok this c ?s q" using st by (auto simp: fin_ok_def Socket_shutdownWrite_def sockets_shutdownWrite_def)
  moreover have "flow_ok c ?s" if "\<not> writing c"
    using inv(4) that by (auto simp: flow_ok_def Socket_shutdownWrite_def sockets_shutdownWrite_def)
  moreover have "stream_ok c ?s (accepted w)"
    using inv(3) by (simp add: stream_ok_def Socket_shutdownWrite_def sockets_shutdownWrite_def)
  ultimately show ?thesis
    using inv t fd E by (simp add: TcpConnection_shutdownInLoop_def EventLoop_assertInLoopThread_def
        EventLoop_isInLoopThread_def tcp_inv_def tcp_inv_on_def loop_of_def c_def s_def q_def)
qed

lemma setDisconnecting_parts:
  assumes "tcp_inv t this w" and "conn_state (conns w this) = kConnected"
  defines "c' \<equiv> TcpConnection_setState kDisconnecting (conns w this)"
  defines "s \<equiv> socks w (conn_fd (conns w this))" and "q \<equiv> pendingFunctors (loop_of this w)"
  shows "wired this c'" "buffers_ok c'" "stream_ok c' s (accepted w)" "flow_ok c' s" "life_ok this c' q"
    "queue_ok this q" "\<not> sk_shutWr s"
  using tcp_invD[OF assms(1)] assms(2)
  by (simp_all add: c'_def s_def q_def wired_def buffers_ok_def stream_ok_def flow_ok_def life_ok_def fin_ok_def)

lemma shutdown_keeps:
  assumes inv: "tcp_inv t this w"
  shows "keeps t this (TcpConnection_shutdown (base_env L t') this w)"
proof (cases "conn_state (conns w this) = kConnected")
  case False
  then show ?thesis using inv by (simp add: TcpConnection_shutdown_def)
next
  case True
  note parts = setDisconnecting_parts[OF inv True]
  let ?w = "upd_conn this (TcpConnection_setState kDisconnecting) w"
  have t: "threadId (loop_of this ?w) = t" using tcp_invD(1)[OF inv] by (simp add: loop_of_def)
  show ?thesis
  proof (cases "t' = t")
    case here: True
    have "keeps t this (TcpConnection_shutdownInLoop (base_env L t) this ?w)"
      by (rule shutdownInLoop_keeps) (use parts t in \<open>simp_all add: loop_of_def\<close>)
    then show ?thesis
      using True t here by (simp add: TcpConnection_shutdown_def EventLoop_runInLoop_def EventLoop_isInLoopThread_def)
  next
    case elsewhere: False
    let ?c = "TcpConnection_setState kDisconnecting (conns w this)"
    let ?q = "pendingFunctors (loop_of this w) @ [F_shutdownInLoop this]"
    have "life_ok this ?c ?q" using parts(5) by (simp add: life_ok_def)
    moreover have "fin_ok this ?c (socks w (conn_fd (conns w this))) ?q" using parts(7) by (simp add: fin_ok_def)
    moreover have "queue_ok this ?q" using parts(6) by (simp add: queue_ok_def)
    ultimately have "tcp_inv_on this ?c (socks w (conn_fd (conns w this))) ?q (accepted w)"
      using parts by (simp add: tcp_inv_on_def)
    then show ?thesis
      using True t elsewhere by (simp add: TcpConnection_shutdown_def EventLoop_runInLoop_def
          EventLoop_isInLoopThread_def tcp_inv_def loop_of_def)
  qed
qed

section \<open>User callbacks keep the invariant\<close>

lemma send_foreign_keeps:
  assumes inv: "tcp_inv t this w" and "t' \<noteq> t" and "length m \<le> max_size"
  shows "keeps t this (TcpConnection_send (base_env L t') this m w)"
proof (cases "conn_state (conns w this) = kConnected")
  case False
  then show ?thesis using inv by (simp add: TcpConnection_send_def)
next
  case True
  let ?q = "pendingFunctors (loop_of this w) @ [F_sendInLoop this m]"
  have "life_ok this (conns w this) ?q" using tcp_invD(7)[OF inv] True by (simp add: life_ok_def)
  moreover have "fin_ok this (conns w this) (socks w (conn_fd (conns w this))) ?q"
    using tcp_invD(8)[OF inv] by (simp add: fin_ok_def)
  moreover have "queue_ok this ?q" using tcp_invD(9)[OF inv] assms(3) by (auto simp: queue_ok_def)
  ultimately have "tcp_inv_on this (conns w this) (socks w (conn_fd (conns w this))) ?q (accepted w)"
    using tcp_invD[OF inv] by (simp add: tcp_inv_on_def)
  then show ?thesis
    using True tcp_invD(1)[OF inv] assms(2)
    by (simp add: TcpConnection_send_def EventLoop_isInLoopThread_def tcp_inv_def loop_of_def)
qed

text \<open>Updates of the connection that concern none of what the invariant speaks about but the input buffer.\<close>

definition inert :: "(TcpConnection \<Rightarrow> TcpConnection) \<Rightarrow> bool" where
  "inert g \<longleftrightarrow> (\<forall>c. conn_channel (g c) = conn_channel c \<and> conn_state (g c) = conn_state c \<and>
     conn_loop (g c) = conn_loop c \<and> conn_socket (g c) = conn_socket c \<and> outputBuffer (g c) = outputBuffer c \<and>
     connectionCallback (g c) = connectionCallback c \<and> messageCallback (g c) = messageCallback c \<and>
     closeCallback (g c) = closeCallback c)"

lemma inertD:
  assumes "inert g"
  shows "conn_channel (g c) = conn_channel c" "conn_state (g c) = conn_state c" "conn_loop (g c) = conn_loop c"
    "conn_socket (g c) = conn_socket c" "outputBuffer (g c) = outputBuffer c"
    "connectionCallback (g c) = connectionCallback c" "messageCallback (g c) = messageCallback c"
    "closeCallback (g c) = closeCallback c" "conn_fd (g c) = conn_fd c" "out_bytes (g c) = out_bytes c"
  using assms by (simp_all add: inert_def conn_fd_def out_bytes_def)

lemma tcp_inv_inert:
  assumes inv: "tcp_inv t this w" and g: "inert g" and b: "Buffer_inv (inputBuffer (g (conns w this)))"
  shows "tcp_inv t this (upd_conn this g w)"
proof -
  have "wired this (g (conns w this))" using tcp_invD(3)[OF inv] g by (simp add: wired_def inertD)
  then show ?thesis
    using assms by (simp add: tcp_inv_def loop_of_def inertD tcp_inv_on_def buffers_ok_def stream_ok_def flow_ok_def
        life_ok_def fin_ok_def)
qed

text \<open>The record of what was consumed is not part of the invariant.\<close>

lemma consumed_frame [simp]:
  "tcp_inv t this (w\<lparr>consumed := k\<rparr>) \<longleftrightarrow> tcp_inv t this w" "loop_of c (w\<lparr>consumed := k\<rparr>) = loop_of c w"
  "(upd_conn c g w)\<lparr>consumed := consumed w\<rparr> = upd_conn c g w"
  by (simp_all add: tcp_inv_def loop_of_def upd_conn_def)

lemma upd_conn_consumed:
  "upd_conn c g (w\<lparr>consumed := k\<rparr>) = (upd_conn c g w)\<lparr>consumed := k\<rparr>"
  by (simp add: upd_conn_def)

text \<open>An action either sends, shuts down, or is inert and keeps the input buffer well-formed.\<close>

lemma user_step_inert:
  assumes "Buffer_inv (inputBuffer (conns w this))" and "\<And>m. a \<noteq> A_send m" and "a \<noteq> A_shutdown"
  shows "\<exists>g k. user_step L t this a w = Inr ((upd_conn this g w)\<lparr>consumed := k\<rparr>) \<and> inert g \<and>
    Buffer_inv (inputBuffer (g (conns w this)))"
proof (cases a)
  case (A_retrieve n)
  show ?thesis
  proof (cases "n \<le> Buffer_readableBytes (inputBuffer (conns w this))")
    case True
    then have "unat n \<le> length (Buffer_bytes (inputBuffer (conns w this)))"
      using assms(1) by (simp add: length_Buffer_bytes word_le_nat_alt)
    from Buffer_retrieve_ok[OF assms(1) this] True show ?thesis
      using A_retrieve by (intro exI[of _ "inputBuffer_update (\<lambda>_. (inputBuffer (conns w this))
          \<lparr>readerIndex := readerIndex (inputBuffer (conns w this)) + n\<rparr>)"]
          exI[of _ "consumed w @ take (unat n) (Buffer_bytes (inputBuffer (conns w this)))"])
        (simp add: inert_def log_consumed_def)
  next
    case False
    have "upd_conn this (\<lambda>c. c) w = w" by (simp add: upd_conn_def)
    then show ?thesis using A_retrieve False assms(1)
      by (intro exI[of _ "\<lambda>c. c"] exI[of _ "consumed w"]) (simp add: inert_def)
  qed
next
  case A_retrieveAll
  then show ?thesis using Buffer_retrieveAll_ok[OF assms(1)] by (fastforce simp: inert_def log_consumed_def)
next
  case (A_setWriteCompleteCallback cb)
  then show ?thesis using assms(1)
    by (intro exI[of _ "TcpConnection_setWriteCompleteCallback cb"] exI[of _ "consumed w"])
       (simp add: inert_def TcpConnection_setWriteCompleteCallback_def)
next
  case (A_setHighWaterMarkCallback cb n)
  then show ?thesis using assms(1)
    by (intro exI[of _ "TcpConnection_setHighWaterMarkCallback cb n"] exI[of _ "consumed w"])
       (simp add: inert_def TcpConnection_setHighWaterMarkCallback_def)
qed (use assms in auto)

lemma user_step_keeps:
  assumes L: "libev_ok L" and inv: "tcp_inv t this w" and ok: "\<And>m. a = A_send m \<Longrightarrow> length m \<le> max_size"
  shows "keeps t this (user_step L t this a w)"
proof -
  consider (send) m where "a = A_send m" | (shut) "a = A_shutdown" | (other) "\<And>m. a \<noteq> A_send m" "a \<noteq> A_shutdown"
    by blast
  then show ?thesis
  proof cases
    case send
    have "user_step L t this a w = (if conn_state (conns w this) = kConnected
        then logged_sendInLoop L t this m w else Inr w)"
      using tcp_invD(2)[OF inv]
      by (auto simp: send logged_send_def logged_sendInLoop_def TcpConnection_send_def TcpConnection_connected_def)
    then show ?thesis using logged_sendInLoop_keeps[OF L inv ok[OF send]] inv by simp
  next
    case shut
    then show ?thesis using shutdown_keeps[OF inv] by simp
  next
    case other
    have "Buffer_inv (inputBuffer (conns w this))" using tcp_invD(4)[OF inv] by (simp add: buffers_ok_def)
    from user_step_inert[OF this other, of L t] show ?thesis using tcp_inv_inert[OF inv] by auto
  qed
qed

lemma user_steps_keep:
  assumes L: "libev_ok L" and "tcp_inv t this w" and "\<forall>m. A_send m \<in> set as \<longrightarrow> length m \<le> max_size"
  shows "keeps t this (foldR (user_step L t this) as w)"
  using assms(2,3)
proof (induction as arbitrary: w)
  case Nil
  then show ?case by simp
next
  case (Cons a as)
  have "keeps t this (user_step L t this a w)" by (rule user_step_keeps[OF L Cons.prems(1)]) (use Cons.prems(2) in simp)
  then show ?case using Cons by (auto intro!: keeps_bind)
qed

lemma call_user_keeps:
  assumes "libev_ok L" and "script_ok S" and "tcp_inv t this w" and "cb \<noteq> None"
  shows "keeps t this (call_user (script_env L t this S) cb arg w)"
  using user_steps_keep[OF assms(1,3)] assms(2,4)
  by (auto simp: call_user_def script_env_def script_ok_def)

section \<open>The event handlers keep the invariant\<close>

lemma assertInLoop [simp]: "tcp_inv t this w \<Longrightarrow> EventLoop_assertInLoopThread t (loop_of this w) r = r"
  using tcp_invD(2)[of t this w] by (simp add: EventLoop_assertInLoopThread_def)

text \<open>The effect of a write on what the buffer holds, and what is left of it.\<close>

lemma handleWrite_flushed:
  assumes L: "libev_ok L" and inv: "wired this c" "buffers_ok c" "life_ok this c q" "fin_ok this c s q" "queue_ok this q"
    and b: "Buffer_inv b" "Buffer_bytes b = []" and stream: "sk_out s' = concat acc"
    and c': "c' = on_channel (Channel_disableWriting L) (c\<lparr>outputBuffer := b\<rparr>)"
  shows "wired this c'" "buffers_ok c'" "stream_ok c' s' acc" "flow_ok c' s'" "life_ok this c' q"
proof -
  have w': "live c \<Longrightarrow> \<not> writing c'" "live c' = live c" "live c \<Longrightarrow> reading c' = reading c" "out_bytes c' = []"
    "conn_state c' = conn_state c"
    using L b(2) by (simp_all add: c')
  show "wired this c'" using inv(1) by (simp add: wired_def c')
  show "buffers_ok c'" using inv(2) b(1) by (simp add: buffers_ok_def c')
  show "stream_ok c' s' acc" using stream w' by (simp add: stream_ok_def)
  show "flow_ok c' s'" using w' by (simp add: flow_ok_def)
  show "life_ok this c' q" using inv(3) w' by (auto simp: life_ok_def)
qed

lemma handleWrite_partial:
  assumes inv: "wired this c" "buffers_ok c" "flow_ok c s" "life_ok this c q" "fin_ok this c s q" "queue_ok this q"
    and wr: "writing c" and st: "conn_state c = kConnecting \<Longrightarrow> False"
    and b: "Buffer_inv b" "Buffer_bytes b \<noteq> []" and stream: "sk_out s' @ Buffer_bytes b = concat acc"
    and s': "sk_shutWr s' = sk_shutWr s" "\<not> sk_shutWr s"
  shows "tcp_inv_on this (c\<lparr>outputBuffer := b\<rparr>) s' q acc"
  using assms
  by (auto simp: tcp_inv_on_def wired_def buffers_ok_def stream_ok_def flow_ok_def life_ok_def fin_ok_def)

lemma handleWrite_keeps:
  assumes L: "libev_ok L" and E: "tid E = t" "ev E = L" and inv: "tcp_inv t this w"
  shows "keeps t this (TcpConnection_handleWrite E this w)"
proof (cases "writing (conns w this)")
  case False
  then show ?thesis using inv E by (simp add: TcpConnection_handleWrite_def)
next
  case wr: True
  define c where "c = conns w this"
  define s where "s = socks w (conn_fd c)"
  define q where "q = pendingFunctors (loop_of this w)"
  note I = tcp_invD[OF inv, folded c_def, folded s_def q_def]
  have bo: "Buffer_inv (outputBuffer c)" using I(4) by (simp add: buffers_ok_def)
  have str: "Buffer_string (outputBuffer c) = Inr (out_bytes c)"
    using Buffer_string_ok[OF bo] by (simp add: out_bytes_def)
  have notc: "conn_state c = kConnecting \<Longrightarrow> False" using I(7) wr by (simp add: life_ok_def c_def)
  show ?thesis
  proof (cases rule: sockets_write_cases[of "out_bytes c" s])
    case (fail e os)
    have "tcp_inv t this (upd_sock (conn_fd c) (\<lambda>_. s\<lparr>sk_wr := os\<rparr>) w)"
      using tcp_inv_accepted_sock[OF inv, of "s\<lparr>sk_wr := os\<rparr>"] by (simp add: c_def s_def)
    then show ?thesis
      using fail(1) wr str E inv
      by (simp add: TcpConnection_handleWrite_def c_def[symmetric] s_def[symmetric] Let_def)
  next
    case (ok n os)
    let ?s = "s\<lparr>sk_wr := os, sk_out := sk_out s @ take n (out_bytes c)\<rparr>"
    let ?w1 = "upd_sock (conn_fd c) (\<lambda>_. ?s) w"
    have bound: "length (out_bytes c) \<le> max_size" using Buffer_bytes_bound[OF bo] by (simp add: out_bytes_def)
    then have un: "unat (of_nat n :: size_t) = n" using ok(1) by (intro unat_of_nat_size) simp
    show ?thesis
    proof (cases "n = 0")
      case True
      have "?s = s\<lparr>sk_wr := os\<rparr>" using True by simp
      then have "tcp_inv t this ?w1"
        using tcp_inv_accepted_sock[OF inv, of ?s] by (simp add: c_def s_def)
      then show ?thesis
        using ok(3) wr str E inv True
        by (simp add: TcpConnection_handleWrite_def c_def[symmetric] s_def[symmetric] Let_def)
    next
      case False
      define b where "b = (outputBuffer c)\<lparr>readerIndex := readerIndex (outputBuffer c) + of_nat n\<rparr>"
      have b: "Buffer_retrieve (of_nat n) (outputBuffer c) = Inr b" "Buffer_inv b"
        "Buffer_bytes b = drop n (out_bytes c)"
        using Buffer_retrieve_ok[OF bo, of "of_nat n"] ok(1) un by (simp_all add: b_def out_bytes_def)
      have stream: "sk_out ?s @ Buffer_bytes b = concat (accepted w)" using I(5) b(3) by (simp add: stream_ok_def)
      let ?w2 = "upd_conn this (\<lambda>c. c\<lparr>outputBuffer := b\<rparr>) ?w1"
      show ?thesis
      proof (cases "Buffer_bytes b = []")
        case False
        have "tcp_inv_on this (c\<lparr>outputBuffer := b\<rparr>) ?s q (accepted w)"
          by (rule handleWrite_partial[OF I(3,4,6,7,8,9) _ notc b(2) False stream])
             (use wr ok(2) in \<open>simp_all add: c_def\<close>)
        then have "tcp_inv t this ?w2"
          using I(1) by (simp add: tcp_inv_def loop_of_def c_def q_def)
        then show ?thesis
          using ok(3) wr str E inv b(1) \<open>n \<noteq> 0\<close> False readable_zero_iff[OF b(2)]
          by (simp add: TcpConnection_handleWrite_def c_def[symmetric] s_def[symmetric] Let_def)
      next
        case True
        define c' where "c' = on_channel (Channel_disableWriting L) (c\<lparr>outputBuffer := b\<rparr>)"
        have "sk_out ?s = concat (accepted w)" using stream True by simp
        note F = handleWrite_flushed[OF L I(3,4,7,8,9) b(2) True this c'_def]
        define w3 where "w3 = upd_conn this (on_channel (Channel_disableWriting L)) ?w2"
        define w4 where "w4 = TcpConnection_queueWriteComplete t this w3"
        have w3: "conns w3 this = c'" "socks w3 (conn_fd c') = ?s" "threadId (loop_of this w3) = t"
          "pendingFunctors (loop_of this w3) = q"
          using I(1) by (simp_all add: w3_def c'_def c_def[symmetric] loop_of_def q_def)
        have w4: "conns w4 this = c'" "socks w4 (conn_fd c') = ?s" "threadId (loop_of this w4) = t" "accepted w4 = accepted w"
          using w3 by (simp_all add: w4_def) (simp add: TcpConnection_queueWriteComplete_def w3_def split: option.split)
        have q4: "pendingFunctors (loop_of this w4) = q \<or>
            (\<exists>f. neutral this f \<and> pendingFunctors (loop_of this w4) = q @ [f])"
          using w3(4) by (auto simp: w4_def queueWriteComplete_queue split: option.split)
        define q' where "q' = pendingFunctors (loop_of this w4)"
        have Q: "life_ok this c' q'" "queue_ok this q'" "\<And>s. fin_ok this c' s q \<Longrightarrow> fin_ok this c' s q'"
          using q4 F(5) I(9) life_ok_neutral queue_ok_neutral fin_ok_neutral by (auto simp: q'_def)
        have st: "conn_state c' = conn_state c" by (simp add: c'_def)
        have run: "TcpConnection_handleWrite E this w =
            (if conn_state c' = kDisconnecting then TcpConnection_shutdownInLoop E this w4 else Inr w4)"
          using ok(3) wr str E inv b(1) \<open>n \<noteq> 0\<close> True readable_zero_iff[OF b(2)] w4(1) st
          by (simp add: TcpConnection_handleWrite_def c_def[symmetric] s_def[symmetric] Let_def
              w4_def[symmetric] w3_def[symmetric])
        show ?thesis
        proof (cases "conn_state c' = kDisconnecting")
          case True
          have "keeps t this (TcpConnection_shutdownInLoop E this w4)"
            by (rule shutdownInLoop_keeps[OF E(1) w4(3)]) (use w4 F Q True in \<open>simp_all add: q'_def\<close>)
          then show ?thesis using run True by simp
        next
          case False
          have "fin_ok this c' ?s q" using False I(8) ok(2) st by (auto simp: fin_ok_def)
          then have "tcp_inv_on this c' ?s q' (accepted w)" using F Q by (simp add: tcp_inv_on_def)
          then have "tcp_inv t this w4" using w4 by (simp add: tcp_inv_def q'_def)
          then show ?thesis using run False by simp
        qed
      qed
    qed
  qed
qed

lemma handleError_eq:
  "\<exists>s'. sk_out s' = sk_out (socks w (conn_fd (conns w this))) \<and>
     sk_shutWr s' = sk_shutWr (socks w (conn_fd (conns w this))) \<and>
     TcpConnection_handleError this w = Inr (upd_sock (conn_fd (conns w this)) (\<lambda>_. s') w)"
  by (intro exI[of _ "snd (sockets_getSocketError (socks w (conn_fd (conns w this))))"])
     (simp add: TcpConnection_handleError_def upd_sock_def sockets_getSocketError_def)

lemma handleError_keeps:
  "tcp_inv t this w \<Longrightarrow> keeps t this (TcpConnection_handleError this w)"
  using handleError_eq[of w this] tcp_inv_accepted_sock[of t this w] by auto

text \<open>Closing an open connection: it watches for nothing, and its destruction is queued.\<close>

lemma handleClose_keeps:
  assumes L: "libev_ok L" and inv: "tcp_inv t this w" and rd: "live (conns w this)" "reading (conns w this)"
  shows "keeps t this (TcpConnection_handleClose (script_env L t this S) this w)"
proof -
  define c where "c = conns w this"
  define s where "s = socks w (conn_fd c)"
  define q where "q = pendingFunctors (loop_of this w)"
  note I = tcp_invD[OF inv, folded c_def, folded s_def q_def]
  have st: "conn_state c = kConnected \<or> conn_state c = kDisconnecting"
    using I(7) rd by (cases "conn_state c") (auto simp: life_ok_def c_def)
  obtain cl where cl: "closeCallback c = Some cl" using I(3) by (auto simp: wired_def)
  define c' where "c' = on_channel (Channel_disableAll L) c"
  have c': "live c'" "\<not> reading c'" "\<not> writing c'" "conn_state c' = conn_state c" "out_bytes c' = out_bytes c"
    using L rd by (simp_all add: c'_def c_def)
  let ?q = "q @ [F_connectDestroyed this]"
  have "wired this c'" "buffers_ok c'" "stream_ok c' s (accepted w)" "flow_ok c' s" "queue_ok this ?q"
    using I(3,4,5,9) c' by (simp_all add: wired_def buffers_ok_def stream_ok_def flow_ok_def queue_ok_def c'_def)
  moreover have "life_ok this c' ?q" using I(7) st c' rd by (auto simp: life_ok_def c_def)
  moreover have "fin_ok this c' s ?q" using I(8) c' by (simp add: fin_ok_def)
  ultimately have "tcp_inv_on this c' s ?q (accepted w)" by (simp add: tcp_inv_on_def)
  then have "tcp_inv t this (queue_destroy t this (upd_conn this (on_channel (Channel_disableAll L)) w))"
    using I(1) by (simp add: tcp_inv_def queue_destroy_def loop_of_def c'_def c_def s_def q_def)
  then show ?thesis
    using st cl inv by (simp add: TcpConnection_handleClose_def call_close_def script_env_def c_def)
qed

text \<open>\<open>readFd\<close> on any outcome: it fails only when the buffer cannot grow.\<close>

lemma readFd_outcomes:
  assumes inv: "Buffer_inv b"
  obtains (full) "Buffer_readFd rv b = Inl LengthError"
  | (failed) e rest where "Buffer_readFd rv b = Inr (-1, e, b, rest)"
  | (got) n b' rest where "Buffer_readFd rv b = Inr (int n, 0, b', rest)" "Buffer_inv b'"
proof (cases rv)
  case (Waiting queue)
  then show ?thesis using Buffer_readFd_cases[OF inv, of queue] full got by blast
next
  case (Read_failed e)
  then show ?thesis using Buffer_readFd_failed[of e b] failed by simp
qed

lemma readDone_frame [simp]:
  "sk_out (sockets_readDone rest s) = sk_out s" "sk_shutWr (sockets_readDone rest s) = sk_shutWr s"
  by (simp_all add: sockets_readDone_def)

lemma inert_input: "inert (\<lambda>c. c\<lparr>inputBuffer := b\<rparr>)"
  by (simp add: inert_def)

lemma handleRead_keeps:
  assumes L: "libev_ok L" and S: "script_ok S" and inv: "tcp_inv t this w"
    and rd: "live (conns w this)" "reading (conns w this)"
  shows "keeps t this (TcpConnection_handleRead (script_env L t this S) this now w)"
proof -
  let ?fd = "conn_fd (conns w this)"
  have bi: "Buffer_inv (inputBuffer (conns w this))" using tcp_invD(4)[OF inv] by (simp add: buffers_ok_def)
  have upd: "tcp_inv t this (upd_sock ?fd (sockets_readDone rest) (upd_conn this (\<lambda>c. c\<lparr>inputBuffer := b\<rparr>) w))"
    if "Buffer_inv b" for b rest
  proof -
    have inv1: "tcp_inv t this (upd_conn this (\<lambda>c. c\<lparr>inputBuffer := b\<rparr>) w)"
      by (rule tcp_inv_inert[OF inv inert_input]) (simp add: that)
    show ?thesis
      using tcp_inv_accepted_sock[OF inv1, of "sockets_readDone rest (socks w ?fd)"] by (simp add: upd_sock_def)
  qed
  show ?thesis
    using bi
  proof (cases rule: readFd_outcomes[of "inputBuffer (conns w this)" "sockets_readable (socks w ?fd)"])
    case full
    then show ?thesis by (simp add: TcpConnection_handleRead_def)
  next
    case (failed e rest)
    then show ?thesis
      using handleError_keeps[OF upd[OF bi, of rest]] by (simp add: TcpConnection_handleRead_def Let_def)
  next
    case (got n b rest)
    let ?w = "upd_sock ?fd (sockets_readDone rest) (upd_conn this (\<lambda>c. c\<lparr>inputBuffer := b\<rparr>) w)"
    have inv': "tcp_inv t this ?w" by (rule upd[OF got(2)])
    have rd': "live (conns ?w this)" "reading (conns ?w this)" using rd by simp_all
    have "messageCallback (conns ?w this) \<noteq> None" using tcp_invD(3)[OF inv'] by (simp add: wired_def)
    then show ?thesis
      using got(1) call_user_keeps[OF L S inv'] handleClose_keeps[OF L inv' rd', of S]
      by (simp add: TcpConnection_handleRead_def Let_def)
  qed
qed

text \<open>The marks that the dispatcher sets around the callbacks are not part of the invariant.\<close>

lemma eventHandling_simps [simp]:
  "conn_fd (on_channel (eventHandling_update f) c) = conn_fd c"
  "Channel_isWriting (eventHandling_update f ch) = Channel_isWriting ch"
  "Channel_isReading (eventHandling_update f ch) = Channel_isReading ch"
  by (simp_all add: conn_fd_def Channel_isWriting_def Channel_isReading_def)

lemma tcp_inv_eventHandling:
  "tcp_inv t this (upd_conn this (on_channel (eventHandling_update f)) w) \<longleftrightarrow> tcp_inv t this w"
  by (simp add: tcp_inv_def loop_of_def tcp_inv_on_def wired_def buffers_ok_def stream_ok_def flow_ok_def
      life_ok_def fin_ok_def)

lemma call_if_keeps:
  assumes "tcp_inv t this w" and "\<And>cb. b \<Longrightarrow> slot w = Some cb \<Longrightarrow> keeps t this (call cb w)"
  shows "keeps t this (call_if b slot call w)"
  using assms by (auto simp: call_if_def split: option.split)

lemma event_keeps:
  assumes L: "libev_ok L" and S: "script_ok S" and inv: "tcp_inv t this w"
    and rep: "reportable revents (conn_channel (conns w this))"
  shows "keeps t this (TcpConnection_event (script_env L t this S) this now revents w)"
proof -
  let ?E = "script_env L t this S"
  let ?chan = "\<lambda>w. conn_channel (conns w this)"
  let ?w0 = "upd_conn this (on_channel (eventHandling_update (\<lambda>_. True))) w"
  have inv0: "tcp_inv t this ?w0" using inv by (simp add: tcp_inv_eventHandling)
  note slots = tcp_invD(3)[unfolded wired_def]
  have untied: "\<not> ch_tied (?chan w)" using slots[OF inv] by simp
  have read_step: "keeps t this (call_if (revents AND ev_READ \<noteq> 0) (\<lambda>w. readCallback (?chan w)) (TcpConnection_callback ?E now) w1)"
    if "tcp_inv t this w1" "?chan w1 = ?chan ?w0" for w1
  proof (rule call_if_keeps[OF that(1)])
    fix cb assume "revents AND ev_READ \<noteq> 0" and cb: "readCallback (?chan w1) = Some cb"
    then have "live (conns w1 this)" "reading (conns w1 this)"
      using rep that(2) by (simp_all add: reportable_def)
    then show "keeps t this (TcpConnection_callback ?E now cb w1)"
      using slots[OF that(1)] cb handleRead_keeps[OF L S that(1)] by simp
  qed
  have write_step: "keeps t this (call_if (revents AND ev_WRITE \<noteq> 0) (\<lambda>w. writeCallback (?chan w)) (TcpConnection_callback ?E now) w1)"
    if "tcp_inv t this w1" for w1
    using slots[OF that] handleWrite_keeps[OF L _ _ that, of ?E] by (intro call_if_keeps[OF that]) simp
  have rest: "keeps t this
      (bindR (call_if (revents AND ev_READ \<noteq> 0) (\<lambda>w. readCallback (?chan w)) (TcpConnection_callback ?E now) w1) (\<lambda>w2.
       bindR (call_if (revents AND ev_WRITE \<noteq> 0) (\<lambda>w. writeCallback (?chan w)) (TcpConnection_callback ?E now) w2) (\<lambda>w3.
       Inr (upd_conn this (on_channel (eventHandling_update (\<lambda>_. False))) w3))))"
    if "tcp_inv t this w1" "?chan w1 = ?chan ?w0" for w1
  proof (rule keeps_bind[OF read_step[OF that]])
    fix w2 assume inv2: "tcp_inv t this w2"
    show "keeps t this
      (bindR (call_if (revents AND ev_WRITE \<noteq> 0) (\<lambda>w. writeCallback (?chan w)) (TcpConnection_callback ?E now) w2)
        (\<lambda>w3. Inr (upd_conn this (on_channel (eventHandling_update (\<lambda>_. False))) w3)))"
      by (rule keeps_bind[OF write_step[OF inv2]]) (simp add: tcp_inv_eventHandling)
  qed
  obtain s' where s': "sk_out s' = sk_out (socks ?w0 (conn_fd (conns ?w0 this)))"
    "sk_shutWr s' = sk_shutWr (socks ?w0 (conn_fd (conns ?w0 this)))"
    "TcpConnection_handleError this ?w0 = Inr (upd_sock (conn_fd (conns ?w0 this)) (\<lambda>_. s') ?w0)"
    using handleError_eq[of ?w0 this] by blast
  let ?w1 = "upd_sock (conn_fd (conns ?w0 this)) (\<lambda>_. s') ?w0"
  have inv1: "tcp_inv t this ?w1" by (rule tcp_inv_accepted_sock[OF inv0 s'(1,2)])
  have "call_if (revents AND ev_ERROR \<noteq> 0) (\<lambda>w. errorCallback (?chan w)) (TcpConnection_callback ?E now) ?w0 \<in>
      {Inr ?w0, Inr ?w1}"
    using slots[OF inv0] s'(3) by (simp add: call_if_def)
  then show ?thesis
    using rest[OF inv0 refl] rest[OF inv1] untied
    by (auto simp: TcpConnection_event_def handleEvent_untied Channel_handleEventWithGuard_def)
qed

section \<open>Establishing and destroying keep the invariant\<close>

lemma upd_conn_same: "g (conns w this) = conns w this \<Longrightarrow> upd_conn this g w = w"
  by (simp add: upd_conn_def)

lemma upd_conn_upd_conn: "upd_conn this g (upd_conn this h w) = upd_conn this (\<lambda>c. g (h c)) w"
  by (simp add: upd_conn_def)

text \<open>On a disconnected connection no user action does more than change its own callbacks and input buffer.\<close>

lemma user_step_quiet:
  assumes "Buffer_inv (inputBuffer (conns w this))" and "conn_state (conns w this) = kDisconnected"
  shows "\<exists>g k. user_step L t this a w = Inr ((upd_conn this g w)\<lparr>consumed := k\<rparr>) \<and> inert g \<and>
    Buffer_inv (inputBuffer (g (conns w this)))"
proof (cases "(\<exists>m. a = A_send m) \<or> a = A_shutdown")
  case True
  then have "user_step L t this a w = Inr w"
    using assms(2) by (auto simp: logged_send_def TcpConnection_send_def TcpConnection_connected_def
        TcpConnection_shutdown_def)
  then show ?thesis using assms(1)
    by (intro exI[of _ "\<lambda>c. c"] exI[of _ "consumed w"]) (simp add: inert_def upd_conn_same)
next
  case False
  then show ?thesis using user_step_inert[OF assms(1)] by blast
qed

lemma user_steps_quiet:
  assumes "Buffer_inv (inputBuffer (conns w this))" and "conn_state (conns w this) = kDisconnected"
  shows "\<exists>g k. foldR (user_step L t this) as w = Inr ((upd_conn this g w)\<lparr>consumed := k\<rparr>) \<and> inert g \<and>
    Buffer_inv (inputBuffer (g (conns w this)))"
  using assms
proof (induction as arbitrary: w)
  case Nil
  then show ?case by (intro exI[of _ "\<lambda>c. c"] exI[of _ "consumed w"]) (simp add: inert_def upd_conn_same)
next
  case (Cons a as)
  obtain g k where g: "user_step L t this a w = Inr ((upd_conn this g w)\<lparr>consumed := k\<rparr>)" "inert g"
    "Buffer_inv (inputBuffer (g (conns w this)))"
    using user_step_quiet[OF Cons.prems] by blast
  have "conn_state (g (conns w this)) = kDisconnected" using g(2) Cons.prems(2) by (simp add: inertD)
  then obtain h k' where h: "foldR (user_step L t this) as ((upd_conn this g w)\<lparr>consumed := k\<rparr>) =
      Inr ((upd_conn this h ((upd_conn this g w)\<lparr>consumed := k\<rparr>))\<lparr>consumed := k'\<rparr>)"
    "inert h" "Buffer_inv (inputBuffer (h (g (conns w this))))"
    using Cons.IH[of "(upd_conn this g w)\<lparr>consumed := k\<rparr>"] g(3) by auto
  then show ?case
    using g by (intro exI[of _ "\<lambda>c. h (g c)"] exI[of _ k'])
      (simp add: upd_conn_consumed upd_conn_upd_conn inert_def)
qed

lemma connectEstablished_keeps:
  fixes w :: gnet and this :: conn_id
  defines "c \<equiv> conns w this" and "q \<equiv> pendingFunctors (loop_of this w)"
  defines "s \<equiv> socks w (conn_fd c)"
  assumes L: "libev_ok L" and S: "script_ok S" and t: "threadId (loop_of this w) = t"
    and inv: "wired this c" "buffers_ok c" "stream_ok c s (accepted w)" "flow_ok c s" "queue_ok this q"
    and st: "conn_state c = kConnecting" "live c" "\<not> reading c" "\<not> writing c" "out_bytes c = []"
    and q: "count_list q (F_connectEstablished this) = 0" "count_list q (F_connectDestroyed this) = 0"
      "F_shutdownInLoop this \<notin> set q" "\<not> sk_shutWr s"
  shows "keeps t this (TcpConnection_connectEstablished (script_env L t this S) this w)"
proof -
  define c' where "c' = on_channel (Channel_enableReading L) (TcpConnection_setState kConnected c)"
  have c': "live c'" "reading c'" "\<not> writing c'" "conn_state c' = kConnected" "out_bytes c' = []"
    using L st by (simp_all add: c'_def)
  have "wired this c'" "buffers_ok c'" "stream_ok c' s (accepted w)" "flow_ok c' s" "life_ok this c' q" "fin_ok this c' s q"
    using inv st q c' by (simp_all add: wired_def buffers_ok_def stream_ok_def flow_ok_def life_ok_def fin_ok_def c'_def)
  then have on: "tcp_inv_on this c' s q (accepted w)" using inv(5) by (simp add: tcp_inv_on_def)
  let ?w = "upd_conn this (on_channel (Channel_enableReading L)) (upd_conn this (TcpConnection_setState kConnected) w)"
  have inv': "tcp_inv t this ?w"
    using on t by (simp add: tcp_inv_def loop_of_def c'_def c_def s_def q_def)
  have "connectionCallback (conns ?w this) \<noteq> None" using inv(1) by (simp add: wired_def c_def)
  from call_user_keeps[OF L S inv' this] show ?thesis
    using st(1) t by (simp add: TcpConnection_connectEstablished_def EventLoop_assertInLoopThread_def
        EventLoop_isInLoopThread_def Let_def c_def)
qed

lemma Channel_remove_eq:
  "Channel_isNoneEvent ch \<Longrightarrow> Channel_remove L True ch = Inr (ch\<lparr>ioWatcher := io_stop L (ioWatcher ch)\<rparr>)"
  by (simp add: Channel_remove_def EventLoop_removeChannel_def Channel_stop_def)

lemma connectDestroyed_keeps:
  fixes w :: gnet and this :: conn_id
  defines "c \<equiv> conns w this" and "q \<equiv> pendingFunctors (loop_of this w)"
  defines "s \<equiv> socks w (conn_fd c)"
  assumes L: "libev_ok L" and t: "threadId (loop_of this w) = t"
    and inv: "wired this c" "buffers_ok c" "stream_ok c s (accepted w)" "queue_ok this q"
    and st: "conn_state c = kConnected \<or> conn_state c = kDisconnecting" "live c"
    and q: "count_list q (F_connectEstablished this) = 0" "count_list q (F_connectDestroyed this) = 0"
  shows "keeps t this (TcpConnection_connectDestroyed (script_env L t this S) this w)"
proof -
  let ?E = "script_env L t this S"
  let ?w2 = "upd_conn this (on_channel (Channel_disableAll L)) (upd_conn this (TcpConnection_setState kDisconnected) w)"
  define c2 where "c2 = on_channel (Channel_disableAll L) (TcpConnection_setState kDisconnected c)"
  have c2: "conns ?w2 this = c2" "conn_state c2 = kDisconnected" "Buffer_inv (inputBuffer c2)" "conn_loop c2 = conn_loop c"
    "Channel_isNoneEvent (conn_channel c2)"
    using inv(2) L st(2) by (simp_all add: c2_def c_def buffers_ok_def)
  obtain cb where cb: "connectionCallback c2 = Some cb" using inv(1) by (auto simp: wired_def c2_def)
  obtain g k where g:
    "call_user ?E (Some cb) (On_connection this) ?w2 = Inr ((upd_conn this g ?w2)\<lparr>consumed := k\<rparr>)" "inert g"
    "Buffer_inv (inputBuffer (g c2))"
    using user_steps_quiet[of ?w2 this L t "S cb (On_connection this) ?w2"] c2
    by (auto simp: call_user_def script_env_def)
  let ?w3 = "(upd_conn this g ?w2)\<lparr>consumed := k\<rparr>"
  define ch where "ch = (conn_channel c2)\<lparr>ioWatcher := io_stop L (ioWatcher (conn_channel c2))\<rparr>"
  have lp: "threadId (loop_of this ?w3) = t"
    using t g(2) by (simp add: loop_of_def inertD)
  have rm: "Channel_remove L True (conn_channel (conns ?w3 this)) = Inr ch"
    using Channel_remove_eq[OF c2(5), of L] g(2) c2(1) by (simp add: inertD ch_def)
  let ?c3 = "on_channel (\<lambda>_. ch) (g c2)"
  have dead: "\<not> live ?c3" using L by (simp add: ch_def libev_okD)
  have fd: "conn_fd ?c3 = conn_fd c" using g(2) by (simp add: conn_fd_def ch_def inertD c2_def)
  have "wired this ?c3"
    unfolding wired_def fd using inv(1) g(2) by (simp add: wired_def inertD c2_def ch_def)
  moreover have "buffers_ok ?c3" using inv(2) g by (simp add: buffers_ok_def inertD c2_def)
  moreover have "stream_ok ?c3 s (accepted w)" using inv(3) g(2) by (simp add: stream_ok_def inertD c2_def)
  moreover have "flow_ok ?c3 s" using dead by (simp add: flow_ok_def)
  moreover have "life_ok this ?c3 q" using dead q g(2) c2(2) by (simp add: life_ok_def inertD)
  moreover have "fin_ok this ?c3 s q" using g(2) c2(2) by (simp add: fin_ok_def inertD)
  ultimately have on: "tcp_inv_on this ?c3 s q (accepted w)" using inv(4) by (simp add: tcp_inv_on_def)
  have "tcp_inv t this (upd_conn this (on_channel (\<lambda>_. ch)) ?w3)"
    using on fd g(2) t c2(1,4) by (simp add: tcp_inv_def loop_of_def inertD s_def q_def c_def)
  then show ?thesis
    using st(1) t g(1) rm lp c2(1) cb[unfolded c2_def c_def, simplified]
    by (simp add: TcpConnection_connectDestroyed_def EventLoop_assertInLoopThread_def
        EventLoop_isInLoopThread_def Let_def c_def)
qed

section \<open>Every step keeps the invariant\<close>

lemma drop_head_simps [simp]:
  "conns (drop_head this w) = conns w" "socks (drop_head this w) = socks w"
  "accepted (drop_head this w) = accepted w"
  "threadId (loop_of this (drop_head this w)) = threadId (loop_of this w)"
  "pendingFunctors (loop_of this (drop_head this w)) = tl (pendingFunctors (loop_of this w))"
  by (simp_all add: drop_head_def loop_of_def)

lemma run_neutral:
  assumes L: "libev_ok L" and S: "script_ok S" and inv: "tcp_inv t this w" and f: "neutral this f"
  shows "keeps t this (run_functor L t this S f w)"
  using call_user_keeps[OF L S inv] inv f by (cases f) simp_all

lemma tcp_inv_dropped:
  assumes inv: "tcp_inv t this w" and q: "pendingFunctors (loop_of this w) = f # fs"
    and "f \<noteq> F_shutdownInLoop this" "f \<noteq> F_connectEstablished this" "f \<noteq> F_connectDestroyed this"
  shows "tcp_inv t this (drop_head this w)"
proof -
  note I = tcp_invD[OF inv, unfolded q]
  have "life_ok this (conns w this) fs" using I(7) assms(4,5) by (simp add: life_ok_def)
  moreover have "fin_ok this (conns w this) (socks w (conn_fd (conns w this))) fs"
    using I(8) assms(3) by (simp add: fin_ok_def)
  moreover have "queue_ok this fs" using I(9) by (simp add: queue_ok_def)
  ultimately show ?thesis using I q by (simp add: tcp_inv_def tcp_inv_on_def)
qed

lemma run_shutdown:
  assumes inv: "tcp_inv t this w" and q: "pendingFunctors (loop_of this w) = F_shutdownInLoop this # fs"
    and E: "tid E = t"
  shows "keeps t this (TcpConnection_shutdownInLoop E this (drop_head this w))"
proof (rule shutdownInLoop_keeps[OF E])
  note I = tcp_invD[OF inv, unfolded q]
  show "conn_state (conns (drop_head this w) this) \<in> {kDisconnecting, kDisconnected}"
    using I(8) by (simp add: fin_ok_def)
  show "life_ok this (conns (drop_head this w) this) (pendingFunctors (loop_of this (drop_head this w)))"
    using I(7) q by (simp add: life_ok_def)
  show "queue_ok this (pendingFunctors (loop_of this (drop_head this w)))"
    using I(9) q by (simp add: queue_ok_def)
qed (use tcp_invD[OF inv] in simp_all)

lemma run_established:
  assumes L: "libev_ok L" and S: "script_ok S" and inv: "tcp_inv t this w"
    and q: "pendingFunctors (loop_of this w) = F_connectEstablished this # fs"
  shows "keeps t this (TcpConnection_connectEstablished (script_env L t this S) this (drop_head this w))"
proof (rule connectEstablished_keeps[OF L S])
  note I = tcp_invD[OF inv, unfolded q]
  show st: "conn_state (conns (drop_head this w) this) = kConnecting"
    using I(7) by (simp add: life_ok_def split: if_splits)
  then have I7: "live (conns w this)" "\<not> reading (conns w this)" "\<not> writing (conns w this)" "out_bytes (conns w this) = []"
    "count_list fs (F_connectEstablished this) = 0" "count_list fs (F_connectDestroyed this) = 0"
    using I(7) by (simp_all add: life_ok_def)
  have I8: "F_shutdownInLoop this \<notin> set fs" "\<not> sk_shutWr (socks w (conn_fd (conns w this)))"
    using I(8) st by (simp_all add: fin_ok_def)
  show "live (conns (drop_head this w) this)" "\<not> reading (conns (drop_head this w) this)"
    "\<not> writing (conns (drop_head this w) this)" "out_bytes (conns (drop_head this w) this) = []"
    using I7 by simp_all
  show "count_list (pendingFunctors (loop_of this (drop_head this w))) (F_connectEstablished this) = 0"
    "count_list (pendingFunctors (loop_of this (drop_head this w))) (F_connectDestroyed this) = 0"
    using I7 q by simp_all
  show "F_shutdownInLoop this \<notin> set (pendingFunctors (loop_of this (drop_head this w)))"
    "\<not> sk_shutWr (socks (drop_head this w) (conn_fd (conns (drop_head this w) this)))"
    using I8 q by simp_all
  show "queue_ok this (pendingFunctors (loop_of this (drop_head this w)))"
    using I(9) q by (simp add: queue_ok_def)
qed (use tcp_invD[OF inv] in simp_all)

lemma run_destroyed:
  assumes L: "libev_ok L" and inv: "tcp_inv t this w"
    and q: "pendingFunctors (loop_of this w) = F_connectDestroyed this # fs"
  shows "keeps t this (TcpConnection_connectDestroyed (script_env L t this S) this (drop_head this w))"
proof (rule connectDestroyed_keeps[OF L])
  note I = tcp_invD[OF inv, unfolded q]
  have st: "conn_state (conns w this) = kConnected \<or> conn_state (conns w this) = kDisconnecting"
    "count_list fs (F_connectDestroyed this) = 0"
    using I(7) by (auto simp: life_ok_def split: if_splits)
  then show "conn_state (conns (drop_head this w) this) = kConnected \<or>
      conn_state (conns (drop_head this w) this) = kDisconnecting" by simp
  show "live (conns (drop_head this w) this)" using I(7) st(1) by (auto simp: life_ok_def)
  have "count_list fs (F_connectEstablished this) = 0" using I(7) st(1) by (auto simp: life_ok_def)
  then show "count_list (pendingFunctors (loop_of this (drop_head this w))) (F_connectEstablished this) = 0"
    "count_list (pendingFunctors (loop_of this (drop_head this w))) (F_connectDestroyed this) = 0"
    using st(2) q by simp_all
  show "queue_ok this (pendingFunctors (loop_of this (drop_head this w)))"
    using I(9) q by (simp add: queue_ok_def)
qed (use tcp_invD[OF inv] in simp_all)

lemma functor_keeps:
  assumes L: "libev_ok L" and S: "script_ok S" and inv: "tcp_inv t this w"
    and q: "pendingFunctors (loop_of this w) = f # fs"
  shows "keeps t this (run_functor L t this S f (drop_head this w))"
proof -
  consider (neutral) "neutral this f" | (snd) m where "f = F_sendInLoop this m" | (shut) "f = F_shutdownInLoop this"
    | (est) "f = F_connectEstablished this" | (des) "f = F_connectDestroyed this"
    by (cases f) auto
  then show ?thesis
  proof cases
    case neutral
    then have "tcp_inv t this (drop_head this w)"
      by (intro tcp_inv_dropped[OF inv q]) (simp_all add: neutral_neq)
    then show ?thesis by (rule run_neutral[OF L S _ neutral])
  next
    case snd
    note I = tcp_invD[OF inv, unfolded q snd]
    have st: "conn_state (conns w this) \<noteq> kConnecting" using I(7) by (auto simp: life_ok_def)
    have len: "length m \<le> max_size" using I(9) by (simp add: queue_ok_def)
    have "tcp_inv t this (drop_head this w)" by (rule tcp_inv_dropped[OF inv q]) (simp_all add: snd)
    then show ?thesis using logged_sendInLoop_keeps[OF L _ len] st snd by simp
  next
    case shut
    then show ?thesis using run_shutdown[OF inv, of fs "script_env L t this S"] q by simp
  next
    case est
    then show ?thesis using run_established[OF L S inv, of fs] q by simp
  next
    case des
    then show ?thesis using run_destroyed[OF L inv, of fs S] q by simp
  qed
qed

lemma tcp_do_keeps:
  assumes L: "libev_ok L" and S: "script_ok S" and inv: "tcp_inv t this w"
    and en: "tcp_enabled t this a w" and ok: "act_ok a"
  shows "keeps t this (tcp_do L t this S a w)"
proof (cases a)
  case Do_functor
  then obtain f fs where "pendingFunctors (loop_of this w) = f # fs"
    using en by (cases "pendingFunctors (loop_of this w)") auto
  then show ?thesis using functor_keeps[OF L S inv] Do_functor by simp
next
  case (Do_event revents now)
  then show ?thesis using event_keeps[OF L S inv] en by simp
next
  case (Do_foreign_send t' m)
  then show ?thesis using send_foreign_keeps[OF inv] en ok by simp
next
  case (Do_foreign_shutdown t')
  then show ?thesis using shutdown_keeps[OF inv] by simp
qed

lemma tcp_initial_inv:
  assumes L: "libev_ok L" and "tcp_initial L t this w"
  shows "tcp_inv t this w"
proof -
  obtain l nm fd la pa cb mb wb cl where w:
    "conns w this = TcpConnection_setCloseCallback (Some cl) (TcpConnection_setWriteCompleteCallback wb
       (TcpConnection_setMessageCallback (Some mb) (TcpConnection_setConnectionCallback (Some cb)
         (TcpConnection_ctor L this l nm fd la pa))))"
    "threadId (loops w l) = t" "pendingFunctors (loops w l) = [F_connectEstablished this]"
    "sk_out (socks w fd) = []" "\<not> sk_shutWr (socks w fd)" "accepted w = []"
    using assms(2) by (auto simp: tcp_initial_def)
  define c where "c = conns w this"
  have none: "\<not> Channel_isReading (Channel_ctor L l fd)"
    using L by (simp add: Channel_defs Channel_ctor_def libev_okD)
  have c: "conn_loop c = l" "conn_fd c = fd" "conn_state c = kConnecting" "out_bytes c = []" "live c" "\<not> reading c" "\<not> writing c"
    using Channel_ctor_ok[OF L, of l fd] none Buffer_ctor_ok
    by (simp_all add: c_def w(1) TcpConnection_setCloseCallback_def TcpConnection_setWriteCompleteCallback_def
        TcpConnection_setMessageCallback_def TcpConnection_setConnectionCallback_def TcpConnection_ctor_def
        conn_fd_def out_bytes_def Channel_setReadCallback_def Channel_setWriteCallback_def
        Channel_setErrorCallback_def Channel_isReading_def Channel_isWriting_def)
  have "wired this c" "buffers_ok c"
    using Channel_ctor_ok[OF L, of l fd] Buffer_ctor_ok
    by (simp_all add: c_def w(1) TcpConnection_setCloseCallback_def TcpConnection_setWriteCompleteCallback_def
        TcpConnection_setMessageCallback_def TcpConnection_setConnectionCallback_def TcpConnection_ctor_def
        conn_fd_def Channel_setReadCallback_def Channel_setWriteCallback_def Channel_setErrorCallback_def
        wired_def buffers_ok_def Channel_ctor_def)
  moreover have "stream_ok c (socks w fd) (accepted w)" using c w by (simp add: stream_ok_def)
  moreover have "flow_ok c (socks w fd)" "life_ok this c [F_connectEstablished this]"
    "fin_ok this c (socks w fd) [F_connectEstablished this]" "queue_ok this [F_connectEstablished this]"
    using c w by (simp_all add: flow_ok_def life_ok_def fin_ok_def queue_ok_def)
  ultimately show ?thesis
    using c w by (simp add: tcp_inv_def tcp_inv_on_def loop_of_def c_def)
qed

lemma tcp_step_inv:
  assumes L: "libev_ok L" and S: "script_ok S" and "tcp_step L t this S w w'" and "tcp_inv t this w"
  shows "tcp_inv t this w'"
  using assms(3,4)
proof (induction rule: tcp_step.induct)
  case (tcp_acts a w w')
  then show ?case using tcp_do_keeps[OF L S, of t this w a] by simp
next
  case (tcp_kernel w s)
  then show ?case using tcp_inv_accepted_sock by (simp add: kernel_change_def)
next
  case (tcp_other w t' cb)
  then show ?case using tcp_inv_queue[of t this w "F_user cb" t'] by simp
qed

lemma tcp_reachable_inv:
  assumes L: "libev_ok L" and S: "script_ok S" and "tcp_reachable L t this S w"
  shows "tcp_inv t this w"
  using assms(3)
proof (induction rule: tcp_reachable.induct)
  case (tcp_start w)
  then show ?case by (rule tcp_initial_inv[OF L])
next
  case (tcp_next w w')
  then show ?case by (blast intro: tcp_step_inv[OF L S])
qed

section \<open>A concrete connection\<close>

definition fresh_sock :: Sock where
  "fresh_sock = \<lparr>sk_in = [], sk_taken = [], sk_fin = False, sk_rderr = [], sk_wr = [Wr_room 1], sk_out = [], sk_shutWr = False,
     sk_error = 0, sk_closed = False, sk_local = zero_sockaddr, sk_peer = zero_sockaddr,
     sk_keepAlive = False, sk_noDelay = False\<rparr>"

definition quiet_script :: user_script where
  "quiet_script f arg w = []"

definition new_connection :: gnet where
  "new_connection =
     \<lparr>loops = (\<lambda>_. (fresh_loop libev_ref)\<lparr>pendingFunctors := [F_connectEstablished 5]\<rparr>),
      conns = (\<lambda>_. TcpConnection_setCloseCallback (Some Cb_TcpServer_removeConnection)
         (TcpConnection_setWriteCompleteCallback None (TcpConnection_setMessageCallback (Some 2)
           (TcpConnection_setConnectionCallback (Some 1)
             (TcpConnection_ctor libev_ref 5 0 ''c'' 9 zero_sockaddr zero_sockaddr))))),
      socks = (\<lambda>_. fresh_sock), timersCreated = 0, accepted = [], consumed = []\<rparr>"

lemma quiet_script_ok: "script_ok quiet_script"
  by (simp add: script_ok_def quiet_script_def)

lemma new_connection_reachable: "tcp_reachable libev_ref 1 5 S new_connection"
  by (rule tcp_start) (force simp: tcp_initial_def new_connection_def fresh_sock_def)

text \<open>The same connection once it is established.\<close>

definition established :: gnet where
  "established =
     upd_conn 5 (on_channel (Channel_enableReading libev_ref))
       (upd_conn 5 (TcpConnection_setState kConnected) (drop_head 5 new_connection))"

lemma new_connection_enabled: "tcp_enabled 1 5 Do_functor new_connection"
  by (simp add: new_connection_def loop_of_def)

lemma established_by:
  assumes quiet: "\<And>w. S 1 (On_connection 5) w = []"
  shows "tcp_do libev_ref 1 5 S Do_functor new_connection = Inr established"
proof -
  have "pendingFunctors (loop_of 5 new_connection) = [F_connectEstablished 5]"
    "conn_state (conns new_connection 5) = kConnecting" "connectionCallback (conns new_connection 5) = Some 1"
    "EventLoop_isInLoopThread 1 (loop_of 5 (drop_head 5 new_connection))"
    by (simp_all add: new_connection_def loop_of_def TcpConnection_setCloseCallback_def
        TcpConnection_setWriteCompleteCallback_def TcpConnection_setMessageCallback_def
        TcpConnection_setConnectionCallback_def TcpConnection_ctor_def EventLoop_isInLoopThread_def drop_head_def)
  then show "tcp_do libev_ref 1 5 S Do_functor new_connection = Inr established"
    by (simp add: TcpConnection_connectEstablished_def EventLoop_assertInLoopThread_def call_user_def
        script_env_def quiet[unfolded One_nat_def] established_def Let_def)
qed

lemma established_reachable_by:
  assumes "\<And>w. S 1 (On_connection 5) w = []"
  shows "tcp_reachable libev_ref 1 5 S established"
proof (rule tcp_next[OF new_connection_reachable])
  have "act_ok Do_functor" by simp
  then show "tcp_step libev_ref 1 5 S new_connection established"
    by (rule tcp_acts[OF new_connection_enabled]) (rule established_by, rule assms)
qed

lemma established_reachable: "tcp_reachable libev_ref 1 5 quiet_script established"
  by (rule established_reachable_by) (simp add: quiet_script_def)

lemma established_simps:
  "conn_fd (conns established 5) = 9" "conn_socket (conns established 5) = 9" "inputBuffer (conns established 5) = Buffer_ctor"
  "outputBuffer (conns established 5) = Buffer_ctor" "conn_state (conns established 5) = kConnected"
  "socks established = (\<lambda>_. fresh_sock)" "messageCallback (conns established 5) = Some 2" "consumed established = []"
  "accepted established = []" "conn_loop (conns established 5) = 0" "writeCompleteCallback (conns established 5) = None"
  "highWaterMarkCallback (conns established 5) = None"
  "pendingFunctors (loop_of 5 established) = []" "threadId (loop_of 5 established) = 1"
  "\<not> Channel_isWriting (conn_channel (conns established 5))"
  by (simp_all add: established_def new_connection_def drop_head_def loop_of_def TcpConnection_setCloseCallback_def
      TcpConnection_setWriteCompleteCallback_def TcpConnection_setMessageCallback_def
      TcpConnection_setConnectionCallback_def TcpConnection_ctor_def conn_fd_def Channel_setReadCallback_def
      Channel_setWriteCallback_def Channel_setErrorCallback_def Channel_ctor_def Channel_defs TcpConnection_setState_def libev_ref_def)

text \<open>The established connection, with a socket that has foreseen outcomes for the next writes.\<close>

definition with_room :: "write_outcome list \<Rightarrow> gnet" where
  "with_room os = upd_sock 9 (\<lambda>_. fresh_sock\<lparr>sk_wr := os\<rparr>) established"

lemma with_room_simps:
  "conns (with_room os) = conns established" "loops (with_room os) = loops established"
  "socks (with_room os) 9 = fresh_sock\<lparr>sk_wr := os\<rparr>" "accepted (with_room os) = []"
  "loop_of 5 (with_room os) = loop_of 5 established"
  by (simp_all add: with_room_def established_simps loop_of_def)

lemma with_room_reachable: 
  assumes "tcp_reachable libev_ref 1 5 S established"
  shows "tcp_reachable libev_ref 1 5 S (with_room os)"
proof (rule tcp_next[OF assms])
  have "kernel_change (socks established (conn_fd (conns established 5))) (fresh_sock\<lparr>sk_wr := os\<rparr>)"
    by (simp add: established_simps kernel_change_def)
  from tcp_kernel[OF this] show "tcp_step libev_ref 1 5 S established (with_room os)"
    by (simp add: with_room_def established_simps)
qed

text \<open>A message from another thread meets a full socket: it waits in the output buffer.\<close>

definition full_asked :: gnet where
  "full_asked = upd_loop 0 (EventLoop_queueInLoop 2 (F_sendInLoop 5 ''abc'')) (with_room [])"

lemma full_asked_reachable: "tcp_reachable libev_ref 1 5 quiet_script full_asked"
proof (rule tcp_next[OF with_room_reachable[OF established_reachable]])
  have run: "tcp_do libev_ref 1 5 quiet_script (Do_foreign_send 2 ''abc'') (with_room []) = Inr full_asked"
    using established_simps(14) by (simp add: TcpConnection_send_def full_asked_def with_room_simps EventLoop_isInLoopThread_def established_simps)
  show "tcp_step libev_ref 1 5 quiet_script (with_room []) full_asked"
    by (rule tcp_acts[OF _ _ run]) simp_all
qed

lemma full_socket_buffers:
  "\<exists>w. tcp_do libev_ref 1 5 quiet_script Do_functor full_asked = Inr w \<and> accepted w = [''abc''] \<and> 
     conn_socket (conns w 5) = 9 \<and> sk_out (socks w 9) = []"
proof -
  let ?w = "drop_head 5 full_asked"
  have q: "pendingFunctors (loop_of 5 full_asked) = [F_sendInLoop 5 ''abc'']"
    using established_simps(13) by (simp add: full_asked_def loop_of_def with_room_simps established_simps)
  have w: "conns ?w = conns established" "socks ?w 9 = fresh_sock\<lparr>sk_wr := []\<rparr>" "accepted ?w = []"
    "EventLoop_isInLoopThread 1 (loop_of 5 ?w)" "conns full_asked = conns established"
    "socks full_asked 9 = fresh_sock\<lparr>sk_wr := []\<rparr>" "accepted full_asked = []"
    using established_simps(14)
    by (simp_all add: drop_head_def full_asked_def loop_of_def EventLoop_isInLoopThread_def with_room_simps established_simps)
  have wr: "sockets_write ''abc'' (fresh_sock\<lparr>sk_wr := []\<rparr>) = (-1, EWOULDBLOCK, fresh_sock\<lparr>sk_wr := []\<rparr>)"
    by (simp add: sockets_write.simps fresh_sock_def)
  have same: "upd_sock 9 (\<lambda>_. fresh_sock\<lparr>sk_wr := []\<rparr>) ?w = ?w" using w(2) upd_sock_same[of 9 ?w] by simp
  have zero: "Buffer_readableBytes Buffer_ctor = 0" by (simp add: Buffer_readableBytes_def Buffer_ctor_def)
  have try_eq: "TcpConnection_tryWrite 1 5 ''abc'' ?w = (0, 3, False, ?w)"
    using same by (simp add: TcpConnection_tryWrite_def w established_simps wr zero Let_def del: One_nat_def)
  have keep: "False = peer_gone 5 ''abc'' ?w"
    by (simp add: peer_gone_def w established_simps wr errno_defs)
  have fits: "Buffer_fits ''abc'' Buffer_ctor" 
    by (simp add: Buffer_fits_def Buffer_ctor_def)
  obtain b where b: "Buffer_append ''abc'' Buffer_ctor = Inr b" using Buffer_append_ok[OF Buffer_ctor_ok(1) fits] by blast
  have high: "TcpConnection_queueHighWaterMark (base_env libev_ref 1) 5 3 ?w = ?w"
    by (simp add: TcpConnection_queueHighWaterMark_def w established_simps Let_def)
  have "\<exists>w'. TcpConnection_bufferRest (base_env libev_ref 1) 5 ''abc'' 0 3 ?w = Inr w' \<and> conn_socket (conns w' 5) = 9 \<and> socks w' = socks ?w"
    using b high by (simp add: TcpConnection_bufferRest_def Let_def w established_simps)
  then obtain w' where w': "TcpConnection_bufferRest (base_env libev_ref 1) 5 ''abc'' 0 3 ?w = Inr w'"
    "conn_socket (conns w' 5) = 9" "socks w' = socks ?w" by blast
  have "logged_sendInLoop libev_ref 1 5 ''abc'' ?w = Inr (w'\<lparr>accepted := [''abc'']\<rparr>)"
    unfolding logged_sendInLoop_eq[OF w(4) try_eq order_refl keep] by (simp add: w'(1) w(7) del: One_nat_def)
  then show ?thesis using w' w(2) by (simp add: q fresh_sock_def w(6))
qed

section \<open>What a connection promises\<close>

text \<open>
  C5. A connection never fails. In every state that a connection can reach, whatever its user, other
  threads, the peer and the kernel do, the next functor of its loop, the next event libev may report and
  the next call from another thread return, and lead to a reachable state again; the only failure left is
  a buffer that would have to grow beyond what a vector can hold. So no assertion of \<open>TcpConnection\<close>,
  \<open>Channel\<close> or \<open>Buffer\<close> fails, no handler runs in the wrong thread and no unset callback is called.
\<close>

theorem connection_never_fails:
  assumes "libev_ok L" and "script_ok S" and "tcp_reachable L t this S w" and "tcp_enabled t this a w" and "act_ok a"
  shows "tcp_do L t this S a w = Inl LengthError \<or>
    (\<exists>w'. tcp_do L t this S a w = Inr w' \<and> tcp_reachable L t this S w')"
proof (cases "tcp_do L t this S a w")
  case (Inl e)
  then show ?thesis
    using tcp_do_keeps[OF assms(1,2) tcp_reachable_inv[OF assms(1-3)] assms(4,5)] by simp
next
  case (Inr w')
  then show ?thesis using tcp_next[OF assms(3) tcp_acts[OF assms(4,5) Inr]] by blast
qed

lemma connection_never_fails_witness:
  "tcp_do libev_ref 1 5 quiet_script (Do_foreign_shutdown 2) established = Inl LengthError \<or>
    (\<exists>w'. tcp_do libev_ref 1 5 quiet_script (Do_foreign_shutdown 2) established = Inr w' \<and>
       tcp_reachable libev_ref 1 5 quiet_script w')"
  by (rule connection_never_fails[OF libev_ref_ok quiet_script_ok established_reachable]) simp_all

text \<open>
  C1. The byte stream. At any time, what the kernel has accepted from a connection followed by what its
  output buffer still holds is the concatenation, in order, of the messages that \<open>sendInLoop\<close> was given, but
  for those that the kernel itself answered at once, with nothing waiting before them, with \<open>EPIPE\<close> or
  \<open>ECONNRESET\<close>: no byte is lost, duplicated or reordered between direct writes, buffered writes and partial
  writes, and none is lost to a full socket or to another error of a write.
\<close>

theorem connection_byte_stream:
  assumes "libev_ok L" and "script_ok S" and "tcp_reachable L t this S w"
  shows "sk_out (socks w (conn_socket (conns w this))) @ Buffer_bytes (outputBuffer (conns w this)) =
    concat (accepted w)"
  using tcp_invD(3,5)[OF tcp_reachable_inv[OF assms]] by (simp add: stream_ok_def out_bytes_def wired_def)

lemma connection_byte_stream_witness:
  "\<exists>w. tcp_do libev_ref 1 5 quiet_script Do_functor full_asked = Inr w \<and> accepted w = [''abc''] \<and>
     sk_out (socks w (conn_socket (conns w 5))) = [] \<and> Buffer_bytes (outputBuffer (conns w 5)) = ''abc''"
proof -
  obtain w where w: "tcp_do libev_ref 1 5 quiet_script Do_functor full_asked = Inr w" "accepted w = [''abc'']"
    "conn_socket (conns w 5) = 9" "sk_out (socks w 9) = []" using full_socket_buffers by blast
  have "tcp_reachable libev_ref 1 5 quiet_script w"
    by (rule tcp_next[OF full_asked_reachable tcp_acts[OF _ _ w(1)]]) (simp_all add: full_asked_def loop_of_def with_room_simps established_simps)
  from connection_byte_stream[OF libev_ref_ok quiet_script_ok this] w show ?thesis by simp
qed

text \<open>
  C6. Flushed before shut down. While a connection is open (it still watches for reading), it watches for
  writing exactly when its output buffer holds bytes; its write side is shut down only with an empty
  output buffer and never in state \<open>kConnected\<close>; and once \<open>shutdown\<close> has been called, no request for it
  waits in the queue and the buffer is empty, the write side is shut down.
\<close>

theorem connection_shutdown_after_flush:
  assumes "libev_ok L" and "script_ok S" and "tcp_reachable L t this S w"
    and "Channel_isReading (conn_channel (conns w this))" and "conn_state (conns w this) \<noteq> kDisconnected"
  shows "(Channel_isWriting (conn_channel (conns w this)) \<longleftrightarrow> Buffer_bytes (outputBuffer (conns w this)) \<noteq> []) \<and>
    (sk_shutWr (socks w (conn_socket (conns w this))) \<longrightarrow>
       Buffer_bytes (outputBuffer (conns w this)) = [] \<and> conn_state (conns w this) = kDisconnecting) \<and>
    (conn_state (conns w this) = kDisconnecting \<and> F_shutdownInLoop this \<notin> set (pendingFunctors (loop_of this w)) \<and>
       Buffer_bytes (outputBuffer (conns w this)) = [] \<longrightarrow> sk_shutWr (socks w (conn_socket (conns w this))))"
  using tcp_invD[OF tcp_reachable_inv[OF assms(1-3)]] assms(4,5)
  by (auto simp: flow_ok_def life_ok_def fin_ok_def out_bytes_def wired_def)

lemma established_open:
  "Channel_isReading (conn_channel (conns established 5))" "conn_state (conns established 5) = kConnected"
proof -
  have "live (conns new_connection 5)"
    using tcp_invD(7)[OF tcp_reachable_inv[OF libev_ref_ok quiet_script_ok new_connection_reachable]]
    by (simp add: life_ok_def new_connection_def TcpConnection_setCloseCallback_def
        TcpConnection_setWriteCompleteCallback_def TcpConnection_setMessageCallback_def
        TcpConnection_setConnectionCallback_def TcpConnection_ctor_def)
  then show "Channel_isReading (conn_channel (conns established 5))" "conn_state (conns established 5) = kConnected"
    by (simp_all add: established_def libev_ref_ok)
qed

lemma connection_shutdown_after_flush_witness:
  "Channel_isWriting (conn_channel (conns established 5)) \<longleftrightarrow> Buffer_bytes (outputBuffer (conns established 5)) \<noteq> []"
  using connection_shutdown_after_flush[OF libev_ref_ok quiet_script_ok established_reachable established_open(1)]
    established_open(2) by simp

text \<open>
  C7. The life of a connection. \<open>connectEstablished\<close> waits exactly once while the state is \<open>kConnecting\<close>
  and never after; \<open>connectDestroyed\<close> waits exactly once from the moment the connection is closed until it
  has run, and never at another time; the channel's watcher is live until then and not after.
\<close>

theorem connection_life_cycle:
  assumes "libev_ok L" and "script_ok S" and "tcp_reachable L t this S w"
  shows "count_list (pendingFunctors (loop_of this w)) (F_connectEstablished this) =
      (if conn_state (conns w this) = kConnecting then 1 else 0) \<and>
    count_list (pendingFunctors (loop_of this w)) (F_connectDestroyed this) =
      (if conn_state (conns w this) \<in> {kConnected, kDisconnecting} \<and>
          \<not> Channel_isReading (conn_channel (conns w this)) then 1 else 0) \<and>
    (Channel_live (conn_channel (conns w this)) \<longleftrightarrow> conn_state (conns w this) \<noteq> kDisconnected)"
  using tcp_invD(7)[OF tcp_reachable_inv[OF assms]] by (simp add: life_ok_def)

lemma connection_life_cycle_witness:
  "count_list (pendingFunctors (loop_of 5 established)) (F_connectDestroyed 5) = 0 \<and>
   Channel_live (conn_channel (conns established 5))"
  using connection_life_cycle[OF libev_ref_ok quiet_script_ok established_reachable] established_open by simp

section \<open>When the write callbacks are queued\<close>

lemma bufferRest_queue:
  assumes b: "Buffer_inv (outputBuffer (conns w this))" and n: "n < length m" "length m \<le> max_size"
    and run: "TcpConnection_bufferRest E this m (int n) (sizeof_list m - word_of_int (int n)) w = Inr w'"
  shows "out_bytes (conns w' this) = out_bytes (conns w this) @ drop n m"
    and "pendingFunctors (loop_of this w') = pendingFunctors (loop_of this w) @
      (case highWaterMarkCallback (conns w this) of
         None \<Rightarrow> []
       | Some cb \<Rightarrow>
           if length (out_bytes (conns w this)) < unat (highWaterMark (conns w this)) \<and>
              unat (highWaterMark (conns w this)) \<le> length (out_bytes (conns w' this))
           then [F_highWaterMark cb this (of_nat (length (out_bytes (conns w' this))))] else [])"
proof -
  let ?c = "conns w this"
  let ?r = "sizeof_list m - word_of_int (int n) :: size_t" and ?old = "Buffer_readableBytes (outputBuffer ?c)"
  have ur: "unat ?r = length m - n" using size_remaining(1)[of n m] n by simp
  have data: "take (unat ?r) (drop (nat (int n)) m) = drop n m" using ur by simp
  obtain b' where b': "Buffer_append (drop n m) (outputBuffer ?c) = Inr b'" "out_bytes (conns w' this) = Buffer_bytes b'"
    "pendingFunctors (loop_of this w') =
       pendingFunctors (loop_of this (TcpConnection_queueHighWaterMark E this ?r w))"
    using run unfolding TcpConnection_bufferRest_def Let_def data queueHighWaterMark_frame
    by (auto simp: res_simps loop_of_def)
  have "length (drop n m) \<le> max_size" using n(2) by simp
  from Buffer_append_cases[OF b this] b'(1) have bytes: "Buffer_bytes b' = out_bytes ?c @ drop n m" and binv: "Buffer_inv b'"
    by (auto simp: out_bytes_def)
  then show out: "out_bytes (conns w' this) = out_bytes ?c @ drop n m" using b'(2) by simp
  have uo: "unat ?old = length (out_bytes ?c)" using length_Buffer_bytes[OF b] by (simp add: out_bytes_def)
  have len: "length (out_bytes (conns w' this)) \<le> max_size"
    using Buffer_bytes_bound[OF binv] b'(2) by simp
  have sum: "unat (?old + ?r) = length (out_bytes (conns w' this))"
    using len out ur uo by (simp add: unat_plus_size)
  then have sumw: "?old + ?r = of_nat (length (out_bytes (conns w' this)))"
    by (metis of_nat_unat_size)
  have cmp: "?old < highWaterMark ?c \<longleftrightarrow> length (out_bytes ?c) < unat (highWaterMark ?c)"
    "?old + ?r \<ge> highWaterMark ?c \<longleftrightarrow> unat (highWaterMark ?c) \<le> length (out_bytes (conns w' this))"
    by (simp_all only: word_less_nat_alt word_le_nat_alt uo sum)
  show "pendingFunctors (loop_of this w') = pendingFunctors (loop_of this w) @
      (case highWaterMarkCallback ?c of
         None \<Rightarrow> []
       | Some cb \<Rightarrow>
           if length (out_bytes ?c) < unat (highWaterMark ?c) \<and>
              unat (highWaterMark ?c) \<le> length (out_bytes (conns w' this))
           then [F_highWaterMark cb this (of_nat (length (out_bytes (conns w' this))))] else [])"
    unfolding b'(3) queueHighWaterMark_queue Let_def cmp unfolding sumw by (auto split: option.split)
qed

lemma bufferRest_queue0:
  assumes "Buffer_inv (outputBuffer (conns w this))" and "m \<noteq> []" "length m \<le> max_size"
    and "TcpConnection_bufferRest E this m 0 (sizeof_list m) w = Inr w'"
  shows "out_bytes (conns w' this) = out_bytes (conns w this) @ m"
    and "pendingFunctors (loop_of this w') = pendingFunctors (loop_of this w) @
      (case highWaterMarkCallback (conns w this) of
         None \<Rightarrow> []
       | Some cb \<Rightarrow>
           if length (out_bytes (conns w this)) < unat (highWaterMark (conns w this)) \<and>
              unat (highWaterMark (conns w this)) \<le> length (out_bytes (conns w' this))
           then [F_highWaterMark cb this (of_nat (length (out_bytes (conns w' this))))] else [])"
  using bufferRest_queue[of w this 0 m E w'] assms by simp_all

text \<open>What the direct write of \<open>sendInLoop\<close> does: nothing goes out, or \<open>n\<close> bytes and perhaps a callback is queued.\<close>

lemma tryWrite_cases:
  assumes "Buffer_inv (outputBuffer (conns w this))"
  obtains
    (unsent) f w1 where "TcpConnection_tryWrite t this m w = (0, sizeof_list m, f, w1)"
      "conns w1 = conns w" "loop_of this w1 = loop_of this w" "f \<Longrightarrow> out_bytes (conns w this) = []"
  | (wrote) n w1 where "n \<le> length m"
      "TcpConnection_tryWrite t this m w = (int n, sizeof_list m - word_of_int (int n), False,
        if sizeof_list m - word_of_int (int n) = (0 :: size_t) then TcpConnection_queueWriteComplete t this w1 else w1)"
      "conns w1 = conns w" "loop_of this w1 = loop_of this w" "out_bytes (conns w this) = []"
proof -
  let ?c = "conns w this"
  let ?s = "socks w (conn_fd ?c)"
  have rd0: "Buffer_readableBytes (outputBuffer ?c) = 0 \<longleftrightarrow> out_bytes ?c = []"
    using readable_zero_iff[OF assms] by (simp add: out_bytes_def)
  show ?thesis
  proof (cases "\<not> Channel_isWriting (conn_channel ?c) \<and> out_bytes ?c = []")
    case False
    then have "TcpConnection_tryWrite t this m w = (0, sizeof_list m, False, w)"
      using rd0 by (auto simp: TcpConnection_tryWrite_def Let_def)
    then show ?thesis by (rule unsent) simp_all
  next
    case True
    show ?thesis
    proof (cases rule: sockets_write_cases[of m ?s])
      case (fail e os)
      let ?w1 = "upd_sock (conn_fd ?c) (\<lambda>_. ?s\<lparr>sk_wr := os\<rparr>) w"
      have "TcpConnection_tryWrite t this m w =
          (0, sizeof_list m, e \<noteq> EWOULDBLOCK \<and> (e = EPIPE \<or> e = ECONNRESET), ?w1)"
        using fail(1) True rd0 by (simp add: TcpConnection_tryWrite_def Let_def)
      then show ?thesis by (rule unsent) (use True in \<open>simp_all add: loop_of_def\<close>)
    next
      case (ok n os)
      let ?w1 = "upd_sock (conn_fd ?c) (\<lambda>_. ?s\<lparr>sk_wr := os, sk_out := sk_out ?s @ take n m\<rparr>) w"
      have "TcpConnection_tryWrite t this m w = (int n, sizeof_list m - word_of_int (int n), False,
          if sizeof_list m - word_of_int (int n) = (0 :: size_t) then TcpConnection_queueWriteComplete t this ?w1 else ?w1)"
        using True rd0 ok(3) by (simp add: TcpConnection_tryWrite_def Let_def del: of_int_of_nat_eq)
      then show ?thesis by (rule wrote[OF ok(1)]) (use True in \<open>simp_all add: loop_of_def\<close>)
    qed
  qed
qed

text \<open>
  The write callbacks are queued exactly when they are due. A call of \<open>sendInLoop\<close> that returns adds to
  the queue of its loop: the write-complete callback, if it is set and the whole message was written
  directly; and the high-water mark callback, with the new length, if it is set and the length of the
  output buffer crossed the mark in this call (from below it to at least it). Nothing else is queued.
\<close>

theorem sendInLoop_queues_callbacks:
  assumes "Buffer_inv (outputBuffer (conns w this))" and "m \<noteq> []" "length m \<le> max_size"
    and "TcpConnection_sendInLoop E this m w = Inr w'"
  defines "c \<equiv> conns w this"
  defines "old \<equiv> length (Buffer_bytes (outputBuffer c))"
    and "new \<equiv> length (Buffer_bytes (outputBuffer (conns w' this)))"
    and "dropped \<equiv> fst (snd (snd (TcpConnection_tryWrite (tid E) this m w)))"
  shows "pendingFunctors (loop_of this w') = pendingFunctors (loop_of this w) @
    (case writeCompleteCallback c of
       Some cb \<Rightarrow> if new = 0 \<and> \<not> dropped then [F_writeComplete cb this] else []
     | None \<Rightarrow> []) @
    (case highWaterMarkCallback c of
       Some cb \<Rightarrow> if old < unat (highWaterMark c) \<and> unat (highWaterMark c) \<le> new
         then [F_highWaterMark cb this (of_nat new)] else []
     | None \<Rightarrow> [])"
proof -
  have on: "old = length (out_bytes c)" "new = length (out_bytes (conns w' this))"
    by (simp_all add: old_def new_def out_bytes_def)
  have eq: "(if \<not> f \<and> 0 < r then TcpConnection_bufferRest E this m n r w1 else Inr w1) = Inr w'"
    if "TcpConnection_tryWrite (tid E) this m w = (n, r, f, w1)" for n r f w1
    using assms(4) that
    by (auto simp: TcpConnection_sendInLoop_def EventLoop_assertInLoopThread_def res_simps split: if_splits)
  have lpos: "(0 :: size_t) < sizeof_list m"
    using size_remaining(3)[of 0 m] assms(2,3) by simp
  show ?thesis
  proof (rule tryWrite_cases[OF assms(1), of "tid E" m])
    fix f w1 assume unsent: "TcpConnection_tryWrite (tid E) this m w = (0, sizeof_list m, f, w1)"
      "conns w1 = conns w" "loop_of this w1 = loop_of this w" "f \<Longrightarrow> out_bytes (conns w this) = []"
    show ?thesis
    proof (cases f)
      case True
      then have "w' = w1" "dropped" using eq[OF unsent(1)] unsent(1) by (simp_all add: dropped_def)
      then show ?thesis unfolding on using unsent(2,3) by (auto simp: c_def split: option.split)
    next
      case False
      then have "TcpConnection_bufferRest E this m 0 (sizeof_list m) w1 = Inr w'" using eq[OF unsent(1)] lpos by simp
      from bufferRest_queue0[OF _ assms(2,3) this] show ?thesis
        using assms(1,2) unsent(2,3) unfolding on by (auto simp: c_def[symmetric] split: option.split)
    qed
  next
    fix n w1
    let ?r = "sizeof_list m - word_of_int (int n) :: size_t"
    assume wrote: "n \<le> length m"
      "TcpConnection_tryWrite (tid E) this m w = (int n, ?r, False, if ?r = 0 then TcpConnection_queueWriteComplete (tid E) this w1 else w1)"
      "conns w1 = conns w" "loop_of this w1 = loop_of this w" "out_bytes (conns w this) = []"
    have nd: "\<not> dropped" using wrote(2) by (simp add: dropped_def)
    show ?thesis
    proof (cases "n = length m")
      case True
      then have "?r = 0" using size_remaining(2)[OF wrote(1) assms(3)] by blast
      then have "w' = TcpConnection_queueWriteComplete (tid E) this w1" using eq[OF wrote(2)] by simp
      then show ?thesis
        unfolding on using wrote(3-5) nd by (auto simp: queueWriteComplete_queue c_def split: option.split)
    next
      case False
      then have lt: "n < length m" using wrote(1) by simp
      then have r: "0 < ?r" "?r \<noteq> 0" using size_remaining(2,3)[OF wrote(1) assms(3)] by auto
      have "TcpConnection_bufferRest E this m (int n) ?r w1 = Inr w'"
        using eq[OF wrote(2)] r(1) by (simp only: r(2) if_False) simp
      from bufferRest_queue[OF _ lt assms(3) this] show ?thesis
        using assms(1) wrote(3,4) lt unfolding on by (auto simp: c_def[symmetric] split: option.split)
    qed
  qed
qed

text \<open>Two bytes on a connection whose socket has room for one, with the mark at one byte.\<close>

definition marked :: gnet where
  "marked = upd_conn 5 (TcpConnection_setHighWaterMarkCallback (Some 7) 1) established"

lemma marked_simps:
  "outputBuffer (conns marked 5) = Buffer_ctor" "socks marked = (\<lambda>_. fresh_sock)" "conn_fd (conns marked 5) = 9"
  "pendingFunctors (loop_of 5 marked) = []" "threadId (loop_of 5 marked) = 1"
  "highWaterMarkCallback (conns marked 5) = Some 7" "highWaterMark (conns marked 5) = 1"
  "writeCompleteCallback (conns marked 5) = None"
  by (simp_all add: marked_def established_def drop_head_def new_connection_def loop_of_def conn_fd_def
      TcpConnection_setHighWaterMarkCallback_def TcpConnection_setState_def on_channel_def
      TcpConnection_setCloseCallback_def TcpConnection_setWriteCompleteCallback_def
      TcpConnection_setMessageCallback_def TcpConnection_setConnectionCallback_def TcpConnection_ctor_def
      Channel_setErrorCallback_def Channel_setWriteCallback_def Channel_setReadCallback_def Channel_ctor_def)

lemma marked_not_writing: "\<not> Channel_isWriting (conn_channel (conns marked 5))"
proof -
  have "writing (conns established 5) \<longleftrightarrow> Buffer_bytes (outputBuffer (conns established 5)) \<noteq> []"
    using tcp_invD(6,7)[OF tcp_reachable_inv[OF libev_ref_ok quiet_script_ok established_reachable]] established_open
    by (auto simp: flow_ok_def life_ok_def out_bytes_def)
  then show ?thesis
    using marked_simps(1) Buffer_ctor_ok(2)
    by (simp add: marked_def TcpConnection_setHighWaterMarkCallback_def)
qed

lemma sendInLoop_queues_callbacks_witness:
  "\<exists>w'. TcpConnection_sendInLoop (base_env libev_ref 1) 5 ''hi'' marked = Inr w' \<and>
     pendingFunctors (loop_of 5 w') = [F_highWaterMark 7 5 1]"
proof -
  let ?E = "base_env libev_ref 1"
  let ?w1 = "upd_sock 9 (\<lambda>_. fresh_sock\<lparr>sk_wr := [], sk_out := ''h''\<rparr>) marked"
  obtain b where b: "Buffer_append ''i'' Buffer_ctor = Inr b" "Buffer_bytes b = ''i''"
    using Buffer_append_ok[OF Buffer_ctor_ok(1), of "''i''"] Buffer_ctor_ok(2)
    by (auto simp: Buffer_fits_def Buffer_ctor_def)
  have zero: "Buffer_readableBytes Buffer_ctor = 0" by (simp add: Buffer_readableBytes_def Buffer_ctor_def)
  have wr: "sockets_write ''hi'' fresh_sock = (1, 0, fresh_sock\<lparr>sk_wr := [], sk_out := ''h''\<rparr>)"
    by (simp add: sockets_write.simps fresh_sock_def)
  have try_eq: "TcpConnection_tryWrite 1 5 ''hi'' marked = (1, 1, False, ?w1)"
    using marked_not_writing by (simp add: TcpConnection_tryWrite_def marked_simps wr zero Let_def)
  have in_loop: "EventLoop_isInLoopThread 1 (loop_of 5 marked)"
    by (simp add: EventLoop_isInLoopThread_def marked_simps)
  obtain w' where w': "TcpConnection_sendInLoop ?E 5 ''hi'' marked = Inr w'"
    "outputBuffer (conns w' 5) = b"
    using marked_not_writing in_loop b(1)
    by (simp add: TcpConnection_sendInLoop_def EventLoop_assertInLoopThread_def try_eq TcpConnection_bufferRest_def
        marked_simps Let_def del: One_nat_def)
  have "pendingFunctors (loop_of 5 w') = [F_highWaterMark 7 5 1]"
    using sendInLoop_queues_callbacks[OF _ _ _ w'(1)] w'(2) b(2) Buffer_ctor_ok try_eq
    by (simp add: marked_simps del: One_nat_def)
  then show ?thesis using w'(1) by blast
qed

end
