(* ===== verification/Tcp_Frames.thy ===== *)
theory Tcp_Frames
  imports Tcp_Stream
begin

text \<open>
  What all operations of a connection have in common: each is made of a few elementary changes of its world.
  The locale \<open>connection_frame\<close> names them; a relation between states that allows each of them and is transitive
  holds from before to after every operation, every event and every call of the user. \<open>Tcp_Input\<close> and
  \<open>Tcp_Peers\<close> interpret it.
\<close>

section \<open>Elementary changes\<close>

text \<open>The channel calls the handlers of its own connection.\<close>

definition own_channel :: "conn_id \<Rightarrow> TcpConnection \<Rightarrow> bool" where
  "own_channel this c \<longleftrightarrow> \<not> ch_tied (conn_channel c) \<and>
     readCallback (conn_channel c) = Some (Cb_TcpConnection_handleRead this) \<and>
     writeCallback (conn_channel c) = Some (Cb_TcpConnection_handleWrite this) \<and>
     errorCallback (conn_channel c) = Some (Cb_TcpConnection_handleError this)"

text \<open>A change of the connection that leaves its descriptor, its input buffer and its channel's handlers alone.\<close>

definition conn_kept :: "conn_id \<Rightarrow> TcpConnection \<Rightarrow> TcpConnection \<Rightarrow> bool" where
  "conn_kept this c c' \<longleftrightarrow> conn_fd c' = conn_fd c \<and> inputBuffer c' = inputBuffer c \<and>
     (own_channel this c \<longrightarrow> own_channel this c')"

text \<open>A relation between the states before and after an operation that may fail.\<close>

definition res_rel :: "(gnet \<Rightarrow> gnet \<Rightarrow> bool) \<Rightarrow> gnet \<Rightarrow> gnet res \<Rightarrow> bool" where
  "res_rel R w r \<longleftrightarrow> (\<forall>w'. r = Inr w' \<longrightarrow> R w w')"

lemma res_rel_simps [simp]: "res_rel R w (Inl e)" "res_rel R w (Inr w') \<longleftrightarrow> R w w'"
  by (simp_all add: res_rel_def)

lemma res_rel_ensure: "res_rel R w r \<Longrightarrow> res_rel R w (ensure b e r)"
  by (simp add: ensure_def)

lemma res_rel_assert: "res_rel R w r \<Longrightarrow> res_rel R w (EventLoop_assertInLoopThread t l r)"
  by (simp add: EventLoop_assertInLoopThread_def res_rel_ensure)

locale connection_frame =
  fixes this :: conn_id and R :: "gnet \<Rightarrow> gnet \<Rightarrow> bool"
  assumes R_refl: "R w w"
    and R_trans: "R w w1 \<Longrightarrow> R w1 w2 \<Longrightarrow> R w w2"
    and R_own: "R w w1 \<Longrightarrow> own_channel this (conns w this) \<Longrightarrow> own_channel this (conns w1 this)"
    and R_loop: "R w (upd_loop l f w)"
    and R_accepted: "R w (w\<lparr>accepted := a\<rparr>)"
    and R_conn: "conn_kept this (conns w this) (g (conns w this)) \<Longrightarrow> R w (upd_conn this g w)"
    and R_write: "sockets_write m (socks w (conn_fd (conns w this))) = (n, e, s) \<Longrightarrow>
      R w (upd_sock (conn_fd (conns w this)) (\<lambda>_. s) w)"
    and R_shutdown: "R w (upd_sock fd Socket_shutdownWrite w)"
    and R_error: "R w (upd_sock fd (\<lambda>s. snd (sockets_getSocketError s)) w)"
    and R_read: "Buffer_readFd (sockets_readable (socks w (conn_fd (conns w this)))) (inputBuffer (conns w this)) =
        Inr (n, e, b, rest) \<Longrightarrow>
      R w (upd_sock (conn_fd (conns w this)) (sockets_readDone rest) (upd_conn this (\<lambda>c. c\<lparr>inputBuffer := b\<rparr>) w))"
    and R_retrieve: "k \<le> Buffer_readableBytes (inputBuffer (conns w this)) \<Longrightarrow>
      Buffer_retrieve k (inputBuffer (conns w this)) = Inr b \<Longrightarrow>
      R w (log_consumed (take (unat k) (Buffer_bytes (inputBuffer (conns w this)))) (upd_conn this (\<lambda>c. c\<lparr>inputBuffer := b\<rparr>) w))"
    and R_retrieveAll: "R w (log_consumed (Buffer_bytes (inputBuffer (conns w this)))
      (upd_conn this (\<lambda>c. c\<lparr>inputBuffer := Buffer_retrieveAll (inputBuffer c)\<rparr>) w))"
begin

lemma frame_trans: "R w w1 \<Longrightarrow> res_rel R w1 r \<Longrightarrow> res_rel R w r"
  using R_trans by (auto simp: res_rel_def)

lemma frame_bind:
  "res_rel R w r \<Longrightarrow> (\<And>w1. r = Inr w1 \<Longrightarrow> R w w1 \<Longrightarrow> res_rel R w1 (f w1)) \<Longrightarrow> res_rel R w (bindR r f)"
  using frame_trans by (cases r) auto

section \<open>Operations that do not read\<close>

lemma queueWriteComplete_in_frame: "R w (TcpConnection_queueWriteComplete t this w)"
  by (simp add: TcpConnection_queueWriteComplete_def R_refl R_loop split: option.split)

lemma tryWrite_in_frame:
  assumes "TcpConnection_tryWrite t this m w = (n, r, fault, w1)"
  shows "R w w1"
proof -
  obtain k e s where wr: "sockets_write m (socks w (conn_fd (conns w this))) = (k, e, s)"
    by (cases "sockets_write m (socks w (conn_fd (conns w this)))")
  show ?thesis
    using assms wr R_write[OF wr] R_refl R_trans[OF R_write[OF wr] queueWriteComplete_in_frame]
    by (auto simp: TcpConnection_tryWrite_def Let_def split: if_splits)
qed

lemma queueHighWaterMark_in_frame: "R w (TcpConnection_queueHighWaterMark E this r w)"
  by (simp add: TcpConnection_queueHighWaterMark_def Let_def R_refl R_loop split: option.split)

lemma outputBuffer_in_frame: "R w (upd_conn this (\<lambda>c. c\<lparr>outputBuffer := b\<rparr>) w)"
  by (rule R_conn) (simp add: conn_kept_def own_channel_def)

lemma enableWriting_in_frame: "R w (upd_conn this (on_channel (Channel_enableWriting L)) w)"
  by (rule R_conn) (simp add: conn_kept_def own_channel_def)

lemma bufferRest_in_frame: "res_rel R w (TcpConnection_bufferRest E this m n r w)"
proof -
  let ?w1 = "TcpConnection_queueHighWaterMark E this r w"
  have "res_rel R ?w1 (TcpConnection_bufferRest E this m n r w)"
    by (cases "Buffer_append (take (unat r) (drop (nat n) m)) (outputBuffer (conns ?w1 this))")
       (auto simp: TcpConnection_bufferRest_def Let_def intro: R_trans[OF outputBuffer_in_frame enableWriting_in_frame] outputBuffer_in_frame)
  then show ?thesis by (rule frame_trans[OF queueHighWaterMark_in_frame])
qed

lemma sendInLoop_in_frame: "res_rel R w (TcpConnection_sendInLoop E this m w)"
proof -
  obtain n r fault w1 where tw: "TcpConnection_tryWrite (tid E) this m w = (n, r, fault, w1)"
    by (cases "TcpConnection_tryWrite (tid E) this m w")
  note w1 = tryWrite_in_frame[OF tw]
  show ?thesis
    using w1 frame_trans[OF w1 bufferRest_in_frame[of w1 E m n r]]
    by (auto simp: TcpConnection_sendInLoop_def tw intro!: res_rel_assert res_rel_ensure)
qed

lemma logged_sendInLoop_in_frame: "res_rel R w (logged_sendInLoop L t this m w)"
  unfolding logged_sendInLoop_def
  by (rule frame_bind[OF sendInLoop_in_frame]) (simp add: log_message_def R_accepted)

lemma send_in_frame: "res_rel R w (TcpConnection_send E this m w)"
  by (simp add: TcpConnection_send_def sendInLoop_in_frame R_refl R_loop)

lemma logged_send_in_frame: "res_rel R w (logged_send L t this m w)"
  unfolding logged_send_def by (rule frame_bind[OF send_in_frame]) (simp add: log_message_def R_accepted R_refl)

lemma shutdownInLoop_in_frame: "res_rel R w (TcpConnection_shutdownInLoop E this w)"
  by (simp add: TcpConnection_shutdownInLoop_def R_shutdown R_refl res_rel_assert)

lemma setState_in_frame: "R w (upd_conn this (TcpConnection_setState st) w)"
  by (rule R_conn) (simp add: conn_kept_def own_channel_def)

lemma shutdown_in_frame: "res_rel R w (TcpConnection_shutdown E this w)"
  by (simp add: TcpConnection_shutdown_def EventLoop_runInLoop_def Let_def R_refl
      frame_trans[OF setState_in_frame shutdownInLoop_in_frame] R_trans[OF setState_in_frame R_loop])

lemma handleError_in_frame: "res_rel R w (TcpConnection_handleError this w)"
  by (simp add: TcpConnection_handleError_def R_error)

lemma disableWriting_in_frame: "R w (upd_conn this (on_channel (Channel_disableWriting L)) w)"
  by (rule R_conn) (simp add: conn_kept_def own_channel_def)

lemma disableAll_in_frame: "R w (upd_conn this (on_channel (Channel_disableAll L)) w)"
  by (rule R_conn) (simp add: conn_kept_def own_channel_def)

lemma enableReading_in_frame: "R w (upd_conn this (on_channel (Channel_enableReading L)) w)"
  by (rule R_conn) (simp add: conn_kept_def own_channel_def)

lemma eventHandling_in_frame: "R w (upd_conn this (on_channel (eventHandling_update f)) w)"
  by (rule R_conn) (simp add: conn_kept_def own_channel_def)

text \<open>What \<open>handleWrite\<close> does once the buffer is flushed.\<close>

lemma flushed_in_frame:
  "R w (TcpConnection_queueWriteComplete t this (upd_conn this (on_channel (Channel_disableWriting L)) w))"
  using disableWriting_in_frame queueWriteComplete_in_frame by (rule R_trans)

lemma handleWrite_in_frame: "res_rel R w (TcpConnection_handleWrite E this w)"
proof (cases "Channel_isWriting (conn_channel (conns w this))")
  case True
  let ?c = "conns w this"
  show ?thesis
  proof (cases "Buffer_string (outputBuffer ?c)")
    case (Inl e)
    then show ?thesis using True by (simp add: TcpConnection_handleWrite_def res_rel_assert Let_def)
  next
    case (Inr bytes)
    obtain n e s where wr: "sockets_write bytes (socks w (conn_fd ?c)) = (n, e, s)"
      by (cases "sockets_write bytes (socks w (conn_fd ?c))")
    let ?w1 = "upd_sock (conn_fd ?c) (\<lambda>_. s) w"
    have w1: "R w ?w1" by (rule R_write[OF wr])
    have w2: "R w (upd_conn this (\<lambda>c. c\<lparr>outputBuffer := b\<rparr>) ?w1)" for b
      using w1 outputBuffer_in_frame by (rule R_trans)
    show ?thesis
      unfolding TcpConnection_handleWrite_def using True Inr wr w1 w2
      by (cases "Buffer_retrieve (word_of_int n) (outputBuffer ?c)")
        (simp_all add: res_rel_assert Let_def frame_trans[OF w2 frame_trans[OF flushed_in_frame shutdownInLoop_in_frame]]
          R_trans[OF w2 flushed_in_frame])
  qed
qed (simp add: TcpConnection_handleWrite_def res_rel_assert R_refl)

lemma handleClose_in_frame: "res_rel R w (TcpConnection_handleClose (script_env L t this S) this w)"
proof -
  have "R w (queue_destroy t this (upd_conn this (on_channel (Channel_disableAll L)) w))"
    using disableAll_in_frame R_loop unfolding queue_destroy_def by (rule R_trans)
  then show ?thesis
    by (auto simp: TcpConnection_handleClose_def call_close_def script_env_def Let_def
        intro!: res_rel_assert res_rel_ensure split: option.split)
qed

section \<open>The user, and what reads\<close>

lemma user_step_in_frame: "res_rel R w (user_step L t this a w)"
proof (cases a)
  case (A_retrieve n)
  then show ?thesis
    using R_retrieve[of n w] R_refl by (cases "Buffer_retrieve n (inputBuffer (conns w this))") simp_all
qed (simp_all add: logged_send_in_frame shutdown_in_frame R_retrieveAll R_conn conn_kept_def own_channel_def
      TcpConnection_setWriteCompleteCallback_def TcpConnection_setHighWaterMarkCallback_def conn_fd_def)

lemma user_steps_in_frame: "res_rel R w (foldR (user_step L t this) as w)"
  by (induction as arbitrary: w) (auto intro: frame_bind user_step_in_frame simp: R_refl)

lemma call_user_in_frame: "res_rel R w (call_user (script_env L t this S) cb arg w)"
  by (simp add: call_user_def script_env_def user_steps_in_frame split: option.split)

lemma handleRead_in_frame: "res_rel R w (TcpConnection_handleRead (script_env L t this S) this now w)"
proof (cases "Buffer_readFd (sockets_readable (socks w (conn_fd (conns w this)))) (inputBuffer (conns w this))")
  case (Inl e)
  then show ?thesis by (simp add: TcpConnection_handleRead_def)
next
  case (Inr r)
  obtain n e b rest where r: "r = (n, e, b, rest)" by (cases r)
  note rd = R_read[OF Inr[unfolded r]]
  show ?thesis
    by (simp add: TcpConnection_handleRead_def Let_def Inr r frame_trans[OF rd call_user_in_frame]
        frame_trans[OF rd handleClose_in_frame] frame_trans[OF rd handleError_in_frame])
qed

lemma callback_in_frame:
  assumes "own_channel this (conns w this)"
  shows "res_rel R w (call_if b (\<lambda>w. readCallback (conn_channel (conns w this)))
      (TcpConnection_callback (script_env L t this S) now) w)"
    and "res_rel R w (call_if b (\<lambda>w. writeCallback (conn_channel (conns w this)))
      (TcpConnection_callback (script_env L t this S) now) w)"
    and "res_rel R w (call_if b (\<lambda>w. errorCallback (conn_channel (conns w this)))
      (TcpConnection_callback (script_env L t this S) now) w)"
  using assms
  by (simp_all add: call_if_def own_channel_def R_refl handleRead_in_frame handleWrite_in_frame handleError_in_frame)

lemma frame_bind_own:
  assumes "own_channel this (conns w this)" and "res_rel R w r"
    and "\<And>w1. own_channel this (conns w1 this) \<Longrightarrow> res_rel R w1 (f w1)"
  shows "res_rel R w (bindR r f)"
  using assms R_own by (intro frame_bind) auto

lemma event_in_frame:
  assumes "own_channel this (conns w this)"
  shows "res_rel R w (TcpConnection_event (script_env L t this S) this now revents w)"
proof -
  let ?w = "upd_conn this (on_channel (eventHandling_update (\<lambda>_. True))) w"
  have own: "own_channel this (conns ?w this)" by (rule R_own[OF eventHandling_in_frame assms])
  have "res_rel R ?w (bindR (call_if (revents AND ev_ERROR \<noteq> 0) (\<lambda>w. errorCallback (conn_channel (conns w this)))
        (TcpConnection_callback (script_env L t this S) now) ?w) (\<lambda>w1.
      bindR (call_if (revents AND ev_READ \<noteq> 0) (\<lambda>w. readCallback (conn_channel (conns w this)))
        (TcpConnection_callback (script_env L t this S) now) w1) (\<lambda>w2.
      bindR (call_if (revents AND ev_WRITE \<noteq> 0) (\<lambda>w. writeCallback (conn_channel (conns w this)))
        (TcpConnection_callback (script_env L t this S) now) w2) (\<lambda>w3.
      Inr (upd_conn this (on_channel (eventHandling_update (\<lambda>_. False))) w3)))))"
    by (rule frame_bind_own[OF own callback_in_frame(3)[OF own]], rule frame_bind_own[OF _ callback_in_frame(1)], assumption+,
        rule frame_bind_own[OF _ callback_in_frame(2)], assumption+) (simp add: eventHandling_in_frame)
  moreover have "\<not> ch_tied (conn_channel (conns w this))" using assms by (simp add: own_channel_def)
  ultimately show ?thesis
    by (simp add: TcpConnection_event_def handleEvent_untied Channel_handleEventWithGuard_def frame_trans[OF eventHandling_in_frame])
qed

lemma connectEstablished_in_frame: "res_rel R w (TcpConnection_connectEstablished (script_env L t this S) this w)"
proof -
  have "R w (upd_conn this (on_channel (Channel_enableReading L)) (upd_conn this (TcpConnection_setState kConnected) w))"
    using setState_in_frame enableReading_in_frame by (rule R_trans)
  from frame_trans[OF this call_user_in_frame] show ?thesis
    by (simp add: TcpConnection_connectEstablished_def EventLoop_assertInLoopThread_def ensure_def Let_def)
qed

lemma remove_in_frame:
  assumes "Channel_remove L b (conn_channel (conns w this)) = Inr ch"
  shows "R w (upd_conn this (on_channel (\<lambda>_. ch)) w)"
  using assms
  by (auto simp: Channel_remove_def EventLoop_removeChannel_def Channel_stop_def EventLoop_assertInLoopThread_def
      ensure_def own_channel_def conn_fd_def conn_kept_def intro!: R_conn split: if_splits)

lemma connectDestroyed_in_frame: "res_rel R w (TcpConnection_connectDestroyed (script_env L t this S) this w)"
proof -
  let ?w2 = "upd_conn this (on_channel (Channel_disableAll L)) (upd_conn this (TcpConnection_setState kDisconnected) w)"
  have w2: "R w ?w2" using setState_in_frame disableAll_in_frame by (rule R_trans)
  have "res_rel R w3 (bindR (Channel_remove L b (conn_channel (conns w3 this)))
      (\<lambda>ch. Inr (upd_conn this (on_channel (\<lambda>_. ch)) w3)))" for w3 b
    by (cases "Channel_remove L b (conn_channel (conns w3 this))") (simp_all add: remove_in_frame)
  from frame_trans[OF w2 frame_bind[OF call_user_in_frame this]] show ?thesis
    by (simp add: TcpConnection_connectDestroyed_def EventLoop_assertInLoopThread_def ensure_def Let_def)
qed

section \<open>Every operation\<close>

lemma functor_in_frame: "res_rel R w (run_functor L t this S f w)"
  by (cases f) (simp_all add: R_refl call_user_in_frame connectEstablished_in_frame connectDestroyed_in_frame
      logged_sendInLoop_in_frame shutdownInLoop_in_frame)

theorem tcp_do_in_frame:
  assumes "own_channel this (conns w this)"
  shows "res_rel R w (tcp_do L t this S a w)"
proof (cases a)
  case Do_functor
  have "R w (drop_head this w)" by (simp add: drop_head_def R_loop)
  then show ?thesis using Do_functor frame_trans[OF _ functor_in_frame] by simp
qed (simp_all add: event_in_frame[OF assms] send_in_frame shutdown_in_frame)

end

end
