(* ===== verification/Tcp_Input.thy ===== *)
theory Tcp_Input
  imports Tcp_Frames
begin

text \<open>
  The other direction of a connection: the bytes that arrive. What \<open>handleRead\<close> takes from the socket is
  what the user retrieved followed by what the input buffer still holds, in order; and what \<open>handleRead\<close>
  does on every outcome of the read. The steps are those of \<open>Tcp_Stream\<close>; that all operations keep the invariant
  follows from \<open>Tcp_Frames\<close>.
\<close>

section \<open>The invariant\<close>

definition input_ok :: "conn_id \<Rightarrow> gnet \<Rightarrow> bool" where
  "input_ok this w \<longleftrightarrow> own_channel this (conns w this) \<and> Buffer_inv (inputBuffer (conns w this)) \<and>
     sk_taken (socks w (conn_fd (conns w this))) = consumed w @ Buffer_bytes (inputBuffer (conns w this))"

definition input_kept :: "conn_id \<Rightarrow> gnet \<Rightarrow> gnet \<Rightarrow> bool" where
  "input_kept this w w' \<longleftrightarrow> (own_channel this (conns w this) \<longrightarrow> own_channel this (conns w' this)) \<and>
     (input_ok this w \<longrightarrow> input_ok this w')"

lemma taken_frame [simp]:
  "sk_taken (sockets_shutdownWrite s) = sk_taken s" "sk_taken (Socket_shutdownWrite s) = sk_taken s"
  "sk_taken (snd (sockets_getSocketError s)) = sk_taken s"
  by (simp_all add: Socket_shutdownWrite_def sockets_shutdownWrite_def sockets_getSocketError_def)

lemma write_taken: "sockets_write m s = (n, e, s') \<Longrightarrow> sk_taken s' = sk_taken s"
  by (cases rule: sockets_write_cases[of m s]) auto

text \<open>
  \<open>readFd\<close> and the record of the bytes read agree: the bytes that left the socket are those that the
  buffer gained.
\<close>

lemma readFd_taken:
  assumes "Buffer_inv b" and "Buffer_readFd (sockets_readable s) b = Inr (n, e, b', rest)"
  shows "Buffer_inv b'"
    and "\<exists>d. Buffer_bytes b' = Buffer_bytes b @ d \<and> sk_taken (sockets_readDone rest s) = sk_taken s @ d"
proof -
  have "Buffer_inv b' \<and> (\<exists>d. Buffer_bytes b' = Buffer_bytes b @ d \<and> sk_taken (sockets_readDone rest s) = sk_taken s @ d)"
  proof (cases "sk_rderr s")
    case (Cons x xs)
    then show ?thesis
      using assms by (auto simp: sockets_readable_def Buffer_readFd_failed sockets_readDone_def)
  next
    case Nil
    show ?thesis
    proof (cases "sk_in s = [] \<and> \<not> sk_fin s")
      case True
      then show ?thesis
        using assms Nil by (auto simp: sockets_readable_def Buffer_readFd_failed sockets_readDone_def)
    next
      case False
      then have rd: "sockets_readable s = Waiting (sk_in s)" using Nil by (auto simp: sockets_readable_def)
      let ?k = "min (length (sk_in s)) (unat (Buffer_writableBytes b) + extrabuf_size)"
      have "rest = drop ?k (sk_in s)" "Buffer_inv b'" "Buffer_bytes b' = Buffer_bytes b @ take ?k (sk_in s)"
        using Buffer_readFd_cases[OF assms(1), of "sk_in s"] assms(2) rd by auto
      then show ?thesis
        using Nil by (intro conjI exI[of _ "take ?k (sk_in s)"]) (simp_all add: sockets_readDone_def min_def)
    qed
  qed
  then show "Buffer_inv b'"
    "\<exists>d. Buffer_bytes b' = Buffer_bytes b @ d \<and> sk_taken (sockets_readDone rest s) = sk_taken s @ d" by auto
qed

text \<open>What was written, shut down or asked of a socket has nothing to do with what was read from it.\<close>

lemma input_upd_sock:
  assumes "\<And>s. sk_taken (h s) = sk_taken s"
  shows "input_kept this w (upd_sock fd h w)"
  using assms by (simp add: input_kept_def input_ok_def)

lemma input_upd_conn:
  assumes "conn_kept this (conns w this) (g (conns w this))"
  shows "input_kept this w (upd_conn this g w)"
  using assms by (simp add: input_kept_def input_ok_def conn_kept_def)

lemma input_write:
  assumes "sockets_write m (socks w (conn_fd (conns w this))) = (n, e, s)"
  shows "input_kept this w (upd_sock (conn_fd (conns w this)) (\<lambda>_. s) w)"
  using write_taken[OF assms] by (simp add: input_kept_def input_ok_def)

lemma input_read:
  assumes "Buffer_readFd (sockets_readable (socks w (conn_fd (conns w this)))) (inputBuffer (conns w this)) = Inr (n, e, b, rest)"
  shows "input_kept this w
    (upd_sock (conn_fd (conns w this)) (sockets_readDone rest) (upd_conn this (\<lambda>c. c\<lparr>inputBuffer := b\<rparr>) w))"
  using readFd_taken[OF _ assms] by (auto simp: input_kept_def input_ok_def own_channel_def)

text \<open>Retrieving moves bytes from the front of the input buffer to what was consumed.\<close>

lemma input_retrieve:
  assumes "k \<le> Buffer_readableBytes (inputBuffer (conns w this))" and "Buffer_retrieve k (inputBuffer (conns w this)) = Inr b"
  shows "input_kept this w
    (log_consumed (take (unat k) (Buffer_bytes (inputBuffer (conns w this)))) (upd_conn this (\<lambda>c. c\<lparr>inputBuffer := b\<rparr>) w))"
proof -
  have "Buffer_inv b \<and> Buffer_bytes b = drop (unat k) (Buffer_bytes (inputBuffer (conns w this)))"
    if inv: "Buffer_inv (inputBuffer (conns w this))"
  proof -
    have "unat k \<le> length (Buffer_bytes (inputBuffer (conns w this)))"
      using assms(1) inv by (simp add: length_Buffer_bytes word_le_nat_alt)
    from Buffer_retrieve_ok[OF inv this] assms(2) show ?thesis by auto
  qed
  then show ?thesis by (auto simp: input_kept_def input_ok_def log_consumed_def own_channel_def)
qed

lemma input_retrieveAll:
  "input_kept this w (log_consumed (Buffer_bytes (inputBuffer (conns w this)))
    (upd_conn this (\<lambda>c. c\<lparr>inputBuffer := Buffer_retrieveAll (inputBuffer c)\<rparr>) w))"
  using Buffer_retrieveAll_ok by (auto simp: input_kept_def input_ok_def log_consumed_def own_channel_def)

interpretation input: connection_frame this "input_kept this" for this
  by unfold_locales
    (simp add: input_kept_def, simp add: input_kept_def, simp add: input_kept_def, simp add: input_kept_def input_ok_def,
     simp add: input_kept_def input_ok_def, rule input_upd_conn, assumption, rule input_write, assumption,
     rule input_upd_sock, simp, rule input_upd_sock, simp, rule input_read, assumption, rule input_retrieve, assumption+,
     rule input_retrieveAll)

section \<open>Every step keeps the invariant\<close>

lemma tcp_initial_input: "tcp_initial L t this w \<Longrightarrow> input_ok this w"
  using Buffer_ctor_ok
  by (auto simp: tcp_initial_def input_ok_def own_channel_def TcpConnection_setCloseCallback_def
      TcpConnection_setWriteCompleteCallback_def TcpConnection_setMessageCallback_def
      TcpConnection_setConnectionCallback_def TcpConnection_ctor_def conn_fd_def Channel_setReadCallback_def
      Channel_setWriteCallback_def Channel_setErrorCallback_def Channel_ctor_def)

lemma tcp_step_input:
  assumes "tcp_step L t this S w w'" and "input_ok this w"
  shows "input_ok this w'"
  using assms
proof (induction rule: tcp_step.induct)
  case (tcp_acts a w w')
  then show ?case using input.tcp_do_in_frame[of this w L t S a] by (simp add: input_ok_def input_kept_def)
next
  case (tcp_kernel w s)
  then show ?case by (simp add: input_ok_def kernel_change_def)
next
  case (tcp_other w t' cb)
  then show ?case by (simp add: input_ok_def)
qed

lemma tcp_reachable_input: "tcp_reachable L t this S w \<Longrightarrow> input_ok this w"
  by (induction rule: tcp_reachable.induct) (auto intro: tcp_initial_input tcp_step_input)

section \<open>What a connection promises of its input\<close>

text \<open>
  C2. The input stream. At any time, whatever the user, other threads, the peer and the kernel do, all the
  bytes that reads have taken from the socket are the bytes the user retrieved followed by what the input
  buffer still holds: no byte that arrived is lost, duplicated or reordered on its way to the user, across
  reads that fill the buffer, overflow into the stack buffer or make the vector grow.
\<close>

theorem connection_input_stream:
  assumes "tcp_reachable L t this S w"
  shows "sk_taken (socks w (conn_fd (conns w this))) = consumed w @ Buffer_bytes (inputBuffer (conns w this))"
  using tcp_reachable_input[OF assms] by (simp add: input_ok_def)

text \<open>The outcomes of a read, one by one.\<close>

lemma handleRead_outcomes:
  assumes "Buffer_inv (inputBuffer (conns w this))"
    and "length (buffer (inputBuffer (conns w this))) + extrabuf_size \<le> max_size"
  shows "\<exists>b d s. Buffer_inv b \<and> Buffer_bytes b = Buffer_bytes (inputBuffer (conns w this)) @ d \<and>
    (let c = conns w this; s0 = socks w (conn_fd c);
         w1 = upd_sock (conn_fd c) (\<lambda>_. s) (upd_conn this (\<lambda>c. c\<lparr>inputBuffer := b\<rparr>) w)
     in (if sk_rderr s0 \<noteq> [] then d = [] \<and> b = inputBuffer c \<and> s = s0\<lparr>sk_rderr := tl (sk_rderr s0)\<rparr>
         else sk_in s0 = d @ sk_in s \<and> s = s0\<lparr>sk_in := sk_in s, sk_taken := sk_taken s0 @ d\<rparr> \<and>
              length d = min (length (sk_in s0)) (unat (Buffer_writableBytes (inputBuffer c)) + extrabuf_size)) \<and>
        TcpConnection_handleRead E this now w =
          (if sk_rderr s0 \<noteq> [] \<or> sk_in s0 = [] \<and> \<not> sk_fin s0 then TcpConnection_handleError this w1
           else if sk_in s0 = [] then TcpConnection_handleClose E this w1
           else call_user E (messageCallback c) (On_message this now) w1))"
proof -
  define c where "c = conns w this"
  define s0 where "s0 = socks w (conn_fd c)"
  define b0 where "b0 = inputBuffer c"
  let ?n = "min (length (sk_in s0)) (unat (Buffer_writableBytes b0) + extrabuf_size)"
  have inv: "Buffer_inv b0" "length (buffer b0) + extrabuf_size \<le> max_size"
    using assms by (simp_all add: b0_def c_def)
  have pos: "?n = 0 \<longleftrightarrow> sk_in s0 = []" by (auto simp: extrabuf_size_def min_def)
  have same: "upd_sock f (sockets_readDone rest) (upd_conn this g w) =
      upd_sock f (\<lambda>_. sockets_readDone rest (socks w f)) (upd_conn this g w)" for f rest and g :: "TcpConnection \<Rightarrow> TcpConnection"
    by (simp add: upd_sock_def)
  consider (err) "sk_rderr s0 \<noteq> []" | (again) "sk_rderr s0 = []" "sk_in s0 = []" "\<not> sk_fin s0"
    | (data) "sk_rderr s0 = []" "\<not> (sk_in s0 = [] \<and> \<not> sk_fin s0)" by blast
  then show ?thesis
  proof cases
    case err
    then obtain e es where e: "sk_rderr s0 = e # es" by (cases "sk_rderr s0") auto
    then have "Buffer_readFd (sockets_readable s0) b0 = Inr (-1, e, b0, [])"
      by (simp add: sockets_readable_def Buffer_readFd_failed)
    then have "TcpConnection_handleRead E this now w = TcpConnection_handleError this
        (upd_sock (conn_fd c) (\<lambda>_. s0\<lparr>sk_rderr := es\<rparr>) (upd_conn this (\<lambda>c. c\<lparr>inputBuffer := b0\<rparr>) w))"
      by (simp add: TcpConnection_handleRead_def Let_def c_def[symmetric] s0_def[symmetric] b0_def[symmetric] same
          sockets_readDone_def e)
    then show ?thesis
      using inv(1) e by (intro exI[of _ b0] exI[of _ "[]"] exI[of _ "s0\<lparr>sk_rderr := es\<rparr>"])
        (simp add: Let_def c_def[symmetric] s0_def[symmetric] b0_def[symmetric])
  next
    case again
    then have "Buffer_readFd (sockets_readable s0) b0 = Inr (-1, EAGAIN, b0, [])"
      by (simp add: sockets_readable_def Buffer_readFd_failed)
    moreover have "sockets_readDone [] s0 = s0" using again by (cases s0) (simp add: sockets_readDone_def)
    ultimately have "TcpConnection_handleRead E this now w = TcpConnection_handleError this
        (upd_sock (conn_fd c) (\<lambda>_. s0) (upd_conn this (\<lambda>c. c\<lparr>inputBuffer := b0\<rparr>) w))"
      by (simp add: TcpConnection_handleRead_def Let_def c_def[symmetric] s0_def[symmetric] b0_def[symmetric] same)
    then show ?thesis
      using inv(1) again by (intro exI[of _ b0] exI[of _ "[]"] exI[of _ s0])
        (simp add: Let_def c_def[symmetric] s0_def[symmetric] b0_def[symmetric])
  next
    case data
    then have "sockets_readable s0 = Waiting (sk_in s0)" by (auto simp: sockets_readable_def)
    then obtain b where b: "Buffer_readFd (sockets_readable s0) b0 = Inr (int ?n, 0, b, drop ?n (sk_in s0))"
      "Buffer_inv b" "Buffer_bytes b = Buffer_bytes b0 @ take ?n (sk_in s0)"
      using Buffer_readFd_ok[OF inv, of "sk_in s0"] by auto
    define n where "n = ?n"
    define s where "s = s0\<lparr>sk_in := drop n (sk_in s0), sk_taken := sk_taken s0 @ take n (sk_in s0)\<rparr>"
    have nle: "n \<le> length (sk_in s0)" by (simp add: n_def)
    have rdone: "sockets_readDone (drop n (sk_in s0)) s0 = s" using data(1) nle by (simp add: sockets_readDone_def s_def)
    let ?w1 = "upd_sock (conn_fd c) (\<lambda>_. s) (upd_conn this (\<lambda>c. c\<lparr>inputBuffer := b\<rparr>) w)"
    have run: "TcpConnection_handleRead E this now w =
        (if sk_in s0 = [] then TcpConnection_handleClose E this ?w1
         else call_user E (messageCallback c) (On_message this now) ?w1)"
      using b(1)[folded n_def] pos[folded n_def] rdone
      by (cases "sk_in s0 = []") (simp_all add: TcpConnection_handleRead_def Let_def c_def[symmetric] s0_def[symmetric] b0_def[symmetric] same rdone)
    have lt: "length (take n (sk_in s0)) = n" using nle by simp
    show ?thesis
      using run b(2,3)[folded n_def] data nle
      by (intro exI[of _ b] exI[of _ "take n (sk_in s0)"] exI[of _ s])
        (simp add: Let_def c_def[symmetric] s0_def[symmetric] b0_def[symmetric] s_def n_def[symmetric] lt del: length_take)
  qed
qed

text \<open>
  C10. What \<open>handleRead\<close> does on every outcome of the read, for any user and any close callback. When the
  read fails, or nothing waits on an open stream, the buffer stays as it was and the error is read; at
  the end of the stream, which it meets only once all bytes have been read, the connection is closed;
  otherwise the message callback is called once, in a state whose input buffer holds the old contents
  followed by the bytes read, at least one and as many as the buffer and the stack area hold, and the rest
  stays in the socket.
\<close>

theorem handleRead_exact:
  assumes "Buffer_inv (inputBuffer (conns w this))"
    and "length (buffer (inputBuffer (conns w this))) + extrabuf_size \<le> max_size"
  shows "\<exists>b d s. Buffer_inv b \<and> Buffer_bytes b = Buffer_bytes (inputBuffer (conns w this)) @ d \<and>
    (let c = conns w this; s0 = socks w (conn_fd c);
         w1 = upd_sock (conn_fd c) (\<lambda>_. s) (upd_conn this (\<lambda>c. c\<lparr>inputBuffer := b\<rparr>) w)
     in (if sk_rderr s0 \<noteq> [] then d = [] \<and> b = inputBuffer c \<and> s = s0\<lparr>sk_rderr := tl (sk_rderr s0)\<rparr>
         else sk_in s0 = d @ sk_in s \<and> s = s0\<lparr>sk_in := sk_in s, sk_taken := sk_taken s0 @ d\<rparr> \<and>
              length d = min (length (sk_in s0)) (unat (Buffer_writableBytes (inputBuffer c)) + extrabuf_size)) \<and>
        TcpConnection_handleRead E this now w =
          (if sk_rderr s0 \<noteq> [] \<or> sk_in s0 = [] \<and> \<not> sk_fin s0 then TcpConnection_handleError this w1
           else if sk_in s0 = [] then TcpConnection_handleClose E this w1
           else call_user E (messageCallback c) (On_message this now) w1))"
  by (rule handleRead_outcomes[OF assms])

section \<open>A connection on which bytes arrive\<close>

text \<open>A user who takes one byte of every message, and the state in which three bytes arrived.\<close>

definition reader_script :: user_script where
  "reader_script f arg w = (case arg of On_message c now \<Rightarrow> [A_retrieve 1] | _ \<Rightarrow> [])"

definition arrived :: gnet where
  "arrived = upd_sock 9 (\<lambda>_. fresh_sock\<lparr>sk_in := ''abc''\<rparr>) established"

lemma arrived_simps:
  "conns arrived = conns established" "socks arrived 9 = fresh_sock\<lparr>sk_in := ''abc''\<rparr>" "consumed arrived = []"
  by (simp_all add: arrived_def established_simps)

lemma arrived_reachable: "tcp_reachable libev_ref 1 5 reader_script arrived"
proof (rule tcp_next)
  show "tcp_reachable libev_ref 1 5 reader_script established"
    by (rule established_reachable_by) (simp add: reader_script_def)
  have "kernel_change (socks established (conn_fd (conns established 5))) (fresh_sock\<lparr>sk_in := ''abc''\<rparr>)"
    by (simp add: established_simps kernel_change_def)
  from tcp_kernel[OF this] show "tcp_step libev_ref 1 5 reader_script established arrived"
    by (simp add: arrived_def established_simps)
qed

lemma reads_abc:
  assumes w: "conn_fd (conns w 5) = 9" "inputBuffer (conns w 5) = Buffer_ctor" "messageCallback (conns w 5) = Some 2"
      "socks w 9 = fresh_sock\<lparr>sk_in := ''abc''\<rparr>"
  shows "\<exists>b s. Buffer_inv b \<and> Buffer_bytes b = ''abc'' \<and> TcpConnection_handleRead E 5 now w =
    call_user E (Some 2) (On_message 5 now) (upd_sock 9 (\<lambda>_. s) (upd_conn 5 (\<lambda>c. c\<lparr>inputBuffer := b\<rparr>) w))"
proof -
  have room: "min (length ''abc'') (unat (Buffer_writableBytes Buffer_ctor) + extrabuf_size) = 3"
    by (simp add: extrabuf_size_def)
  have "Buffer_inv (inputBuffer (conns w 5))" "length (buffer (inputBuffer (conns w 5))) + extrabuf_size \<le> max_size"
    using Buffer_ctor_ok by (simp_all add: w Buffer_ctor_def extrabuf_size_def kCheapPrepend_def kInitialSize_def)
  from handleRead_outcomes[OF this, of E now] obtain b d s where b: "Buffer_inv b" "Buffer_bytes b = d"
    "''abc'' = d @ sk_in s" "length d = 3"
    "TcpConnection_handleRead E 5 now w = call_user E (Some 2) (On_message 5 now)
        (upd_sock 9 (\<lambda>_. s) (upd_conn 5 (\<lambda>c. c\<lparr>inputBuffer := b\<rparr>) w))"
    using Buffer_ctor_ok(2) room by (auto simp: w fresh_sock_def Let_def)
  from b(3,4) have "d = ''abc''" by (cases "sk_in s") (auto dest: arg_cong[of _ _ length])
  then show ?thesis using b by blast
qed

lemma handleRead_exact_witness:
  "\<exists>w1. TcpConnection_handleRead (script_env libev_ref 1 5 reader_script) 5 0
      (upd_sock 9 (\<lambda>_. fresh_sock\<lparr>sk_fin := True\<rparr>) established) =
    TcpConnection_handleClose (script_env libev_ref 1 5 reader_script) 5 w1"
proof -
  let ?w = "upd_sock 9 (\<lambda>_. fresh_sock\<lparr>sk_fin := True\<rparr>) established"
  have "Buffer_inv (inputBuffer (conns ?w 5))" "length (buffer (inputBuffer (conns ?w 5))) + extrabuf_size \<le> max_size"
    using Buffer_ctor_ok
    by (simp_all add: established_simps Buffer_ctor_def extrabuf_size_def kCheapPrepend_def kInitialSize_def)
  from handleRead_exact[OF this, of "script_env libev_ref 1 5 reader_script" 0] show ?thesis
    by (auto simp: established_simps fresh_sock_def Let_def)
qed

text \<open>Dispatching the read event: three bytes are read and the user takes the first.\<close>

lemma arrived_read:
  "\<exists>w. tcp_do libev_ref 1 5 reader_script (Do_event ev_READ 0) arrived = Inr w \<and>
    consumed w = ''a'' \<and> Buffer_bytes (inputBuffer (conns w 5)) = ''bc'' \<and> conn_fd (conns w 5) = 9"
proof -
  let ?E = "script_env libev_ref 1 5 reader_script"
  let ?w0 = "upd_conn 5 (on_channel (eventHandling_update (\<lambda>_. True))) arrived"
  have w0: "conn_fd (conns ?w0 5) = 9" "inputBuffer (conns ?w0 5) = Buffer_ctor" "messageCallback (conns ?w0 5) = Some 2"
    "socks ?w0 9 = fresh_sock\<lparr>sk_in := ''abc''\<rparr>" "consumed ?w0 = []"
    by (simp_all add: arrived_simps established_simps)
  obtain b s where b: "Buffer_inv b" "Buffer_bytes b = ''abc''" "TcpConnection_handleRead ?E 5 0 ?w0 =
      call_user ?E (Some 2) (On_message 5 0) (upd_sock 9 (\<lambda>_. s) (upd_conn 5 (\<lambda>c. c\<lparr>inputBuffer := b\<rparr>) ?w0))"
    using reads_abc[OF w0(1-4), of ?E 0] by blast
  let ?w1 = "upd_sock 9 (\<lambda>_. s) (upd_conn 5 (\<lambda>c. c\<lparr>inputBuffer := b\<rparr>) ?w0)"
  obtain b' where b': "Buffer_retrieve 1 b = Inr b'" "Buffer_bytes b' = ''bc''"
    using Buffer_retrieve_ok[OF b(1), of 1] b(2) by simp
  have "(1 :: size_t) \<le> Buffer_readableBytes b" using b(1,2) by (simp add: word_le_nat_alt length_Buffer_bytes[symmetric])
  then have run: "call_user ?E (Some 2) (On_message 5 0) ?w1 =
      Inr (log_consumed ''a'' (upd_conn 5 (\<lambda>c. c\<lparr>inputBuffer := b'\<rparr>) ?w1))"
    using b' b(2) by (simp add: call_user_def script_env_def reader_script_def)
  have slots: "own_channel 5 (conns arrived 5)"
    using tcp_reachable_input[OF arrived_reachable] by (simp add: input_ok_def)
  then show ?thesis
    using b(3) run w0 b'(2)
    by (simp add: TcpConnection_event_def handleEvent_untied Channel_handleEventWithGuard_def call_if_def own_channel_def
        ev_READ_def ev_WRITE_def ev_ERROR_def log_consumed_def)
qed

lemma connection_input_stream_witness:
  "\<exists>w :: gnet. sk_taken (socks w (conn_fd (conns w 5))) = ''abc'' \<and> consumed w = ''a'' \<and>
    Buffer_bytes (inputBuffer (conns w 5)) = ''bc''"
proof -
  obtain w where w: "tcp_do libev_ref 1 5 reader_script (Do_event ev_READ 0) arrived = Inr w"
    "consumed w = ''a''" "Buffer_bytes (inputBuffer (conns w 5)) = ''bc''"
    using arrived_read by blast
  have en: "tcp_enabled 1 5 (Do_event ev_READ 0) arrived"
    using established_open tcp_reachable_inv[OF libev_ref_ok quiet_script_ok established_reachable]
    by (simp add: reportable_def arrived_simps ev_READ_def ev_WRITE_def tcp_inv_def tcp_inv_on_def life_ok_def)
  have "tcp_step libev_ref 1 5 reader_script arrived w" by (rule tcp_acts[OF en _ w(1)]) simp
  with arrived_reachable have "tcp_reachable libev_ref 1 5 reader_script w" by (rule tcp_next)
  from connection_input_stream[OF this] w(2,3) show ?thesis by (intro exI[of _ w]) simp
qed

section \<open>Well-formed connections\<close>

text \<open>
  What the type \<open>TcpConnection\<close> promises beyond its fields: the channel watches the descriptor of the
  connection's own socket and calls the connection's own handlers, every callback that is called without a
  test is set, and the indices of both buffers are in order and within their vectors.
\<close>

definition connection_typed :: "conn_id \<Rightarrow> TcpConnection \<Rightarrow> bool" where
  "connection_typed this c \<longleftrightarrow>
     ch_fd (conn_channel c) = conn_socket c \<and> own_channel this c \<and>
     connectionCallback c \<noteq> None \<and> messageCallback c \<noteq> None \<and> closeCallback c \<noteq> None \<and>
     Buffer_inv (inputBuffer c) \<and> Buffer_inv (outputBuffer c)"

text \<open>
  C11. A connection is well-formed in every state it can reach: whatever sequence of functors, events,
  user calls and kernel changes led there, the object still has its type's invariant, so that each handler
  finds its channel bound to it, its callbacks set and its buffers' indices ordered.
\<close>

theorem connection_well_formed:
  assumes "libev_ok L" and "script_ok S" and "tcp_reachable L t this S w"
  shows "connection_typed this (conns w this)"
  using tcp_invD(3,4)[OF tcp_reachable_inv[OF assms]]
  by (simp add: connection_typed_def wired_def buffers_ok_def own_channel_def conn_fd_def)

lemma connection_well_formed_witness: "connection_typed 5 (conns established 5)"
  by (rule connection_well_formed[OF libev_ref_ok quiet_script_ok established_reachable])

end
