(* ===== verification/Tcp_Peers.thy ===== *)
theory Tcp_Peers
  imports Tcp_Input "HOL-Library.Sublist"
begin

text \<open>
  Two connections that talk to each other: each a \<open>TcpConnection\<close> in its own process, with its own user,
  threads and loop, and between them the network, which delivers the bytes that one kernel accepted to the
  other in order, in pieces of any size and at any time, and the end of the stream behind the last byte. The
  byte streams of \<open>Tcp_Stream\<close> and \<open>Tcp_Input\<close> compose: what one user receives is what the other one sent.
\<close>

section \<open>What an operation does to its socket\<close>

text \<open>
  It writes more and nothing after it shut its side down, and moves bytes from those that wait to those that
  were read; the end of the peer's stream is not its own to decide.
\<close>

definition socket_moved :: "Sock \<Rightarrow> Sock \<Rightarrow> bool" where
  "socket_moved s s' \<longleftrightarrow> prefix (sk_out s) (sk_out s') \<and>
     (sk_shutWr s \<longrightarrow> sk_shutWr s' \<and> sk_out s' = sk_out s) \<and>
     sk_taken s' @ sk_in s' = sk_taken s @ sk_in s \<and> sk_fin s' = sk_fin s"

definition own_socket_moved :: "conn_id \<Rightarrow> gnet \<Rightarrow> gnet \<Rightarrow> bool" where
  "own_socket_moved this w w' \<longleftrightarrow>
     conn_fd (conns w' this) = conn_fd (conns w this) \<and>
     (own_channel this (conns w this) \<longrightarrow> own_channel this (conns w' this)) \<and>
     socket_moved (socks w (conn_fd (conns w this))) (socks w' (conn_fd (conns w this)))"

lemma socket_moved_refl [simp]: "socket_moved s s"
  by (simp add: socket_moved_def)

lemma socket_moved_trans: "socket_moved s s1 \<Longrightarrow> socket_moved s1 s2 \<Longrightarrow> socket_moved s s2"
  by (auto simp: socket_moved_def)

lemma socket_moved_write: "sockets_write m s = (n, e, s') \<Longrightarrow> socket_moved s s'"
  by (cases rule: sockets_write_cases[of m s]) (auto simp: socket_moved_def)

lemma socket_moved_shutdown: "socket_moved s (Socket_shutdownWrite s)"
  by (simp add: socket_moved_def Socket_shutdownWrite_def sockets_shutdownWrite_def)

lemma socket_moved_error: "socket_moved s (snd (sockets_getSocketError s))"
  by (simp add: socket_moved_def sockets_getSocketError_def)

lemma socket_moved_read:
  assumes "Buffer_readFd (sockets_readable s) b = Inr (n, e, b', rest)"
  shows "socket_moved s (sockets_readDone rest s)"
proof (cases "sk_rderr s = []")
  case True
  have "suffix rest (sk_in s)"
  proof (cases "sk_in s = [] \<and> \<not> sk_fin s")
    case False
    then show ?thesis
      using assms True by (auto simp: sockets_readable_def Buffer_readFd_def Let_def res_simps suffix_drop split: if_splits)
  qed (use assms True in \<open>simp add: sockets_readable_def Buffer_readFd_failed\<close>)
  then obtain d where "sk_in s = d @ rest" by (auto simp: suffix_def)
  then show ?thesis using True by (simp add: socket_moved_def sockets_readDone_def)
qed (simp add: socket_moved_def sockets_readDone_def)

lemma own_socket_upd_sock: "(\<And>s. socket_moved s (h s)) \<Longrightarrow> own_socket_moved this w (upd_sock fd h w)"
  by (simp add: own_socket_moved_def)

lemma own_socket_input:
  "own_socket_moved this w (upd_conn this (\<lambda>c. c\<lparr>inputBuffer := g c\<rparr>) w)"
  by (simp add: own_socket_moved_def own_channel_def conn_fd_def)

interpretation socket: connection_frame this "own_socket_moved this" for this
proof unfold_locales
  fix w w1 w2 :: gnet
  assume "own_socket_moved this w w1" "own_socket_moved this w1 w2"
  then show "own_socket_moved this w w2" by (auto simp: own_socket_moved_def intro: socket_moved_trans)
next
  fix w :: gnet and m n e s assume "sockets_write m (socks w (conn_fd (conns w this))) = (n, e, s)"
  from socket_moved_write[OF this] show "own_socket_moved this w (upd_sock (conn_fd (conns w this)) (\<lambda>_. s) w)"
    by (simp add: own_socket_moved_def)
next
  fix w :: gnet and n e b rest
  assume "Buffer_readFd (sockets_readable (socks w (conn_fd (conns w this)))) (inputBuffer (conns w this)) = Inr (n, e, b, rest)"
  from socket_moved_read[OF this] show "own_socket_moved this w
      (upd_sock (conn_fd (conns w this)) (sockets_readDone rest) (upd_conn this (\<lambda>c. c\<lparr>inputBuffer := b\<rparr>) w))"
    by (simp add: own_socket_moved_def own_channel_def conn_fd_def)
qed (simp_all add: own_socket_moved_def own_channel_def conn_kept_def conn_fd_def log_consumed_def
    socket_moved_shutdown socket_moved_error)

section \<open>Two processes and the network between them\<close>

text \<open>One end: its event library, the thread of its loop, the connection, and its user.\<close>

record endpoint =
  ep_libev :: libev
  ep_thread :: thread_id
  ep_conn :: conn_id
  ep_script :: user_script

definition ep_connection :: "endpoint \<Rightarrow> gnet \<Rightarrow> TcpConnection" where
  "ep_connection p w = conns w (ep_conn p)"

definition ep_sock :: "endpoint \<Rightarrow> gnet \<Rightarrow> Sock" where
  "ep_sock p w = socks w (conn_fd (ep_connection p w))"

definition upd_ep_sock :: "endpoint \<Rightarrow> (Sock \<Rightarrow> Sock) \<Rightarrow> gnet \<Rightarrow> gnet" where
  "upd_ep_sock p h w = upd_sock (conn_fd (ep_connection p w)) h w"

text \<open>
  The steps of one end when the socket of the other is \<open>o'\<close>: its own operations and its own kernel's room and
  errors as in \<open>Tcp_Stream\<close>; but bytes arrive only as the next ones that the other kernel accepted, and
  the end of the stream only when the other side was shut down and all its bytes have arrived.
\<close>

inductive peer_step :: "endpoint \<Rightarrow> Sock \<Rightarrow> gnet \<Rightarrow> gnet \<Rightarrow> bool" for p o' where
  peer_acts: "tcp_enabled (ep_thread p) (ep_conn p) a w \<Longrightarrow> act_ok a \<Longrightarrow>
    tcp_do (ep_libev p) (ep_thread p) (ep_conn p) (ep_script p) a w = Inr w' \<Longrightarrow> peer_step p o' w w'"
| peer_other: "peer_step p o' w (upd_loop (conn_loop (ep_connection p w)) (EventLoop_queueInLoop t' (F_user cb)) w)"
| peer_kernel: "kernel_change (ep_sock p w) s \<Longrightarrow> sk_in s = sk_in (ep_sock p w) \<Longrightarrow> sk_fin s = sk_fin (ep_sock p w) \<Longrightarrow>
    peer_step p o' w (upd_ep_sock p (\<lambda>_. s) w)"
| peer_arrives: "prefix (sk_taken (ep_sock p w) @ sk_in (ep_sock p w) @ d) (sk_out o') \<Longrightarrow>
    peer_step p o' w (upd_ep_sock p (\<lambda>s. s\<lparr>sk_in := sk_in s @ d\<rparr>) w)"
| peer_ends: "sk_shutWr o' \<Longrightarrow> sk_taken (ep_sock p w) @ sk_in (ep_sock p w) = sk_out o' \<Longrightarrow>
    peer_step p o' w (upd_ep_sock p (\<lambda>s. s\<lparr>sk_fin := True\<rparr>) w)"

definition ep_initial :: "endpoint \<Rightarrow> gnet \<Rightarrow> bool" where
  "ep_initial p w \<longleftrightarrow> tcp_initial (ep_libev p) (ep_thread p) (ep_conn p) w \<and>
     sk_in (ep_sock p w) = [] \<and> \<not> sk_fin (ep_sock p w)"

inductive pair_reach :: "endpoint \<Rightarrow> endpoint \<Rightarrow> gnet \<Rightarrow> gnet \<Rightarrow> bool" for p q where
  pair_start: "ep_initial p a \<Longrightarrow> ep_initial q b \<Longrightarrow> pair_reach p q a b"
| pair_left: "pair_reach p q a b \<Longrightarrow> peer_step p (ep_sock q b) a a' \<Longrightarrow> pair_reach p q a' b"
| pair_right: "pair_reach p q a b \<Longrightarrow> peer_step q (ep_sock p a) b b' \<Longrightarrow> pair_reach p q a b'"

lemma pair_reach_swap: "pair_reach p q a b \<Longrightarrow> pair_reach q p b a"
  by (induction rule: pair_reach.induct) (auto intro: pair_reach.intros)

section \<open>The link\<close>

text \<open>What has arrived at \<open>t\<close> of what was accepted at \<open>s\<close>.\<close>

definition link_ok :: "Sock \<Rightarrow> Sock \<Rightarrow> bool" where
  "link_ok s t \<longleftrightarrow> prefix (sk_taken t @ sk_in t) (sk_out s) \<and>
     (sk_fin t \<longrightarrow> sk_shutWr s \<and> sk_taken t @ sk_in t = sk_out s)"

text \<open>Every step of an end is one of its world in \<open>Tcp_Stream\<close>.\<close>

lemma peer_step_tcp:
  assumes "peer_step p o' w w'"
  shows "tcp_step (ep_libev p) (ep_thread p) (ep_conn p) (ep_script p) w w'"
  using assms
proof cases
  case (peer_kernel s)
  then show ?thesis using tcp_kernel[of w "ep_conn p" s] by (simp add: ep_sock_def ep_connection_def upd_ep_sock_def)
next
  case (peer_arrives d)
  have "kernel_change (ep_sock p w) (ep_sock p w\<lparr>sk_in := sk_in (ep_sock p w) @ d\<rparr>)" by (simp add: kernel_change_def)
  from tcp_kernel[of w "ep_conn p", OF this[unfolded ep_sock_def ep_connection_def]] show ?thesis
    using peer_arrives by (simp add: ep_sock_def ep_connection_def upd_ep_sock_def upd_sock_def)
next
  case peer_ends
  have "kernel_change (ep_sock p w) (ep_sock p w\<lparr>sk_fin := True\<rparr>)" by (simp add: kernel_change_def)
  from tcp_kernel[of w "ep_conn p", OF this[unfolded ep_sock_def ep_connection_def]] show ?thesis
    using peer_ends by (simp add: ep_sock_def ep_connection_def upd_ep_sock_def upd_sock_def)
qed (auto simp: ep_connection_def intro: tcp_step.intros)

lemma pair_reach_tcp:
  assumes "pair_reach p q a b"
  shows "tcp_reachable (ep_libev p) (ep_thread p) (ep_conn p) (ep_script p) a"
  using assms by (induction rule: pair_reach.induct)
    (auto simp: ep_initial_def intro: tcp_start tcp_next peer_step_tcp)

text \<open>A step of one end keeps what it sends and what it receives in order.\<close>

lemma upd_ep_sock_simps [simp]:
  "ep_sock p (upd_ep_sock p h w) = h (ep_sock p w)"
  by (simp add: ep_sock_def upd_ep_sock_def ep_connection_def)

lemma peer_step_links:
  assumes "peer_step p o' w w'" and "own_channel (ep_conn p) (ep_connection p w)"
    and "link_ok (ep_sock p w) o'" and "link_ok o' (ep_sock p w)"
  shows "link_ok (ep_sock p w') o' \<and> link_ok o' (ep_sock p w')"
  using assms(1)
proof cases
  case (peer_acts a)
  from socket.tcp_do_in_frame[OF assms(2)[unfolded ep_connection_def]] peer_acts(3)
  have "own_socket_moved (ep_conn p) w w'" by (metis res_rel_simps(2))
  then have "socket_moved (ep_sock p w) (ep_sock p w')"
    by (simp add: own_socket_moved_def ep_sock_def ep_connection_def)
  then show ?thesis using assms(3,4) by (auto simp: link_ok_def socket_moved_def)
next
  case (peer_other t' cb)
  then show ?thesis using assms(3,4) by (simp add: ep_sock_def ep_connection_def)
next
  case (peer_kernel s)
  then show ?thesis using assms(3,4) by (simp add: link_ok_def kernel_change_def)
next
  case (peer_arrives d)
  have "d = []" if "sk_fin (ep_sock p w)"
    using peer_arrives(2) assms(4) that by (auto simp: link_ok_def prefix_def dest: sym)
  then show ?thesis using peer_arrives assms(3,4) by (auto simp: link_ok_def)
next
  case peer_ends
  then show ?thesis using assms(3,4) by (simp add: link_ok_def)
qed

lemma pair_reach_own: "pair_reach p q a b \<Longrightarrow> own_channel (ep_conn p) (ep_connection p a)"
  using tcp_reachable_input[OF pair_reach_tcp] by (simp add: input_ok_def ep_connection_def)

lemma pair_reach_links:
  assumes "pair_reach p q a b"
  shows "link_ok (ep_sock p a) (ep_sock q b) \<and> link_ok (ep_sock q b) (ep_sock p a)"
  using assms
proof (induction rule: pair_reach.induct)
  case (pair_start a b)
  have "sk_taken (ep_sock r w) = []" if "ep_initial r w" for r w
    using tcp_initial_input[of "ep_libev r" "ep_thread r" "ep_conn r" w] that Buffer_ctor_ok
    by (auto simp: ep_initial_def tcp_initial_def ep_sock_def ep_connection_def conn_fd_def TcpConnection_ctor_def
        TcpConnection_setCloseCallback_def TcpConnection_setWriteCompleteCallback_def
        TcpConnection_setMessageCallback_def TcpConnection_setConnectionCallback_def Channel_setReadCallback_def
        Channel_setWriteCallback_def Channel_setErrorCallback_def Channel_ctor_def)
  then show ?case using pair_start by (simp add: link_ok_def ep_initial_def)
next
  case (pair_left a b a')
  then show ?case using peer_step_links[OF pair_left(2) pair_reach_own[OF pair_left(1)]] by blast
next
  case (pair_right a b b')
  then show ?case using peer_step_links[OF pair_right(2) pair_reach_own[OF pair_reach_swap[OF pair_right(1)]]] by blast
qed

section \<open>From one user to the other\<close>

text \<open>
  C3. End to end. Whatever the two users, their threads, the two kernels and the network do, what one user has
  retrieved, followed by what waits in its input buffer, is a prefix of the messages that the other end's
  \<open>sendInLoop\<close> was given, in order, but for those its kernel answered at once with \<open>EPIPE\<close> or \<open>ECONNRESET\<close>. And when it meets the end of the stream, the other end shut its side down:
  if that end is still open (it has not itself met the end of the stream or been destroyed) nothing is missing,
  although \<open>shutdown\<close> may have been called while messages waited in its output buffer.
\<close>

theorem end_to_end:
  assumes "libev_ok (ep_libev p)" and "script_ok (ep_script p)" and "pair_reach p q a b"
  defines "received \<equiv> consumed b @ Buffer_bytes (inputBuffer (ep_connection q b))"
  shows "prefix received (concat (accepted a)) \<and>
    (sk_fin (ep_sock q b) \<and> sk_in (ep_sock q b) = [] \<longrightarrow> sk_shutWr (ep_sock p a) \<and>
      (Channel_isReading (conn_channel (ep_connection p a)) \<and> conn_state (ep_connection p a) \<noteq> kDisconnected \<longrightarrow>
        received = concat (accepted a)))"
proof -
  let ?c = "ep_connection p a"
  have reach: "tcp_reachable (ep_libev p) (ep_thread p) (ep_conn p) (ep_script p) a" by (rule pair_reach_tcp[OF assms(3)])
  note inv = tcp_invD[OF tcp_reachable_inv[OF assms(1,2) reach]]
  have sent: "sk_out (ep_sock p a) @ out_bytes ?c = concat (accepted a)"
    using inv(5) by (simp add: stream_ok_def ep_sock_def ep_connection_def)
  have got: "sk_taken (ep_sock q b) = received"
    using tcp_reachable_input[OF pair_reach_tcp[OF pair_reach_swap[OF assms(3)]]]
    by (simp add: input_ok_def ep_sock_def ep_connection_def received_def)
  have link: "link_ok (ep_sock p a) (ep_sock q b)" using pair_reach_links[OF assms(3)] by blast
  then have "prefix received (sk_out (ep_sock p a))" using got by (auto simp: link_ok_def dest: append_prefixD)
  then have "prefix received (concat (accepted a))" using sent by (metis prefix_prefix)
  moreover have "out_bytes ?c = []"
    if "Channel_isReading (conn_channel ?c)" "conn_state ?c \<noteq> kDisconnected" "sk_shutWr (ep_sock p a)"
    using inv that by (auto simp: flow_ok_def life_ok_def ep_sock_def ep_connection_def)
  ultimately show ?thesis using link got sent by (auto simp: link_ok_def)
qed

section \<open>Three bytes from one end to the other\<close>

definition sender :: endpoint where
  "sender = \<lparr>ep_libev = libev_ref, ep_thread = 1, ep_conn = 5, ep_script = quiet_script\<rparr>"

definition receiver :: endpoint where
  "receiver = \<lparr>ep_libev = libev_ref, ep_thread = 1, ep_conn = 5, ep_script = reader_script\<rparr>"

text \<open>Both ends established, and room for three bytes at the sender; then a message from another thread.\<close>

definition roomy :: gnet where
  "roomy = with_room [Wr_room 3]"

definition told :: gnet where
  "told = upd_loop 0 (EventLoop_queueInLoop 2 (F_sendInLoop 5 ''abc'')) roomy"

lemma roomy_simps:
  "conns roomy = conns established" "socks roomy 9 = fresh_sock\<lparr>sk_wr := [Wr_room 3]\<rparr>"
  "pendingFunctors (loop_of 5 roomy) = []" "conn_loop (conns established 5) = 0" "threadId (loop_of 5 roomy) = 1"
  "accepted roomy = []" "outputBuffer (conns established 5) = Buffer_ctor" "conn_state (conns established 5) = kConnected"
  "writeCompleteCallback (conns established 5) = None"
  by (simp_all add: roomy_def with_room_simps established_simps)

lemma told_by: "TcpConnection_send (base_env libev_ref 2) 5 ''abc'' roomy = Inr told"
  by (simp add: TcpConnection_send_def base_env_def told_def roomy_simps TcpConnection_connected_def EventLoop_isInLoopThread_def)

text \<open>The message goes out in one write.\<close>

definition sent :: gnet where
  "sent = (upd_sock 9 (\<lambda>_. fresh_sock\<lparr>sk_wr := [], sk_out := ''abc''\<rparr>) (drop_head 5 told))\<lparr>accepted := [''abc'']\<rparr>"

lemma sent_by: "tcp_do libev_ref 1 5 S Do_functor told = Inr sent"
proof -
  have q: "pendingFunctors (loop_of 5 told) = [F_sendInLoop 5 ''abc'']"
    using roomy_simps(3,4) by (simp add: told_def loop_of_def roomy_simps(1))
  let ?w = "drop_head 5 told"
  have w: "conns ?w = conns established" "socks ?w 9 = fresh_sock\<lparr>sk_wr := [Wr_room 3]\<rparr>" "accepted ?w = []"
    "conns told = conns established" "socks told 9 = fresh_sock\<lparr>sk_wr := [Wr_room 3]\<rparr>" "accepted told = []"
    "EventLoop_isInLoopThread 1 (loop_of 5 ?w)"
    using roomy_simps by (simp_all add: drop_head_def told_def loop_of_def EventLoop_isInLoopThread_def)
  have nw: "\<not> Channel_isWriting (conn_channel (conns established 5))"
    using marked_not_writing by (simp add: marked_def TcpConnection_setHighWaterMarkCallback_def)
  have zero: "Buffer_readableBytes Buffer_ctor = 0" by (simp add: Buffer_readableBytes_def Buffer_ctor_def)
  have wr: "sockets_write ''abc'' (fresh_sock\<lparr>sk_wr := [Wr_room 3]\<rparr>) = (3, 0, fresh_sock\<lparr>sk_wr := [], sk_out := ''abc''\<rparr>)"
    by (simp add: sockets_write.simps fresh_sock_def)
  have try_eq: "TcpConnection_tryWrite 1 5 ''abc'' ?w =
      (3, 0, False, upd_sock 9 (\<lambda>_. fresh_sock\<lparr>sk_wr := [], sk_out := ''abc''\<rparr>) ?w)"
    using nw by (simp add: TcpConnection_tryWrite_def w roomy_simps established_simps wr zero Let_def
        TcpConnection_queueWriteComplete_def del: One_nat_def)
  show ?thesis
    using w(7) by (simp add: q logged_sendInLoop_def TcpConnection_sendInLoop_def EventLoop_assertInLoopThread_def try_eq
        log_message_def peer_gone_def established_simps wr sent_def w roomy_simps del: One_nat_def)
qed

lemma receiver_reads:
  "\<exists>b. peer_step receiver o' arrived b \<and> consumed b = ''a'' \<and> Buffer_bytes (inputBuffer (conns b 5)) = ''bc'' \<and> conn_fd (conns b 5) = 9"
proof -
  obtain b where b: "tcp_do libev_ref 1 5 reader_script (Do_event ev_READ 0) arrived = Inr b"
    "consumed b = ''a''" "Buffer_bytes (inputBuffer (conns b 5)) = ''bc''" "conn_fd (conns b 5) = 9"
    using arrived_read by blast
  have "tcp_enabled 1 5 (Do_event ev_READ 0) arrived"
    using established_open tcp_reachable_inv[OF libev_ref_ok quiet_script_ok established_reachable]
    by (simp add: reportable_def arrived_simps ev_READ_def ev_WRITE_def tcp_inv_def tcp_inv_on_def life_ok_def)
  with b(1) have "peer_step receiver o' arrived b"
    by (intro peer_acts[where a = "Do_event ev_READ 0"]) (simp_all add: receiver_def)
  with b show ?thesis by blast
qed

lemma new_connection_initial:
  "p = sender \<or> p = receiver \<Longrightarrow> ep_initial p new_connection"
  by (force simp: ep_initial_def ep_sock_def sender_def receiver_def tcp_initial_def new_connection_def fresh_sock_def)

lemma establishes:
  assumes "p = sender \<or> p = receiver"
  shows "peer_step p o' new_connection established"
  using assms new_connection_enabled established_by[of quiet_script] established_by[of reader_script]
  by (auto simp: sender_def receiver_def quiet_script_def reader_script_def intro!: peer_acts[where a = Do_functor])

lemma pair_sent: "pair_reach sender receiver sent established"
proof -
  have "pair_reach sender receiver established new_connection"
    by (rule pair_left[OF pair_start establishes]) (simp_all add: new_connection_initial)
  then have both: "pair_reach sender receiver established established"
    by (rule pair_right) (simp add: establishes)
  have "kernel_change (ep_sock sender established) (fresh_sock\<lparr>sk_wr := [Wr_room 3]\<rparr>)"
    by (simp add: ep_sock_def ep_connection_def sender_def established_simps kernel_change_def)
  from peer_kernel[OF this] have "peer_step sender o' established roomy" for o'
    by (simp add: ep_sock_def ep_connection_def sender_def established_simps upd_ep_sock_def roomy_def with_room_def)
  with both have "pair_reach sender receiver roomy established" by (rule pair_left)
  then have "pair_reach sender receiver told established"
    by (rule pair_left) (rule peer_acts[where a = "Do_foreign_send 2 ''abc''"], simp_all add: sender_def told_by)
  moreover have "pendingFunctors (loop_of 5 told) \<noteq> []" by (simp add: told_def loop_of_def roomy_simps)
  ultimately show ?thesis
    by (elim pair_left) (rule peer_acts[where a = Do_functor], simp_all add: sender_def sent_by[unfolded tcp_do.simps One_nat_def])
qed

lemma end_to_end_witness:
  "\<exists>b :: gnet. consumed b = ''a'' \<and> Buffer_bytes (inputBuffer (conns b 5)) = ''bc'' \<and>
    prefix (consumed b @ Buffer_bytes (inputBuffer (conns b 5))) (concat (accepted sent))"
proof -
  have "peer_step receiver (ep_sock sender sent) established (upd_ep_sock receiver (\<lambda>s. s\<lparr>sk_in := sk_in s @ ''abc''\<rparr>) established)"
    by (rule peer_arrives)
      (simp add: ep_sock_def ep_connection_def receiver_def sender_def established_simps sent_def drop_head_def told_def roomy_simps fresh_sock_def)
  then have "peer_step receiver (ep_sock sender sent) established arrived"
    by (simp add: arrived_def upd_ep_sock_def ep_connection_def receiver_def established_simps upd_sock_def fresh_sock_def)
  with pair_sent have r: "pair_reach sender receiver sent arrived" by (rule pair_right)
  obtain b where b: "peer_step receiver (ep_sock sender sent) arrived b" "consumed b = ''a''"
    "Buffer_bytes (inputBuffer (conns b 5)) = ''bc''" using receiver_reads by blast
  from end_to_end[OF _ _ pair_right[OF r b(1)]] b(2,3) show ?thesis
    by (auto simp: sender_def receiver_def libev_ref_ok quiet_script_ok ep_connection_def)
qed

end
