(* ===== verification/Acceptor_Pool.thy ===== *)
theory Acceptor_Pool
  imports Event_Loop Socket_Ops
begin

text \<open>
  \<open>Acceptor\<close> (net/Acceptor.h, net/Acceptor.cc) with the process's table of descriptors, which its
  treatment of \<open>EMFILE\<close> is about, and \<open>EventLoopThreadPool\<close> (net/EventLoopThreadPool.h,
  net/EventLoopThreadPool.cc) with the part of \<open>EventLoopThread\<close> that its owner calls.
\<close>

section \<open>Descriptors of the process\<close>

text \<open>
  What \<open>accept(2)\<close>, \<open>open(2)\<close> and \<open>close(2)\<close> do to the table: a new descriptor is the lowest one that is
  free, and there is none beyond the limit. \<open>backlog\<close> are the connections that wait to be accepted,
  \<open>acceptErrors\<close> the errors that the next calls of \<open>accept\<close> meet before anything else.
\<close>

record fd_table =
  openFds :: "int list"
  fdLimit :: nat
  backlog :: "sockaddr_in list"
  acceptErrors :: "int list"

definition first_free :: "int list \<Rightarrow> int" where
  "first_free fds = int (hd (filter (\<lambda>n. int n \<notin> set fds) [0..<Suc (length fds)]))"

definition k_accept :: "fd_table \<Rightarrow> accept_outcome \<times> fd_table" where
  "k_accept k =
     (case acceptErrors k of
        e # es \<Rightarrow> (Accept_failed e, k\<lparr>acceptErrors := es\<rparr>)
      | [] \<Rightarrow>
          if fdLimit k \<le> length (openFds k) then (Accept_failed EMFILE, k)
          else (case backlog k of
                  [] \<Rightarrow> (Accept_failed EAGAIN, k)
                | a # as \<Rightarrow>
                    let fd = first_free (openFds k)
                    in (Accepted fd a, k\<lparr>openFds := fd # openFds k, backlog := as\<rparr>)))"

definition k_open :: "fd_table \<Rightarrow> int \<times> fd_table" where
  "k_open k =
     (if fdLimit k \<le> length (openFds k) then (-1, k)
      else let fd = first_free (openFds k) in (fd, k\<lparr>openFds := fd # openFds k\<rparr>))"

definition k_close :: "int \<Rightarrow> fd_table \<Rightarrow> fd_table" where
  "k_close fd k = k\<lparr>openFds := removeAll fd (openFds k)\<rparr>"

section \<open>Acceptor\<close>

text \<open>\<open>hasNewConnectionCallback\<close>: \<open>newConnectionCallback_\<close> is set; its effect is an argument of \<open>handleRead\<close>.\<close>

record Acceptor =
  acc_loop :: loop_id
  acceptSocket :: int
  acceptOptions :: reuse_options
  acceptChannel :: Channel
  hasNewConnectionCallback :: bool
  acc_listening :: bool
  idleFd :: int

text \<open>
  \<open>sockfd\<close>, \<open>idle\<close>, \<open>optRet\<close> and \<open>bindRet\<close> are the results of \<open>socket(2)\<close>, \<open>open(2)\<close>, \<open>setsockopt(2)\<close> and
  \<open>bind(2)\<close>.
\<close>

definition Acceptor_ctor :: "libev \<Rightarrow> loop_id \<Rightarrow> int \<Rightarrow> int \<Rightarrow> int \<Rightarrow> int \<Rightarrow> Acceptor res" where
  "Acceptor_ctor L loop sockfd idle optRet bindRet =
     bindR (sockets_createNonblockingOrDie sockfd) (\<lambda>fd.
     bindR (Socket_bindAddress bindRet) (\<lambda>_.
     Inr \<lparr>acc_loop = loop, acceptSocket = fd,
          acceptOptions = Socket_setReuseAddr optRet True \<lparr>so_reuseAddr = False, so_reusePort = False\<rparr>,
          acceptChannel = Channel_setReadCallback Cb_Acceptor_handleRead (Channel_ctor L loop fd),
          hasNewConnectionCallback = False, acc_listening = False, idleFd = idle\<rparr>))"

definition Acceptor_dtor :: "libev \<Rightarrow> bool \<Rightarrow> Acceptor \<Rightarrow> fd_table \<Rightarrow> (Acceptor \<times> fd_table) res" where
  "Acceptor_dtor L inLoopThread a k =
     bindR (Channel_remove L inLoopThread (Channel_disableAll L (acceptChannel a))) (\<lambda>ch.
     Inr (a\<lparr>acceptChannel := ch\<rparr>, k_close (idleFd a) k))"

definition Acceptor_setNewConnectionCallback :: "Acceptor \<Rightarrow> Acceptor" where
  "Acceptor_setNewConnectionCallback a = a\<lparr>hasNewConnectionCallback := True\<rparr>"

definition Acceptor_listening :: "Acceptor \<Rightarrow> bool" where
  "Acceptor_listening a = acc_listening a"

definition Acceptor_listen :: "libev \<Rightarrow> bool \<Rightarrow> int \<Rightarrow> Acceptor \<Rightarrow> Acceptor res" where
  "Acceptor_listen L inLoopThread listenRet a =
     ensure inLoopThread Fatal
       (let a1 = a\<lparr>acceptChannel := Channel_enableReading L (acceptChannel a)\<rparr>
        in bindR (Socket_listen listenRet) (\<lambda>_. Inr a1))"

text \<open>
  \<open>handleRead\<close> returns the descriptor and the address it hands to the callback, if any. In the branch for
  \<open>EMFILE\<close> the second \<open>accept\<close> returns -1 when it fails, and closing that descriptor is without effect.
\<close>

definition Acceptor_handleRead ::
  "bool \<Rightarrow> Acceptor \<Rightarrow> fd_table \<Rightarrow> ((int \<times> sockaddr_in) option \<times> Acceptor \<times> fd_table) res" where
  "Acceptor_handleRead inLoopThread a k =
     ensure inLoopThread Fatal
       (let peerAddr = InetAddress_ctor_port 0; (r, k1) = k_accept k
        in bindR (Socket_accept r peerAddr) (\<lambda>(connfd, e, peer).
           if connfd \<ge> 0
           then (if hasNewConnectionCallback a then Inr (Some (connfd, peer), a, k1)
                 else Inr (None, a, k_close connfd k1))
           else if e = EMFILE
           then
             let k2 = k_close (idleFd a) k1;
                 (r2, k3) = k_accept k2;
                 idle = (case r2 of Accepted fd _ \<Rightarrow> fd | Accept_failed _ \<Rightarrow> -1);
                 k4 = k_close idle k3;
                 (fd, k5) = k_open k4
             in Inr (None, a\<lparr>idleFd := fd\<rparr>, k5)
           else Inr (None, a, k1)))"

section \<open>EventLoopThreadPool\<close>

record EventLoopThreadPool =
  baseLoop :: loop_id
  pool_started :: bool
  numThreads :: int
  next_loop :: nat
  pool_loops :: "loop_id list"

definition EventLoopThreadPool_ctor :: "loop_id \<Rightarrow> EventLoopThreadPool" where
  "EventLoopThreadPool_ctor l =
     \<lparr>baseLoop = l, pool_started = False, numThreads = 0, next_loop = 0, pool_loops = []\<rparr>"

definition EventLoopThreadPool_setThreadNum :: "int \<Rightarrow> EventLoopThreadPool \<Rightarrow> EventLoopThreadPool" where
  "EventLoopThreadPool_setThreadNum n p = p\<lparr>numThreads := n\<rparr>"

text \<open>\<open>startLoop i\<close> is the loop that the \<open>i\<close>-th thread's \<open>startLoop\<close> returns.\<close>

definition EventLoopThreadPool_start ::
  "bool \<Rightarrow> (nat \<Rightarrow> loop_id) \<Rightarrow> EventLoopThreadPool \<Rightarrow> EventLoopThreadPool res" where
  "EventLoopThreadPool_start inBaseLoop startLoop p =
     ensure (\<not> pool_started p) AssertFailed
       (ensure inBaseLoop Fatal
         (Inr (p\<lparr>pool_started := True,
                 pool_loops := pool_loops p @ map startLoop [0..<nat (numThreads p)]\<rparr>)))"

definition EventLoopThreadPool_getNextLoop ::
  "bool \<Rightarrow> EventLoopThreadPool \<Rightarrow> (loop_id \<times> EventLoopThreadPool) res" where
  "EventLoopThreadPool_getNextLoop inBaseLoop p =
     ensure inBaseLoop Fatal
       (ensure (pool_started p) AssertFailed
         (if pool_loops p \<noteq> []
          then ensure (next_loop p < length (pool_loops p)) OutOfBounds
                 (let loop = pool_loops p ! next_loop p;
                      n = next_loop p + 1
                  in Inr (loop, p\<lparr>next_loop := if int n \<ge> numThreads p then 0 else n\<rparr>))
          else Inr (baseLoop p, p)))"

definition EventLoopThreadPool_getAllLoops :: "bool \<Rightarrow> EventLoopThreadPool \<Rightarrow> loop_id list res" where
  "EventLoopThreadPool_getAllLoops inBaseLoop p =
     ensure inBaseLoop Fatal
       (ensure (pool_started p) AssertFailed
         (Inr (if pool_loops p = [] then [baseLoop p] else pool_loops p)))"

text \<open>
  \<open>EventLoopThread\<close> as its owner sees it: \<open>loop_\<close> is null before the thread published its loop and after
  the loop ended. The destructor calls through it.
\<close>

record EventLoopThread =
  elt_loop :: "loop_id option"
  elt_exiting :: bool
  elt_started :: bool

definition EventLoopThread_ctor :: EventLoopThread where
  "EventLoopThread_ctor = \<lparr>elt_loop = None, elt_exiting = False, elt_started = False\<rparr>"

text \<open>\<open>startLoop\<close>: starts the thread and waits until it has published its loop \<open>l\<close>.\<close>

definition EventLoopThread_startLoop :: "loop_id \<Rightarrow> EventLoopThread \<Rightarrow> (loop_id \<times> EventLoopThread) res" where
  "EventLoopThread_startLoop l e =
     ensure (\<not> elt_started e) AssertFailed (Inr (l, e\<lparr>elt_started := True, elt_loop := Some l\<rparr>))"

text \<open>The last statement of \<open>threadFunc\<close>, after the loop returned.\<close>

definition EventLoopThread_loopEnded :: "EventLoopThread \<Rightarrow> EventLoopThread" where
  "EventLoopThread_loopEnded e = e\<lparr>elt_loop := None\<rparr>"

text \<open>The destructor returns the loop it asked to quit, before it joins the thread.\<close>

definition EventLoopThread_dtor :: "EventLoopThread \<Rightarrow> (loop_id \<times> EventLoopThread) res" where
  "EventLoopThread_dtor e =
     (let e1 = e\<lparr>elt_exiting := True\<rparr>
      in case elt_loop e1 of None \<Rightarrow> Inl NullPointer | Some l \<Rightarrow> Inr (l, e1))"

section \<open>Accepting\<close>

lemma first_free_fresh: "first_free fds \<notin> set fds"
proof -
  let ?P = "\<lambda>n. int n \<notin> set fds"
  have "\<exists>n \<in> set [0..<Suc (length fds)]. ?P n"
  proof (rule ccontr)
    assume "\<not> (\<exists>n \<in> set [0..<Suc (length fds)]. ?P n)"
    then have "int ` {0..<Suc (length fds)} \<subseteq> set fds" by (auto simp del: upt_Suc)
    then have "card (int ` {0..<Suc (length fds)}) \<le> card (set fds)" by (rule card_mono[OF finite_set])
    then show False using card_length[of fds] by (simp add: card_image)
  qed
  then have "filter ?P [0..<Suc (length fds)] \<noteq> []" by (simp add: filter_empty_conv del: upt_Suc)
  then have "hd (filter ?P [0..<Suc (length fds)]) \<in> set (filter ?P [0..<Suc (length fds)])" by (rule hd_in_set)
  then show ?thesis by (simp add: first_free_def del: upt_Suc)
qed

lemma first_free_nonneg: "0 \<le> first_free fds"
  by (simp add: first_free_def)

lemma EMFILE_expected: "Socket_accept (Accept_failed EMFILE) p = Inr (-1, EMFILE, p)"
  by (simp add: Socket_accept_def errno_defs)

lemma removeAll_fresh: "x \<notin> set xs \<Longrightarrow> removeAll x (x # xs) = xs"
  by simp

text \<open>
  C33. The reserve descriptor. When the process has no descriptor left and connections wait, \<open>handleRead\<close>
  gives up its reserve, takes one waiting connection off the backlog, closes it, and reserves a
  descriptor again: the backlog gets shorter (so the level-triggered event does not spin), no callback
  is called, the number of open descriptors is as before and the acceptor holds an open reserve.
\<close>

theorem Acceptor_EMFILE_drains:
  assumes "acceptErrors k = []" and "fdLimit k = length (openFds k)" and "backlog k \<noteq> []"
    and "distinct (openFds k)" and "idleFd a \<in> set (openFds k)"
  shows "\<exists>a' k'. Acceptor_handleRead True a k = Inr (None, a', k') \<and> backlog k' = tl (backlog k) \<and>
    distinct (openFds k') \<and> length (openFds k') = length (openFds k) \<and> idleFd a' \<in> set (openFds k') \<and>
    set (openFds k) - {idleFd a} = set (openFds k') - {idleFd a'}"
proof -
  obtain p ps where bl: "backlog k = p # ps" using assms(3) by (cases "backlog k") auto
  let ?fds = "removeAll (idleFd a) (openFds k)"
  let ?k2 = "k\<lparr>openFds := ?fds\<rparr>" and ?f = "first_free ?fds"
  have pos: "0 < length (openFds k)" using assms(5) by (cases "openFds k") simp_all
  have "length ?fds = length (openFds k) - 1"
    using assms(4,5) by (simp add: distinct_remove1_removeAll[symmetric] length_remove1)
  then have len: "length ?fds = length (openFds k) - 1" "0 < length (openFds k)"
    "length ?fds < length (openFds k)"
    using pos by simp_all
  have nle: "\<not> fdLimit k \<le> length ?fds" using assms(2) len(3) by linarith
  have acc1: "k_accept k = (Accept_failed EMFILE, k)" using assms(1,2) by (simp add: k_accept_def)
  have acc2: "k_accept ?k2 = (Accepted ?f p, k\<lparr>openFds := ?f # ?fds, backlog := ps\<rparr>)"
    using assms(1) nle bl by (simp add: k_accept_def Let_def)
  have opn: "k_open (k\<lparr>backlog := ps, openFds := ?fds\<rparr>) = (?f, k\<lparr>openFds := ?f # ?fds, backlog := ps\<rparr>)"
    using nle by (simp add: k_open_def Let_def)
  have fr: "?f \<notin> set ?fds" by (rule first_free_fresh)
  have "Acceptor_handleRead True a k =
      Inr (None, a\<lparr>idleFd := ?f\<rparr>, k\<lparr>openFds := ?f # ?fds, backlog := ps\<rparr>)"
    using fr by (simp add: Acceptor_handleRead_def acc1 EMFILE_expected k_close_def acc2 opn)
  then show ?thesis
  proof (intro exI conjI)
    show "distinct (openFds (k\<lparr>openFds := ?f # ?fds, backlog := ps\<rparr>))"
      using assms(4) fr by (simp add: distinct_removeAll)
    show "length (openFds (k\<lparr>openFds := ?f # ?fds, backlog := ps\<rparr>)) = length (openFds k)"
      using len(1) pos by simp
    show "set (openFds k) - {idleFd a} =
        set (openFds (k\<lparr>openFds := ?f # ?fds, backlog := ps\<rparr>)) - {idleFd (a\<lparr>idleFd := ?f\<rparr>)}"
      using fr by auto
  qed (simp_all add: bl)
qed

definition busy_acceptor :: Acceptor where
  "busy_acceptor = \<lparr>acc_loop = 0, acceptSocket = 3,
     acceptOptions = \<lparr>so_reuseAddr = True, so_reusePort = False\<rparr>, acceptChannel = Channel_ctor libev_ref 0 3,
     hasNewConnectionCallback = True, acc_listening = False, idleFd = 1\<rparr>"

definition full_table :: fd_table where
  "full_table = \<lparr>openFds = [3, 2, 1, 0], fdLimit = 4, backlog = [zero_sockaddr, zero_sockaddr], acceptErrors = []\<rparr>"

lemma Acceptor_EMFILE_drains_witness:
  "\<exists>a' k'. Acceptor_handleRead True busy_acceptor full_table = Inr (None, a', k') \<and> backlog k' = [zero_sockaddr] \<and>
    idleFd a' \<in> set (openFds k') \<and> length (openFds k') = 4"
  using Acceptor_EMFILE_drains[of full_table busy_acceptor] by (auto simp: full_table_def busy_acceptor_def)

text \<open>
  The classification of \<open>accept\<close>'s errors: the call of \<open>sockets::accept\<close> returns for success and for
  the transient errors \<open>EAGAIN\<close>, \<open>ECONNABORTED\<close>, \<open>EINTR\<close>, \<open>EPROTO\<close>, \<open>EPERM\<close> and \<open>EMFILE\<close>, with \<open>errno\<close> as
  the kernel set it and the caller's address untouched; every other error is fatal.
\<close>

lemma accept_classification:
  "Socket_accept r peer =
     (case r of
        Accepted fd addr \<Rightarrow> Inr (fd, 0, if fd \<ge> 0 then addr else peer)
      | Accept_failed e \<Rightarrow>
          if e \<in> {EAGAIN, ECONNABORTED, EINTR, EPROTO, EPERM, EMFILE} then Inr (-1, e, peer) else Inl Fatal)"
  by (cases r) (simp_all add: Socket_accept_def)

section \<open>Round robin\<close>

fun next_loops :: "nat \<Rightarrow> EventLoopThreadPool \<Rightarrow> (loop_id list \<times> EventLoopThreadPool) res" where
  "next_loops 0 p = Inr ([], p)"
| "next_loops (Suc k) p =
     bindR (EventLoopThreadPool_getNextLoop True p) (\<lambda>(l, p1).
     bindR (next_loops k p1) (\<lambda>(ls, p2). Inr (l # ls, p2)))"

lemma getNextLoop_ok:
  assumes "pool_started p" and "pool_loops p \<noteq> []" and "numThreads p = int (length (pool_loops p))"
    and "next_loop p < length (pool_loops p)"
  shows "EventLoopThreadPool_getNextLoop True p =
    Inr (pool_loops p ! next_loop p, p\<lparr>next_loop := (next_loop p + 1) mod length (pool_loops p)\<rparr>)"
proof -
  have "(next_loop p + 1) mod length (pool_loops p) =
      (if int (next_loop p + 1) \<ge> numThreads p then 0 else next_loop p + 1)"
    using assms(3,4) by (cases "next_loop p + 1 = length (pool_loops p)") auto
  then show ?thesis using assms by (simp add: EventLoopThreadPool_getNextLoop_def Let_def)
qed

lemma next_loops_ok:
  assumes "pool_started p" and "pool_loops p \<noteq> []" and "numThreads p = int (length (pool_loops p))"
    and "next_loop p < length (pool_loops p)"
  shows "next_loops k p =
    Inr (map (\<lambda>i. pool_loops p ! ((next_loop p + i) mod length (pool_loops p))) [0..<k],
         p\<lparr>next_loop := (next_loop p + k) mod length (pool_loops p)\<rparr>)"
  using assms
proof (induction k arbitrary: p)
  case 0
  then show ?case by simp
next
  case (Suc k)
  let ?n = "length (pool_loops p)"
  let ?p = "p\<lparr>next_loop := (next_loop p + 1) mod ?n\<rparr>"
  have IH: "next_loops k ?p =
      Inr (map (\<lambda>i. pool_loops p ! ((next_loop p + Suc i) mod ?n)) [0..<k],
           p\<lparr>next_loop := (next_loop p + Suc k) mod ?n\<rparr>)"
    using Suc.IH[of ?p] Suc.prems by (simp add: mod_add_left_eq)
  have "map (\<lambda>i. pool_loops p ! ((next_loop p + i) mod ?n)) [0..<Suc k] =
      pool_loops p ! next_loop p # map (\<lambda>i. pool_loops p ! ((next_loop p + Suc i) mod ?n)) [0..<k]"
    using Suc.prems(4) by (simp add: map_upt_Suc del: upt_Suc)
  then show ?case
    using getNextLoop_ok[OF Suc.prems] IH by (simp del: upt_Suc)
qed

lemma pool_next_loops:
  assumes "p = \<lparr>baseLoop = l, pool_started = True, numThreads = n, next_loop = 0, pool_loops = map startLoop [0..<nat n]\<rparr>"
  shows "next_loops k p = Inr (map (\<lambda>i. if 0 < n then startLoop (i mod nat n) else l) [0..<k],
    p\<lparr>next_loop := (if 0 < n then k mod nat n else 0)\<rparr>)"
proof (cases "0 < n")
  case True
  have "next_loops k p =
      Inr (map (\<lambda>i. pool_loops p ! ((next_loop p + i) mod length (pool_loops p))) [0..<k],
           p\<lparr>next_loop := (next_loop p + k) mod length (pool_loops p)\<rparr>)"
    using True by (intro next_loops_ok) (simp_all add: assms)
  then show ?thesis using True by (simp add: assms)
next
  case False
  have "next_loops k p = Inr (map (\<lambda>i. l) [0..<k], p)"
  proof (induction k)
    case (Suc k)
    have "EventLoopThreadPool_getNextLoop True p = Inr (l, p)"
      using False by (simp add: EventLoopThreadPool_getNextLoop_def assms)
    moreover have "map (\<lambda>i. l) [0..<Suc k] = l # map (\<lambda>i. l) [0..<k]" by (simp add: map_replicate_const replicate_append_same)
    ultimately show ?case using Suc by (simp del: upt_Suc)
  qed simp
  then show ?thesis using False by (simp add: assms)
qed

lemma pool_start_exact:
  "EventLoopThreadPool_start True startLoop (EventLoopThreadPool_setThreadNum n (EventLoopThreadPool_ctor l)) =
    Inr \<lparr>baseLoop = l, pool_started = True, numThreads = n, next_loop = 0, pool_loops = map startLoop [0..<nat n]\<rparr>"
  by (simp add: EventLoopThreadPool_start_def EventLoopThreadPool_setThreadNum_def EventLoopThreadPool_ctor_def)

text \<open>
  Round robin. A pool started with \<open>n > 0\<close> threads hands out its loops in a cycle: the \<open>k\<close>-th call of
  \<open>getNextLoop\<close> returns the loop of thread \<open>k mod n\<close>, never reads outside the vector of loops, and all
  calls return. With no thread every call returns the base loop.
\<close>

theorem pool_round_robin:
  assumes "EventLoopThreadPool_start True startLoop (EventLoopThreadPool_setThreadNum n (EventLoopThreadPool_ctor l)) = Inr p"
  shows "\<exists>p'. next_loops k p =
    Inr (map (\<lambda>i. if 0 < n then startLoop (i mod nat n) else l) [0..<k], p')"
  using assms pool_next_loops by (auto simp: pool_start_exact)

lemma pool_round_robin_witness:
  "\<exists>p p'. EventLoopThreadPool_start True (\<lambda>i. 10 + i) (EventLoopThreadPool_setThreadNum 2 (EventLoopThreadPool_ctor 0)) = Inr p \<and>
    next_loops 3 p = Inr ([10, 11, 10], p')"
proof -
  obtain p where p: "EventLoopThreadPool_start True (\<lambda>i. 10 + i)
      (EventLoopThreadPool_setThreadNum 2 (EventLoopThreadPool_ctor 0)) = Inr p"
    by (simp add: EventLoopThreadPool_start_def EventLoopThreadPool_ctor_def EventLoopThreadPool_setThreadNum_def)
  from pool_round_robin[OF p, of 3] p show ?thesis by (simp add: upt_rec numeral_3_eq_3)
qed

end
