(* ===== verification/Tcp_Server.thy ===== *)
theory Tcp_Server
  imports Tcp_Connection Acceptor_Pool
begin

text \<open>
  \<open>simplev::net::TcpServer\<close> (net/TcpServer.h, net/TcpServer.cc): naming and registering new connections,
  handing them to the loops of the thread pool, and removing them again in the server's loop. The
  lemmas show that the map of connections holds exactly the connections that are not yet removed, so
  that the assertion of \<open>removeConnectionInLoop\<close> never fails.
\<close>

section \<open>State\<close>

record TcpServer =
  srv_loop :: loop_id
  srv_name :: string
  srv_acceptor :: Acceptor
  srv_threadPool :: EventLoopThreadPool
  srv_connectionCallback :: "user_callback option"
  srv_messageCallback :: "user_callback option"
  srv_writeCompleteCallback :: "user_callback option"
  srv_started :: bool
  nextConnId :: int32_t
  connections :: "string \<Rightarrow> conn_id option"

text \<open>\<open>nextObj\<close> is the address the next \<open>new TcpConnection\<close> returns.\<close>

record sworld = net +
  srv :: TcpServer
  nextObj :: conn_id

definition on_srv :: "(TcpServer \<Rightarrow> TcpServer) \<Rightarrow> 'a sworld_scheme \<Rightarrow> 'a sworld_scheme" where
  "on_srv f w = w\<lparr>srv := f (srv w)\<rparr>"

section \<open>Operations\<close>

definition TcpServer_ctor ::
  "libev \<Rightarrow> loop_id option \<Rightarrow> sockaddr_in \<Rightarrow> int \<Rightarrow> int \<Rightarrow> int \<Rightarrow> int \<Rightarrow> TcpServer res" where
  "TcpServer_ctor L loop listenAddr sockfd idle optRet bindRet =
     (case loop of
        None \<Rightarrow> Inl Fatal
      | Some l \<Rightarrow>
          bindR (InetAddress_toIpPort listenAddr) (\<lambda>nm.
          bindR (Acceptor_ctor L l sockfd idle optRet bindRet) (\<lambda>acc.
          Inr \<lparr>srv_loop = l, srv_name = nm, srv_acceptor = Acceptor_setNewConnectionCallback acc,
               srv_threadPool = EventLoopThreadPool_ctor l, srv_connectionCallback = None,
               srv_messageCallback = None, srv_writeCompleteCallback = None, srv_started = False,
               nextConnId = 1, connections = (\<lambda>_. None)\<rparr>)))"

definition TcpServer_setConnectionCallback :: "user_callback option \<Rightarrow> TcpServer \<Rightarrow> TcpServer" where
  "TcpServer_setConnectionCallback cb s = s\<lparr>srv_connectionCallback := cb\<rparr>"

definition TcpServer_setMessageCallback :: "user_callback option \<Rightarrow> TcpServer \<Rightarrow> TcpServer" where
  "TcpServer_setMessageCallback cb s = s\<lparr>srv_messageCallback := cb\<rparr>"

definition TcpServer_setWriteCompleteCallback :: "user_callback option \<Rightarrow> TcpServer \<Rightarrow> TcpServer" where
  "TcpServer_setWriteCompleteCallback cb s = s\<lparr>srv_writeCompleteCallback := cb\<rparr>"

definition TcpServer_setThreadNum :: "int \<Rightarrow> TcpServer \<Rightarrow> TcpServer res" where
  "TcpServer_setThreadNum n s =
     ensure (n \<ge> 0) AssertFailed
       (Inr (s\<lparr>srv_threadPool := EventLoopThreadPool_setThreadNum n (srv_threadPool s)\<rparr>))"

text \<open>Whether the caller runs in the thread of the server's loop.\<close>

definition in_srv_loop :: "thread_id \<Rightarrow> 'a sworld_scheme \<Rightarrow> bool" where
  "in_srv_loop t w \<longleftrightarrow> EventLoop_isInLoopThread t (loops w (srv_loop (srv w)))"

definition TcpServer_listen ::
  "libev \<Rightarrow> thread_id \<Rightarrow> int \<Rightarrow> 'a sworld_scheme \<Rightarrow> 'a sworld_scheme res" where
  "TcpServer_listen L t listenRet w =
     bindR (Acceptor_listen L (in_srv_loop t w) listenRet (srv_acceptor (srv w))) (\<lambda>a.
     Inr (on_srv (\<lambda>s. s\<lparr>srv_acceptor := a\<rparr>) w))"

definition TcpServer_start ::
  "libev \<Rightarrow> thread_id \<Rightarrow> (nat \<Rightarrow> loop_id) \<Rightarrow> int \<Rightarrow> 'a sworld_scheme \<Rightarrow> 'a sworld_scheme res" where
  "TcpServer_start L t startLoop listenRet w =
     bindR (if \<not> srv_started (srv w)
            then bindR (EventLoopThreadPool_start (in_srv_loop t w) startLoop (srv_threadPool (srv w))) (\<lambda>p.
                 Inr (on_srv (\<lambda>s. s\<lparr>srv_started := True, srv_threadPool := p\<rparr>) w))
            else Inr w) (\<lambda>w1.
     if \<not> Acceptor_listening (srv_acceptor (srv w1))
     then EventLoop_runInLoop (\<lambda>w. loops w (srv_loop (srv w1))) (upd_loop (srv_loop (srv w1))) t
            F_Acceptor_listen (TcpServer_listen L t listenRet) w1
     else Inr w1)"

text \<open>The name of the next connection; \<open>snprintf\<close> writes into 32 bytes.\<close>

definition TcpServer_connName :: "TcpServer \<Rightarrow> string" where
  "TcpServer_connName s = srv_name s @ take 31 (CHR ''#'' # show_int (sint (nextConnId s)))"

text \<open>The connection object for a new descriptor, entered into the map and with its callbacks set.\<close>

definition TcpServer_register ::
  "libev \<Rightarrow> string \<Rightarrow> loop_id \<Rightarrow> int \<Rightarrow> sockaddr_in \<Rightarrow> sockaddr_in \<Rightarrow> 'a sworld_scheme \<Rightarrow> 'a sworld_scheme" where
  "TcpServer_register L connName ioLoop sockfd local peer w =
     (let conn = nextObj w;
          w1 = (on_srv (\<lambda>s. s\<lparr>connections := (connections s)(connName \<mapsto> conn)\<rparr>) w)\<lparr>nextObj := conn + 1\<rparr>
      in upd_conn conn (\<lambda>_.
           TcpConnection_setCloseCallback (Some Cb_TcpServer_removeConnection)
             (TcpConnection_setWriteCompleteCallback (srv_writeCompleteCallback (srv w1))
               (TcpConnection_setMessageCallback (srv_messageCallback (srv w1))
                 (TcpConnection_setConnectionCallback (srv_connectionCallback (srv w1))
                   (TcpConnection_ctor L conn ioLoop connName sockfd local peer))))) w1)"

text \<open>\<open>pollRet\<close> is the result of \<open>poll(2)\<close> on the new descriptor.\<close>

definition TcpServer_newConnection ::
  "('a sworld_ext net_scheme, 'b) env_scheme \<Rightarrow> int \<Rightarrow> int \<Rightarrow> sockaddr_in \<Rightarrow> 'a sworld_scheme \<Rightarrow>
   'a sworld_scheme res" where
  "TcpServer_newConnection E pollRet sockfd peer w =
     ensure (in_srv_loop (tid E) w) Fatal
       (if pollRet < 0 then Inr (upd_sock sockfd sockets_close w)
        else
          let connName = TcpServer_connName (srv w);
              w1 = on_srv (\<lambda>s. s\<lparr>nextConnId := nextConnId s + 1\<rparr>) w;
              local = sockets_getLocalAddr (socks w1 sockfd)
          in bindR (EventLoopThreadPool_getNextLoop (in_srv_loop (tid E) w1) (srv_threadPool (srv w1))) (\<lambda>(ioLoop, p).
             let w2 = TcpServer_register (ev E) connName ioLoop sockfd local peer
                        (on_srv (\<lambda>s. s\<lparr>srv_threadPool := p\<rparr>) w1)
             in EventLoop_runInLoop (\<lambda>w. loops w ioLoop) (upd_loop ioLoop) (tid E)
                  (F_connectEstablished (nextObj w)) (TcpConnection_connectEstablished E (nextObj w)) w2))"

definition TcpServer_removeConnectionInLoop ::
  "thread_id \<Rightarrow> conn_id \<Rightarrow> 'a sworld_scheme \<Rightarrow> 'a sworld_scheme res" where
  "TcpServer_removeConnectionInLoop t conn w =
     ensure (in_srv_loop t w) Fatal
       (let nm = conn_name (conns w conn);
            n = (if connections (srv w) nm = None then 0 else 1 :: nat);
            w1 = on_srv (\<lambda>s. s\<lparr>connections := (connections s)(nm := None)\<rparr>) w
        in ensure (n = 1) AssertFailed
             (Inr (upd_loop (conn_loop (conns w1 conn)) (EventLoop_queueInLoop t (F_connectDestroyed conn)) w1)))"

definition TcpServer_removeConnection ::
  "thread_id \<Rightarrow> conn_id \<Rightarrow> 'a sworld_scheme \<Rightarrow> 'a sworld_scheme res" where
  "TcpServer_removeConnection t conn w =
     EventLoop_runInLoop (\<lambda>w. loops w (srv_loop (srv w))) (upd_loop (srv_loop (srv w))) t
       (F_removeConnectionInLoop conn) (TcpServer_removeConnectionInLoop t conn) w"

section \<open>The server and its connections\<close>

text \<open>The removals that wait in the queue of the server's loop.\<close>

definition removal_of :: "Functor \<Rightarrow> conn_id list" where
  "removal_of f = (case f of F_removeConnectionInLoop c \<Rightarrow> [c] | _ \<Rightarrow> [])"

definition removals :: "'a sworld_scheme \<Rightarrow> conn_id list" where
  "removals w = concat (map removal_of (pendingFunctors (loops w (srv_loop (srv w)))))"

text \<open>
  What everything else does (connections, other functors, other threads, the kernel): it leaves the
  server's fields, the names and loops of the connections and the waiting removals as they are.
\<close>

definition server_frame :: "sworld \<Rightarrow> sworld \<Rightarrow> bool" where
  "server_frame w w' \<longleftrightarrow> srv w' = srv w \<and> nextObj w' = nextObj w \<and> removals w' = removals w \<and>
     (\<forall>c. conn_name (conns w' c) = conn_name (conns w c) \<and> conn_loop (conns w' c) = conn_loop (conns w c)) \<and>
     (\<forall>l. threadId (loops w' l) = threadId (loops w l))"

definition user_frame :: "sworld env \<Rightarrow> bool" where
  "user_frame E \<longleftrightarrow> (\<forall>f arg w w'. user E f arg w = Inr w' \<longrightarrow> server_frame w w')"

text \<open>
  \<open>opened\<close> are the connections whose \<open>handleClose\<close> has not run yet; a connection closes once
  (\<open>Tcp_Stream\<close>). \<open>server_new\<close> is an accepted connection, \<open>server_close\<close> the close callback in the
  thread of the connection's loop, \<open>server_remove\<close> the run of a queued removal.
\<close>

inductive server_step :: "sworld env \<Rightarrow> sworld \<times> conn_id set \<Rightarrow> sworld \<times> conn_id set \<Rightarrow> bool" for E where
  server_new: "TcpServer_newConnection E 0 fd peer w = Inr w' \<Longrightarrow> sint (nextConnId (srv w)) < 2147483647 \<Longrightarrow>
    server_step E (w, opened) (w', insert (nextObj w) opened)"
| server_close: "c \<in> opened \<Longrightarrow> TcpServer_removeConnection (threadId (loops w (conn_loop (conns w c)))) c w = Inr w' \<Longrightarrow>
    server_step E (w, opened) (w', opened - {c})"
| server_remove: "pendingFunctors (loops w (srv_loop (srv w))) = F_removeConnectionInLoop c # fs \<Longrightarrow>
    TcpServer_removeConnectionInLoop (tid E) c (upd_loop (srv_loop (srv w)) (\<lambda>l. l\<lparr>pendingFunctors := fs\<rparr>) w) = Inr w' \<Longrightarrow>
    server_step E (w, opened) (w', opened)"
| server_other: "server_frame w w' \<Longrightarrow> server_step E (w, opened) (w', opened)"

definition server_initial :: "sworld env \<Rightarrow> sworld \<Rightarrow> bool" where
  "server_initial E w \<longleftrightarrow> connections (srv w) = (\<lambda>_. None) \<and> nextConnId (srv w) = 1 \<and> removals w = [] \<and>
     threadId (loops w (srv_loop (srv w))) = tid E"

inductive server_reachable :: "sworld env \<Rightarrow> sworld \<times> conn_id set \<Rightarrow> bool" for E where
  server_start: "server_initial E w \<Longrightarrow> server_reachable E (w, {})"
| server_next: "server_reachable E s \<Longrightarrow> server_step E s s' \<Longrightarrow> server_reachable E s'"

section \<open>The map of connections\<close>

text \<open>The name the \<open>k\<close>-th connection gets.\<close>

definition conn_name_of :: "sworld \<Rightarrow> nat \<Rightarrow> string" where
  "conn_name_of w k = srv_name (srv w) @ CHR ''#'' # digits_of k"

definition registered :: "sworld \<times> conn_id set \<Rightarrow> conn_id set" where
  "registered s = snd s \<union> set (removals (fst s))"

definition server_inv :: "sworld env \<Rightarrow> sworld \<times> conn_id set \<Rightarrow> bool" where
  "server_inv E s \<longleftrightarrow> (case s of (w, opened) \<Rightarrow>
     threadId (loops w (srv_loop (srv w))) = tid E \<and> 1 \<le> sint (nextConnId (srv w)) \<and>
     opened \<inter> set (removals w) = {} \<and> distinct (removals w) \<and>
     (\<forall>c \<in> registered s. c < nextObj w) \<and>
     (\<forall>c \<in> registered s. \<exists>k. int k < sint (nextConnId (srv w)) \<and> conn_name (conns w c) = conn_name_of w k) \<and>
     inj_on (\<lambda>c. conn_name (conns w c)) (registered s) \<and>
     (\<forall>n c. connections (srv w) n = Some c \<longleftrightarrow> c \<in> registered s \<and> n = conn_name (conns w c)))"

lemma server_invD:
  assumes "server_inv E (w, opened)"
  shows "threadId (loops w (srv_loop (srv w))) = tid E" "1 \<le> sint (nextConnId (srv w))"
    "opened \<inter> set (removals w) = {}" "distinct (removals w)"
    "\<And>c. c \<in> opened \<union> set (removals w) \<Longrightarrow> c < nextObj w"
    "\<And>c. c \<in> opened \<union> set (removals w) \<Longrightarrow>
       \<exists>k. int k < sint (nextConnId (srv w)) \<and> conn_name (conns w c) = conn_name_of w k"
    "inj_on (\<lambda>c. conn_name (conns w c)) (opened \<union> set (removals w))"
    "\<And>n c. connections (srv w) n = Some c \<longleftrightarrow> c \<in> opened \<union> set (removals w) \<and> n = conn_name (conns w c)"
  using assms by (simp_all add: server_inv_def registered_def)

lemma digits_of_inj: "digits_of a = digits_of b \<Longrightarrow> a = b"
  by (metis digits_value_of)

lemma conn_name_of_inj: "conn_name_of w a = conn_name_of w b \<Longrightarrow> a = b"
  by (auto simp: conn_name_of_def dest: digits_of_inj)

lemma on_srv_simps [simp]:
  "srv (on_srv f w) = f (srv w)" "loops (on_srv f w) = loops w" "conns (on_srv f w) = conns w"
  "socks (on_srv f w) = socks w" "nextObj (on_srv f w) = nextObj w"
  by (simp_all add: on_srv_def)

lemma sworld_upd_simps [simp]:
  "srv (upd_loop l f w) = srv w" "srv (upd_conn c g w) = srv w" "srv (upd_sock fd h w) = srv w"
  "nextObj (upd_loop l f w) = nextObj w" "nextObj (upd_conn c g w) = nextObj w" "nextObj (upd_sock fd h w) = nextObj w"
  by (simp_all add: upd_loop_def upd_conn_def upd_sock_def)

text \<open>Everything the environment does keeps the invariant.\<close>

lemma server_frame_inv:
  assumes "server_frame w w'" and "server_inv E (w, opened)"
  shows "server_inv E (w', opened)"
  using assms by (simp add: server_frame_def server_inv_def registered_def conn_name_of_def)

text \<open>Registering a connection under a name that is not in use.\<close>

lemma server_inv_register:
  assumes inv: "server_inv E (w, opened)" and small: "sint (nextConnId (srv w)) < 2147483647"
    and w': "threadId (loops w' (srv_loop (srv w))) = tid E" "srv_loop (srv w') = srv_loop (srv w)"
      "srv_name (srv w') = srv_name (srv w)" "nextConnId (srv w') = nextConnId (srv w) + 1"
      "removals w' = removals w" "nextObj w' = nextObj w + 1"
      "connections (srv w') = (connections (srv w))(conn_name_of w (nat (sint (nextConnId (srv w)))) \<mapsto> nextObj w)"
      "conn_name (conns w' (nextObj w)) = conn_name_of w (nat (sint (nextConnId (srv w))))"
      "\<And>c. c < nextObj w \<Longrightarrow> conn_name (conns w' c) = conn_name (conns w c)"
  shows "server_inv E (w', insert (nextObj w) opened)"
proof -
  note I = server_invD[OF inv]
  let ?o = "nextObj w" and ?R = "opened \<union> set (removals w)" and ?k = "nat (sint (nextConnId (srv w)))"
  have fresh: "?o \<notin> ?R" using I(5) by blast
  have same: "\<And>c. c \<in> ?R \<Longrightarrow> conn_name (conns w' c) = conn_name (conns w c)" using I(5) w'(9) by blast
  have sint': "sint (nextConnId (srv w')) = sint (nextConnId (srv w)) + 1"
  proof -
    have "sint (nextConnId (srv w) + 1) = sint (nextConnId (srv w)) + sint (1 :: int32_t)"
      using small I(2) by (intro sint_int32_add) simp_all
    then show ?thesis using w'(4) by simp
  qed
  have sint'': "sint (nextConnId (srv w) + 1) = sint (nextConnId (srv w)) + 1" using sint' w'(4) by simp
  have name: "\<And>k. conn_name_of w' k = conn_name_of w k" using w'(3) by (simp add: conn_name_of_def)
  have new_name: "conn_name (conns w c) \<noteq> conn_name_of w ?k" if c: "c \<in> ?R" for c
  proof
    assume eq: "conn_name (conns w c) = conn_name_of w ?k"
    obtain k where "int k < sint (nextConnId (srv w))" "conn_name (conns w c) = conn_name_of w k"
      using I(6)[OF c] by blast
    then have "k = ?k" using eq conn_name_of_inj[of w k ?k] by simp
    then show False using \<open>int k < sint (nextConnId (srv w))\<close> I(2) by simp
  qed
  have new_name': "conn_name (conns w' c) \<noteq> conn_name (conns w' ?o)" if "c \<in> ?R" for c
    using new_name[OF that] same[OF that] w'(8) by simp
  have inj: "inj_on (\<lambda>c. conn_name (conns w' c)) (insert ?o ?R)"
  proof (rule inj_onI)
    fix a b assume ab: "a \<in> insert ?o ?R" "b \<in> insert ?o ?R" "conn_name (conns w' a) = conn_name (conns w' b)"
    show "a = b"
    proof (cases "a = ?o \<or> b = ?o")
      case True
      then show ?thesis using ab new_name'[of a] new_name'[of b] by auto
    next
      case False
      then have "a \<in> ?R" "b \<in> ?R" using ab by simp_all
      then show ?thesis using ab(3) same I(7) by (metis inj_on_eq_iff)
    qed
  qed
  have reg: "registered (w', insert ?o opened) = insert ?o ?R" using w'(5) by (simp add: registered_def)
  have names: "\<exists>k. int k < sint (nextConnId (srv w')) \<and> conn_name (conns w' c) = conn_name_of w' k"
    if "c \<in> insert ?o ?R" for c
  proof (cases "c = ?o")
    case True
    then show ?thesis using w'(8) I(2) by (intro exI[of _ ?k]) (simp add: sint' name)
  next
    case False
    then have c: "c \<in> ?R" using that by simp
    then show ?thesis using I(6)[OF c] same[OF c] by (force simp: sint' name)
  qed
  have map: "connections (srv w') n = Some c \<longleftrightarrow> c \<in> insert ?o ?R \<and> n = conn_name (conns w' c)" for n c
  proof (cases "c = ?o")
    case True
    have "connections (srv w) n \<noteq> Some ?o" using I(8)[of n ?o] fresh by blast
    then show ?thesis using True w'(7,8) by simp
  next
    case False
    then show ?thesis using w'(7) I(8)[of n c] same[of c] new_name[of c] by auto
  qed
  show ?thesis
    unfolding server_inv_def prod.case reg
    using w' I(1,2,3,4,5) fresh inj names map by (auto simp: sint'' less_SucI)
qed

text \<open>What \<open>connectEstablished\<close>, run at once or queued, does to the fields the invariant is about.\<close>

lemma server_frame_refl: "server_frame w w"
  by (simp add: server_frame_def)

lemma server_frame_trans: "server_frame w w' \<Longrightarrow> server_frame w' w'' \<Longrightarrow> server_frame w w''"
  by (simp add: server_frame_def)

lemma server_frame_queue:
  assumes "removal_of f = []"
  shows "server_frame w (upd_loop l (EventLoop_queueInLoop t f) w)"
  using assms by (simp add: server_frame_def removals_def)

lemma server_frame_conn:
  "conn_name (g (conns w c)) = conn_name (conns w c) \<Longrightarrow> conn_loop (g (conns w c)) = conn_loop (conns w c) \<Longrightarrow>
   server_frame w (upd_conn c g w)"
  by (simp add: server_frame_def removals_def)

lemma connectEstablished_frame:
  assumes U: "user_frame E" and "TcpConnection_connectEstablished E c w = Inr w'"
  shows "server_frame w w'"
proof -
  let ?w1 = "upd_conn c (TcpConnection_setState kConnected) w"
  let ?w2 = "upd_conn c (on_channel (Channel_enableReading (ev E))) ?w1"
  have "server_frame w ?w1" by (rule server_frame_conn) (simp_all add: TcpConnection_setState_def)
  moreover have "server_frame ?w1 ?w2" by (rule server_frame_conn) (simp_all add: on_channel_def)
  moreover have "server_frame ?w2 w'"
    using assms by (auto simp: TcpConnection_connectEstablished_def EventLoop_assertInLoopThread_def Let_def
        call_user_def user_frame_def res_simps split: option.splits)
  ultimately show ?thesis by (blast intro: server_frame_trans)
qed

lemma runInLoop_established_frame:
  assumes U: "user_frame E"
    and "EventLoop_runInLoop (\<lambda>w. loops w l) (upd_loop l) t (F_connectEstablished c)
      (TcpConnection_connectEstablished E c) w = Inr w'"
  shows "server_frame w w'"
  using assms(2) connectEstablished_frame[OF U, of c w w']
    server_frame_queue[of "F_connectEstablished c" w l t]
  by (auto simp: EventLoop_runInLoop_def removal_of_def split: if_splits)

text \<open>
  \<open>newConnection\<close> up to \<open>runInLoop\<close>: \<open>w3\<close> is the state in which the new connection, made for the loop that
  the pool handed out, is in the map.
\<close>

lemma server_registers:
  assumes inv: "server_inv E (w, opened)" and small: "sint (nextConnId (srv w)) < 2147483647"
    and io: "EventLoopThreadPool_getNextLoop True (srv_threadPool (srv w)) = Inr (ioLoop, p)"
  shows "\<exists>w3. TcpServer_newConnection E 0 fd peer w =
      EventLoop_runInLoop (\<lambda>w. loops w ioLoop) (upd_loop ioLoop) (tid E) (F_connectEstablished (nextObj w))
        (TcpConnection_connectEstablished E (nextObj w)) w3 \<and>
    server_inv E (w3, insert (nextObj w) opened) \<and> loops w3 = loops w \<and> nextObj w3 = nextObj w + 1 \<and>
    (\<forall>c < nextObj w. conns w3 c = conns w c) \<and>
    (\<exists>nm la. srv w3 = (srv w)\<lparr>nextConnId := nextConnId (srv w) + 1, srv_threadPool := p,
         connections := (connections (srv w))(nm \<mapsto> nextObj w)\<rparr> \<and>
       conns w3 (nextObj w) = TcpConnection_setCloseCallback (Some Cb_TcpServer_removeConnection)
         (TcpConnection_setWriteCompleteCallback (srv_writeCompleteCallback (srv w))
           (TcpConnection_setMessageCallback (srv_messageCallback (srv w))
             (TcpConnection_setConnectionCallback (srv_connectionCallback (srv w))
               (TcpConnection_ctor (ev E) (nextObj w) ioLoop nm fd la peer)))))"
proof -
  note I = server_invD[OF inv]
  let ?k = "nat (sint (nextConnId (srv w)))" and ?o = "nextObj w"
  have "nat (sint (nextConnId (srv w))) < 10 ^ Suc 9" using small by simp
  then have len: "length (digits_of ?k) \<le> 10" using length_digits_of[of ?k 9] by simp
  have nm: "TcpServer_connName (srv w) = conn_name_of w ?k"
    using I(2) len by (simp add: TcpServer_connName_def conn_name_of_def show_int_def)
  let ?w1 = "on_srv (\<lambda>s. s\<lparr>nextConnId := nextConnId s + 1\<rparr>) w"
  define w3 where "w3 = TcpServer_register (ev E) (conn_name_of w ?k) ioLoop fd
    (sockets_getLocalAddr (socks w fd)) peer (on_srv (\<lambda>s. s\<lparr>srv_threadPool := p\<rparr>) ?w1)"
  have run: "TcpServer_newConnection E 0 fd peer w =
      EventLoop_runInLoop (\<lambda>w. loops w ioLoop) (upd_loop ioLoop) (tid E) (F_connectEstablished ?o)
        (TcpConnection_connectEstablished E ?o) w3"
    using io I(1) by (simp add: TcpServer_newConnection_def Let_def in_srv_loop_def EventLoop_isInLoopThread_def nm w3_def)
  have nn: "conn_name (TcpConnection_setCloseCallback cl (TcpConnection_setWriteCompleteCallback wc
      (TcpConnection_setMessageCallback mc (TcpConnection_setConnectionCallback cc
        (TcpConnection_ctor L c l n d la pa))))) = n" for cl wc mc cc L c l n d la pa
    by (simp add: TcpConnection_setCloseCallback_def TcpConnection_setWriteCompleteCallback_def
        TcpConnection_setMessageCallback_def TcpConnection_setConnectionCallback_def TcpConnection_ctor_def)
  have w3: "conn_name (conns w3 ?o) = conn_name_of w ?k" "\<And>c. c < ?o \<Longrightarrow> conns w3 c = conns w c"
    "loops w3 = loops w" "nextObj w3 = ?o + 1"
    "srv w3 = (srv w)\<lparr>nextConnId := nextConnId (srv w) + 1, srv_threadPool := p,
       connections := (connections (srv w))(conn_name_of w ?k \<mapsto> ?o)\<rparr>"
    "conns w3 ?o = TcpConnection_setCloseCallback (Some Cb_TcpServer_removeConnection)
         (TcpConnection_setWriteCompleteCallback (srv_writeCompleteCallback (srv w))
           (TcpConnection_setMessageCallback (srv_messageCallback (srv w))
             (TcpConnection_setConnectionCallback (srv_connectionCallback (srv w))
               (TcpConnection_ctor (ev E) ?o ioLoop (conn_name_of w ?k) fd (sockets_getLocalAddr (socks w fd)) peer))))"
    by (simp_all add: w3_def TcpServer_register_def Let_def nn on_srv_def)
  have inv3: "server_inv E (w3, insert ?o opened)"
    by (rule server_inv_register[OF inv small])
       (use w3 I(1) in \<open>simp_all add: removals_def\<close>)
  show ?thesis
    by (rule exI[of _ w3], intro conjI exI[of _ "conn_name_of w ?k"] exI[of _ "sockets_getLocalAddr (socks w fd)"])
       (use run inv3 w3 in simp_all)
qed

lemma server_new_inv:
  assumes U: "user_frame E" and inv: "server_inv E (w, opened)" and small: "sint (nextConnId (srv w)) < 2147483647"
    and run: "TcpServer_newConnection E 0 fd peer w = Inr w'"
  shows "server_inv E (w', insert (nextObj w) opened)"
proof -
  obtain ioLoop p where io: "EventLoopThreadPool_getNextLoop True (srv_threadPool (srv w)) = Inr (ioLoop, p)"
    using run by (auto simp: TcpServer_newConnection_def Let_def res_simps in_srv_loop_def)
  from server_registers[OF inv small io, of fd peer] obtain w3 where
    w3: "EventLoop_runInLoop (\<lambda>w. loops w ioLoop) (upd_loop ioLoop) (tid E) (F_connectEstablished (nextObj w))
      (TcpConnection_connectEstablished E (nextObj w)) w3 = Inr w'" "server_inv E (w3, insert (nextObj w) opened)"
    using run by auto
  from server_frame_inv[OF runInLoop_established_frame[OF U w3(1)] w3(2)] show ?thesis .
qed

text \<open>A removal that runs finds its connection in the map, under its name.\<close>

lemma server_inv_removed:
  assumes inv: "server_inv E (w, opened)" and c: "c \<in> opened \<union> set (removals w)"
    and w': "srv w' = (srv w)\<lparr>connections := (connections (srv w))(conn_name (conns w c) := None)\<rparr>"
      "conns w' = conns w" "nextObj w' = nextObj w" "threadId (loops w' (srv_loop (srv w))) = tid E"
      "distinct (removals w')" "opened' \<inter> set (removals w') = {}"
      "opened' \<union> set (removals w') = opened \<union> set (removals w) - {c}"
  shows "server_inv E (w', opened')"
proof -
  note I = server_invD[OF inv]
  have reg: "registered (w', opened') = opened \<union> set (removals w) - {c}" using w'(7) by (simp add: registered_def)
  have name: "\<And>k. conn_name_of w' k = conn_name_of w k" using w'(1) by (simp add: conn_name_of_def)
  have map: "connections (srv w') n = Some d \<longleftrightarrow>
      d \<in> opened \<union> set (removals w) - {c} \<and> n = conn_name (conns w' d)" for n d
    using w'(1,2) I(8)[of n d] I(7) c by (auto simp: inj_on_def)
  show ?thesis
    unfolding server_inv_def prod.case reg using w' I map
    by (auto simp: name intro: inj_on_subset)
qed

lemma removeConnectionInLoop_ok:
  assumes "connections (srv w) (conn_name (conns w c)) = Some c"
    and "threadId (loops w (srv_loop (srv w))) = t"
  shows "\<exists>w'. TcpServer_removeConnectionInLoop t c w = Inr w' \<and>
    srv w' = (srv w)\<lparr>connections := (connections (srv w))(conn_name (conns w c) := None)\<rparr> \<and>
    conns w' = conns w \<and> nextObj w' = nextObj w \<and> removals w' = removals w \<and>
    (\<forall>l. threadId (loops w' l) = threadId (loops w l)) \<and>
    pendingFunctors (loops w' (conn_loop (conns w c))) =
      pendingFunctors (loops w (conn_loop (conns w c))) @ [F_connectDestroyed c]"
  using assms
  by (simp add: TcpServer_removeConnectionInLoop_def in_srv_loop_def EventLoop_isInLoopThread_def Let_def
      removals_def removal_of_def)

text \<open>The close callback: it removes the connection at once in the server's thread, or queues the removal.\<close>

lemma server_close_ok:
  assumes inv: "server_inv E (w, opened)" and c: "c \<in> opened"
  shows "\<exists>w'. TcpServer_removeConnection t c w = Inr w' \<and> server_inv E (w', opened - {c})"
proof -
  note I = server_invD[OF inv]
  have reg: "connections (srv w) (conn_name (conns w c)) = Some c" using I(8) c by blast
  show ?thesis
  proof (cases "t = tid E")
    case True
    have th: "threadId (loops w (srv_loop (srv w))) = t" using I(1) True by simp
    obtain w' where w': "TcpServer_removeConnectionInLoop t c w = Inr w'"
      "srv w' = (srv w)\<lparr>connections := (connections (srv w))(conn_name (conns w c) := None)\<rparr>"
      "conns w' = conns w" "nextObj w' = nextObj w" "removals w' = removals w"
      "\<And>l. threadId (loops w' l) = threadId (loops w l)"
      using removeConnectionInLoop_ok[where w = w and c = c and t = t, OF reg th] by metis
    have "server_inv E (w', opened - {c})"
      by (rule server_inv_removed[OF inv _ w'(2)]) (use w' I(1,3,4) c in auto)
    then show ?thesis
      using w'(1) I(1) True
      by (simp add: TcpServer_removeConnection_def EventLoop_runInLoop_def EventLoop_isInLoopThread_def)
  next
    case False
    let ?w' = "upd_loop (srv_loop (srv w)) (EventLoop_queueInLoop t (F_removeConnectionInLoop c)) w"
    have rem: "removals ?w' = removals w @ [c]" by (simp add: removals_def removal_of_def)
    have reg': "registered (?w', opened - {c}) = registered (w, opened)"
      using c by (auto simp: registered_def rem)
    have "server_inv E (?w', opened - {c})"
      unfolding server_inv_def prod.case reg' using I c
      by (auto simp: rem registered_def conn_name_of_def)
    then show ?thesis
      using I(1) False
      by (simp add: TcpServer_removeConnection_def EventLoop_runInLoop_def EventLoop_isInLoopThread_def)
  qed
qed

text \<open>The run of a queued removal.\<close>

lemma server_remove_ok:
  assumes inv: "server_inv E (w, opened)"
    and q: "pendingFunctors (loops w (srv_loop (srv w))) = F_removeConnectionInLoop c # fs"
  defines "w0 \<equiv> upd_loop (srv_loop (srv w)) (\<lambda>l. l\<lparr>pendingFunctors := fs\<rparr>) w"
  shows "\<exists>w'. TcpServer_removeConnectionInLoop (tid E) c w0 = Inr w' \<and> server_inv E (w', opened)"
proof -
  note I = server_invD[OF inv]
  have rem: "removals w = c # removals w0" using q by (simp add: removals_def removal_of_def w0_def)
  have th: "threadId (loops w0 (srv_loop (srv w0))) = tid E" using I(1) by (simp add: w0_def)
  have reg: "connections (srv w0) (conn_name (conns w0 c)) = Some c" using I(8) rem by (simp add: w0_def)
  obtain w' where w': "TcpServer_removeConnectionInLoop (tid E) c w0 = Inr w'"
    "srv w' = (srv w0)\<lparr>connections := (connections (srv w0))(conn_name (conns w0 c) := None)\<rparr>"
    "conns w' = conns w0" "nextObj w' = nextObj w0" "removals w' = removals w0"
    "\<And>l. threadId (loops w' l) = threadId (loops w0 l)"
    using removeConnectionInLoop_ok[where w = w0 and c = c and t = "tid E", OF reg th] by metis
  have "server_inv E (w', opened)"
    by (rule server_inv_removed[OF inv]) (use w' I(1,3,4) rem in \<open>auto simp: w0_def\<close>)
  then show ?thesis using w'(1) by blast
qed

lemma server_step_inv:
  assumes "server_step E s s'" and "user_frame E" and "server_inv E s"
  shows "server_inv E s'"
  using assms
proof (induction rule: server_step.induct)
  case (server_new fd peer w w' opened)
  then show ?case by (blast intro: server_new_inv)
next
  case (server_close c opened w w')
  then show ?case using server_close_ok[of E w opened c "threadId (loops w (conn_loop (conns w c)))"] by auto
next
  case (server_remove w c fs w' opened)
  then show ?case using server_remove_ok[of E w opened c fs] by auto
next
  case (server_other w w' opened)
  then show ?case by (blast intro: server_frame_inv)
qed

lemma server_reachable_inv: "server_reachable E s \<Longrightarrow> user_frame E \<Longrightarrow> server_inv E s"
proof (induction rule: server_reachable.induct)
  case (server_start w)
  then show ?case by (simp add: server_initial_def server_inv_def registered_def)
next
  case (server_next s s')
  then show ?case by (blast intro: server_step_inv)
qed

section \<open>What the server promises\<close>

definition plain_env :: "sworld env" where
  "plain_env = base_env libev_ref 1"

lemma plain_env_frame: "user_frame plain_env"
  by (simp add: user_frame_def plain_env_def base_env_def server_frame_refl)

text \<open>A server on loop 0 of thread 1, started without further threads, and its first connection.\<close>

definition idle_server :: sworld where
  "idle_server =
     \<lparr>loops = (\<lambda>_. fresh_loop libev_ref),
      conns = (\<lambda>_. TcpConnection_ctor libev_ref 0 0 [] 9 zero_sockaddr zero_sockaddr), socks = (\<lambda>_. undefined),
      timersCreated = 0,
      srv = \<lparr>srv_loop = 0, srv_name = ''0.0.0.0:80'', srv_acceptor = busy_acceptor,
        srv_threadPool = \<lparr>baseLoop = 0, pool_started = True, numThreads = 0, next_loop = 0, pool_loops = []\<rparr>,
        srv_connectionCallback = Some 1, srv_messageCallback = Some 2, srv_writeCompleteCallback = None,
        srv_started = True, nextConnId = 1, connections = (\<lambda>_. None)\<rparr>,
      nextObj = 0\<rparr>"

lemma idle_server_reachable: "server_reachable plain_env (idle_server, {})"
  by (rule server_start)
     (simp add: server_initial_def idle_server_def removals_def plain_env_def base_env_def)

lemma first_connection:
  "\<exists>w'. server_reachable plain_env (w', {0}) \<and> TcpServer_newConnection plain_env 0 9 zero_sockaddr idle_server = Inr w'"
proof -
  have th: "EventLoop_isInLoopThread 1 (fresh_loop libev_ref)" by (simp add: EventLoop_isInLoopThread_def)
  obtain w' where w': "TcpServer_newConnection plain_env 0 9 zero_sockaddr idle_server = Inr w'"
    using th
    by (simp add: TcpServer_newConnection_def in_srv_loop_def idle_server_def plain_env_def base_env_def on_srv_def
        EventLoopThreadPool_getNextLoop_def TcpServer_register_def Let_def EventLoop_runInLoop_def
        TcpConnection_connectEstablished_def EventLoop_assertInLoopThread_def loop_of_def call_user_def
        TcpConnection_setCloseCallback_def TcpConnection_setWriteCompleteCallback_def
        TcpConnection_setMessageCallback_def TcpConnection_setConnectionCallback_def TcpConnection_ctor_def
        upd_conn_def TcpConnection_setState_def on_channel_def del: One_nat_def)
  have "server_step plain_env (idle_server, {}) (w', insert (nextObj idle_server) {})"
    by (rule server_new[OF w']) (simp add: idle_server_def)
  then have "server_reachable plain_env (w', {0})"
    using server_next[OF idle_server_reachable] by (simp add: idle_server_def)
  then show ?thesis using w' by blast
qed

text \<open>
  C12. The map of connections is exact. Over any interleaving of new connections, of close callbacks in the
  threads of the connections' loops and of removals in the server's loop, the server's map holds exactly
  the connections that are open or whose removal waits in the queue, each under its own name, and no two
  of them share a name; so the close callback of an open connection and every queued removal return:
  the assertion that \<open>erase\<close> found one entry never fails.
\<close>

theorem server_map_exact:
  assumes "user_frame E" and "server_reachable E (w, opened)"
  shows "(\<forall>n c. connections (srv w) n = Some c \<longleftrightarrow>
      c \<in> opened \<union> set (removals w) \<and> n = conn_name (conns w c)) \<and>
    inj_on (\<lambda>c. conn_name (conns w c)) (opened \<union> set (removals w)) \<and>
    (\<forall>c t. c \<in> opened \<longrightarrow> (\<exists>w'. TcpServer_removeConnection t c w = Inr w')) \<and>
    (\<forall>c fs. pendingFunctors (loops w (srv_loop (srv w))) = F_removeConnectionInLoop c # fs \<longrightarrow>
       (\<exists>w'. TcpServer_removeConnectionInLoop (tid E) c
          (upd_loop (srv_loop (srv w)) (\<lambda>l. l\<lparr>pendingFunctors := fs\<rparr>) w) = Inr w'))"
proof -
  have inv: "server_inv E (w, opened)" by (rule server_reachable_inv[OF assms(2,1)])
  show ?thesis
  proof (intro conjI allI impI)
    show "\<exists>w'. TcpServer_removeConnection t c w = Inr w'" if "c \<in> opened" for c t
      using server_close_ok[OF inv that] by blast
  next
    fix c fs
    assume "pendingFunctors (loops w (srv_loop (srv w))) = F_removeConnectionInLoop c # fs"
    from server_remove_ok[OF inv this]
    show "\<exists>w'. TcpServer_removeConnectionInLoop (tid E) c
        (upd_loop (srv_loop (srv w)) (\<lambda>l. l\<lparr>pendingFunctors := fs\<rparr>) w) = Inr w'" by blast
  qed (rule server_invD(8)[OF inv] server_invD(7)[OF inv])+
qed

lemma server_map_exact_witness:
  "\<exists>w. server_reachable plain_env (w, {0}) \<and> connections (srv w) (conn_name (conns w 0)) = Some 0 \<and>
     (\<exists>w'. TcpServer_removeConnection 1 0 w = Inr w')"
proof -
  obtain w where w: "server_reachable plain_env (w, {0})" using first_connection by blast
  from server_map_exact[OF plain_env_frame w] show ?thesis using w by blast
qed

text \<open>
  A removal destroys its connection. The run of \<open>removeConnectionInLoop\<close> on a registered connection
  erases it from the map, leaves every other entry, and queues \<open>connectDestroyed\<close> for it once, on the
  connection's own loop.
\<close>

theorem server_removal_effect:
  assumes "connections (srv w) (conn_name (conns w c)) = Some c"
    and "threadId (loops w (srv_loop (srv w))) = t"
  shows "\<exists>w'. TcpServer_removeConnectionInLoop t c w = Inr w' \<and>
    connections (srv w') = (connections (srv w))(conn_name (conns w c) := None) \<and>
    pendingFunctors (loops w' (conn_loop (conns w c))) =
      pendingFunctors (loops w (conn_loop (conns w c))) @ [F_connectDestroyed c]"
  using removeConnectionInLoop_ok[OF assms] by auto

text \<open>
  C35. Starting twice. A second \<open>start\<close> does not start the thread pool again, but, because nothing ever sets
  \<open>listening_\<close>, it does run \<open>Acceptor::listen\<close> again: the call of \<open>listen(2)\<close> is repeated every time.
\<close>

theorem server_start_again_listens_again:
  assumes "srv_started (srv w)" and "\<not> acc_listening (srv_acceptor (srv w))"
    and "threadId (loops w (srv_loop (srv w))) = t"
  shows "TcpServer_start L t startLoop ret w =
    (if ret < 0 then Inl Fatal
     else Inr (on_srv (\<lambda>s. s\<lparr>srv_acceptor := (srv_acceptor s)
        \<lparr>acceptChannel := Channel_enableReading L (acceptChannel (srv_acceptor s))\<rparr>\<rparr>) w))"
  using assms
  by (simp add: TcpServer_start_def Acceptor_listening_def EventLoop_runInLoop_def EventLoop_isInLoopThread_def
      TcpServer_listen_def Acceptor_listen_def in_srv_loop_def Socket_listen_def sockets_listenOrDie_def
      Let_def on_srv_def ensure_def)

lemma server_start_again_listens_again_witness:
  "TcpServer_start libev_ref 1 (\<lambda>i. i) (-1) idle_server = Inl Fatal"
  using server_start_again_listens_again[of idle_server 1 libev_ref "\<lambda>i. i" "-1"]
  by (simp add: idle_server_def busy_acceptor_def del: One_nat_def)

end
