(* ===== verification/Server_Life.thy ===== *)
theory Server_Life
  imports Tcp_Server
begin

text \<open>
  A server, its connections and the loops they live in (net/TcpServer.cc and net/TcpConnection.cc over
  net/EventLoop.cc): a connection is accepted in the server's thread, established in the thread of its own
  loop, closed there, removed from the map in the server's thread again, and destroyed in its own. The
  theory composes these hand-overs, which travel as functors through the queues of the loops, and shows
  that each connection goes through them in order, exactly once, and that no assertion fails on the way.
\<close>

section \<open>Stages of a connection\<close>

datatype stage = Queued | Open | Closing | Leaving | Gone

abbreviation reading_on :: "TcpConnection \<Rightarrow> bool" where
  "reading_on c \<equiv> Channel_isReading (conn_channel c)"

abbreviation live_on :: "TcpConnection \<Rightarrow> bool" where
  "live_on c \<equiv> Channel_live (conn_channel c)"

abbreviation queue_of :: "sworld \<Rightarrow> loop_id \<Rightarrow> Functor list" where
  "queue_of w l \<equiv> pendingFunctors (loops w l)"

definition stage :: "sworld \<Rightarrow> conn_id \<Rightarrow> stage" where
  "stage w c =
     (if conn_state (conns w c) = kConnecting then Queued
      else if conn_state (conns w c) = kDisconnected then Gone
      else if reading_on (conns w c) then Open
      else if F_removeConnectionInLoop c \<in> set (queue_of w (srv_loop (srv w))) then Closing
      else Leaving)"

fun stage_next :: "stage \<Rightarrow> stage set" where
  "stage_next Queued = {Open}"
| "stage_next Open = {Closing, Leaving}"
| "stage_next Closing = {Leaving}"
| "stage_next Leaving = {Gone}"
| "stage_next Gone = {}"

text \<open>
  The functors that move a connection on, and where they wait in each stage: \<open>sl\<close> is the server's loop,
  \<open>cl\<close> the connection's.
\<close>

fun about :: "conn_id \<Rightarrow> Functor \<Rightarrow> bool" where
  "about c (F_connectEstablished d) \<longleftrightarrow> d = c"
| "about c (F_removeConnectionInLoop d) \<longleftrightarrow> d = c"
| "about c (F_connectDestroyed d) \<longleftrightarrow> d = c"
| "about c _ \<longleftrightarrow> False"

fun hand_over :: "Functor \<Rightarrow> bool" where
  "hand_over (F_connectEstablished d) \<longleftrightarrow> True"
| "hand_over (F_removeConnectionInLoop d) \<longleftrightarrow> True"
| "hand_over (F_connectDestroyed d) \<longleftrightarrow> True"
| "hand_over _ \<longleftrightarrow> False"

definition in_flight :: "sworld \<Rightarrow> conn_id \<Rightarrow> loop_id \<Rightarrow> Functor list" where
  "in_flight w c = (\<lambda>l. filter (about c) (queue_of w l))"

fun expected :: "loop_id \<Rightarrow> loop_id \<Rightarrow> conn_id \<Rightarrow> stage \<Rightarrow> loop_id \<Rightarrow> Functor list" where
  "expected sl cl c Queued = (\<lambda>_. [])(cl := [F_connectEstablished c])"
| "expected sl cl c Open = (\<lambda>_. [])"
| "expected sl cl c Closing = (\<lambda>_. [])(sl := [F_removeConnectionInLoop c])"
| "expected sl cl c Leaving = (\<lambda>_. [])(cl := [F_connectDestroyed c])"
| "expected sl cl c Gone = (\<lambda>_. [])"

section \<open>The system\<close>

text \<open>
  What user code and everything else may do to a connection: not to its name, loop and callbacks, nor to
  whether its watcher is active and watches for reading; \<open>shutdown\<close> may be called, and a connection that is
  disconnected is left alone by \<open>send\<close> and \<open>shutdown\<close>. It posts no functor of the server's.
\<close>

definition conn_frame :: "TcpConnection \<Rightarrow> TcpConnection \<Rightarrow> bool" where
  "conn_frame c c' \<longleftrightarrow> conn_name c' = conn_name c \<and> conn_loop c' = conn_loop c \<and>
     connectionCallback c' = connectionCallback c \<and> closeCallback c' = closeCallback c \<and>
     live_on c' = live_on c \<and> reading_on c' = reading_on c \<and>
     (conn_state c' = conn_state c \<or> conn_state c = kConnected \<and> conn_state c' = kDisconnecting) \<and>
     (conn_state c = kDisconnected \<longrightarrow> conn_channel c' = conn_channel c)"

definition life_frame :: "sworld \<Rightarrow> sworld \<Rightarrow> bool" where
  "life_frame w w' \<longleftrightarrow> srv w' = srv w \<and> nextObj w' = nextObj w \<and>
     (\<forall>l. threadId (loops w' l) = threadId (loops w l) \<and>
        filter hand_over (queue_of w' l) = filter hand_over (queue_of w l)) \<and>
     (\<forall>c. conn_frame (conns w c) (conns w' c))"

type_synonym user_code = "user_callback \<Rightarrow> user_arg \<Rightarrow> sworld \<Rightarrow> sworld res"

definition life_user_ok :: "user_code \<Rightarrow> bool" where
  "life_user_ok U \<longleftrightarrow> (\<forall>f arg w. \<exists>w'. U f arg w = Inr w' \<and> life_frame w w')"

text \<open>The environment of the operations in thread \<open>t\<close>: the close callback is the server's.\<close>

definition srv_env :: "libev \<Rightarrow> user_code \<Rightarrow> thread_id \<Rightarrow> sworld env" where
  "srv_env L U t = \<lparr>ev = L, tid = t, user = U,
     closer = (\<lambda>f c w. case f of Cb_TcpServer_removeConnection \<Rightarrow> TcpServer_removeConnection t c w | _ \<Rightarrow> Inr w)\<rparr>"

fun srv_functor :: "libev \<Rightarrow> user_code \<Rightarrow> thread_id \<Rightarrow> Functor \<Rightarrow> sworld \<Rightarrow> sworld res" where
  "srv_functor L U t (F_connectEstablished c) w = TcpConnection_connectEstablished (srv_env L U t) c w"
| "srv_functor L U t (F_removeConnectionInLoop c) w = TcpServer_removeConnectionInLoop t c w"
| "srv_functor L U t (F_connectDestroyed c) w = TcpConnection_connectDestroyed (srv_env L U t) c w"
| "srv_functor L U t _ w = Inr w"

text \<open>
  An accepted connection in the server's thread, the run of the first functor of a loop's queue and the
  \<open>handleClose\<close> of a connection, each in the thread of the loop, and everything else.
\<close>

datatype srv_act =
    Srv_accept int sockaddr_in
  | Srv_run loop_id
  | Srv_close conn_id
  | Srv_other sworld

abbreviation thread_of :: "sworld \<Rightarrow> loop_id \<Rightarrow> thread_id" where
  "thread_of w l \<equiv> threadId (loops w l)"

fun srv_do :: "libev \<Rightarrow> user_code \<Rightarrow> srv_act \<Rightarrow> sworld \<Rightarrow> sworld res" where
  "srv_do L U (Srv_accept fd peer) w =
     TcpServer_newConnection (srv_env L U (thread_of w (srv_loop (srv w)))) 0 fd peer w"
| "srv_do L U (Srv_run l) w =
     (case queue_of w l of
        [] \<Rightarrow> Inr w
      | f # fs \<Rightarrow> srv_functor L U (thread_of w l) f (upd_loop l (pendingFunctors_update (\<lambda>_. fs)) w))"
| "srv_do L U (Srv_close c) w =
     TcpConnection_handleClose (srv_env L U (thread_of w (conn_loop (conns w c)))) c w"
| "srv_do L U (Srv_other w') w = Inr w'"

text \<open>The numbers of connections do not overflow; \<open>handleClose\<close> follows a read event.\<close>

fun srv_enabled :: "srv_act \<Rightarrow> sworld \<Rightarrow> bool" where
  "srv_enabled (Srv_accept fd peer) w \<longleftrightarrow> sint (nextConnId (srv w)) < 2147483647"
| "srv_enabled (Srv_run l) w \<longleftrightarrow> True"
| "srv_enabled (Srv_close c) w \<longleftrightarrow> c < nextObj w \<and> live_on (conns w c) \<and> reading_on (conns w c)"
| "srv_enabled (Srv_other w') w \<longleftrightarrow> life_frame w w'"

definition pool_ready :: "EventLoopThreadPool \<Rightarrow> bool" where
  "pool_ready p \<longleftrightarrow> pool_started p \<and>
     (pool_loops p \<noteq> [] \<longrightarrow> numThreads p = int (length (pool_loops p)) \<and> next_loop p < length (pool_loops p))"

definition life_initial :: "sworld \<Rightarrow> bool" where
  "life_initial w \<longleftrightarrow> connections (srv w) = (\<lambda>_. None) \<and> nextConnId (srv w) = 1 \<and> nextObj w = 0 \<and>
     pool_ready (srv_threadPool (srv w)) \<and> srv_connectionCallback (srv w) \<noteq> None \<and>
     (\<forall>c. in_flight w c = (\<lambda>_. []))"

inductive life_reachable :: "libev \<Rightarrow> user_code \<Rightarrow> sworld \<Rightarrow> bool" for L U where
  life_start: "life_initial w \<Longrightarrow> life_reachable L U w"
| life_next: "life_reachable L U w \<Longrightarrow> srv_enabled a w \<Longrightarrow> srv_do L U a w = Inr w' \<Longrightarrow> life_reachable L U w'"

section \<open>Invariant\<close>

text \<open>
  \<open>life_core\<close> leaves open whether the watcher of a connection that is being destroyed is still active.
\<close>

definition stage_ok :: "sworld \<Rightarrow> conn_id \<Rightarrow> bool" where
  "stage_ok w c \<longleftrightarrow> connectionCallback (conns w c) \<noteq> None \<and>
     closeCallback (conns w c) = Some Cb_TcpServer_removeConnection \<and>
     in_flight w c = expected (srv_loop (srv w)) (conn_loop (conns w c)) c (stage w c) \<and>
     (stage w c \<noteq> Gone \<longrightarrow> live_on (conns w c)) \<and> (reading_on (conns w c) \<longleftrightarrow> stage w c = Open)"

definition open_conns :: "sworld \<Rightarrow> conn_id set" where
  "open_conns w = {c. c < nextObj w \<and> stage w c \<in> {Queued, Open}}"

abbreviation srv_thread :: "sworld \<Rightarrow> thread_id" where
  "srv_thread w \<equiv> thread_of w (srv_loop (srv w))"

definition life_core :: "libev \<Rightarrow> user_code \<Rightarrow> sworld \<Rightarrow> bool" where
  "life_core L U w \<longleftrightarrow> server_inv (srv_env L U (srv_thread w)) (w, open_conns w) \<and>
     pool_ready (srv_threadPool (srv w)) \<and> srv_connectionCallback (srv w) \<noteq> None \<and>
     (\<forall>c < nextObj w. stage_ok w c) \<and> (\<forall>c. nextObj w \<le> c \<longrightarrow> in_flight w c = (\<lambda>_. []))"

definition life_inv :: "libev \<Rightarrow> user_code \<Rightarrow> sworld \<Rightarrow> bool" where
  "life_inv L U w \<longleftrightarrow> life_core L U w \<and> (\<forall>c < nextObj w. stage w c = Gone \<longrightarrow> \<not> live_on (conns w c))"

lemma life_coreD:
  assumes "life_core L U w"
  shows "server_inv (srv_env L U (srv_thread w)) (w, open_conns w)" "pool_ready (srv_threadPool (srv w))"
    "srv_connectionCallback (srv w) \<noteq> None" "\<And>c. c < nextObj w \<Longrightarrow> stage_ok w c"
    "\<And>c. nextObj w \<le> c \<Longrightarrow> in_flight w c = (\<lambda>_. [])"
  using assms by (auto simp: life_core_def)

lemma life_invD:
  assumes "life_inv L U w"
  shows "life_core L U w" "\<And>c. c < nextObj w \<Longrightarrow> stage w c = Gone \<Longrightarrow> \<not> live_on (conns w c)"
  using assms by (auto simp: life_inv_def)

lemma srv_env_simps [simp]:
  "ev (srv_env L U t) = L" "tid (srv_env L U t) = t" "user (srv_env L U t) = U"
  "closer (srv_env L U t) Cb_TcpServer_removeConnection c w = TcpServer_removeConnection t c w"
  by (simp_all add: srv_env_def)

text \<open>What the elementary changes do to the functors in flight.\<close>

lemma in_flight_upd [simp]:
  "in_flight (upd_loop l (EventLoop_queueInLoop t f) w) c =
     (if about c f then (in_flight w c)(l := in_flight w c l @ [f]) else in_flight w c)"
  "in_flight (upd_conn d g w) c = in_flight w c" "in_flight (on_srv h w) c = in_flight w c"
  "in_flight (upd_sock fd k w) c = in_flight w c"
  by (auto simp: in_flight_def)

lemma in_flight_pop:
  assumes "queue_of w l = f # fs"
  shows "in_flight (upd_loop l (pendingFunctors_update (\<lambda>_. fs)) w) c =
    (if about c f then (in_flight w c)(l := tl (in_flight w c l)) else in_flight w c)"
  using assms by (auto simp: in_flight_def)

lemma in_flight_hd: "queue_of w l = f # fs \<Longrightarrow> about c f \<Longrightarrow> hd (in_flight w c l) = f \<and> in_flight w c l \<noteq> []"
  by (simp add: in_flight_def)

lemma closing_flight:
  "F_removeConnectionInLoop c \<in> set (queue_of w l) \<longleftrightarrow> F_removeConnectionInLoop c \<in> set (in_flight w c l)"
  by (simp add: in_flight_def)

lemma removals_flight: "c \<in> set (removals w) \<longleftrightarrow> F_removeConnectionInLoop c \<in> set (in_flight w c (srv_loop (srv w)))"
  by (auto simp: removals_def removal_of_def in_flight_def split: Functor.splits)

section \<open>What everything else does\<close>

lemma about_hand_over: "about c f \<Longrightarrow> hand_over f"
  by (cases f) simp_all

lemma in_flight_hand_over: "in_flight w c l = filter (about c) (filter hand_over (queue_of w l))"
  unfolding in_flight_def filter_filter by (rule filter_cong) (auto dest: about_hand_over)

lemma removals_hand_over:
  "removals w = concat (map removal_of (filter hand_over (queue_of w (srv_loop (srv w)))))"
proof -
  have "concat (map removal_of fs) = concat (map removal_of (filter hand_over fs))" for fs
  proof (induction fs)
    case (Cons f fs)
    then show ?case by (cases f) (simp_all add: removal_of_def)
  qed simp
  then show ?thesis by (simp add: removals_def)
qed

lemma life_frame_in_flight: "life_frame w w' \<Longrightarrow> in_flight w' c = in_flight w c"
  by (rule ext) (simp add: life_frame_def in_flight_hand_over)

lemma life_frame_server: "life_frame w w' \<Longrightarrow> server_frame w w'"
  by (simp add: life_frame_def server_frame_def conn_frame_def removals_hand_over)

lemma life_frame_stage:
  assumes "life_frame w w'"
  shows "stage w' c = stage w c"
proof -
  have "conn_state (conns w' c) = conn_state (conns w c) \<or>
      conn_state (conns w c) = kConnected \<and> conn_state (conns w' c) = kDisconnecting"
    "reading_on (conns w' c) = reading_on (conns w c)" "srv w' = srv w"
    using assms by (simp_all add: life_frame_def conn_frame_def)
  moreover have "F_removeConnectionInLoop c \<in> set (queue_of w' l) \<longleftrightarrow> F_removeConnectionInLoop c \<in> set (queue_of w l)" for l
    using life_frame_in_flight[OF assms, of c] by (simp add: closing_flight)
  ultimately show ?thesis by (auto simp: stage_def)
qed

lemma life_frame_core:
  assumes fr: "life_frame w w'" and inv: "life_core L U w"
  shows "life_core L U w'"
proof -
  note I = life_coreD[OF inv] and st = life_frame_stage[OF fr] and fl = life_frame_in_flight[OF fr]
  have same: "srv w' = srv w" "nextObj w' = nextObj w" "\<And>l. thread_of w' l = thread_of w l"
    "\<And>c. conn_frame (conns w c) (conns w' c)"
    using fr by (simp_all add: life_frame_def)
  have op: "open_conns w' = open_conns w" using same(2) st by (simp add: open_conns_def)
  have "server_inv (srv_env L U (srv_thread w')) (w', open_conns w')"
    using server_frame_inv[OF life_frame_server[OF fr] I(1)] same(1,3) op by simp
  moreover have "stage_ok w' c" if "c < nextObj w'" for c
    using I(4)[of c] that same(1,2) same(4)[of c] st fl by (simp add: stage_ok_def conn_frame_def)
  ultimately show ?thesis using I(2,3,5) same(1,2) fl by (simp add: life_core_def)
qed

lemma life_frame_inv:
  assumes "life_frame w w'" and "life_inv L U w"
  shows "life_inv L U w'"
proof -
  have "nextObj w' = nextObj w" "live_on (conns w' c) = live_on (conns w c)" for c
    using assms(1) by (simp_all add: life_frame_def conn_frame_def)
  then show ?thesis using assms life_frame_core life_frame_stage[OF assms(1)] by (simp add: life_inv_def)
qed

lemma life_user_frame: "life_user_ok U \<Longrightarrow> user_frame (srv_env L U t)"
  by (auto simp: life_user_ok_def user_frame_def intro!: life_frame_server) (metis Inr_inject)

section \<open>One connection moves on\<close>

lemma stage_cong:
  assumes "conns w' c = conns w c" "in_flight w' c = in_flight w c" "srv_loop (srv w') = srv_loop (srv w)"
  shows "stage w' c = stage w c" and "stage_ok w' c = stage_ok w c"
proof -
  show "stage w' c = stage w c" using assms by (simp add: stage_def closing_flight)
  then show "stage_ok w' c = stage_ok w c" using assms by (simp add: stage_ok_def)
qed

lemma life_core_moved:
  assumes inv: "life_core L U w" and c: "c < nextObj w"
    and srv: "\<And>opened. opened = open_conns w - {c} \<union> (if stage w' c \<in> {Queued, Open} then {c} else {}) \<Longrightarrow>
      server_inv (srv_env L U (srv_thread w')) (w', opened)"
    and same: "nextObj w' = nextObj w" "srv_threadPool (srv w') = srv_threadPool (srv w)"
      "srv_connectionCallback (srv w') = srv_connectionCallback (srv w)" "srv_loop (srv w') = srv_loop (srv w)"
    and moved: "stage_ok w' c"
    and others: "\<And>d. d \<noteq> c \<Longrightarrow> conns w' d = conns w d" "\<And>d. d \<noteq> c \<Longrightarrow> in_flight w' d = in_flight w d"
  shows "life_core L U w'" and "d \<noteq> c \<Longrightarrow> stage w' d = stage w d"
proof -
  note I = life_coreD[OF inv]
  have st: "stage w' d = stage w d" "stage_ok w' d = stage_ok w d" if "d \<noteq> c" for d
    using stage_cong[of w' d w] others that same(4) by simp_all
  show "d \<noteq> c \<Longrightarrow> stage w' d = stage w d" by (rule st(1))
  have "x \<in> open_conns w' \<longleftrightarrow> x \<in> open_conns w - {c} \<union> (if stage w' c \<in> {Queued, Open} then {c} else {})" for x
    using st(1)[of x] same(1) c by (cases "x = c") (simp_all add: open_conns_def)
  then have "open_conns w' = open_conns w - {c} \<union> (if stage w' c \<in> {Queued, Open} then {c} else {})" by blast
  then have "server_inv (srv_env L U (srv_thread w')) (w', open_conns w')" by (rule srv)
  moreover have "stage_ok w' d" if "d < nextObj w'" for d
    using I(4)[of d] that same(1) moved st(2)[of d] by (cases "d = c") simp_all
  moreover have "in_flight w' d = (\<lambda>_. [])" if "nextObj w' \<le> d" for d
    using I(5)[of d] that same(1) c others(2)[of d] by simp
  ultimately show "life_core L U w'" using I(2,3) same by (simp add: life_core_def)
qed

text \<open>Which stage a functor at the head of a queue belongs to, and that it is the only one in flight.\<close>

lemma popped_flight:
  assumes inv: "life_core L U w" and q: "queue_of w l = f # fs" and f: "about c f"
  shows "c < nextObj w" and "in_flight w c = (\<lambda>_. [])(l := [f])"
    and "f = F_connectEstablished c \<Longrightarrow> stage w c = Queued \<and> l = conn_loop (conns w c)"
    and "f = F_removeConnectionInLoop c \<Longrightarrow> stage w c = Closing \<and> l = srv_loop (srv w)"
    and "f = F_connectDestroyed c \<Longrightarrow> stage w c = Leaving \<and> l = conn_loop (conns w c)"
proof -
  note I = life_coreD[OF inv] and h = in_flight_hd[OF q f]
  show c: "c < nextObj w" using I(5)[of c] h by (cases "c < nextObj w") auto
  have e: "in_flight w c = expected (srv_loop (srv w)) (conn_loop (conns w c)) c (stage w c)"
    using I(4)[OF c] by (simp add: stage_ok_def)
  show "in_flight w c = (\<lambda>_. [])(l := [f])"
    using h unfolding e by (cases "stage w c") (auto split: if_splits)
  show "f = F_connectEstablished c \<Longrightarrow> stage w c = Queued \<and> l = conn_loop (conns w c)"
    "f = F_removeConnectionInLoop c \<Longrightarrow> stage w c = Closing \<and> l = srv_loop (srv w)"
    "f = F_connectDestroyed c \<Longrightarrow> stage w c = Leaving \<and> l = conn_loop (conns w c)"
    using h unfolding e by (cases "stage w c"; auto split: if_splits)+
qed

lemma popped_in_flight:
  assumes inv: "life_core L U w" and q: "queue_of w l = f # fs" and f: "about c f"
  defines "w0 \<equiv> upd_loop l (pendingFunctors_update (\<lambda>_. fs)) w"
  shows "in_flight w0 c = (\<lambda>_. [])" and "d \<noteq> c \<Longrightarrow> in_flight w0 d = in_flight w d"
proof -
  show "in_flight w0 c = (\<lambda>_. [])"
    using in_flight_pop[OF q, of c] popped_flight(2)[OF inv q f] f by (simp add: w0_def fun_eq_iff)
  have "d \<noteq> c \<Longrightarrow> \<not> about d f" using f by (cases f) auto
  then show "d \<noteq> c \<Longrightarrow> in_flight w0 d = in_flight w d" using in_flight_pop[OF q, of d] by (simp add: w0_def)
qed

lemma conn_name_simps [simp]:
  "conn_name (on_channel g c) = conn_name c" "conn_name (TcpConnection_setState s c) = conn_name c"
  by (simp_all add: on_channel_def TcpConnection_setState_def)

lemma removals_upd_conn [simp]: "removals (upd_conn c g w) = removals w"
  by (simp add: removals_def)

definition stages_move :: "sworld \<Rightarrow> sworld \<Rightarrow> bool" where
  "stages_move w w' \<longleftrightarrow> (\<forall>c < nextObj w. stage w' c = stage w c \<or> stage w' c \<in> stage_next (stage w c))"

lemma life_inv_moved:
  assumes "life_inv L U w" and "life_core L U w'" and "nextObj w' = nextObj w"
    and "\<And>d. d \<noteq> c \<Longrightarrow> conns w' d = conns w d" and "\<And>d. d \<noteq> c \<Longrightarrow> stage w' d = stage w d"
    and "stage w' c = Gone \<Longrightarrow> \<not> live_on (conns w' c)"
  shows "life_inv L U w'"
  unfolding life_inv_def
proof (intro conjI allI impI)
  fix d assume "d < nextObj w'" "stage w' d = Gone"
  then show "\<not> live_on (conns w' d)" using assms life_invD(2)[OF assms(1), of d] by (cases "d = c") simp_all
qed (rule assms(2))

text \<open>\<open>connectEstablished\<close>, after its functor was taken from the queue.\<close>

lemma established_step:
  assumes L: "libev_ok L" and U: "life_user_ok U" and inv: "life_inv L U w"
    and c: "c < nextObj w" "stage w c = Queued"
    and w0: "conns w0 = conns w" "srv w0 = srv w" "nextObj w0 = nextObj w" "\<And>l. thread_of w0 l = thread_of w l"
      "in_flight w0 c = (\<lambda>_. [])" "\<And>d. d \<noteq> c \<Longrightarrow> in_flight w0 d = in_flight w d" "removals w0 = removals w"
  shows "\<exists>w'. TcpConnection_connectEstablished (srv_env L U (thread_of w (conn_loop (conns w c)))) c w0 = Inr w' \<and>
    life_inv L U w' \<and> stages_move w w'"
proof -
  note core = life_invD(1)[OF inv] and I = life_coreD[OF life_invD(1)[OF inv]]
  let ?t = "thread_of w (conn_loop (conns w c))"
  let ?w1 = "upd_conn c (on_channel (Channel_enableReading L)) (upd_conn c (TcpConnection_setState kConnected) w0)"
  have ok: "connectionCallback (conns w c) \<noteq> None" "closeCallback (conns w c) = Some Cb_TcpServer_removeConnection"
    "live_on (conns w c)" using I(4)[OF c(1)] c(2) by (simp_all add: stage_ok_def)
  have st: "conn_state (conns w c) = kConnecting" using c(2) by (auto simp: stage_def split: if_splits)
  obtain f where f: "connectionCallback (conns w c) = Some f" using ok(1) by blast
  obtain w' where w': "U f (On_connection c) ?w1 = Inr w'" "life_frame ?w1 w'" using U by (auto simp: life_user_ok_def) blast
  have run: "TcpConnection_connectEstablished (srv_env L U ?t) c w0 = Inr w'"
    using w0(1,4) st f w'(1)
    by (simp add: TcpConnection_connectEstablished_def EventLoop_assertInLoopThread_def EventLoop_isInLoopThread_def
        loop_of_def call_user_def)
  have stage1: "stage ?w1 c = Open" using L w0(1) ok(3) by (simp add: stage_def)
  have fr: "server_frame w ?w1" using w0(1,2,3,4,7) by (simp add: server_frame_def)
  have "open_conns w - {c} \<union> {c} = open_conns w" using c by (auto simp: open_conns_def)
  then have srv: "server_inv (srv_env L U (srv_thread ?w1)) (?w1, opened)"
    if "opened = open_conns w - {c} \<union> (if stage ?w1 c \<in> {Queued, Open} then {c} else {})" for opened
    using server_frame_inv[OF fr I(1)] that stage1 w0(2,4) by simp
  have moved: "stage_ok ?w1 c" using L ok stage1 w0(1,5) by (simp add: stage_ok_def)
  have others: "conns ?w1 d = conns w d" "in_flight ?w1 d = in_flight w d" if "d \<noteq> c" for d
    using that w0(1,6) by simp_all
  have keep: "nextObj ?w1 = nextObj w" "srv_threadPool (srv ?w1) = srv_threadPool (srv w)"
    "srv_connectionCallback (srv ?w1) = srv_connectionCallback (srv w)" "srv_loop (srv ?w1) = srv_loop (srv w)"
    using w0(2,3) by simp_all
  have core1: "life_core L U ?w1" by (rule life_core_moved(1)[OF core c(1) srv keep moved others])
  have same: "stage ?w1 d = stage w d" if "d \<noteq> c" for d
    by (rule life_core_moved(2)[OF core c(1) srv keep moved others that])
  have "\<not> stage ?w1 c = Gone" unfolding stage1 by simp
  then have "life_inv L U ?w1"
    by (intro life_inv_moved[OF inv core1 keep(1) others(1) same]) blast+
  moreover have "stage w' d = stage w d \<or> stage w' d \<in> stage_next (stage w d)" for d
    using life_frame_stage[OF w'(2), of d] same[of d] stage1 c(2) by (cases "d = c") simp_all
  ultimately show ?thesis using run life_frame_inv[OF w'(2)] by (auto simp: stages_move_def)
qed

text \<open>The removal from the map, from a state in which nothing about the connection is in flight.\<close>

lemma removeConnectionInLoop_Inr:
  "TcpServer_removeConnectionInLoop t c w = Inr w' \<Longrightarrow>
   w' = upd_loop (conn_loop (conns w c)) (EventLoop_queueInLoop t (F_connectDestroyed c))
     (on_srv (\<lambda>s. s\<lparr>connections := (connections s)(conn_name (conns w c) := None)\<rparr>) w)"
  by (simp add: TcpServer_removeConnectionInLoop_def Let_def res_simps)

lemma removed_step:
  assumes inv: "life_inv L U w" and c: "c < nextObj w" "stage w c \<in> {Open, Closing}"
    and w0: "\<And>d. d \<noteq> c \<Longrightarrow> conns w0 d = conns w d" "srv w0 = srv w" "nextObj w0 = nextObj w"
      "\<And>l. thread_of w0 l = thread_of w l"
      "in_flight w0 c = (\<lambda>_. [])" "\<And>d. d \<noteq> c \<Longrightarrow> in_flight w0 d = in_flight w d"
    and c0: "conn_loop (conns w0 c) = conn_loop (conns w c)" "connectionCallback (conns w0 c) = connectionCallback (conns w c)"
      "closeCallback (conns w0 c) = closeCallback (conns w c)" "conn_state (conns w0 c) = conn_state (conns w c)"
      "live_on (conns w0 c) = live_on (conns w c)" "\<not> reading_on (conns w0 c)"
    and run: "TcpServer_removeConnectionInLoop t c w0 = Inr w'"
    and srv': "server_inv (srv_env L U (srv_thread w)) (w', open_conns w - {c})"
  shows "life_inv L U w' \<and> stages_move w w' \<and> stage w' c = Leaving"
proof -
  note core = life_invD(1)[OF inv] and I = life_coreD[OF life_invD(1)[OF inv]]
  have w': "w' = upd_loop (conn_loop (conns w0 c)) (EventLoop_queueInLoop t (F_connectDestroyed c))
      (on_srv (\<lambda>s. s\<lparr>connections := (connections s)(conn_name (conns w0 c) := None)\<rparr>) w0)"
    by (rule removeConnectionInLoop_Inr[OF run])
  have fl: "in_flight w' c = (\<lambda>_. [])(conn_loop (conns w c) := [F_connectDestroyed c])"
    using w0(5) c0(1) by (simp add: w')
  have st: "conn_state (conns w c) \<noteq> kConnecting" "conn_state (conns w c) \<noteq> kDisconnected" "live_on (conns w c)"
    using c(2) I(4)[OF c(1)] by (auto simp: stage_def stage_ok_def split: if_splits)
  have conn: "conns w' = conns w0" "nextObj w' = nextObj w" "srv_loop (srv w') = srv_loop (srv w)"
    "srv_threadPool (srv w') = srv_threadPool (srv w)" "srv_connectionCallback (srv w') = srv_connectionCallback (srv w)"
    "\<And>l. thread_of w' l = thread_of w l"
    using w0(2,3,4) by (simp_all add: w')
  have "F_removeConnectionInLoop c \<notin> set (queue_of w' (srv_loop (srv w')))"
    using fl by (simp add: closing_flight)
  then have stage': "stage w' c = Leaving" using st(1,2) conn(1) c0(4,6) by (simp add: stage_def)
  have moved: "stage_ok w' c" using I(4)[OF c(1)] stage' conn(1) c0 fl st(3) by (simp add: stage_ok_def)
  have others: "conns w' d = conns w d" "in_flight w' d = in_flight w d" if "d \<noteq> c" for d
    using that w0(1,6) conn(1) by (simp_all add: w')
  have core': "life_core L U w'" and same: "\<And>d. d \<noteq> c \<Longrightarrow> stage w' d = stage w d"
    using life_core_moved[OF core c(1) _ conn(2,4,5,3) moved others] srv' stage' conn(3,6) by simp_all
  have "\<not> stage w' c = Gone" unfolding stage' by simp
  then have "life_inv L U w'"
    by (intro life_inv_moved[OF inv core' conn(2) others(1) same]) blast+
  moreover have "stage w' d = stage w d \<or> stage w' d \<in> stage_next (stage w d)" for d
    using same[of d] stage' c(2) by (cases "d = c") auto
  ultimately show ?thesis using stage' by (simp add: stages_move_def)
qed

text \<open>The close of an open connection: the watcher is silenced, and the removal is run or posted.\<close>

lemma close_step:
  assumes L: "libev_ok L" and inv: "life_inv L U w" and c: "c < nextObj w" "live_on (conns w c)" "reading_on (conns w c)"
  shows "\<exists>w'. srv_do L U (Srv_close c) w = Inr w' \<and> life_inv L U w' \<and> stages_move w w'"
proof -
  note core = life_invD(1)[OF inv] and I = life_coreD[OF life_invD(1)[OF inv]]
  let ?t = "thread_of w (conn_loop (conns w c))"
  let ?w1 = "upd_conn c (on_channel (Channel_disableAll L)) w"
  have ok: "connectionCallback (conns w c) \<noteq> None" "closeCallback (conns w c) = Some Cb_TcpServer_removeConnection"
    "stage w c = Open" "in_flight w c = (\<lambda>_. [])" using I(4)[OF c(1)] c(3) by (simp_all add: stage_ok_def)
  have st: "conn_state (conns w c) = kConnected \<or> conn_state (conns w c) = kDisconnecting"
    using ok(3) by (cases "conn_state (conns w c)") (simp_all add: stage_def)
  have run: "srv_do L U (Srv_close c) w = TcpServer_removeConnection ?t c ?w1"
    using st ok(2)
    by (simp add: TcpConnection_handleClose_def EventLoop_assertInLoopThread_def EventLoop_isInLoopThread_def
        loop_of_def call_close_def)
  have "server_frame w ?w1" by (simp add: server_frame_def)
  then have srv1: "server_inv (srv_env L U (srv_thread w)) (?w1, open_conns w)" by (rule server_frame_inv[OF _ I(1)])
  have "c \<in> open_conns w" using c(1) ok(3) by (simp add: open_conns_def)
  from server_close_ok[OF srv1 this, of ?t] obtain w' where
    w': "TcpServer_removeConnection ?t c ?w1 = Inr w'" "server_inv (srv_env L U (srv_thread w)) (w', open_conns w - {c})"
    by blast
  have quiet: "live_on (conns ?w1 c)" "\<not> reading_on (conns ?w1 c)" using L c(2) by simp_all
  show ?thesis
  proof (cases "?t = srv_thread w")
    case True
    then have "TcpServer_removeConnectionInLoop ?t c ?w1 = Inr w'"
      using w'(1) by (simp add: TcpServer_removeConnection_def EventLoop_runInLoop_def EventLoop_isInLoopThread_def)
    from removed_step[OF inv c(1) _ _ _ _ _ _ _ _ _ _ _ _ _ this w'(2)] show ?thesis
      using run w'(1) ok c(2) quiet by simp
  next
    case False
    have eq: "w' = upd_loop (srv_loop (srv w)) (EventLoop_queueInLoop ?t (F_removeConnectionInLoop c)) ?w1"
      using w'(1) False by (auto simp: TcpServer_removeConnection_def EventLoop_runInLoop_def EventLoop_isInLoopThread_def)
    have fl: "in_flight w' c = (\<lambda>_. [])(srv_loop (srv w) := [F_removeConnectionInLoop c])" using ok(4) by (simp add: eq)
    have keep: "nextObj w' = nextObj w" "srv_threadPool (srv w') = srv_threadPool (srv w)"
      "srv_connectionCallback (srv w') = srv_connectionCallback (srv w)" "srv_loop (srv w') = srv_loop (srv w)"
      "conns w' = conns ?w1" "srv_thread w' = srv_thread w" by (simp_all add: eq)
    have "F_removeConnectionInLoop c \<in> set (queue_of w' (srv_loop (srv w')))" using fl keep(4) by (simp add: closing_flight)
    then have stage': "stage w' c = Closing" using st quiet(2) keep(5) by (auto simp: stage_def)
    have moved: "stage_ok w' c" using ok stage' keep(4,5) fl quiet by (simp add: stage_ok_def)
    have others: "conns w' d = conns w d" "in_flight w' d = in_flight w d" if "d \<noteq> c" for d
      using that by (simp_all add: eq)
    have srv': "server_inv (srv_env L U (srv_thread w')) (w', opened)"
      if "opened = open_conns w - {c} \<union> (if stage w' c \<in> {Queued, Open} then {c} else {})" for opened
      using w'(2) that stage' keep(6) by simp
    have core': "life_core L U w'" by (rule life_core_moved(1)[OF core c(1) srv' keep(1-4) moved others])
    have same: "stage w' d = stage w d" if "d \<noteq> c" for d
      by (rule life_core_moved(2)[OF core c(1) srv' keep(1-4) moved others that])
    have "\<not> stage w' c = Gone" unfolding stage' by simp
    then have "life_inv L U w'" by (intro life_inv_moved[OF inv core' keep(1) others(1) same]) blast+
    moreover have "stage w' d = stage w d \<or> stage w' d \<in> stage_next (stage w d)" for d
      using same[of d] stage' ok(3) by (cases "d = c") simp_all
    ultimately show ?thesis using run w'(1) by (simp add: stages_move_def)
  qed
qed

text \<open>\<open>connectDestroyed\<close>: the callback is told, and then the watcher is stopped.\<close>

lemma destroyed_step:
  assumes L: "libev_ok L" and U: "life_user_ok U" and inv: "life_inv L U w"
    and q: "queue_of w l = F_connectDestroyed c # fs"
  defines "w0 \<equiv> upd_loop l (pendingFunctors_update (\<lambda>_. fs)) w"
  shows "\<exists>w'. TcpConnection_connectDestroyed (srv_env L U (thread_of w l)) c w0 = Inr w' \<and>
    life_inv L U w' \<and> stages_move w w'"
proof -
  note core = life_invD(1)[OF inv] and I = life_coreD[OF life_invD(1)[OF inv]]
  note p = popped_flight[OF core q, of c, simplified] and fl = popped_in_flight[OF core q, of c, folded w0_def, simplified]
  let ?t = "thread_of w l"
  have c: "c < nextObj w" "stage w c = Leaving" "l = conn_loop (conns w c)" using p by simp_all
  have w0: "conns w0 = conns w" "srv w0 = srv w" "nextObj w0 = nextObj w" "\<And>l. thread_of w0 l = thread_of w l"
    by (simp_all add: w0_def)
  let ?w2 = "upd_conn c (on_channel (Channel_disableAll L)) (upd_conn c (TcpConnection_setState kDisconnected) w0)"
  have ok: "connectionCallback (conns w c) \<noteq> None" "closeCallback (conns w c) = Some Cb_TcpServer_removeConnection"
    "live_on (conns w c)" "\<not> reading_on (conns w c)" using I(4)[OF c(1)] c(2) by (simp_all add: stage_ok_def)
  have st: "conn_state (conns w c) = kConnected \<or> conn_state (conns w c) = kDisconnecting"
    using c(2) by (cases "conn_state (conns w c)") (simp_all add: stage_def)
  obtain f where f: "connectionCallback (conns w c) = Some f" using ok(1) by blast
  obtain w3 where w3: "U f (On_connection c) ?w2 = Inr w3" "life_frame ?w2 w3" using U by (auto simp: life_user_ok_def) blast
  have stage2: "stage ?w2 c = Gone" by (simp add: stage_def)
  have keep: "nextObj ?w2 = nextObj w" "srv_threadPool (srv ?w2) = srv_threadPool (srv w)"
    "srv_connectionCallback (srv ?w2) = srv_connectionCallback (srv w)" "srv_loop (srv ?w2) = srv_loop (srv w)"
    using w0 by simp_all
  have moved: "stage_ok ?w2 c" using L ok(1,2,3) w0(1) stage2 fl(1) by (simp add: stage_ok_def)
  have others: "conns ?w2 d = conns w d" "in_flight ?w2 d = in_flight w d" if "d \<noteq> c" for d
    using that w0(1) fl(2)[of d] by simp_all
  have "removals w0 = removals w" using q by (auto simp: w0_def removals_def removal_of_def)
  then have fr: "server_frame w ?w2" using w0 by (simp add: server_frame_def)
  have "open_conns w - {c} = open_conns w" using c(2) by (auto simp: open_conns_def)
  then have srv2: "server_inv (srv_env L U (srv_thread ?w2)) (?w2, opened)"
    if "opened = open_conns w - {c} \<union> (if stage ?w2 c \<in> {Queued, Open} then {c} else {})" for opened
    using server_frame_inv[OF fr I(1)] that stage2 w0(2,4) by simp
  have core2: "life_core L U ?w2" by (rule life_core_moved(1)[OF core c(1) srv2 keep moved others])
  have same: "stage ?w2 d = stage w d" if "d \<noteq> c" for d
    by (rule life_core_moved(2)[OF core c(1) srv2 keep moved others that])
  have core3: "life_core L U w3" by (rule life_frame_core[OF w3(2) core2])
  have c3: "conn_channel (conns w3 c) = Channel_disableAll L (conn_channel (conns w c))"
    "conn_loop (conns w3 c) = l" "thread_of w3 l = ?t" "nextObj w3 = nextObj w"
    using w3(2) w0 c(3) by (simp_all add: life_frame_def conn_frame_def)
  obtain ch where ch: "Channel_remove L True (conn_channel (conns w3 c)) = Inr ch" "\<not> Channel_live ch" "Channel_isNoneEvent ch"
    using Channel_remove_ok[OF L, of "conn_channel (conns w3 c)"] L ok(3) c3(1) by auto
  let ?w4 = "upd_conn c (on_channel (\<lambda>_. ch)) w3"
  have run: "TcpConnection_connectDestroyed (srv_env L U ?t) c w0 = Inr ?w4"
    using w0(1,4) st f w3(1) ch(1) c(3) c3(2,3)
    by (simp add: TcpConnection_connectDestroyed_def EventLoop_assertInLoopThread_def EventLoop_isInLoopThread_def
        loop_of_def call_user_def)
  have stage3: "stage w3 d = (if d = c then Gone else stage w d)" for d
    using life_frame_stage[OF w3(2), of d] stage2 same[of d] by simp
  have "\<not> Channel_isReading ch" using ch(3) by (simp add: Channel_defs)
  then have stage4: "stage ?w4 d = stage w3 d" "stage_ok ?w4 d = stage_ok w3 d" for d
    using stage3[of c] life_coreD(4)[OF core3, of c] c(1) c3(4)
    by (auto simp: stage_def stage_ok_def split: if_splits)
  have op: "open_conns ?w4 = open_conns w3" using stage4(1) by (simp add: open_conns_def)
  have "server_frame w3 ?w4" by (simp add: server_frame_def)
  from server_frame_inv[OF this life_coreD(1)[OF core3]] have "life_core L U ?w4"
    using life_coreD(2,3,4,5)[OF core3] stage4(2) op by (simp add: life_core_def)
  moreover have "\<not> live_on (conns ?w4 d)" if "d < nextObj ?w4" "stage ?w4 d = Gone" for d
  proof (cases "d = c")
    case False
    then have "stage w d = Gone" using that(2) stage4(1) stage3 by simp
    moreover have "live_on (conns w3 d) = live_on (conns w d)"
      using w3(2) others(1)[OF False] False by (simp add: life_frame_def conn_frame_def)
    ultimately show ?thesis using life_invD(2)[OF inv, of d] that(1) c3(4) False by simp
  qed (simp add: ch(2))
  ultimately have "life_inv L U ?w4" unfolding life_inv_def by blast
  then show ?thesis using run stage4(1) stage3 c(2) by (auto simp: stages_move_def)
qed

text \<open>The run of a functor that is none of the server's leaves everything in place.\<close>

lemma other_step:
  assumes q: "queue_of w l = f # fs" and f: "\<not> hand_over f"
  shows "life_frame w (upd_loop l (pendingFunctors_update (\<lambda>_. fs)) w)"
  using assms by (simp add: life_frame_def conn_frame_def)

lemma life_frame_stages: "life_frame w w' \<Longrightarrow> stages_move w w'"
  by (simp add: stages_move_def life_frame_stage)

lemma removal_step:
  assumes inv: "life_inv L U w" and q: "queue_of w l = F_removeConnectionInLoop c # fs"
  defines "w0 \<equiv> upd_loop l (pendingFunctors_update (\<lambda>_. fs)) w"
  shows "\<exists>w'. TcpServer_removeConnectionInLoop (thread_of w l) c w0 = Inr w' \<and> life_inv L U w' \<and> stages_move w w'"
proof -
  note core = life_invD(1)[OF inv] and I = life_coreD[OF life_invD(1)[OF inv]]
  note p = popped_flight[OF core q, of c, simplified] and fl = popped_in_flight[OF core q, of c, folded w0_def, simplified]
  have c: "c < nextObj w" "stage w c = Closing" "l = srv_loop (srv w)" using p by simp_all
  obtain w' where w': "TcpServer_removeConnectionInLoop (srv_thread w) c w0 = Inr w'"
    "server_inv (srv_env L U (srv_thread w)) (w', open_conns w)"
    using server_remove_ok[OF I(1), of c fs] q c(3) by (auto simp: w0_def)
  have "open_conns w - {c} = open_conns w" using c(2) by (auto simp: open_conns_def)
  then have srv': "server_inv (srv_env L U (srv_thread w)) (w', open_conns w - {c})" using w'(2) by simp
  have "\<not> reading_on (conns w c)" using I(4)[OF c(1)] c(2) by (simp add: stage_ok_def)
  with removed_step[OF inv c(1) _ _ _ _ _ fl _ _ _ _ _ _ w'(1) srv'] show ?thesis
    using w'(1) c by (simp add: w0_def)
qed

lemma run_step:
  assumes L: "libev_ok L" and U: "life_user_ok U" and inv: "life_inv L U w"
  shows "\<exists>w'. srv_do L U (Srv_run l) w = Inr w' \<and> life_inv L U w' \<and> stages_move w w'"
proof (cases "queue_of w l")
  case Nil
  then show ?thesis using inv by (simp add: stages_move_def)
next
  case (Cons f fs)
  note core = life_invD(1)[OF inv]
  let ?w0 = "upd_loop l (pendingFunctors_update (\<lambda>_. fs)) w"
  have do: "srv_do L U (Srv_run l) w = srv_functor L U (thread_of w l) f ?w0" using Cons by simp
  have other: ?thesis if "\<not> hand_over f" "srv_functor L U (thread_of w l) f ?w0 = Inr ?w0"
    using other_step[OF Cons that(1)] life_frame_inv[OF _ inv] life_frame_stages do that(2) by simp
  show ?thesis
  proof (cases f)
    case (F_connectEstablished c)
    note q = Cons[unfolded F_connectEstablished]
    note p = popped_flight[OF core q, of c, simplified]
    have rem: "removals ?w0 = removals w" using q by (auto simp: removals_def removal_of_def)
    show ?thesis
      using established_step[OF L U inv p(1) _ _ _ _ _ _ popped_in_flight(2)[OF core q, of c] rem]
        popped_in_flight(1)[OF core q, of c] p(3) do F_connectEstablished by simp
  next
    case (F_removeConnectionInLoop c)
    then show ?thesis using removal_step[OF inv Cons[unfolded F_removeConnectionInLoop]] do by simp
  next
    case (F_connectDestroyed c)
    then show ?thesis using destroyed_step[OF L U inv Cons[unfolded F_connectDestroyed]] do by simp
  qed (use other in simp_all)
qed

text \<open>A new connection is waiting when its functor is queued; in the thread of its loop it is established at once.\<close>

lemma pool_ready_next:
  assumes "pool_ready p"
  shows "\<exists>l p'. EventLoopThreadPool_getNextLoop True p = Inr (l, p') \<and> pool_ready p'"
proof (cases "pool_loops p = []")
  case True
  then show ?thesis using assms by (simp add: EventLoopThreadPool_getNextLoop_def pool_ready_def)
next
  case False
  then show ?thesis using assms getNextLoop_ok[of p] by (auto simp: pool_ready_def)
qed

lemma accept_step:
  assumes L: "libev_ok L" and U: "life_user_ok U" and inv: "life_inv L U w"
    and small: "sint (nextConnId (srv w)) < 2147483647"
  shows "\<exists>w'. srv_do L U (Srv_accept fd peer) w = Inr w' \<and> life_inv L U w' \<and> stages_move w w'"
proof -
  note I = life_coreD[OF life_invD(1)[OF inv]]
  let ?t = "srv_thread w" and ?c = "nextObj w"
  let ?E = "srv_env L U ?t"
  obtain l p where io: "EventLoopThreadPool_getNextLoop True (srv_threadPool (srv w)) = Inr (l, p)" "pool_ready p"
    using pool_ready_next[OF I(2)] by blast
  obtain w3 nm la where w3: "srv_do L U (Srv_accept fd peer) w =
      EventLoop_runInLoop (\<lambda>w. loops w l) (upd_loop l) ?t (F_connectEstablished ?c) (TcpConnection_connectEstablished ?E ?c) w3"
    "server_inv ?E (w3, insert ?c (open_conns w))" "loops w3 = loops w" "nextObj w3 = ?c + 1"
    "\<And>d. d < ?c \<Longrightarrow> conns w3 d = conns w d"
    "srv w3 = (srv w)\<lparr>nextConnId := nextConnId (srv w) + 1, srv_threadPool := p,
         connections := (connections (srv w))(nm \<mapsto> ?c)\<rparr>"
    "conns w3 ?c = TcpConnection_setCloseCallback (Some Cb_TcpServer_removeConnection)
         (TcpConnection_setWriteCompleteCallback (srv_writeCompleteCallback (srv w))
           (TcpConnection_setMessageCallback (srv_messageCallback (srv w))
             (TcpConnection_setConnectionCallback (srv_connectionCallback (srv w))
               (TcpConnection_ctor L ?c l nm fd la peer))))"
    using server_registers[OF I(1) small io(1), of fd peer] by auto
  have conn: "conn_state (conns w3 ?c) = kConnecting" "conn_loop (conns w3 ?c) = l" "live_on (conns w3 ?c)"
    "\<not> reading_on (conns w3 ?c)" "connectionCallback (conns w3 ?c) \<noteq> None"
    "closeCallback (conns w3 ?c) = Some Cb_TcpServer_removeConnection"
    using I(3) L
    by (simp_all add: w3(7) TcpConnection_setCloseCallback_def TcpConnection_setWriteCompleteCallback_def
        TcpConnection_setMessageCallback_def TcpConnection_setConnectionCallback_def TcpConnection_ctor_def
        Channel_setErrorCallback_def Channel_setWriteCallback_def Channel_setReadCallback_def Channel_ctor_def
        Channel_isReading_def libev_okD ev_NONE_def)
  let ?wq = "upd_loop l (EventLoop_queueInLoop ?t (F_connectEstablished ?c)) w3"
  have fl3: "in_flight w3 d = in_flight w d" for d using w3(3) by (simp add: in_flight_def)
  have flc: "in_flight w3 ?c = (\<lambda>_. [])" using fl3 I(5)[of ?c] by simp
  have old: "stage ?wq d = stage w d" "stage_ok ?wq d = stage_ok w d" if "d < ?c" for d
    using stage_cong[of ?wq d w] w3(5)[OF that] fl3[of d] that w3(6) by simp_all
  have new: "stage ?wq ?c = Queued" using conn(1) by (simp add: stage_def)
  have ok_new: "stage_ok ?wq ?c" using conn flc new by (simp add: stage_ok_def)
  have op: "open_conns ?wq = insert ?c (open_conns w)"
    using old(1) new w3(4) by (auto simp: open_conns_def less_Suc_eq)
  have "server_frame w3 ?wq" by (simp add: server_frame_def removals_def removal_of_def)
  from server_frame_inv[OF this w3(2)] have "server_inv ?E (?wq, open_conns ?wq)" unfolding op .
  moreover have "srv_thread ?wq = ?t" using w3(3,6) by simp
  ultimately have srv: "server_inv (srv_env L U (srv_thread ?wq)) (?wq, open_conns ?wq)" by simp
  have core: "life_core L U ?wq"
    unfolding life_core_def using srv io(2) I(3,4,5) old(2) ok_new fl3 w3(4,6) by (auto simp: less_Suc_eq)
  have "\<not> live_on (conns ?wq d)" if "d < nextObj ?wq" "stage ?wq d = Gone" for d
  proof -
    have "d \<noteq> ?c" using that(2) new by auto
    then have d: "d < ?c" using that(1) w3(4) by simp
    then show ?thesis using life_invD(2)[OF inv d] that(2) old(1)[OF d] w3(5)[OF d] by simp
  qed
  then have invq: "life_inv L U ?wq" using core unfolding life_inv_def by blast
  have moves: "stages_move w w'" if "stages_move ?wq w'" for w'
    unfolding stages_move_def
  proof (intro allI impI)
    fix d assume d: "d < ?c"
    then show "stage w' d = stage w d \<or> stage w' d \<in> stage_next (stage w d)"
      using that[unfolded stages_move_def, rule_format, of d] old(1)[OF d] w3(4) by simp
  qed
  show ?thesis
  proof (cases "thread_of w l = ?t")
    case True
    have rem: "removals w3 = removals ?wq" by (simp add: removals_def removal_of_def)
    have "in_flight w3 d = in_flight ?wq d" if "d \<noteq> ?c" for d using that by simp
    moreover have "?c < nextObj ?wq" "conns w3 = conns ?wq" "srv w3 = srv ?wq" "nextObj w3 = nextObj ?wq"
      "thread_of w3 k = thread_of ?wq k" for k using w3(4) by simp_all
    ultimately obtain w' where
      "TcpConnection_connectEstablished (srv_env L U (thread_of ?wq (conn_loop (conns ?wq ?c)))) ?c w3 = Inr w'"
      "life_inv L U w'" "stages_move ?wq w'" using established_step[OF L U invq _ new, of w3] flc rem by blast
    moreover have "thread_of ?wq (conn_loop (conns ?wq ?c)) = ?t" using True conn(2) w3(3) by simp
    ultimately show ?thesis
      using True w3(1,3) moves by (simp add: EventLoop_runInLoop_def EventLoop_isInLoopThread_def)
  next
    case False
    then show ?thesis
      using invq w3(1,3) moves by (simp add: EventLoop_runInLoop_def EventLoop_isInLoopThread_def stages_move_def)
  qed
qed

lemma srv_step:
  assumes L: "libev_ok L" and U: "life_user_ok U" and inv: "life_inv L U w" and en: "srv_enabled a w"
  shows "\<exists>w'. srv_do L U a w = Inr w' \<and> life_inv L U w' \<and> stages_move w w'"
proof (cases a)
  case (Srv_accept fd peer)
  then show ?thesis using accept_step[OF L U inv] en by simp
next
  case (Srv_run l)
  then show ?thesis using run_step[OF L U inv] by simp
next
  case (Srv_close c)
  then show ?thesis using close_step[OF L inv, of c] en by simp
next
  case (Srv_other w')
  then show ?thesis using life_frame_inv[OF _ inv] life_frame_stages en by simp
qed

lemma life_initial_inv: "life_initial w \<Longrightarrow> life_inv L U w"
proof -
  assume init: "life_initial w"
  have "c \<notin> set (removals w)" for c using init removals_flight[of c w] by (simp add: life_initial_def)
  then have "removals w = []" by (cases "removals w") auto
  then show ?thesis
    using init by (simp add: life_initial_def life_inv_def life_core_def server_inv_def registered_def open_conns_def)
qed

lemma life_reachable_inv: "life_reachable L U w \<Longrightarrow> libev_ok L \<Longrightarrow> life_user_ok U \<Longrightarrow> life_inv L U w"
proof (induction rule: life_reachable.induct)
  case (life_start w)
  then show ?case by (blast intro: life_initial_inv)
next
  case (life_next w a w')
  then show ?case using srv_step[of L U w a] by auto
qed

section \<open>What the server promises its connections\<close>

text \<open>
  C4. The life of a server's connection, across threads. Over any interleaving of the loops of the server's
  threads, the server's own included, every connection passes through its stages in order and through none
  twice: it waits to be established, is open, waits to be removed from the map (unless its loop is the
  server's), waits to be destroyed, and is gone. In each stage exactly the functor that ends it waits,
  once, in the loop whose thread must run it; the map holds the connection exactly until its removal; its
  watcher is active until it is gone and watches for reading exactly while it is open. Every accepted
  connection, every functor run and every close returns: none of the assertions of \<open>connectEstablished\<close>,
  \<open>handleClose\<close>, \<open>removeConnectionInLoop\<close> and \<open>connectDestroyed\<close>, nor any check of the thread, fails.
\<close>

theorem server_connection_life:
  assumes "libev_ok L" and "life_user_ok U" and "life_reachable L U w"
  shows "(\<forall>a. srv_enabled a w \<longrightarrow> (\<exists>w'. srv_do L U a w = Inr w' \<and> stages_move w w')) \<and>
    (\<forall>c < nextObj w.
       in_flight w c = expected (srv_loop (srv w)) (conn_loop (conns w c)) c (stage w c) \<and>
       (connections (srv w) (conn_name (conns w c)) = Some c \<longleftrightarrow> stage w c \<in> {Queued, Open, Closing}) \<and>
       (live_on (conns w c) \<longleftrightarrow> stage w c \<noteq> Gone) \<and> (reading_on (conns w c) \<longleftrightarrow> stage w c = Open))"
proof -
  have inv: "life_inv L U w" by (rule life_reachable_inv[OF assms(3,1,2)])
  note I = life_coreD[OF life_invD(1)[OF inv]]
  have "connections (srv w) (conn_name (conns w c)) = Some c \<longleftrightarrow> stage w c \<in> {Queued, Open, Closing}"
    if c: "c < nextObj w" for c
  proof -
    have "connections (srv w) (conn_name (conns w c)) = Some c \<longleftrightarrow> c \<in> open_conns w \<union> set (removals w)"
      using server_invD(8)[OF I(1)] by simp
    moreover have "c \<in> set (removals w) \<longleftrightarrow> stage w c = Closing"
      using I(4)[OF c] by (cases "stage w c") (auto simp: removals_flight stage_ok_def)
    ultimately show ?thesis using c by (auto simp: open_conns_def)
  qed
  moreover have "live_on (conns w c) \<longleftrightarrow> stage w c \<noteq> Gone" if "c < nextObj w" for c
    using I(4)[OF that] life_invD(2)[OF inv that] by (auto simp: stage_ok_def)
  moreover have "\<exists>w'. srv_do L U a w = Inr w' \<and> stages_move w w'" if "srv_enabled a w" for a
    using srv_step[OF assms(1,2) inv that] by blast
  ultimately show ?thesis using I(4) by (simp add: stage_ok_def)
qed

text \<open>A server on loop 0 of thread 1 with one thread, 2, which runs loop 1, and its first connection.\<close>

definition silent_user :: user_code where
  "silent_user f arg w = Inr w"

definition two_threads :: sworld where
  "two_threads = idle_server\<lparr>loops := (\<lambda>l. (fresh_loop libev_ref)\<lparr>threadId := (if l = 1 then 2 else 1)\<rparr>),
     srv := (srv idle_server)\<lparr>srv_threadPool := \<lparr>baseLoop = 0, pool_started = True, numThreads = 1, next_loop = 0,
       pool_loops = [1]\<rparr>\<rparr>\<rparr>"

lemma silent_user_ok: "life_user_ok silent_user"
  by (simp add: life_user_ok_def silent_user_def life_frame_def conn_frame_def)

lemma two_threads_reachable: "life_reachable libev_ref silent_user two_threads"
  by (rule life_start) (simp add: life_initial_def two_threads_def idle_server_def pool_ready_def in_flight_def)

lemma two_threads_accept:
  "\<exists>w. srv_do libev_ref silent_user (Srv_accept 9 zero_sockaddr) two_threads = Inr w \<and> nextObj w = 1 \<and>
     queue_of w 1 = [F_connectEstablished 0] \<and> thread_of w 1 = 2 \<and> srv_thread w = 1 \<and>
     conn_loop (conns w 0) = 1 \<and> conn_state (conns w 0) = kConnecting \<and> connectionCallback (conns w 0) = Some 1 \<and>
     live_on (conns w 0)"
proof -
  let ?w = two_threads and ?E = "srv_env libev_ref silent_user 1"
  have th: "srv_thread ?w = 1" and io: "EventLoopThreadPool_getNextLoop True (srv_threadPool (srv ?w)) =
      Inr (1, \<lparr>baseLoop = 0, pool_started = True, numThreads = 1, next_loop = 0, pool_loops = [1]\<rparr>)"
    and small: "sint (nextConnId (srv ?w)) < 2147483647"
    and c0: "nextObj ?w = 0" "srv_connectionCallback (srv ?w) = Some 1" "srv_loop (srv ?w) = 0" "thread_of ?w 1 = 2"
      "queue_of ?w 1 = []"
    by (simp_all add: two_threads_def idle_server_def EventLoopThreadPool_getNextLoop_def Let_def)
  have inv: "server_inv ?E (?w, open_conns ?w)"
    using life_coreD(1)[OF life_invD(1)[OF life_reachable_inv[OF two_threads_reachable libev_ref_ok silent_user_ok]]]
    by (simp only: th)
  obtain w3 nm la where w3: "TcpServer_newConnection ?E 0 9 zero_sockaddr ?w =
      EventLoop_runInLoop (\<lambda>w. loops w 1) (upd_loop 1) (tid ?E) (F_connectEstablished 0) (TcpConnection_connectEstablished ?E 0) w3"
    "loops w3 = loops ?w" "nextObj w3 = 1" "srv_loop (srv w3) = 0"
    "conns w3 0 = TcpConnection_setCloseCallback (Some Cb_TcpServer_removeConnection)
         (TcpConnection_setWriteCompleteCallback (srv_writeCompleteCallback (srv ?w))
           (TcpConnection_setMessageCallback (srv_messageCallback (srv ?w))
             (TcpConnection_setConnectionCallback (Some 1) (TcpConnection_ctor libev_ref 0 1 nm 9 la zero_sockaddr))))"
    using server_registers[OF inv small io, of 9 zero_sockaddr, unfolded c0(1,2)] c0(3) by auto
  let ?w1 = "upd_loop 1 (EventLoop_queueInLoop 1 (F_connectEstablished 0)) w3"
  have "srv_do libev_ref silent_user (Srv_accept 9 zero_sockaddr) ?w = Inr ?w1"
    using w3(1,2) th c0(4) by (simp add: EventLoop_runInLoop_def EventLoop_isInLoopThread_def)
  moreover have "live_on (conns w3 0)" "conn_loop (conns w3 0) = 1" "conn_state (conns w3 0) = kConnecting"
    "connectionCallback (conns w3 0) = Some 1"
    by (simp_all add: w3(5) TcpConnection_setCloseCallback_def TcpConnection_setWriteCompleteCallback_def
        TcpConnection_setMessageCallback_def TcpConnection_setConnectionCallback_def TcpConnection_ctor_def
        Channel_setErrorCallback_def Channel_setWriteCallback_def Channel_setReadCallback_def Channel_ctor_def
        libev_okD[OF libev_ref_ok])
  ultimately show ?thesis
    using w3(2,3,4) c0(3,4,5) th by (intro exI[of _ ?w1]) simp
qed

lemma server_connection_life_witness:
  "\<exists>w w'. life_reachable libev_ref silent_user w \<and> stage w 0 = Open \<and>
     thread_of w (conn_loop (conns w 0)) \<noteq> srv_thread w \<and> srv_do libev_ref silent_user (Srv_close 0) w = Inr w' \<and>
     stages_move w w'"
proof -
  obtain w1 where w1: "srv_do libev_ref silent_user (Srv_accept 9 zero_sockaddr) two_threads = Inr w1" "nextObj w1 = 1"
    "queue_of w1 1 = [F_connectEstablished 0]" "thread_of w1 1 = 2" "srv_thread w1 = 1"
    "conn_loop (conns w1 0) = 1" "conn_state (conns w1 0) = kConnecting" "connectionCallback (conns w1 0) = Some 1"
    "live_on (conns w1 0)"
    using two_threads_accept by blast
  have r1: "life_reachable libev_ref silent_user w1"
    by (rule life_next[OF two_threads_reachable _ w1(1)]) (simp add: two_threads_def idle_server_def)
  let ?w0 = "upd_loop 1 (pendingFunctors_update (\<lambda>_. [])) w1"
  let ?w2 = "upd_conn 0 (on_channel (Channel_enableReading libev_ref)) (upd_conn 0 (TcpConnection_setState kConnected) ?w0)"
  have run: "srv_do libev_ref silent_user (Srv_run 1) w1 = Inr ?w2"
    using w1(3,4,6,7,8)
    by (simp add: TcpConnection_connectEstablished_def EventLoop_assertInLoopThread_def EventLoop_isInLoopThread_def
        loop_of_def call_user_def silent_user_def del: One_nat_def)
  have r2: "life_reachable libev_ref silent_user ?w2" by (rule life_next[OF r1 _ run]) simp
  have open2: "nextObj ?w2 = 1" "live_on (conns ?w2 0)" "reading_on (conns ?w2 0)"
    "thread_of ?w2 (conn_loop (conns ?w2 0)) \<noteq> srv_thread ?w2"
    using w1(2,4,5,6,9) by (auto simp: libev_ref_ok)
  note T = server_connection_life[OF libev_ref_ok silent_user_ok r2]
  have "stage ?w2 0 = Open" using T open2(1,3) by auto
  moreover have "srv_enabled (Srv_close 0) ?w2" using open2 by simp
  ultimately show ?thesis using T r2 open2(4) by blast
qed

end
