(* ===== verification/Tcp_Client.thy ===== *)
theory Tcp_Client
  imports Tcp_Connection
begin

text \<open>
  \<open>Connector\<close> (net/Connector.h, net/Connector.cc), which makes the connecting socket, retries with a
  growing delay and hands over the connected descriptor, and \<open>TcpClient\<close> (net/TcpClient.h,
  net/TcpClient.cc), which keeps one connection built on it.
\<close>

section \<open>Connector\<close>

text \<open>\<open>Connector::States\<close>; \<open>TcpConnection::StateE\<close> uses the plain names.\<close>

datatype States = States_kDisconnected | States_kConnecting | States_kConnected

definition kMaxRetryDelayMs :: int32_t where "kMaxRetryDelayMs = 30 * 1000"
definition kInitRetryDelayMs :: int32_t where "kInitRetryDelayMs = 500"

text \<open>\<open>hasNewConnection\<close>: \<open>newConnectionCallback_\<close> is set; its effect is an argument of the operations.\<close>

record Connector =
  cr_loop :: loop_id
  serverAddr :: sockaddr_in
  cr_connect :: bool
  cr_state :: States
  cr_channel :: "Channel option"
  hasNewConnection :: bool
  retryDelayMs :: int32_t
  retryTimer :: TimerId

record cworld = net +
  connector :: Connector

definition on_cr :: "(Connector \<Rightarrow> Connector) \<Rightarrow> 'a cworld_scheme \<Rightarrow> 'a cworld_scheme" where
  "on_cr f w = w\<lparr>connector := f (connector w)\<rparr>"

text \<open>
  What the operations take from outside: libev, the calling thread, the results of \<open>socket(2)\<close> and
  \<open>connect(2)\<close> with its \<open>errno\<close>, the address of the next timer, and the new-connection callback.
\<close>

record 'w cenv =
  c_ev :: libev
  c_tid :: thread_id
  c_sockfd :: int
  c_ret :: int
  c_errno :: int
  c_timer :: timer_ptr
  c_new :: "int \<Rightarrow> 'w \<Rightarrow> 'w res"

definition Connector_ctor :: "loop_id \<Rightarrow> sockaddr_in \<Rightarrow> Connector" where
  "Connector_ctor l addr =
     \<lparr>cr_loop = l, serverAddr = addr, cr_connect = False, cr_state = States_kDisconnected, cr_channel = None,
      hasNewConnection = False, retryDelayMs = kInitRetryDelayMs, retryTimer = TimerId_default\<rparr>"

definition Connector_setNewConnectionCallback :: "Connector \<Rightarrow> Connector" where
  "Connector_setNewConnectionCallback c = c\<lparr>hasNewConnection := True\<rparr>"

definition Connector_setState :: "States \<Rightarrow> Connector \<Rightarrow> Connector" where
  "Connector_setState s c = c\<lparr>cr_state := s\<rparr>"

text \<open>The connector's loop, and the calls the connector makes on it.\<close>

definition cr_ev_loop :: "'a cworld_scheme \<Rightarrow> EventLoop" where
  "cr_ev_loop w = loops w (cr_loop (connector w))"

definition upd_cr_loop :: "(EventLoop \<Rightarrow> EventLoop) \<Rightarrow> 'a cworld_scheme \<Rightarrow> 'a cworld_scheme" where
  "upd_cr_loop f w = upd_loop (cr_loop (connector w)) f w"

definition Connector_cancelTimer :: "libev \<Rightarrow> thread_id \<Rightarrow> 'a cworld_scheme \<Rightarrow> 'a cworld_scheme res" where
  "Connector_cancelTimer L t w =
     bindR (EventLoop_cancel L t (retryTimer (connector w)) (cr_ev_loop w)) (\<lambda>l.
     Inr (upd_cr_loop (\<lambda>_. l) w))"

definition Connector_dtor :: "libev \<Rightarrow> thread_id \<Rightarrow> 'a cworld_scheme \<Rightarrow> 'a cworld_scheme res" where
  "Connector_dtor L t w =
     bindR (Connector_cancelTimer L t w) (\<lambda>w1.
     ensure (cr_channel (connector w1) = None) AssertFailed (Inr w1))"

definition Connector_connecting :: "libev \<Rightarrow> int \<Rightarrow> 'a cworld_scheme \<Rightarrow> 'a cworld_scheme res" where
  "Connector_connecting L sockfd w =
     (let w1 = on_cr (Connector_setState States_kConnecting) w
      in ensure (cr_channel (connector w1) = None) AssertFailed
           (Inr (on_cr (\<lambda>c. c\<lparr>cr_channel := Some
              (Channel_enableWriting L
                (Channel_setErrorCallback Cb_Connector_handleError
                  (Channel_setWriteCallback Cb_Connector_handleWrite
                    (Channel_ctor L (cr_loop c) sockfd))))\<rparr>) w1)))"

text \<open>\<open>retry\<close>: the delay is passed on in seconds, and doubles up to the maximum.\<close>

definition Connector_retry :: "('w, 'b) cenv_scheme \<Rightarrow> int \<Rightarrow> 'a cworld_scheme \<Rightarrow> 'a cworld_scheme res" where
  "Connector_retry E sockfd w =
     (let w1 = upd_sock sockfd sockets_close w;
          w2 = on_cr (Connector_setState States_kDisconnected) w1
      in if cr_connect (connector w2)
         then bindR (EventLoop_runAfter (c_ev E) (c_tid E) (c_timer E)
                       (real_of_int (sint (retryDelayMs (connector w2))) / 1000) F_Connector_startInLoop
                       (timersCreated w2, cr_ev_loop w2)) (\<lambda>(tm, n, l).
              Inr (on_cr (\<lambda>c. c\<lparr>retryTimer := tm,
                      retryDelayMs := (if sint (retryDelayMs c * 2) \<le> sint kMaxRetryDelayMs
                                       then retryDelayMs c * 2 else kMaxRetryDelayMs)\<rparr>)
                    (upd_cr_loop (\<lambda>_. l) w2\<lparr>timersCreated := n\<rparr>)))
         else Inr w2)"

text \<open>The \<open>switch\<close> over \<open>errno\<close>.\<close>

definition errno_in_progress :: "int list" where
  "errno_in_progress = [0, EINPROGRESS, EINTR, EISCONN]"

definition errno_transient :: "int list" where
  "errno_transient = [EAGAIN, EADDRINUSE, EADDRNOTAVAIL, ECONNREFUSED, ENETUNREACH]"

definition Connector_connect :: "('w, 'b) cenv_scheme \<Rightarrow> 'a cworld_scheme \<Rightarrow> 'a cworld_scheme res" where
  "Connector_connect E w =
     bindR (sockets_createNonblockingOrDie (c_sockfd E)) (\<lambda>sockfd.
       let savedErrno = (if c_ret E = 0 then 0 else c_errno E)
       in if savedErrno \<in> set errno_in_progress then Connector_connecting (c_ev E) sockfd w
          else if savedErrno \<in> set errno_transient then Connector_retry E sockfd w
          else Inr (upd_sock sockfd sockets_close w))"

definition Connector_startInLoop :: "('w, 'b) cenv_scheme \<Rightarrow> 'a cworld_scheme \<Rightarrow> 'a cworld_scheme res" where
  "Connector_startInLoop E w =
     EventLoop_assertInLoopThread (c_tid E) (cr_ev_loop w)
       (ensure (cr_state (connector w) = States_kDisconnected) AssertFailed
         (if cr_connect (connector w) then Connector_connect E w else Inr w))"

definition Connector_start :: "('w, 'b) cenv_scheme \<Rightarrow> 'a cworld_scheme \<Rightarrow> 'a cworld_scheme res" where
  "Connector_start E w =
     EventLoop_runInLoop cr_ev_loop upd_cr_loop (c_tid E) F_Connector_startInLoop (Connector_startInLoop E)
       (on_cr (\<lambda>c. c\<lparr>cr_connect := True\<rparr>) w)"

definition Connector_restart :: "('w, 'b) cenv_scheme \<Rightarrow> 'a cworld_scheme \<Rightarrow> 'a cworld_scheme res" where
  "Connector_restart E w =
     EventLoop_assertInLoopThread (c_tid E) (cr_ev_loop w)
       (Connector_startInLoop E
         (on_cr (\<lambda>c. (Connector_setState States_kDisconnected c)
                    \<lparr>retryDelayMs := kInitRetryDelayMs, cr_connect := True\<rparr>) w))"

text \<open>\<open>channel_->\<close> on the empty \<open>scoped_ptr\<close> fails its assertion.\<close>

definition Connector_removeAndResetChannel ::
  "libev \<Rightarrow> thread_id \<Rightarrow> 'a cworld_scheme \<Rightarrow> (int \<times> 'a cworld_scheme) res" where
  "Connector_removeAndResetChannel L t w =
     (case cr_channel (connector w) of
        None \<Rightarrow> Inl AssertFailed
      | Some ch \<Rightarrow>
          bindR (Channel_remove L (EventLoop_isInLoopThread t (cr_ev_loop w)) (Channel_disableAll L ch)) (\<lambda>ch1.
          let w1 = on_cr (\<lambda>c. c\<lparr>cr_channel := Some ch1\<rparr>) w;
              sockfd = ch_fd ch1
          in Inr (sockfd, upd_cr_loop (EventLoop_queueInLoop t F_Connector_resetChannel) w1)))"

text \<open>\<open>resetChannel\<close> destroys the channel, whose destructor has an assertion.\<close>

definition Connector_resetChannel :: "'a cworld_scheme \<Rightarrow> 'a cworld_scheme res" where
  "Connector_resetChannel w =
     (case cr_channel (connector w) of
        None \<Rightarrow> Inr w
      | Some ch \<Rightarrow> bindR (Channel_dtor ch) (\<lambda>_. Inr (on_cr (\<lambda>c. c\<lparr>cr_channel := None\<rparr>) w)))"

definition Connector_handleWrite ::
  "('a cworld_scheme, 'b) cenv_scheme \<Rightarrow> 'a cworld_scheme \<Rightarrow> 'a cworld_scheme res" where
  "Connector_handleWrite E w =
     (if cr_state (connector w) = States_kConnecting
      then
        bindR (Connector_removeAndResetChannel (c_ev E) (c_tid E) w) (\<lambda>(sockfd, w1).
        let err = fst (sockets_getSocketError (socks w1 sockfd));
            w2 = upd_sock sockfd (\<lambda>s. snd (sockets_getSocketError s)) w1
        in if err \<noteq> 0 then Connector_retry E sockfd w2
           else if sockets_isSelfConnect (socks w2 sockfd) then Connector_retry E sockfd w2
           else
             let w3 = on_cr (Connector_setState States_kConnected) w2
             in if cr_connect (connector w3)
                then (if hasNewConnection (connector w3) then c_new E sockfd w3 else Inl BadFunctionCall)
                else Inr (upd_sock sockfd sockets_close w3))
      else ensure (cr_state (connector w) = States_kDisconnected) AssertFailed (Inr w))"

definition Connector_handleError ::
  "('w, 'b) cenv_scheme \<Rightarrow> 'a cworld_scheme \<Rightarrow> 'a cworld_scheme res" where
  "Connector_handleError E w =
     (if cr_state (connector w) = States_kConnecting
      then
        bindR (Connector_removeAndResetChannel (c_ev E) (c_tid E) w) (\<lambda>(sockfd, w1).
        Connector_retry E sockfd (upd_sock sockfd (\<lambda>s. snd (sockets_getSocketError s)) w1))
      else Inr w)"

definition Connector_stop :: "libev \<Rightarrow> thread_id \<Rightarrow> 'a cworld_scheme \<Rightarrow> 'a cworld_scheme res" where
  "Connector_stop L t w =
     (let w1 = on_cr (\<lambda>c. c\<lparr>cr_connect := False\<rparr>) w;
          w2 = upd_cr_loop (EventLoop_queueInLoop t F_Connector_stopInLoop) w1
      in Connector_cancelTimer L t w2)"

definition Connector_stopInLoop ::
  "('w, 'b) cenv_scheme \<Rightarrow> 'a cworld_scheme \<Rightarrow> 'a cworld_scheme res" where
  "Connector_stopInLoop E w =
     EventLoop_assertInLoopThread (c_tid E) (cr_ev_loop w)
       (if cr_state (connector w) = States_kConnecting
        then
          bindR (Connector_removeAndResetChannel (c_ev E) (c_tid E)
                   (on_cr (Connector_setState States_kDisconnected) w)) (\<lambda>(sockfd, w1).
          Connector_retry E sockfd w1)
        else Inr w)"

section \<open>TcpClient\<close>

record TcpClient =
  cl_loop :: loop_id
  cl_connectionCallback :: "user_callback option"
  cl_messageCallback :: "user_callback option"
  cl_writeCompleteCallback :: "user_callback option"
  cl_retry :: bool
  cl_connect :: bool
  cl_nextConnId :: int32_t
  connection :: "conn_id option"

text \<open>\<open>cl_nextObj\<close> is the address the next \<open>new TcpConnection\<close> returns.\<close>

record clworld = cworld +
  client :: TcpClient
  cl_nextObj :: conn_id

definition on_cl :: "(TcpClient \<Rightarrow> TcpClient) \<Rightarrow> 'a clworld_scheme \<Rightarrow> 'a clworld_scheme" where
  "on_cl f w = w\<lparr>client := f (client w)\<rparr>"

definition TcpClient_ctor :: "loop_id option \<Rightarrow> sockaddr_in \<Rightarrow> (TcpClient \<times> Connector) res" where
  "TcpClient_ctor loop addr =
     (case loop of
        None \<Rightarrow> Inl Fatal
      | Some l \<Rightarrow>
          Inr (\<lparr>cl_loop = l, cl_connectionCallback = None, cl_messageCallback = None,
                cl_writeCompleteCallback = None, cl_retry = False, cl_connect = True, cl_nextConnId = 1,
                connection = None\<rparr>,
               Connector_setNewConnectionCallback (Connector_ctor l addr)))"

definition TcpClient_enableRetry :: "TcpClient \<Rightarrow> TcpClient" where
  "TcpClient_enableRetry c = c\<lparr>cl_retry := True\<rparr>"

definition TcpClient_setConnectionCallback :: "user_callback option \<Rightarrow> TcpClient \<Rightarrow> TcpClient" where
  "TcpClient_setConnectionCallback cb c = c\<lparr>cl_connectionCallback := cb\<rparr>"

definition TcpClient_setMessageCallback :: "user_callback option \<Rightarrow> TcpClient \<Rightarrow> TcpClient" where
  "TcpClient_setMessageCallback cb c = c\<lparr>cl_messageCallback := cb\<rparr>"

definition TcpClient_setWriteCompleteCallback :: "user_callback option \<Rightarrow> TcpClient \<Rightarrow> TcpClient" where
  "TcpClient_setWriteCompleteCallback cb c = c\<lparr>cl_writeCompleteCallback := cb\<rparr>"

text \<open>The name of a connection: \<open>snprintf\<close> into 32 bytes keeps 31 characters.\<close>

definition TcpClient_connName :: "string \<Rightarrow> int32_t \<Rightarrow> string" where
  "TcpClient_connName peer n = take 31 (CHR '':'' # peer @ CHR ''#'' # show_int (sint n))"

text \<open>The connection that \<open>newConnection\<close> builds, at the address \<open>this\<close>.\<close>

definition TcpClient_build ::
  "libev \<Rightarrow> conn_id \<Rightarrow> string \<Rightarrow> int \<Rightarrow> sockaddr_in \<Rightarrow> sockaddr_in \<Rightarrow> TcpClient \<Rightarrow> TcpConnection" where
  "TcpClient_build L this connName sockfd local peer c =
     TcpConnection_setCloseCallback (Some Cb_TcpClient_removeConnection)
       (TcpConnection_setWriteCompleteCallback (cl_writeCompleteCallback c)
         (TcpConnection_setMessageCallback (cl_messageCallback c)
           (TcpConnection_setConnectionCallback (cl_connectionCallback c)
             (TcpConnection_ctor L this (cl_loop c) connName sockfd local peer))))"

definition TcpClient_newConnection ::
  "('a clworld_ext cworld_ext net_scheme, 'b) env_scheme \<Rightarrow> int \<Rightarrow> 'a clworld_scheme \<Rightarrow> 'a clworld_scheme res" where
  "TcpClient_newConnection E sockfd w =
     EventLoop_assertInLoopThread (tid E) (loops w (cl_loop (client w)))
       (let peer = sockets_getPeerAddr (socks w sockfd)
        in bindR (InetAddress_toIpPort peer) (\<lambda>ipPort.
           let connName = TcpClient_connName ipPort (cl_nextConnId (client w));
               w1 = on_cl (\<lambda>c. c\<lparr>cl_nextConnId := cl_nextConnId c + 1\<rparr>) w;
               local = sockets_getLocalAddr (socks w1 sockfd);
               conn = cl_nextObj w1;
               w2 = upd_conn conn (\<lambda>_. TcpClient_build (ev E) conn connName sockfd local peer (client w1))
                      (w1\<lparr>cl_nextObj := conn + 1\<rparr>);
               w3 = on_cl (\<lambda>c. c\<lparr>connection := Some conn\<rparr>) w2
           in TcpConnection_connectEstablished E conn w3))"

definition TcpClient_connect ::
  "('w, 'b) cenv_scheme \<Rightarrow> 'a clworld_scheme \<Rightarrow> 'a clworld_scheme res" where
  "TcpClient_connect C w = Connector_start C (on_cl (\<lambda>c. c\<lparr>cl_connect := True\<rparr>) w)"

definition TcpClient_disconnect ::
  "('a clworld_ext cworld_ext net_scheme, 'b) env_scheme \<Rightarrow> 'a clworld_scheme \<Rightarrow> 'a clworld_scheme res" where
  "TcpClient_disconnect E w =
     (let w1 = on_cl (\<lambda>c. c\<lparr>cl_connect := False\<rparr>) w
      in case connection (client w1) of
           Some conn \<Rightarrow> TcpConnection_shutdown E conn w1
         | None \<Rightarrow> Inr w1)"

definition TcpClient_stop :: "libev \<Rightarrow> thread_id \<Rightarrow> 'a clworld_scheme \<Rightarrow> 'a clworld_scheme res" where
  "TcpClient_stop L t w = Connector_stop L t (on_cl (\<lambda>c. c\<lparr>cl_connect := False\<rparr>) w)"

definition TcpClient_removeConnection ::
  "('w, 'b) cenv_scheme \<Rightarrow> conn_id \<Rightarrow> 'a clworld_scheme \<Rightarrow> 'a clworld_scheme res" where
  "TcpClient_removeConnection C conn w =
     EventLoop_assertInLoopThread (c_tid C) (loops w (cl_loop (client w)))
       (ensure (cl_loop (client w) = conn_loop (conns w conn)) AssertFailed
         (ensure (connection (client w) = Some conn) AssertFailed
           (let w1 = on_cl (\<lambda>c. c\<lparr>connection := None\<rparr>) w;
                w2 = upd_loop (cl_loop (client w1)) (EventLoop_queueInLoop (c_tid C) (F_connectDestroyed conn)) w1
            in if cl_connect (client w2) \<and> cl_retry (client w2) then Connector_restart C w2 else Inr w2)))"

text \<open>\<open>detail::removeConnection\<close>, the close callback that a destroyed client leaves behind.\<close>

definition detail_removeConnection :: "thread_id \<Rightarrow> loop_id \<Rightarrow> conn_id \<Rightarrow> 'a net_scheme \<Rightarrow> 'a net_scheme" where
  "detail_removeConnection t loop conn w = upd_loop loop (EventLoop_queueInLoop t (F_connectDestroyed conn)) w"

text \<open>\<open>detail::removeConnector\<close> keeps the connector alive until its timer fires, and does nothing.\<close>

definition detail_removeConnector :: "'w \<Rightarrow> 'w res" where
  "detail_removeConnector w = Inr w"

definition TcpClient_dtor ::
  "libev \<Rightarrow> thread_id \<Rightarrow> timer_ptr \<Rightarrow> 'a clworld_scheme \<Rightarrow> 'a clworld_scheme res" where
  "TcpClient_dtor L t p w =
     (case connection (client w) of
        Some conn \<Rightarrow>
          let l = cl_loop (client w); cb = Cb_detail_removeConnection l
          in EventLoop_runInLoop (\<lambda>w. loops w l) (upd_loop l) t (F_setCloseCallback conn cb)
               (\<lambda>w. Inr (upd_conn conn (TcpConnection_setCloseCallback (Some cb)) w)) w
      | None \<Rightarrow>
          bindR (Connector_stop L t w) (\<lambda>w1.
          bindR (EventLoop_runAfter L t p 1 F_removeConnector
                   (timersCreated w1, loops w1 (cl_loop (client w1)))) (\<lambda>(_, n, l).
          Inr (upd_loop (cl_loop (client w1)) (\<lambda>_. l) w1\<lparr>timersCreated := n\<rparr>))))"

section \<open>The connector on its loop\<close>

text \<open>
  The functors in the queue of a loop that are about the start of an attempt and the end of a channel,
  in their order, and the timers that will start an attempt.
\<close>

definition cr_queue :: "EventLoop \<Rightarrow> Functor list" where
  "cr_queue l = filter (\<lambda>f. f = F_Connector_startInLoop \<or> f = F_Connector_resetChannel) (pendingFunctors l)"

definition armed :: "EventLoop \<Rightarrow> timer_ptr set" where
  "armed l = {p. \<exists>tm. timerHeap l p = Some tm \<and> Timer_isActive tm \<and> callBack tm = F_Connector_startInLoop}"

text \<open>
  What the library and the user's callbacks do beside the connector: timers that start an attempt are
  the connector's own, so that others may only end them, and so are the two functors.
\<close>

definition loop_frame :: "EventLoop \<Rightarrow> EventLoop \<Rightarrow> bool" where
  "loop_frame l l' \<longleftrightarrow> threadId l' = threadId l \<and> cr_queue l' = cr_queue l \<and> armed l' \<subseteq> armed l \<and>
     (EventLoop_timers_inv l \<longrightarrow> EventLoop_timers_inv l')"

definition cr_frame :: "'a cworld_scheme \<Rightarrow> 'a cworld_scheme \<Rightarrow> bool" where
  "cr_frame w w' \<longleftrightarrow> connector w' = connector w \<and> loop_frame (cr_ev_loop w) (cr_ev_loop w')"

text \<open>
  The callbacks of the connector's channel and the dispatch of its events; the functors of the
  connector when the loop runs them.
\<close>

fun Connector_callback ::
  "('a cworld_scheme, 'b) cenv_scheme \<Rightarrow> channel_callback \<Rightarrow> 'a cworld_scheme \<Rightarrow> 'a cworld_scheme res" where
  "Connector_callback C Cb_Connector_handleWrite w = Connector_handleWrite C w"
| "Connector_callback C Cb_Connector_handleError w = Connector_handleError C w"
| "Connector_callback C _ w = Inr w"

definition on_cr_channel :: "(Channel \<Rightarrow> Channel) \<Rightarrow> 'a cworld_scheme \<Rightarrow> 'a cworld_scheme" where
  "on_cr_channel f = on_cr (\<lambda>c. c\<lparr>cr_channel := map_option f (cr_channel c)\<rparr>)"

definition Connector_event ::
  "('a cworld_scheme, 'b) cenv_scheme \<Rightarrow> evmask \<Rightarrow> 'a cworld_scheme \<Rightarrow> 'a cworld_scheme res" where
  "Connector_event C revents w =
     Channel_handleEvent (\<lambda>w. the (cr_channel (connector w))) on_cr_channel (Connector_callback C)
       (\<lambda>_. True) revents w"

fun Connector_functor ::
  "('a cworld_scheme, 'b) cenv_scheme \<Rightarrow> Functor \<Rightarrow> 'a cworld_scheme \<Rightarrow> 'a cworld_scheme res" where
  "Connector_functor C F_Connector_startInLoop w = Connector_startInLoop C w"
| "Connector_functor C F_Connector_stopInLoop w = Connector_stopInLoop C w"
| "Connector_functor C F_Connector_resetChannel w = Connector_resetChannel w"
| "Connector_functor C (F_cancelInLoop i) w =
     bindR (EventLoop_cancelInLoop (c_ev C) (c_tid C) i (cr_ev_loop w)) (\<lambda>l. Inr (upd_cr_loop (\<lambda>_. l) w))"
| "Connector_functor C _ w = Inr w"

text \<open>
  All that happens to a connector: \<open>start\<close> and \<open>stop\<close> from any thread, \<open>restart\<close>, the events of its
  channel, the end of its timer in libev, which runs the callback, the run of the first functor of the
  loop's queue, and everything else. \<open>C\<close> holds the results of the system calls of that step.
\<close>

datatype 'w cr_act =
    Cr_start "'w cenv"
  | Cr_stop thread_id
  | Cr_restart "'w cenv"
  | Cr_event "'w cenv" evmask
  | Cr_fire "'w cenv" timer_ptr
  | Cr_run "'w cenv"
  | Cr_other 'w

definition timer_done :: "timer_ptr \<Rightarrow> EventLoop \<Rightarrow> EventLoop" where
  "timer_done p l =
     l\<lparr>timerHeap := (timerHeap l)(p :=
         map_option (\<lambda>tm. tm\<lparr>timeWatcher := (timeWatcher tm)\<lparr>tm_active := False\<rparr>\<rparr>) (timerHeap l p))\<rparr>"

fun cr_do :: "libev \<Rightarrow> 'a cworld_scheme cr_act \<Rightarrow> 'a cworld_scheme \<Rightarrow> 'a cworld_scheme res" where
  "cr_do L (Cr_start C) w = Connector_start C w"
| "cr_do L (Cr_stop t') w = Connector_stop L t' w"
| "cr_do L (Cr_restart C) w = Connector_restart C w"
| "cr_do L (Cr_event C revents) w = Connector_event C revents w"
| "cr_do L (Cr_fire C p) w = Connector_startInLoop C (upd_cr_loop (timer_done p) w)"
| "cr_do L (Cr_run C) w =
     (case pendingFunctors (cr_ev_loop w) of
        [] \<Rightarrow> Inr w
      | f # fs \<Rightarrow> Connector_functor C f (upd_cr_loop (\<lambda>l. l\<lparr>pendingFunctors := fs\<rparr>) w))"
| "cr_do L (Cr_other w') w = Inr w'"

text \<open>
  The environment of a step: the allocator returns a free address. What the
  connector's operations leave alone: the connections, whatever else extends its world, and the threads
  of the loops. The new-connection callback is \<open>new_ok\<close> when, called in such a state, it returns and
  leaves the connector to itself.
\<close>

definition cenv_ok :: "libev \<Rightarrow> 'a cworld_scheme cenv \<Rightarrow> 'a cworld_scheme \<Rightarrow> bool" where
  "cenv_ok L C w \<longleftrightarrow> c_ev C = L \<and> fresh_timer (c_timer C) (cr_ev_loop w)"

text \<open>
  An operation that may call \<open>socket(2)\<close> returns in a state with \<open>P\<close>, or ends the process as the code means it to
  where that call fails.
\<close>

definition goes_on :: "('w, 'b) cenv_scheme \<Rightarrow> ('w \<Rightarrow> bool) \<Rightarrow> 'w res \<Rightarrow> bool" where
  "goes_on C P r \<longleftrightarrow> (case r of Inr w' \<Rightarrow> P w' | Inl e \<Rightarrow> e = Fatal \<and> c_sockfd C < 0)"

lemma goes_on_simps [simp]:
  "goes_on C P (Inr w) = P w" "goes_on C P (Inl e) = (e = Fatal \<and> c_sockfd C < 0)"
  by (simp_all add: goes_on_def)

fun no_socket :: "'w cr_act \<Rightarrow> bool" where
  "no_socket (Cr_start C) \<longleftrightarrow> c_sockfd C < 0"
| "no_socket (Cr_restart C) \<longleftrightarrow> c_sockfd C < 0"
| "no_socket (Cr_fire C p) \<longleftrightarrow> c_sockfd C < 0"
| "no_socket (Cr_run C) \<longleftrightarrow> c_sockfd C < 0"
| "no_socket _ \<longleftrightarrow> False"

definition attempt_frame :: "'a cworld_scheme \<Rightarrow> 'a cworld_scheme \<Rightarrow> bool" where
  "attempt_frame w w' \<longleftrightarrow> cworld.more w' = cworld.more w \<and> conns w' = conns w \<and>
     cr_loop (connector w') = cr_loop (connector w) \<and> (\<forall>l. threadId (loops w' l) = threadId (loops w l))"

definition new_ok :: "'a cworld_scheme cenv \<Rightarrow> 'a cworld_scheme \<Rightarrow> bool" where
  "new_ok C w \<longleftrightarrow> (\<forall>fd w1. attempt_frame w w1 \<longrightarrow> (\<exists>w2. c_new C fd w1 = Inr w2 \<and> cr_frame w1 w2))"

text \<open>
  When a step can happen. A client calls \<open>start\<close> only when no attempt is running or waiting, and in the
  loop's thread only when the channel of the last attempt is gone. An event is reported for a watcher
  that is active. The timer of a retry, which runs for at least half a second, fires after the queue
  that was filled before it has been run, and \<open>restart\<close>, which follows a connection's end, comes after
  it as well: \<open>prepareCallBack\<close> runs before each poll.
\<close>

fun cr_enabled :: "libev \<Rightarrow> thread_id \<Rightarrow> 'a cworld_scheme cr_act \<Rightarrow> 'a cworld_scheme \<Rightarrow> bool" where
  "cr_enabled L t (Cr_start C) w \<longleftrightarrow> cenv_ok L C w \<and> cr_state (connector w) = States_kDisconnected \<and>
     armed (cr_ev_loop w) = {} \<and> F_Connector_startInLoop \<notin> set (pendingFunctors (cr_ev_loop w)) \<and>
     (c_tid C = t \<longrightarrow> cr_channel (connector w) = None)"
| "cr_enabled L t (Cr_stop t') w \<longleftrightarrow> True"
| "cr_enabled L t (Cr_restart C) w \<longleftrightarrow> cenv_ok L C w \<and> c_tid C = t \<and>
     cr_state (connector w) = States_kConnected \<and> cr_channel (connector w) = None"
| "cr_enabled L t (Cr_event C revents) w \<longleftrightarrow> cenv_ok L C w \<and> new_ok C w \<and> c_tid C = t \<and>
     (case cr_channel (connector w) of None \<Rightarrow> False | Some ch \<Rightarrow> Channel_live ch)"
| "cr_enabled L t (Cr_fire C p) w \<longleftrightarrow> cenv_ok L C w \<and> c_tid C = t \<and> p \<in> armed (cr_ev_loop w) \<and>
     cr_channel (connector w) = None"
| "cr_enabled L t (Cr_run C) w \<longleftrightarrow> cenv_ok L C w \<and> c_tid C = t"
| "cr_enabled L t (Cr_other w') w \<longleftrightarrow> cr_frame w w'"

definition cr_initial :: "thread_id \<Rightarrow> 'a cworld_scheme \<Rightarrow> bool" where
  "cr_initial t w \<longleftrightarrow> hasNewConnection (connector w) \<and> cr_state (connector w) = States_kDisconnected \<and> cr_channel (connector w) = None \<and>
     cr_queue (cr_ev_loop w) = [] \<and> armed (cr_ev_loop w) = {} \<and> threadId (cr_ev_loop w) = t \<and>
     EventLoop_timers_inv (cr_ev_loop w)"

inductive cr_reachable :: "libev \<Rightarrow> thread_id \<Rightarrow> 'a cworld_scheme \<Rightarrow> bool" for L t where
  cr_start: "cr_initial t w \<Longrightarrow> cr_reachable L t w"
| cr_next: "cr_reachable L t w \<Longrightarrow> cr_enabled L t a w \<Longrightarrow> cr_do L a w = Inr w' \<Longrightarrow> cr_reachable L t w'"

section \<open>Invariant of the connector\<close>

text \<open>
  \<open>busy\<close>: the channel is dispatching. An attempt owns the only live channel, and while there is none, at
  most one event (a queued functor or a timer) will start the next attempt; the removed channel is
  destroyed by the one \<open>resetChannel\<close> in the queue, before any queued start.
\<close>

definition channel_ok :: "bool \<Rightarrow> Channel \<Rightarrow> bool" where
  "channel_ok busy ch \<longleftrightarrow> eventHandling ch = busy \<and> \<not> ch_tied ch \<and> readCallback ch = None \<and>
     writeCallback ch = Some Cb_Connector_handleWrite \<and> errorCallback ch = Some Cb_Connector_handleError"

definition idle_queue :: "Connector \<Rightarrow> EventLoop \<Rightarrow> Functor list" where
  "idle_queue c l = (case cr_channel c of None \<Rightarrow> [] | Some ch \<Rightarrow> [F_Connector_resetChannel])"

definition cr_ok :: "bool \<Rightarrow> thread_id \<Rightarrow> Connector \<Rightarrow> EventLoop \<Rightarrow> bool" where
  "cr_ok busy t c l \<longleftrightarrow> threadId l = t \<and> EventLoop_timers_inv l \<and>
     (\<forall>ch. cr_channel c = Some ch \<longrightarrow> channel_ok busy ch \<and>
        Channel_live ch = (cr_state c = States_kConnecting)) \<and>
     (\<forall>p q. p \<in> armed l \<longrightarrow> q \<in> armed l \<longrightarrow> p = q) \<and>
     (case cr_state c of
        States_kConnecting \<Rightarrow> cr_queue l = [] \<and> armed l = {} \<and>
          (\<exists>ch. cr_channel c = Some ch \<and> Channel_isWriting ch)
      | States_kConnected \<Rightarrow> cr_queue l = idle_queue c l \<and> armed l = {}
      | States_kDisconnected \<Rightarrow> cr_queue l = idle_queue c l \<or>
          cr_queue l = idle_queue c l @ [F_Connector_startInLoop] \<and> armed l = {})"

definition cr_inv :: "bool \<Rightarrow> thread_id \<Rightarrow> 'a cworld_scheme \<Rightarrow> bool" where
  "cr_inv busy t w \<longleftrightarrow> hasNewConnection (connector w) \<and> cr_ok busy t (connector w) (cr_ev_loop w)"

lemma on_cr_simps [simp]:
  "connector (on_cr f w) = f (connector w)" "loops (on_cr f w) = loops w" "conns (on_cr f w) = conns w"
  "socks (on_cr f w) = socks w" "timersCreated (on_cr f w) = timersCreated w"
  by (simp_all add: on_cr_def)

lemma cworld_upd_simps [simp]:
  "connector (upd_loop i f w) = connector w" "connector (upd_conn c g w) = connector w"
  "connector (upd_sock fd h w) = connector w" "connector (upd_cr_loop f w) = connector w"
  "socks (upd_cr_loop f w) = socks w" "timersCreated (upd_cr_loop f w) = timersCreated w"
  by (simp_all add: upd_loop_def upd_conn_def upd_sock_def upd_cr_loop_def)

lemma cr_ev_loop_simps [simp]:
  "cr_ev_loop (upd_cr_loop f w) = f (cr_ev_loop w)" "cr_ev_loop (upd_sock fd h w) = cr_ev_loop w"
  "cr_ev_loop (w\<lparr>timersCreated := n\<rparr>) = cr_ev_loop w"
  by (simp_all add: cr_ev_loop_def upd_cr_loop_def)

lemma cr_ev_loop_on_cr [simp]:
  "cr_loop (f (connector w)) = cr_loop (connector w) \<Longrightarrow> cr_ev_loop (on_cr f w) = cr_ev_loop w"
  by (simp add: cr_ev_loop_def)

lemma setState_cr_simps [simp]:
  "cr_loop (Connector_setState s c) = cr_loop c" "cr_channel (Connector_setState s c) = cr_channel c"
  "cr_state (Connector_setState s c) = s" "cr_connect (Connector_setState s c) = cr_connect c"
  "retryDelayMs (Connector_setState s c) = retryDelayMs c"
  "hasNewConnection (Connector_setState s c) = hasNewConnection c"
  "serverAddr (Connector_setState s c) = serverAddr c" "retryTimer (Connector_setState s c) = retryTimer c"
  by (simp_all add: Connector_setState_def)

lemma queue_views [simp]:
  "cr_queue (EventLoop_queueInLoop t f l) =
     cr_queue l @ (if f = F_Connector_startInLoop \<or> f = F_Connector_resetChannel then [f] else [])"
  "armed (EventLoop_queueInLoop t f l) = armed l"
  "EventLoop_timers_inv (EventLoop_queueInLoop t f l) = EventLoop_timers_inv l"
  by (simp_all add: cr_queue_def armed_def EventLoop_timers_inv_def)

lemma loop_frame_ok: "cr_ok b t c l \<Longrightarrow> loop_frame l l' \<Longrightarrow> cr_ok b t c l'"
  unfolding cr_ok_def loop_frame_def idle_queue_def
  by (cases "cr_state c") (auto split: option.splits)

lemma cr_frame_inv: "cr_inv b t w \<Longrightarrow> cr_frame w w' \<Longrightarrow> cr_inv b t w'"
  by (auto simp: cr_inv_def cr_frame_def intro: loop_frame_ok)

text \<open>The loop's operations that the connector uses.\<close>

lemma addTimer_pending:
  "TimerQueue_addTimer L t p cb after interval (n, l) = Inr (i, n', l') \<Longrightarrow> threadId l = t \<Longrightarrow>
   pendingFunctors l' = pendingFunctors l"
  by (auto simp: TimerQueue_addTimer_def Timer_ctor_eq EventLoop_runInLoop_def EventLoop_isInLoopThread_def
      EventLoop_addTimerInLoop_def res_simps split: prod.splits)

lemma cancelInLoop_frame:
  assumes L: "libev_ok L" and inv: "EventLoop_timers_inv l"
  shows "\<exists>l'. EventLoop_cancelInLoop L (threadId l) i l = Inr l' \<and> loop_frame l l'"
proof (cases "i \<in> set (validTimers (timerQueue l))")
  case True
  then obtain t where t: "timerHeap l (fst i) = Some t"
    "TimerQueue_cancel L (threadId l) i l = Inr (l\<lparr>timerHeap := (timerHeap l)(fst i \<mapsto> Timer_stop L t)\<rparr>)"
    "EventLoop_timers_inv (l\<lparr>timerHeap := (timerHeap l)(fst i \<mapsto> Timer_stop L t)\<rparr>)"
    "\<not> Timer_isActive (Timer_stop L t)"
    using cancel_in_loop_valid[OF L inv refl, of "fst i" "snd i"] by auto
  have "TimerQueue_cancel L (threadId l) i l = EventLoop_cancelInLoop L (threadId l) i l"
    by (simp add: TimerQueue_cancel_def EventLoop_runInLoop_def EventLoop_isInLoopThread_def)
  then show ?thesis using t
    by (intro exI[of _ "l\<lparr>timerHeap := (timerHeap l)(fst i \<mapsto> Timer_stop L t)\<rparr>"])
       (auto simp: loop_frame_def cr_queue_def armed_def split: if_splits)
next
  case False
  have "TimerQueue_cancel L (threadId l) i l = EventLoop_cancelInLoop L (threadId l) i l"
    by (simp add: TimerQueue_cancel_def EventLoop_runInLoop_def EventLoop_isInLoopThread_def)
  then show ?thesis using cancel_in_loop_stale[where l = l and tid = "threadId l" and timerId = i and L = L] False
    by (intro exI[of _ l]) (simp add: loop_frame_def)
qed

lemma cancel_frame:
  assumes L: "libev_ok L" and inv: "EventLoop_timers_inv l"
  shows "\<exists>l'. EventLoop_cancel L t i l = Inr l' \<and> loop_frame l l'"
proof (cases "threadId l = t")
  case True
  then show ?thesis using cancelInLoop_frame[OF L inv, of i]
    by (simp add: EventLoop_cancel_def TimerQueue_cancel_def EventLoop_runInLoop_def EventLoop_isInLoopThread_def)
next
  case False
  then show ?thesis
    by (simp add: EventLoop_cancel_def TimerQueue_cancel_def EventLoop_runInLoop_def EventLoop_isInLoopThread_def
        loop_frame_def)
qed

lemma cworld_more_simps [simp]:
  "cworld.more (on_cr f w) = cworld.more w" "cworld.more (upd_loop i g w) = cworld.more w"
  "cworld.more (upd_cr_loop g w) = cworld.more w" "cworld.more (upd_sock fd h w) = cworld.more w"
  by (simp_all add: on_cr_def upd_loop_def upd_cr_loop_def upd_sock_def)

text \<open>The elementary changes of a connector's operations are within the frame.\<close>

lemma attempt_frame_refl [simp]: "attempt_frame w w"
  by (simp add: attempt_frame_def)

lemma attempt_frame_trans: "attempt_frame w w' \<Longrightarrow> attempt_frame w' w'' \<Longrightarrow> attempt_frame w w''"
  by (simp add: attempt_frame_def)

lemma attempt_frame_steps [simp]:
  "cr_loop (f (connector w)) = cr_loop (connector w) \<Longrightarrow> attempt_frame u (on_cr f w) = attempt_frame u w"
  "attempt_frame u (upd_sock fd h w) = attempt_frame u w"
  "threadId (g (cr_ev_loop w)) = threadId (cr_ev_loop w) \<Longrightarrow> attempt_frame u (upd_cr_loop g w) = attempt_frame u w"
  "attempt_frame u (w\<lparr>timersCreated := n\<rparr>) = attempt_frame u w"
  "cr_loop (f (connector w)) = cr_loop (connector w) \<Longrightarrow> attempt_frame (on_cr f w) u = attempt_frame w u"
  "attempt_frame (upd_sock fd h w) u = attempt_frame w u"
  "threadId (g (cr_ev_loop w)) = threadId (cr_ev_loop w) \<Longrightarrow> attempt_frame (upd_cr_loop g w) u = attempt_frame w u"
  by (auto simp: attempt_frame_def upd_cr_loop_def upd_loop_def cr_ev_loop_def on_cr_def upd_sock_def)

text \<open>\<open>retry\<close> closes the descriptor, leaves the channel and the queue, and arms at most its own timer.\<close>

lemma retry_ok:
  assumes L: "libev_ok (c_ev C)" and inv: "EventLoop_timers_inv (cr_ev_loop w)"
    and t: "threadId (cr_ev_loop w) = c_tid C" and fresh: "fresh_timer (c_timer C) (cr_ev_loop w)"
  shows "\<exists>w'. Connector_retry C fd w = Inr w' \<and> cr_state (connector w') = States_kDisconnected \<and>
    cr_channel (connector w') = cr_channel (connector w) \<and>
    hasNewConnection (connector w') = hasNewConnection (connector w) \<and>
    threadId (cr_ev_loop w') = c_tid C \<and> EventLoop_timers_inv (cr_ev_loop w') \<and>
    cr_queue (cr_ev_loop w') = cr_queue (cr_ev_loop w) \<and>
    armed (cr_ev_loop w') = (if cr_connect (connector w) then insert (c_timer C) (armed (cr_ev_loop w))
      else armed (cr_ev_loop w)) \<and>
    socks w' = (socks w)(fd := sockets_close (socks w fd))"
proof (cases "cr_connect (connector w)")
  case False
  then show ?thesis using inv t by (simp add: Connector_retry_def Let_def)
next
  case True
  let ?cb = "F_Connector_startInLoop" and ?l = "cr_ev_loop w"
  let ?d = "real_of_int (sint (retryDelayMs (connector w))) / 1000"
  obtain l' tm where l': "TimerQueue_addTimer (c_ev C) (c_tid C) (c_timer C) ?cb ?d 0 (timersCreated w, ?l) =
      Inr ((c_timer C, sint (timersCreated w + 1)), timersCreated w + 1, l')"
    "EventLoop_timers_inv l'" "timerHeap l' = (timerHeap ?l)(c_timer C \<mapsto> tm)" "Timer_isActive tm"
    "callBack tm = ?cb" "threadId l' = c_tid C"
    using addTimer_in_loop[OF L inv fresh t, of ?cb ?d 0 "timersCreated w"] by blast
  have q: "cr_queue l' = cr_queue ?l" using addTimer_pending[OF l'(1) t] by (simp add: cr_queue_def)
  have a: "armed l' = insert (c_timer C) (armed ?l)"
    using l'(3,4,5) fresh by (auto simp: armed_def fresh_timer_def split: if_splits)
  show ?thesis
    using True l' q a by (simp add: Connector_retry_def Let_def EventLoop_runAfter_def)
qed

text \<open>The channel is stopped, and its end is queued.\<close>

lemma removeAndReset_ok:
  assumes L: "libev_ok L" and ch: "cr_channel (connector w) = Some ch" "Channel_live ch"
    and t: "threadId (cr_ev_loop w) = t"
  shows "\<exists>ch'. Connector_removeAndResetChannel L t w =
      Inr (ch_fd ch, upd_cr_loop (EventLoop_queueInLoop t F_Connector_resetChannel)
        (on_cr (\<lambda>c. c\<lparr>cr_channel := Some ch'\<rparr>) w)) \<and>
    \<not> Channel_live ch' \<and> (\<forall>busy. channel_ok busy ch \<longrightarrow> channel_ok busy ch')"
proof -
  let ?d = "Channel_disableAll L ch"
  let ?ch = "?d\<lparr>ioWatcher := io_stop L (ioWatcher ?d)\<rparr>"
  have run: "Channel_remove L True ?d = Inr ?ch"
    using L ch(2) by (simp add: Channel_remove_def EventLoop_removeChannel_def Channel_stop_def)
  have "channel_ok busy ch \<longrightarrow> channel_ok busy ?ch" for busy
    by (simp add: channel_ok_def Channel_defs)
  moreover have "\<not> Channel_live ?ch" "ch_fd ?ch = ch_fd ch" using L by (simp_all add: libev_okD)
  ultimately show ?thesis
    using run ch(1) t
    by (intro exI[of _ ?ch]) (simp add: Connector_removeAndResetChannel_def EventLoop_isInLoopThread_def Let_def)
qed

text \<open>No attempt is running, waiting or planned; at most the dead channel is left.\<close>

definition cr_gone :: "bool \<Rightarrow> thread_id \<Rightarrow> 'a cworld_scheme \<Rightarrow> bool" where
  "cr_gone busy t w \<longleftrightarrow> hasNewConnection (connector w) \<and> threadId (cr_ev_loop w) = t \<and>
     EventLoop_timers_inv (cr_ev_loop w) \<and> armed (cr_ev_loop w) = {} \<and>
     cr_queue (cr_ev_loop w) = idle_queue (connector w) (cr_ev_loop w) \<and>
     (\<forall>ch. cr_channel (connector w) = Some ch \<longrightarrow> channel_ok busy ch \<and> \<not> Channel_live ch)"

lemma cr_gone_inv:
  "cr_gone busy t w \<Longrightarrow> cr_state (connector w) \<noteq> States_kConnecting \<Longrightarrow> cr_inv busy t w"
  by (cases "cr_state (connector w)") (auto simp: cr_gone_def cr_inv_def cr_ok_def idle_queue_def)

lemma cr_gone_setState [simp]: "cr_gone busy t (on_cr (Connector_setState s) w) = cr_gone busy t w"
  by (simp add: cr_gone_def idle_queue_def)

lemma cr_gone_upd_sock [simp]: "cr_gone busy t (upd_sock fd h w) = cr_gone busy t w"
  by (simp add: cr_gone_def)

lemma retry_inv:
  assumes L: "libev_ok (c_ev C)" and gone: "cr_gone busy (c_tid C) w"
    and fresh: "fresh_timer (c_timer C) (cr_ev_loop w)"
  shows "\<exists>w'. Connector_retry C fd w = Inr w' \<and> cr_inv busy (c_tid C) w' \<and>
    cr_state (connector w') = States_kDisconnected \<and> cr_channel (connector w') = cr_channel (connector w)"
proof -
  have pre: "EventLoop_timers_inv (cr_ev_loop w)" "threadId (cr_ev_loop w) = c_tid C"
    using gone by (simp_all add: cr_gone_def)
  from retry_ok[OF L pre fresh, of fd] show ?thesis
    using gone by (force simp: cr_gone_def cr_inv_def cr_ok_def idle_queue_def)
qed

text \<open>The end of a running attempt: its channel dies, in whatever state the connector is put.\<close>

lemma end_attempt:
  assumes L: "libev_ok L" and inv: "cr_inv busy t w" and st: "cr_state (connector w) = States_kConnecting"
  shows "\<exists>fd w1. Connector_removeAndResetChannel L t (on_cr (Connector_setState s) w) = Inr (fd, w1) \<and>
    cr_gone busy t w1 \<and> cr_state (connector w1) = s \<and> timerHeap (cr_ev_loop w1) = timerHeap (cr_ev_loop w) \<and>
    cr_connect (connector w1) = cr_connect (connector w) \<and> cr_channel (connector w1) \<noteq> None \<and>
    attempt_frame w w1"
proof -
  let ?w = "on_cr (Connector_setState s) w"
  obtain ch where ch: "cr_channel (connector ?w) = Some ch" "Channel_live ch" "channel_ok busy ch"
    "threadId (cr_ev_loop ?w) = t"
    using inv st by (auto simp: cr_inv_def cr_ok_def)
  show ?thesis
    using removeAndReset_ok[OF L ch(1,2,4)] inv st ch(3)
    by (force simp: cr_gone_def cr_inv_def cr_ok_def idle_queue_def)
qed

lemma setState_same: "cr_state (connector w) = s \<Longrightarrow> on_cr (Connector_setState s) w = w"
  by (cases w) (auto simp: on_cr_def Connector_setState_def)

lemma handleWrite_inv:
  assumes C: "libev_ok (c_ev C)" "cenv_ok (c_ev C) C w0" and inv: "cr_inv busy (c_tid C) w"
    and new0: "new_ok C w0" "attempt_frame w0 w"
    and heap: "timerHeap (cr_ev_loop w) = timerHeap (cr_ev_loop w0)"
    and st: "cr_state (connector w) = States_kConnecting"
  shows "\<exists>w'. Connector_handleWrite C w = Inr w' \<and> cr_inv busy (c_tid C) w'"
proof -
  obtain fd w1 where w1: "Connector_removeAndResetChannel (c_ev C) (c_tid C) w = Inr (fd, w1)"
    "cr_gone busy (c_tid C) w1" "timerHeap (cr_ev_loop w1) = timerHeap (cr_ev_loop w)" "attempt_frame w w1"
    using end_attempt[OF C(1) inv st, of States_kConnecting] setState_same[OF st] by auto
  let ?w2 = "upd_sock fd (\<lambda>s. snd (sockets_getSocketError s)) w1"
  let ?w3 = "on_cr (Connector_setState States_kConnected) ?w2"
  have gone: "cr_gone busy (c_tid C) ?w2" using w1(2) by simp
  have fresh: "fresh_timer (c_timer C) (cr_ev_loop ?w2)"
    using C(2) heap w1(3) by (simp add: cenv_ok_def fresh_timer_def)
  have inv3: "cr_inv busy (c_tid C) ?w3" using gone by (intro cr_gone_inv) auto
  have "attempt_frame w0 ?w3" using attempt_frame_trans[OF new0(2) w1(4)] by simp
  then obtain w4 where w4: "c_new C fd ?w3 = Inr w4" "cr_frame ?w3 w4"
    using new0(1) unfolding new_ok_def by blast
  have new: "hasNewConnection (connector ?w3)" using gone by (simp add: cr_gone_def)
  have closed: "cr_inv busy (c_tid C) (upd_sock fd sockets_close ?w3)" using inv3 by (simp add: cr_inv_def)
  from retry_inv[OF C(1) gone fresh, of fd] obtain w5 where
    w5: "Connector_retry C fd ?w2 = Inr w5" "cr_inv busy (c_tid C) w5" by blast
  show ?thesis
    using st w1(1) w4 w5 new closed cr_frame_inv[OF inv3 w4(2)]
    by (simp add: Connector_handleWrite_def Let_def)
qed

lemma handleError_inv:
  assumes C: "libev_ok (c_ev C)" "cenv_ok (c_ev C) C w0" and inv: "cr_inv busy (c_tid C) w"
    and heap: "timerHeap (cr_ev_loop w) = timerHeap (cr_ev_loop w0)"
    and st: "cr_state (connector w) = States_kConnecting"
  shows "\<exists>w'. Connector_handleError C w = Inr w' \<and> cr_inv busy (c_tid C) w' \<and>
    cr_state (connector w') = States_kDisconnected \<and> cr_channel (connector w') \<noteq> None"
proof -
  obtain fd w1 where w1: "Connector_removeAndResetChannel (c_ev C) (c_tid C) w = Inr (fd, w1)"
    "cr_gone busy (c_tid C) w1" "timerHeap (cr_ev_loop w1) = timerHeap (cr_ev_loop w)"
    "cr_channel (connector w1) \<noteq> None"
    using end_attempt[OF C(1) inv st, of States_kConnecting] setState_same[OF st] by auto
  let ?w2 = "upd_sock fd (\<lambda>s. snd (sockets_getSocketError s)) w1"
  have "cr_gone busy (c_tid C) ?w2" "fresh_timer (c_timer C) (cr_ev_loop ?w2)"
    using C(2) heap w1(2,3) by (simp_all add: cenv_ok_def fresh_timer_def)
  from retry_inv[OF C(1) this, of fd] show ?thesis
    using st w1(1,4) by (auto simp: Connector_handleError_def)
qed

lemma startInLoop_inv:
  assumes C: "libev_ok (c_ev C)" "fresh_timer (c_timer C) (cr_ev_loop w)"
    and gone: "cr_gone False (c_tid C) w" and ch: "cr_channel (connector w) = None"
    and st: "cr_state (connector w) = States_kDisconnected"
  shows "goes_on C (cr_inv False (c_tid C)) (Connector_startInLoop C w)"
proof -
  let ?ch = "Channel_enableWriting (c_ev C) (Channel_setErrorCallback Cb_Connector_handleError
      (Channel_setWriteCallback Cb_Connector_handleWrite
        (Channel_ctor (c_ev C) (cr_loop (connector w)) (c_sockfd C))))"
  have cbs: "Channel_live (Channel_setErrorCallback e (Channel_setWriteCallback c x)) = Channel_live x" for e c x
    by (simp add: Channel_setErrorCallback_def Channel_setWriteCallback_def)
  have live: "Channel_live ?ch" "Channel_isWriting ?ch"
    using C(1) by (simp_all add: Channel_ctor_ok cbs)
  have ok: "channel_ok False ?ch"
    by (simp add: channel_ok_def Channel_setErrorCallback_def Channel_setWriteCallback_def Channel_ctor_def Channel_defs)
  have connecting: "\<exists>w'. Connector_connecting (c_ev C) (c_sockfd C) w = Inr w' \<and> cr_inv False (c_tid C) w'"
    using gone ch live ok
    by (simp add: Connector_connecting_def cr_gone_def cr_inv_def cr_ok_def idle_queue_def)
  from retry_inv[OF C(1) gone C(2), of "c_sockfd C"] obtain w5 where
    w5: "Connector_retry C (c_sockfd C) w = Inr w5" "cr_inv False (c_tid C) w5" by blast
  have "cr_inv False (c_tid C) (upd_sock (c_sockfd C) sockets_close w)" "cr_inv False (c_tid C) w"
    using gone st by (auto intro!: cr_gone_inv)
  moreover have "threadId (cr_ev_loop w) = c_tid C" using gone by (simp add: cr_gone_def)
  ultimately show ?thesis
    using connecting w5 st
    by (cases "c_sockfd C < 0") (auto simp: sockets_createNonblockingOrDie_def Connector_startInLoop_def EventLoop_assertInLoopThread_def EventLoop_isInLoopThread_def
        Connector_connect_def Let_def)
qed

lemma stopInLoop_inv:
  assumes C: "libev_ok (c_ev C)" "fresh_timer (c_timer C) (cr_ev_loop w)" and inv: "cr_inv busy (c_tid C) w"
  shows "\<exists>w'. Connector_stopInLoop C w = Inr w' \<and> cr_inv busy (c_tid C) w'"
proof (cases "cr_state (connector w) = States_kConnecting")
  case True
  obtain fd w1 where w1: "Connector_removeAndResetChannel (c_ev C) (c_tid C)
      (on_cr (Connector_setState States_kDisconnected) w) = Inr (fd, w1)"
    "cr_gone busy (c_tid C) w1" "timerHeap (cr_ev_loop w1) = timerHeap (cr_ev_loop w)"
    using end_attempt[OF C(1) inv True] by blast
  have "fresh_timer (c_timer C) (cr_ev_loop w1)" using C(2) w1(3) by (simp add: fresh_timer_def)
  from retry_inv[OF C(1) w1(2) this, of fd] show ?thesis
    using True w1(1) inv
    by (auto simp: Connector_stopInLoop_def EventLoop_assertInLoopThread_def EventLoop_isInLoopThread_def
        cr_inv_def cr_ok_def)
next
  case False
  then show ?thesis using inv
    by (simp add: Connector_stopInLoop_def EventLoop_assertInLoopThread_def EventLoop_isInLoopThread_def
        cr_inv_def cr_ok_def)
qed

lemma stop_inv:
  assumes L: "libev_ok L" and inv: "cr_inv busy t w"
  shows "\<exists>w'. Connector_stop L t' w = Inr w' \<and> cr_inv busy t w'"
proof -
  let ?w = "upd_cr_loop (EventLoop_queueInLoop t' F_Connector_stopInLoop) (on_cr (\<lambda>c. c\<lparr>cr_connect := False\<rparr>) w)"
  have inv1: "cr_inv busy t ?w"
    using inv by (cases "cr_state (connector w)") (auto simp: cr_inv_def cr_ok_def idle_queue_def)
  then have "EventLoop_timers_inv (cr_ev_loop ?w)" by (simp add: cr_inv_def cr_ok_def)
  from cancel_frame[OF L this, of t' "retryTimer (connector ?w)"] obtain l' where
    l': "EventLoop_cancel L t' (retryTimer (connector ?w)) (cr_ev_loop ?w) = Inr l'"
    "loop_frame (cr_ev_loop ?w) l'" by blast
  have "cr_frame ?w (upd_cr_loop (\<lambda>_. l') ?w)"
    using l'(2) by (simp add: cr_frame_def)
  from cr_frame_inv[OF inv1 this] show ?thesis
    using l'(1) by (simp add: Connector_stop_def Connector_cancelTimer_def Let_def)
qed

text \<open>A start from another thread waits behind the \<open>resetChannel\<close> of the last attempt.\<close>

lemma start_inv:
  assumes L: "libev_ok L" and en: "cr_enabled L t (Cr_start C) w" and inv: "cr_inv False t w"
  shows "goes_on C (cr_inv False t) (Connector_start C w)"
proof -
  let ?w = "on_cr (\<lambda>c. c\<lparr>cr_connect := True\<rparr>) w"
  have st: "cr_state (connector w) = States_kDisconnected" and C: "cenv_ok L C w" and a: "armed (cr_ev_loop w) = {}"
    and ns: "F_Connector_startInLoop \<notin> set (cr_queue (cr_ev_loop w))"
    using en by (auto simp: cr_queue_def)
  have q: "cr_queue (cr_ev_loop w) = idle_queue (connector w) (cr_ev_loop w)"
    using inv st ns by (auto simp: cr_inv_def cr_ok_def)
  have gone: "cr_gone False t ?w"
    using inv st a q by (auto simp: cr_inv_def cr_ok_def cr_gone_def idle_queue_def)
  show ?thesis
  proof (cases "c_tid C = t")
    case True
    have "cr_channel (connector ?w) = None" "cr_state (connector ?w) = States_kDisconnected"
      "fresh_timer (c_timer C) (cr_ev_loop ?w)" "c_ev C = L"
      using en True C st by (simp_all add: cenv_ok_def)
    with startInLoop_inv[of C ?w] gone L True inv show ?thesis
      by (simp add: Connector_start_def EventLoop_runInLoop_def EventLoop_isInLoopThread_def cr_inv_def cr_ok_def)
  next
    case False
    have "cr_inv False t (upd_cr_loop (EventLoop_queueInLoop (c_tid C) F_Connector_startInLoop) ?w)"
      using gone st by (auto simp: cr_inv_def cr_ok_def cr_gone_def idle_queue_def)
    moreover have "threadId (cr_ev_loop w) = t" using inv by (simp add: cr_inv_def cr_ok_def)
    ultimately show ?thesis using False
      by (simp add: Connector_start_def EventLoop_runInLoop_def EventLoop_isInLoopThread_def)
  qed
qed

lemma restart_inv:
  assumes L: "libev_ok L" and en: "cr_enabled L t (Cr_restart C) w" and inv: "cr_inv False t w"
  shows "goes_on C (cr_inv False t) (Connector_restart C w)"
proof -
  let ?w = "on_cr (\<lambda>c. (Connector_setState States_kDisconnected c)\<lparr>retryDelayMs := kInitRetryDelayMs, cr_connect := True\<rparr>) w"
  have C: "c_ev C = L" "c_tid C = t" "fresh_timer (c_timer C) (cr_ev_loop ?w)"
    "cr_state (connector w) = States_kConnected" "cr_channel (connector w) = None"
    using en by (auto simp: cenv_ok_def)
  have "cr_gone False t ?w"
    using inv C(4,5) by (auto simp: cr_inv_def cr_ok_def cr_gone_def idle_queue_def)
  with startInLoop_inv[of C ?w] L C inv show ?thesis
    by (simp add: Connector_restart_def EventLoop_assertInLoopThread_def EventLoop_isInLoopThread_def cr_inv_def cr_ok_def)
qed

lemma fire_inv:
  assumes L: "libev_ok L" and en: "cr_enabled L t (Cr_fire C p) w" and inv: "cr_inv False t w"
  shows "goes_on C (cr_inv False t) (Connector_startInLoop C (upd_cr_loop (timer_done p) w))"
proof -
  let ?l = "cr_ev_loop w" and ?w = "upd_cr_loop (timer_done p) w"
  have C: "c_ev C = L" "c_tid C = t" "p \<in> armed ?l" "fresh_timer (c_timer C) ?l"
    "cr_channel (connector w) = None"
    using en by (auto simp: cenv_ok_def)
  have st: "cr_state (connector w) = States_kDisconnected" "cr_queue ?l = []" and uq: "\<And>q. q \<in> armed ?l \<Longrightarrow> p = q"
    using inv C(3,5) by (auto simp: cr_inv_def cr_ok_def idle_queue_def split: States.splits)
  have "armed (timer_done p ?l) = armed ?l - {p}"
    by (auto simp: armed_def timer_done_def Timer_isActive_def split: if_splits)
  then have a: "armed (timer_done p ?l) = {}" using uq by blast
  have ti: "EventLoop_timers_inv (timer_done p ?l)"
    using inv by (force simp: cr_inv_def cr_ok_def EventLoop_timers_inv_def TimerQueue_inv_def timer_done_def)
  have fresh: "fresh_timer (c_timer C) (cr_ev_loop ?w)"
    using C(4) by (auto simp: fresh_timer_def timer_done_def)
  have "cr_gone False t ?w"
    using inv st C(5) a ti by (simp add: cr_gone_def cr_inv_def cr_ok_def idle_queue_def)
      (simp add: timer_done_def cr_queue_def)
  with startInLoop_inv[of C ?w] L C st fresh show ?thesis by simp
qed

text \<open>The dispatch of the channel's events: an error ends the attempt before the write event is handled.\<close>

lemma on_cr_channel_inv:
  assumes "cr_inv busy t w"
  shows "cr_inv b t (on_cr_channel (eventHandling_update (\<lambda>_. b)) w)"
  using assms
  by (cases "cr_state (connector w)"; cases "cr_channel (connector w)")
     (auto simp: cr_inv_def cr_ok_def on_cr_channel_def channel_ok_def idle_queue_def Channel_isWriting_def)

lemma error_event_inv:
  assumes C: "libev_ok (c_ev C)" "cenv_ok (c_ev C) C w0" and inv: "cr_inv True (c_tid C) w"
    and heap: "timerHeap (cr_ev_loop w) = timerHeap (cr_ev_loop w0)"
    and st: "cr_state (connector w) = States_kConnecting"
  shows "\<exists>w1. call_if b (\<lambda>w. errorCallback (the (cr_channel (connector w)))) (Connector_callback C) w = Inr w1 \<and>
    cr_inv True (c_tid C) w1 \<and> cr_channel (connector w1) \<noteq> None \<and>
    (w1 = w \<or> cr_state (connector w1) = States_kDisconnected)"
proof -
  obtain ch where ch: "cr_channel (connector w) = Some ch" "errorCallback ch = Some Cb_Connector_handleError"
    using inv st by (auto simp: cr_inv_def cr_ok_def channel_ok_def)
  obtain w' where w': "Connector_handleError C w = Inr w'" "cr_inv True (c_tid C) w'"
    "cr_state (connector w') = States_kDisconnected" "cr_channel (connector w') \<noteq> None"
    using handleError_inv[OF C inv heap st] by (elim exE conjE) (rule that)
  show ?thesis
  proof (cases b)
    case True
    then show ?thesis using w' ch by (intro exI[of _ w']) (simp add: call_if_def)
  next
    case False
    then show ?thesis using ch inv by (intro exI[of _ w]) (simp add: call_if_def)
  qed
qed

lemma write_event_inv:
  assumes C: "libev_ok (c_ev C)" "cenv_ok (c_ev C) C w0" and inv: "cr_inv True (c_tid C) w"
    and new0: "new_ok C w0" "attempt_frame w0 w1"
    and heap: "w = w1 \<or> cr_state (connector w) = States_kDisconnected"
    and w1: "timerHeap (cr_ev_loop w1) = timerHeap (cr_ev_loop w0)" "cr_state (connector w1) = States_kConnecting"
    and ch: "cr_channel (connector w) \<noteq> None"
  shows "\<exists>w2. bindR (call_if b (\<lambda>w. readCallback (the (cr_channel (connector w)))) (Connector_callback C) w)
      (call_if b' (\<lambda>w. writeCallback (the (cr_channel (connector w)))) (Connector_callback C)) = Inr w2 \<and>
    cr_inv True (c_tid C) w2"
proof -
  obtain ch' where ch': "cr_channel (connector w) = Some ch'" "readCallback ch' = None"
    "writeCallback ch' = Some Cb_Connector_handleWrite"
    using inv ch by (auto simp: cr_inv_def cr_ok_def channel_ok_def)
  have "\<exists>w2. Connector_handleWrite C w = Inr w2 \<and> cr_inv True (c_tid C) w2"
  proof (cases "cr_state (connector w) = States_kDisconnected")
    case True
    then show ?thesis using inv by (simp add: Connector_handleWrite_def)
  next
    case False
    then have "w = w1" using heap by simp
    then show ?thesis using handleWrite_inv[OF C inv] new0 w1 by simp
  qed
  then show ?thesis using ch' inv by (cases b; cases b') (simp_all add: call_if_def)
qed

lemma event_inv:
  assumes L: "libev_ok L" and en: "cr_enabled L t (Cr_event C revents) w" and inv: "cr_inv False t w"
  shows "\<exists>w'. Connector_event C revents w = Inr w' \<and> cr_inv False t w'"
proof -
  let ?w0 = "on_cr_channel (eventHandling_update (\<lambda>_. True)) w"
  have C: "libev_ok (c_ev C)" "cenv_ok (c_ev C) C w" "c_tid C = t" "new_ok C w" using en L by (auto simp: cenv_ok_def)
  have fr0: "attempt_frame w ?w0" by (simp add: on_cr_channel_def)
  obtain ch where ch: "cr_channel (connector w) = Some ch" "Channel_live ch" "\<not> ch_tied ch"
    "cr_state (connector w) = States_kConnecting"
    using en inv by (auto simp: cr_inv_def cr_ok_def channel_ok_def split: option.splits)
  have inv0: "cr_inv True (c_tid C) ?w0" using on_cr_channel_inv[OF inv] C(3) by simp
  have w0: "timerHeap (cr_ev_loop ?w0) = timerHeap (cr_ev_loop w)" "cr_state (connector ?w0) = States_kConnecting"
    using ch(4) by (simp_all add: on_cr_channel_def)
  obtain w1 where w1: "call_if (revents AND ev_ERROR \<noteq> 0) (\<lambda>w. errorCallback (the (cr_channel (connector w))))
      (Connector_callback C) ?w0 = Inr w1" "cr_inv True (c_tid C) w1" "cr_channel (connector w1) \<noteq> None"
    "w1 = ?w0 \<or> cr_state (connector w1) = States_kDisconnected"
    using error_event_inv[OF C(1,2) inv0 w0, of "revents AND ev_ERROR \<noteq> 0"] by blast
  obtain w2 where w2: "bindR (call_if (revents AND ev_READ \<noteq> 0) (\<lambda>w. readCallback (the (cr_channel (connector w))))
      (Connector_callback C) w1)
      (call_if (revents AND ev_WRITE \<noteq> 0) (\<lambda>w. writeCallback (the (cr_channel (connector w)))) (Connector_callback C)) =
      Inr w2" "cr_inv True (c_tid C) w2"
    using write_event_inv[OF C(1,2) w1(2) C(4) fr0 w1(4) w0 w1(3), of "revents AND ev_READ \<noteq> 0" "revents AND ev_WRITE \<noteq> 0"]
    by blast
  have "Connector_event C revents w = Inr (on_cr_channel (eventHandling_update (\<lambda>_. False)) w2)"
    using ch(1,3) w1(1) w2(1)
    by (simp add: Connector_event_def Channel_handleEvent_def Channel_handleEventWithGuard_def
        flip: bindR_assoc)
  then show ?thesis using on_cr_channel_inv[OF w2(2), of False] C(3) by simp
qed

text \<open>The run of the functor at the head of the queue.\<close>

lemma resetChannel_inv:
  assumes inv: "cr_inv False t w" and q: "pendingFunctors (cr_ev_loop w) = F_Connector_resetChannel # fs"
  shows "\<exists>w'. Connector_resetChannel (upd_cr_loop (\<lambda>l. l\<lparr>pendingFunctors := fs\<rparr>) w) = Inr w' \<and> cr_inv False t w'"
proof -
  let ?w = "upd_cr_loop (\<lambda>l. l\<lparr>pendingFunctors := fs\<rparr>) w"
  have views: "cr_queue (cr_ev_loop w) = F_Connector_resetChannel # cr_queue (cr_ev_loop ?w)"
    "armed (cr_ev_loop ?w) = armed (cr_ev_loop w)"
    "EventLoop_timers_inv (cr_ev_loop ?w) = EventLoop_timers_inv (cr_ev_loop w)"
    using q by (simp_all add: cr_queue_def armed_def EventLoop_timers_inv_def)
  obtain ch where ch: "cr_channel (connector w) = Some ch" "\<not> eventHandling ch"
    "cr_state (connector w) \<noteq> States_kConnecting"
    using inv views(1)
    by (cases "cr_state (connector w)"; cases "cr_channel (connector w)")
       (auto simp: cr_inv_def cr_ok_def idle_queue_def channel_ok_def)
  have "cr_inv False t (on_cr (\<lambda>c. c\<lparr>cr_channel := None\<rparr>) ?w)"
    using inv views ch
    by (cases "cr_state (connector w)") (auto simp: cr_inv_def cr_ok_def idle_queue_def)
  then show ?thesis using ch by (simp add: Connector_resetChannel_def Channel_dtor_def)
qed

lemma queued_start_inv:
  assumes C: "libev_ok (c_ev C)" "cenv_ok (c_ev C) C w" and inv: "cr_inv False (c_tid C) w"
    and q: "pendingFunctors (cr_ev_loop w) = F_Connector_startInLoop # fs"
  shows "goes_on C (cr_inv False (c_tid C)) (Connector_startInLoop C (upd_cr_loop (\<lambda>l. l\<lparr>pendingFunctors := fs\<rparr>) w))"
proof -
  let ?w = "upd_cr_loop (\<lambda>l. l\<lparr>pendingFunctors := fs\<rparr>) w"
  have views: "cr_queue (cr_ev_loop w) = F_Connector_startInLoop # cr_queue (cr_ev_loop ?w)"
    "armed (cr_ev_loop ?w) = armed (cr_ev_loop w)"
    "EventLoop_timers_inv (cr_ev_loop ?w) = EventLoop_timers_inv (cr_ev_loop w)"
    using q by (simp_all add: cr_queue_def armed_def EventLoop_timers_inv_def)
  have st: "cr_state (connector w) = States_kDisconnected" "cr_channel (connector w) = None"
    "armed (cr_ev_loop w) = {}" "cr_queue (cr_ev_loop ?w) = []"
    using inv views(1)
    by (cases "cr_state (connector w)"; cases "cr_channel (connector w)"; auto simp: cr_inv_def cr_ok_def idle_queue_def)+
  have "cr_gone False (c_tid C) ?w"
    using inv st views by (simp add: cr_gone_def cr_inv_def cr_ok_def idle_queue_def)
  moreover have "fresh_timer (c_timer C) (cr_ev_loop ?w)"
    using C(2) by (simp add: cenv_ok_def fresh_timer_def)
  ultimately show ?thesis using startInLoop_inv[of C ?w] C(1) st by simp
qed

lemma other_functor_inv:
  assumes inv: "cr_inv False t w" and q: "pendingFunctors (cr_ev_loop w) = f # fs"
    and f: "f \<noteq> F_Connector_startInLoop" "f \<noteq> F_Connector_resetChannel"
  shows "cr_inv False t (upd_cr_loop (\<lambda>l. l\<lparr>pendingFunctors := fs\<rparr>) w)"
proof (rule cr_frame_inv[OF inv])
  show "cr_frame w (upd_cr_loop (\<lambda>l. l\<lparr>pendingFunctors := fs\<rparr>) w)"
    using q f by (simp add: cr_frame_def loop_frame_def cr_queue_def armed_def EventLoop_timers_inv_def)
qed

lemma run_inv:
  assumes L: "libev_ok L" and en: "cr_enabled L t (Cr_run C) w" and inv: "cr_inv False t w"
  shows "goes_on C (cr_inv False t) (cr_do L (Cr_run C) w)"
proof (cases "pendingFunctors (cr_ev_loop w)")
  case Nil
  then show ?thesis using inv by simp
next
  case (Cons f fs)
  let ?w = "upd_cr_loop (\<lambda>l. l\<lparr>pendingFunctors := fs\<rparr>) w"
  have C: "libev_ok (c_ev C)" "cenv_ok (c_ev C) C w" "c_tid C = t" "c_ev C = L" using en L by (auto simp: cenv_ok_def)
  have other: "f \<noteq> F_Connector_startInLoop \<Longrightarrow> f \<noteq> F_Connector_resetChannel \<Longrightarrow> cr_inv False t ?w"
    by (rule other_functor_inv[OF inv Cons])
  have fresh: "fresh_timer (c_timer C) (cr_ev_loop ?w)" using C(2) by (simp add: cenv_ok_def fresh_timer_def)
  have "goes_on C (cr_inv False t) (Connector_functor C f ?w)"
  proof (cases f)
    case F_Connector_startInLoop
    then show ?thesis using queued_start_inv[OF C(1,2)] inv Cons C(3) by simp
  next
    case F_Connector_stopInLoop
    then show ?thesis using stopInLoop_inv[OF C(1) fresh, of False] other C(3) by auto
  next
    case F_Connector_resetChannel
    then show ?thesis using resetChannel_inv[OF inv] Cons by auto
  next
    case (F_cancelInLoop i)
    have inv1: "cr_inv False t ?w" using other F_cancelInLoop by simp
    have "EventLoop_timers_inv (cr_ev_loop ?w)" "threadId (cr_ev_loop ?w) = t"
      using inv1 unfolding cr_inv_def cr_ok_def by blast+
    then obtain l' where l': "EventLoop_cancelInLoop L t i (cr_ev_loop ?w) = Inr l'" "loop_frame (cr_ev_loop ?w) l'"
      using cancelInLoop_frame[OF L, of "cr_ev_loop ?w" i] by auto
    have "cr_frame ?w (upd_cr_loop (\<lambda>_. l') ?w)" using l'(2) by (simp add: cr_frame_def)
    from cr_frame_inv[OF inv1 this] show ?thesis using l'(1) F_cancelInLoop C(3,4) by simp
  qed (use other in simp_all)
  then show ?thesis using Cons by simp
qed

text \<open>A step returns and keeps the invariant, or \<open>socket(2)\<close> fails in it.\<close>

lemma cr_step_cases:
  assumes L: "libev_ok L" and inv: "cr_inv False t w" and en: "cr_enabled L t a w"
  shows "(\<exists>w'. cr_do L a w = Inr w' \<and> cr_inv False t w') \<or> cr_do L a w = Inl Fatal \<and> no_socket a"
proof -
  have cases: "(\<exists>w'. r = Inr w' \<and> P w') \<or> r = Inl Fatal \<and> c_sockfd C < 0" if "goes_on C P r" for C and P and r :: "'a cworld_scheme res"
    using that by (cases r) simp_all
  show ?thesis
  proof (cases a)
    case (Cr_start C)
    then show ?thesis using cases[OF start_inv[OF L _ inv, of C]] en by simp
  next
    case (Cr_stop t')
    then show ?thesis using stop_inv[OF L inv] by simp
  next
    case (Cr_restart C)
    then show ?thesis using cases[OF restart_inv[OF L _ inv, of C]] en by simp
  next
    case (Cr_event C revents)
    then show ?thesis using event_inv[OF L _ inv, of C revents] en by simp
  next
    case (Cr_fire C p)
    then show ?thesis using cases[OF fire_inv[OF L _ inv, of C p]] en by simp
  next
    case (Cr_run C)
    then show ?thesis using cases[OF run_inv[OF L _ inv, of C]] en by simp
  next
    case (Cr_other w')
    then show ?thesis using cr_frame_inv[OF inv] en by simp
  qed
qed

lemma cr_step_inv:
  assumes "libev_ok L" and "cr_inv False t w" and "cr_enabled L t a w" and "cr_do L a w = Inr w'"
  shows "cr_inv False t w'"
  using cr_step_cases[OF assms(1-3)] assms(4) by auto

lemma cr_reachable_inv: "cr_reachable L t w \<Longrightarrow> libev_ok L \<Longrightarrow> cr_inv False t w"
proof (induction rule: cr_reachable.induct)
  case (cr_start w)
  then show ?case by (simp add: cr_initial_def cr_inv_def cr_ok_def idle_queue_def)
next
  case (cr_next w a w')
  then show ?case using cr_step_inv[of L t w a w'] by blast
qed

section \<open>What connector and client promise\<close>

text \<open>
  The connector leaves what extends its world alone; \<open>backoff n\<close> is the delay before the attempt that
  follows \<open>n\<close> failures after the first.
\<close>

definition backoff :: "nat \<Rightarrow> int" where
  "backoff n = min (500 * 2 ^ n) 30000"

lemma retry_more: "Connector_retry C fd w = Inr w' \<Longrightarrow> cworld.more w' = cworld.more w"
  by (auto simp: Connector_retry_def Let_def res_simps split: if_splits prod.splits)

lemma startInLoop_more: "Connector_startInLoop C w = Inr w' \<Longrightarrow> cworld.more w' = cworld.more w"
  by (auto simp: Connector_startInLoop_def EventLoop_assertInLoopThread_def Connector_connect_def
      Connector_connecting_def Let_def res_simps dest: retry_more split: if_splits)

lemma client_more: "cworld.more w' = cworld.more w \<Longrightarrow> client w' = client w"
  by (cases w; cases w') simp

lemma backoff_bounds: "500 \<le> backoff n" "backoff n \<le> 30000" "backoff 0 = 500"
  by (simp_all add: backoff_def)

lemma backoff_Suc: "(if backoff n * 2 \<le> 30000 then backoff n * 2 else 30000) = backoff (Suc n)"
  by (auto simp: backoff_def min_def)

lemma backoff_word:
  assumes "sint (d :: int32_t) = backoff n"
  shows "sint (if sint (d * 2) \<le> sint kMaxRetryDelayMs then d * 2 else kMaxRetryDelayMs) = backoff (Suc n)"
proof -
  have "sint (d * 2) = sint (d + d)" by (simp only: mult_2_right)
  also have "sint (d + d) = backoff n * 2"
    using assms backoff_bounds(1,2)[of n] by (subst sint_int32_add) auto
  finally have "sint (d * 2) = backoff n * 2" .
  moreover have "sint kMaxRetryDelayMs = 30000" by (simp add: kMaxRetryDelayMs_def)
  ultimately show ?thesis using backoff_Suc[of n] by auto
qed

lemma addTimer_watcher:
  "TimerQueue_addTimer L t p cb after interval (n, l) = Inr (i, n', l') \<Longrightarrow> threadId l = t \<Longrightarrow>
   \<exists>tm. timerHeap l' p = Some tm \<and> timeWatcher tm = timer_start L (timer_set L new_ev_timer after interval)"
  by (auto simp: TimerQueue_addTimer_def Timer_ctor_eq EventLoop_runInLoop_def EventLoop_isInLoopThread_def
      EventLoop_addTimerInLoop_def TimerQueue_addTimerInLoop_def deref_def Timer_start_def res_simps Let_def
      split: prod.splits option.splits)

text \<open>A client's connector before its first start, and the system calls of one attempt.\<close>

definition idle_client :: cworld where
  "idle_client =
     \<lparr>loops = (\<lambda>_. fresh_loop libev_ref),
      conns = (\<lambda>_. TcpConnection_ctor libev_ref 0 0 [] 9 zero_sockaddr zero_sockaddr), socks = (\<lambda>_. undefined),
      timersCreated = 0,
      connector = Connector_setNewConnectionCallback (Connector_ctor 0 zero_sockaddr)\<rparr>"

definition attempt_env :: "int \<Rightarrow> 'w cenv" where
  "attempt_env e =
     \<lparr>c_ev = libev_ref, c_tid = 1, c_sockfd = 7, c_ret = -1, c_errno = e, c_timer = 4, c_new = (\<lambda>_ w. Inr w)\<rparr>"

lemma attempt_env_simps [simp]:
  "c_ev (attempt_env e) = libev_ref" "c_tid (attempt_env e) = 1" "c_sockfd (attempt_env e) = 7"
  "c_ret (attempt_env e) = -1" "c_errno (attempt_env e) = e" "c_timer (attempt_env e) = 4"
  by (simp_all add: attempt_env_def)

lemma attempt_env_ok:
  "timerHeap (cr_ev_loop w) 4 = None \<Longrightarrow> cenv_ok libev_ref (attempt_env e) w" "new_ok (attempt_env e) w"
  by (simp_all add: cenv_ok_def new_ok_def fresh_timer_def attempt_env_def cr_frame_def loop_frame_def)

lemma idle_client_simps [simp]:
  "cr_ev_loop idle_client = fresh_loop libev_ref" "cr_state (connector idle_client) = States_kDisconnected"
  "cr_channel (connector idle_client) = None" "hasNewConnection (connector idle_client)"
  by (simp_all add: idle_client_def cr_ev_loop_def Connector_setNewConnectionCallback_def Connector_ctor_def)

lemma idle_client_reachable: "cr_reachable libev_ref 1 idle_client"
  by (rule cr_start) (simp add: cr_initial_def cr_queue_def armed_def EventLoop_timers_inv_def TimerQueue_inv_def)

text \<open>
  C8. The connector never fails. Let \<open>start\<close> be called only while the connector is idle: disconnected, with no
  attempt waiting or on a timer, and in the loop's thread only once the channel of the last attempt is
  gone (C36 says what happens otherwise). Then in every state it can reach, whatever \<open>connect(2)\<close> and the
  events report, each call, event, timer and queued functor that can come returns, so that none of its
  assertions fails; only a failure of \<open>socket(2)\<close>, which the code makes fatal, ends the process. Its channel
  is live exactly while it is connecting, and then waits for the socket to become writable; and at most
  one thing, a queued functor or one timer, will start the next attempt.
\<close>

theorem connector_never_fails:
  assumes "libev_ok L" and "cr_reachable L t w"
  shows "(\<forall>a. cr_enabled L t a w \<longrightarrow> (\<exists>w'. cr_do L a w = Inr w') \<or> cr_do L a w = Inl Fatal \<and> no_socket a) \<and>
    (\<forall>ch. cr_channel (connector w) = Some ch \<longrightarrow>
       Channel_live ch = (cr_state (connector w) = States_kConnecting)) \<and>
    (cr_state (connector w) = States_kConnecting \<longrightarrow>
       (\<exists>ch. cr_channel (connector w) = Some ch \<and> Channel_isWriting ch) \<and>
       armed (cr_ev_loop w) = {} \<and> cr_queue (cr_ev_loop w) = []) \<and>
    (\<forall>p q. p \<in> armed (cr_ev_loop w) \<longrightarrow> q \<in> armed (cr_ev_loop w) \<longrightarrow> p = q) \<and>
    (F_Connector_startInLoop \<in> set (cr_queue (cr_ev_loop w)) \<longrightarrow> armed (cr_ev_loop w) = {})"
proof -
  have inv: "cr_inv False t w" by (rule cr_reachable_inv[OF assms(2,1)])
  have returns: "\<forall>a. cr_enabled L t a w \<longrightarrow> (\<exists>w'. cr_do L a w = Inr w') \<or> cr_do L a w = Inl Fatal \<and> no_socket a"
    using cr_step_cases[OF assms(1) inv] by blast
  have "F_Connector_startInLoop \<in> set (cr_queue (cr_ev_loop w)) \<longrightarrow> armed (cr_ev_loop w) = {}"
    using inv
    by (cases "cr_state (connector w)"; cases "cr_channel (connector w)")
       (auto simp: cr_inv_def cr_ok_def idle_queue_def)
  moreover have "cr_state (connector w) = States_kConnecting \<longrightarrow>
       (\<exists>ch. cr_channel (connector w) = Some ch \<and> Channel_isWriting ch) \<and>
       armed (cr_ev_loop w) = {} \<and> cr_queue (cr_ev_loop w) = []"
    using inv by (auto simp: cr_inv_def cr_ok_def)
  ultimately show ?thesis using returns inv unfolding cr_inv_def cr_ok_def by blast
qed

lemma connector_never_fails_witness:
  "\<exists>w w' :: cworld. Connector_start (attempt_env EINPROGRESS :: cworld cenv) idle_client = Inr w \<and>
     Connector_event (attempt_env 0) ev_WRITE w = Inr w'"
proof -
  let ?C = "attempt_env EINPROGRESS :: cworld cenv" and ?D = "attempt_env 0 :: cworld cenv"
  have en: "cr_enabled libev_ref 1 (Cr_start ?C) idle_client"
    by (simp add: attempt_env_ok armed_def)
  obtain w where w: "Connector_start ?C idle_client = Inr w"
    using connector_never_fails[OF libev_ref_ok idle_client_reachable] en by (metis attempt_env_simps(3) cr_do.simps(1) no_socket.simps(1) not_numeral_less_zero)
  have r: "cr_reachable libev_ref 1 w"
    using cr_next[OF idle_client_reachable en] w by simp
  have st: "cr_state (connector w) = States_kConnecting" "cr_channel (connector w) \<noteq> None"
    "timerHeap (cr_ev_loop w) 4 = None"
    using w by (auto simp: Connector_start_def EventLoop_runInLoop_def EventLoop_isInLoopThread_def
        Connector_startInLoop_def EventLoop_assertInLoopThread_def Connector_connect_def Let_def res_simps
        errno_in_progress_def sockets_createNonblockingOrDie_def Connector_connecting_def)
  obtain ch where ch: "cr_channel (connector w) = Some ch" using st(2) by blast
  have "Channel_live ch" using connector_never_fails[OF libev_ref_ok r] ch st(1) by blast
  then have "cr_enabled libev_ref 1 (Cr_event ?D ev_WRITE) w"
    using ch st(3) by (simp add: attempt_env_ok)
  then have "\<exists>w'. Connector_event ?D ev_WRITE w = Inr w'"
    using connector_never_fails[OF libev_ref_ok r] by (metis cr_do.simps(4) no_socket.simps(6))
  then show ?thesis using w by blast
qed

text \<open>
  Retries back off. When the attempt after the \<open>n\<close>-th failure fails and the connector is not stopped,
  the descriptor is closed, the connector is disconnected again, and its next attempt is put on a timer
  of \<open>min (500 * 2^n) 30000\<close> milliseconds; the delay for the failure after it is the next one of that
  sequence, which starts with half a second and never exceeds half a minute.
\<close>

theorem connector_backoff:
  assumes "libev_ok (c_ev C)" and "EventLoop_timers_inv (cr_ev_loop w)"
    and "threadId (cr_ev_loop w) = c_tid C" and "fresh_timer (c_timer C) (cr_ev_loop w)"
    and "cr_connect (connector w)" and "sint (retryDelayMs (connector w)) = backoff n"
  shows "\<exists>w' tm. Connector_retry C fd w = Inr w' \<and> cr_state (connector w') = States_kDisconnected \<and>
    sk_closed (socks w' fd) \<and> sint (retryDelayMs (connector w')) = backoff (Suc n) \<and>
    timerHeap (cr_ev_loop w') (c_timer C) = Some tm \<and> callBack tm = F_Connector_startInLoop \<and>
    timeWatcher tm =
      timer_start (c_ev C) (timer_set (c_ev C) new_ev_timer (real_of_int (backoff n) / 1000) 0)"
proof -
  let ?cb = "F_Connector_startInLoop" and ?l = "cr_ev_loop w" and ?d = "real_of_int (backoff n) / 1000"
  obtain l' tm where l': "TimerQueue_addTimer (c_ev C) (c_tid C) (c_timer C) ?cb ?d 0 (timersCreated w, ?l) =
      Inr ((c_timer C, sint (timersCreated w + 1)), timersCreated w + 1, l')"
    "timerHeap l' = (timerHeap ?l)(c_timer C \<mapsto> tm)" "callBack tm = ?cb"
    using addTimer_in_loop[OF assms(1,2,4,3), of ?cb ?d 0 "timersCreated w"] by blast
  have "timeWatcher tm = timer_start (c_ev C) (timer_set (c_ev C) new_ev_timer ?d 0)"
    using addTimer_watcher[OF l'(1) assms(3)] l'(2) by simp
  then show ?thesis
    using assms(5,6) l' backoff_word[OF assms(6)]
    by (simp add: Connector_retry_def Let_def EventLoop_runAfter_def sockets_close_def split: if_splits)
qed

lemma connector_backoff_witness:
  "\<exists>w' :: cworld. Connector_retry (attempt_env 0 :: cworld cenv) 7 (on_cr (\<lambda>c. c\<lparr>cr_connect := True\<rparr>) idle_client) = Inr w' \<and>
     sint (retryDelayMs (connector w')) = 1000"
proof -
  let ?w = "on_cr (\<lambda>c. c\<lparr>cr_connect := True\<rparr>) idle_client"
  have "sint (retryDelayMs (connector ?w)) = backoff 0"
    by (simp add: idle_client_def Connector_setNewConnectionCallback_def Connector_ctor_def kInitRetryDelayMs_def
        backoff_bounds)
  with connector_backoff[of "attempt_env 0 :: cworld cenv" ?w 0 7] show ?thesis
    by (auto simp: libev_ref_ok EventLoop_timers_inv_def TimerQueue_inv_def fresh_timer_def backoff_def)
qed

lemma errno_sets:
  "e \<in> set errno_in_progress \<longleftrightarrow> e \<in> {0, EINPROGRESS, EINTR, EISCONN}"
  "e \<in> set errno_transient \<longleftrightarrow> e \<in> {EAGAIN, EADDRINUSE, EADDRNOTAVAIL, ECONNREFUSED, ENETUNREACH}"
  by (auto simp: errno_in_progress_def errno_transient_def)

lemma Connector_connect_by_errno:
  assumes "0 \<le> c_sockfd C" and "e = (if c_ret C = 0 then 0 else c_errno C)"
  shows "Connector_connect C w =
    (if e \<in> set errno_in_progress then Connector_connecting (c_ev C) (c_sockfd C) w
     else if e \<in> set errno_transient then Connector_retry C (c_sockfd C) w
     else Inr (upd_sock (c_sockfd C) sockets_close w))"
  using assms by (simp add: Connector_connect_def sockets_createNonblockingOrDie_def Let_def)

lemma connecting_watches:
  assumes "libev_ok L" and "cr_channel (connector w) = None"
  shows "\<exists>w'. Connector_connecting L fd w = Inr w' \<and> cr_state (connector w') = States_kConnecting \<and>
    socks w' = socks w \<and> armed (cr_ev_loop w') = armed (cr_ev_loop w) \<and>
    (\<exists>ch. cr_channel (connector w') = Some ch \<and> ch_fd ch = fd \<and> Channel_isWriting ch \<and> Channel_live ch)"
proof -
  have "Channel_live (Channel_setErrorCallback x (Channel_setWriteCallback y z)) = Channel_live z"
    "ch_fd (Channel_setErrorCallback x (Channel_setWriteCallback y z)) = ch_fd z" for x y z
    by (simp_all add: Channel_setErrorCallback_def Channel_setWriteCallback_def)
  then show ?thesis using assms by (simp add: Connector_connecting_def Let_def Channel_ctor_ok)
qed

text \<open>
  No descriptor is lost. One call of \<open>connect\<close> leaves its new descriptor in one of two ways: the
  connector is connecting and its channel watches exactly that descriptor for writing, or the descriptor
  is closed and the connector is disconnected; it is kept exactly for the outcomes that mean that the
  connection is being made, and of the others the transient ones, and only they, plan a retry.
\<close>

theorem connect_keeps_or_closes:
  assumes "libev_ok (c_ev C)" and "0 \<le> c_sockfd C" and "cr_gone False (c_tid C) w"
    and "cr_channel (connector w) = None" and "cr_state (connector w) = States_kDisconnected"
    and "fresh_timer (c_timer C) (cr_ev_loop w)" and "cr_connect (connector w)"
    and "e = (if c_ret C = 0 then 0 else c_errno C)"
  shows "\<exists>w'. Connector_connect C w = Inr w' \<and>
    (if e \<in> {0, EINPROGRESS, EINTR, EISCONN}
     then cr_state (connector w') = States_kConnecting \<and> socks w' = socks w \<and> armed (cr_ev_loop w') = {} \<and>
       (\<exists>ch. cr_channel (connector w') = Some ch \<and> ch_fd ch = c_sockfd C \<and> Channel_isWriting ch \<and> Channel_live ch)
     else cr_state (connector w') = States_kDisconnected \<and> cr_channel (connector w') = None \<and>
       sk_closed (socks w' (c_sockfd C)) \<and>
       armed (cr_ev_loop w') =
         (if e \<in> {EAGAIN, EADDRINUSE, EADDRNOTAVAIL, ECONNREFUSED, ENETUNREACH} then {c_timer C} else {}))"
proof -
  have pre: "EventLoop_timers_inv (cr_ev_loop w)" "threadId (cr_ev_loop w) = c_tid C" "armed (cr_ev_loop w) = {}"
    using assms(3) by (simp_all add: cr_gone_def)
  from retry_ok[OF assms(1) pre(1,2) assms(6), of "c_sockfd C"] obtain w5 where w5:
    "Connector_retry C (c_sockfd C) w = Inr w5" "cr_state (connector w5) = States_kDisconnected"
    "cr_channel (connector w5) = None" "armed (cr_ev_loop w5) = {c_timer C}" "sk_closed (socks w5 (c_sockfd C))"
    using assms(4,7) pre(3) by (auto simp: sockets_close_def)
  note run = Connector_connect_by_errno[OF assms(2,8), of w]
  consider "e \<in> set errno_in_progress" | "e \<notin> set errno_in_progress" "e \<in> set errno_transient"
    | "e \<notin> set errno_in_progress" "e \<notin> set errno_transient" by blast
  then show ?thesis
  proof cases
    case 1
    then have s: "e \<in> {0, EINPROGRESS, EINTR, EISCONN}" by (simp only: errno_sets)
    from connecting_watches[OF assms(1,4), of "c_sockfd C"] pre(3)
    show ?thesis using 1 by (simp only: run s if_True)
  next
    case 2
    then have s: "e \<notin> {0, EINPROGRESS, EINTR, EISCONN}"
      "e \<in> {EAGAIN, EADDRINUSE, EADDRNOTAVAIL, ECONNREFUSED, ENETUNREACH}" by (simp_all only: errno_sets not_False_eq_True)
    have "\<exists>w'. Connector_retry C (c_sockfd C) w = Inr w' \<and> cr_state (connector w') = States_kDisconnected \<and>
        cr_channel (connector w') = None \<and> sk_closed (socks w' (c_sockfd C)) \<and> armed (cr_ev_loop w') = {c_timer C}"
      using w5 by blast
    then show ?thesis using 2 by (simp only: run s if_True if_False)
  next
    case 3
    then have s: "e \<notin> {0, EINPROGRESS, EINTR, EISCONN}"
      "e \<notin> {EAGAIN, EADDRINUSE, EADDRNOTAVAIL, ECONNREFUSED, ENETUNREACH}" by (simp_all only: errno_sets not_False_eq_True)
    let ?w = "upd_sock (c_sockfd C) sockets_close w"
    have "cr_state (connector ?w) = States_kDisconnected \<and> cr_channel (connector ?w) = None \<and>
        sk_closed (socks ?w (c_sockfd C)) \<and> armed (cr_ev_loop ?w) = {}"
      using assms(4,5) pre(3) by (simp add: sockets_close_def)
    then show ?thesis using 3 by (simp only: run s if_True if_False) blast
  qed
qed

lemma connect_keeps_or_closes_witness:
  "\<exists>w' :: cworld. Connector_connect (attempt_env ECONNREFUSED :: cworld cenv) (on_cr (\<lambda>c. c\<lparr>cr_connect := True\<rparr>) idle_client) = Inr w' \<and>
     sk_closed (socks w' 7) \<and> armed (cr_ev_loop w') = {4}"
proof -
  let ?w = "on_cr (\<lambda>c. c\<lparr>cr_connect := True\<rparr>) idle_client" and ?C = "attempt_env ECONNREFUSED :: cworld cenv"
  have gone: "cr_gone False (c_tid ?C) ?w"
    by (simp add: cr_gone_def EventLoop_timers_inv_def TimerQueue_inv_def armed_def cr_queue_def idle_queue_def)
  have "ECONNREFUSED \<notin> {0, EINPROGRESS, EINTR, EISCONN}"
    by (simp add: ECONNREFUSED_def EINPROGRESS_def EINTR_def EISCONN_def)
  then show ?thesis
    using connect_keeps_or_closes[of ?C ?w ECONNREFUSED, OF _ _ gone]
    by (auto simp: libev_ref_ok fresh_timer_def)
qed

text \<open>
  A client that may reconnect does. In any state that the connector's invariant allows: when the connection of a client with retry enabled, on the loop of
  its connector, ends after the attempt that made it is over, \<open>removeConnection\<close> returns: the client has no
  connection, \<open>connectDestroyed\<close> of the old one is queued once, behind everything that waited, and a new
  attempt has begun with the initial delay for its retries, in a state that keeps the connector's
  invariant.
\<close>

theorem client_reconnects:
  fixes w :: clworld
  assumes "libev_ok L" and inv: "cr_inv False t w" and "cr_enabled L t (Cr_restart C) w"
    and "connection (client w) = Some conn" and "conn_loop (conns w conn) = cl_loop (client w)"
    and "cr_loop (connector w) = cl_loop (client w)" and "cl_connect (client w)" and "cl_retry (client w)"
    and "0 \<le> c_sockfd C"
  defines "w1 \<equiv> on_cr (\<lambda>c. c\<lparr>cr_state := States_kDisconnected, retryDelayMs := kInitRetryDelayMs, cr_connect := True\<rparr>)
      (upd_cr_loop (EventLoop_queueInLoop t (F_connectDestroyed conn)) (on_cl (\<lambda>c. c\<lparr>connection := None\<rparr>) w))"
  shows "\<exists>w'. TcpClient_removeConnection C conn w = Inr w' \<and> Connector_connect C w1 = Inr w' \<and>
    connection (client w') = None \<and> cr_inv False t w' \<and>
    pendingFunctors (cr_ev_loop w1) = pendingFunctors (cr_ev_loop w) @ [F_connectDestroyed conn]"
proof -
  have on_cl: "connector (on_cl f w) = connector w" "loops (on_cl f w) = loops w" "conns (on_cl f w) = conns w"
    "client (on_cl f w) = f (client w)" for f and w :: clworld by (simp_all add: on_cl_def)
  have cl_upd: "client (upd_loop i g w) = client w" "client (on_cr h w) = client w" for i g h and w :: clworld
    by (simp_all add: upd_loop_def on_cr_def)
  let ?w2 = "upd_cr_loop (EventLoop_queueInLoop t (F_connectDestroyed conn)) (on_cl (\<lambda>c. c\<lparr>connection := None\<rparr>) w)"
  have loop: "cr_ev_loop (on_cl f w) = cr_ev_loop w" for f and w :: clworld by (simp add: cr_ev_loop_def on_cl)
  have "cr_frame w ?w2" by (simp add: cr_frame_def loop_frame_def on_cl loop)
  then have inv2: "cr_inv False t ?w2" by (rule cr_frame_inv[OF inv])
  have en: "cr_enabled L t (Cr_restart C) ?w2"
    using assms(3) by (simp add: on_cl loop cenv_ok_def fresh_timer_def)
  obtain w' where w': "Connector_restart C ?w2 = Inr w'" "cr_inv False t w'"
    using restart_inv[OF assms(1) en inv2] assms(9) by (cases "Connector_restart C ?w2") auto
  have th: "threadId (cr_ev_loop w) = t" using inv by (simp add: cr_inv_def cr_ok_def)
  have tid: "c_tid C = t" using assms(3) by simp
  have rm: "TcpClient_removeConnection C conn w = Connector_restart C ?w2"
    using assms(4-8) th tid
    by (simp add: TcpClient_removeConnection_def EventLoop_assertInLoopThread_def EventLoop_isInLoopThread_def
        Let_def on_cl cr_ev_loop_def upd_cr_loop_def cl_upd)
  have w1: "w1 = on_cr (\<lambda>c. (Connector_setState States_kDisconnected c)\<lparr>retryDelayMs := kInitRetryDelayMs, cr_connect := True\<rparr>) ?w2"
    by (simp add: w1_def on_cr_def Connector_setState_def)
  have start: "Connector_startInLoop C w1 = Inr w'" using w'(1) th tid
    by (simp add: Connector_restart_def EventLoop_assertInLoopThread_def EventLoop_isInLoopThread_def w1 loop)
  then have conn: "Connector_connect C w1 = Inr w'"
    by (auto simp: Connector_startInLoop_def EventLoop_assertInLoopThread_def res_simps w1)
  have "client w' = client w1" by (rule client_more[OF startInLoop_more[OF start]])
  then have "connection (client w') = None" by (simp add: w1 cl_upd upd_cr_loop_def on_cl)
  moreover have "pendingFunctors (cr_ev_loop w1) = pendingFunctors (cr_ev_loop w) @ [F_connectDestroyed conn]"
    by (simp add: w1 loop)
  ultimately show ?thesis using rm w' conn by simp
qed

text \<open>A client with retry enabled whose connection 0 is up.\<close>

definition connected_client :: clworld where
  "connected_client =
     \<lparr>loops = (\<lambda>_. fresh_loop libev_ref),
      conns = (\<lambda>_. TcpConnection_ctor libev_ref 0 0 [] 9 zero_sockaddr zero_sockaddr), socks = (\<lambda>_. undefined),
      timersCreated = 0,
      connector = (Connector_setNewConnectionCallback (Connector_ctor 0 zero_sockaddr))
        \<lparr>cr_connect := True, cr_state := States_kConnected\<rparr>,
      client = \<lparr>cl_loop = 0, cl_connectionCallback = Some 1, cl_messageCallback = Some 2,
        cl_writeCompleteCallback = None, cl_retry = True, cl_connect = True, cl_nextConnId = 2,
        connection = Some 0\<rparr>,
      cl_nextObj = 1\<rparr>"

lemma client_reconnects_witness:
  "\<exists>w'. TcpClient_removeConnection (attempt_env EINPROGRESS :: clworld cenv) 0 connected_client = Inr w' \<and>
     connection (client w') = None \<and> cr_inv False 1 w'"
proof -
  have cr: "cr_ev_loop connected_client = fresh_loop libev_ref" "cr_channel (connector connected_client) = None"
    "cr_state (connector connected_client) = States_kConnected" "hasNewConnection (connector connected_client)"
    by (simp_all add: cr_ev_loop_def connected_client_def Connector_setNewConnectionCallback_def Connector_ctor_def)
  have inv: "cr_inv False 1 connected_client"
    by (simp add: cr_inv_def cr_ok_def cr idle_queue_def cr_queue_def armed_def EventLoop_timers_inv_def
        TimerQueue_inv_def)
  have en: "cr_enabled libev_ref 1 (Cr_restart (attempt_env EINPROGRESS)) connected_client"
    by (simp add: cr attempt_env_ok)
  have cl: "connection (client connected_client) = Some 0" "cl_connect (client connected_client)"
    "conn_loop (conns connected_client 0) = cl_loop (client connected_client)"
    "cr_loop (connector connected_client) = cl_loop (client connected_client)" "cl_retry (client connected_client)"
    by (simp_all add: connected_client_def TcpConnection_ctor_def Connector_setNewConnectionCallback_def
        Connector_ctor_def)
  from client_reconnects[OF libev_ref_ok inv en cl(1,3,4,2,5)] show ?thesis by auto
qed

text \<open>A name that fits is not cut.\<close>

lemma connName_fits:
  assumes "length peer \<le> 21" and "n < 100000000"
  shows "TcpClient_connName peer (word_of_int (int n)) = CHR '':'' # peer @ CHR ''#'' # digits_of n"
proof -
  have "sint (word_of_int (int n) :: int32_t) = int n" using assms(2) by (intro sint_int32_of_int) auto
  moreover have "length (digits_of n) \<le> 8" using length_digits_of[of n 7] assms(2) by simp
  ultimately show ?thesis
    using assms(1) by (simp add: TcpClient_connName_def show_int_def del: of_int_of_nat_eq)
qed

text \<open>
  The names of a client's connections. The name of the \<open>n\<close>-th connection to a peer is \<open>:\<close>, the peer's
  address and port, \<open>#\<close> and \<open>n\<close>, and two connections never share a name, as long as the number has at
  most eight digits: then the name fits into the buffer of 32 bytes whatever the address is.
\<close>

theorem client_connNames_distinct:
  assumes "length peer \<le> 21" and "n < 100000000" and "m < 100000000"
  shows "TcpClient_connName peer (word_of_int (int n)) = CHR '':'' # peer @ CHR ''#'' # digits_of n \<and>
    (TcpClient_connName peer (word_of_int (int n)) = TcpClient_connName peer (word_of_int (int m)) \<longrightarrow> n = m)"
  using connName_fits[OF assms(1,2)] connName_fits[OF assms(1,3)] by (metis digits_value_of list.inject same_append_eq)

lemma client_connNames_distinct_witness:
  "TcpClient_connName ''255.255.255.255:65535'' (word_of_int (int 12)) = '':255.255.255.255:65535#12''"
proof -
  have "digits_of 12 = ''12''" by code_simp
  with client_connNames_distinct[of "''255.255.255.255:65535''" 12 13] show ?thesis by simp
qed

end
