(* ===== verification/Client_Life.thy ===== *)
theory Client_Life
  imports Tcp_Client
begin

text \<open>
  A client and its connector together (net/TcpClient.cc on net/Connector.cc): the new-connection callback
  of the connector is the client's \<open>newConnection\<close>, the close callback of a connection is the client's
  \<open>removeConnection\<close>, which may restart the connector. The theory composes them as a step relation and
  shows that a client has at most one connection, that it knows which one, and that it does not make
  another one behind it.
\<close>

section \<open>What the connector's operations change\<close>

lemma addTimer_thread:
  "TimerQueue_addTimer L t p cb after interval (n, l) = Inr (i, n', l') \<Longrightarrow> threadId l' = threadId l"
  by (auto simp: TimerQueue_addTimer_def Timer_ctor_eq EventLoop_runInLoop_def EventLoop_addTimerInLoop_def
      Let_def res_simps split: prod.splits if_splits)

lemma cancelInLoop_thread: "EventLoop_cancelInLoop L t i l = Inr l' \<Longrightarrow> threadId l' = threadId l"
  by (auto simp: EventLoop_cancelInLoop_def res_simps split: prod.splits)

lemma cancel_thread: "EventLoop_cancel L t i l = Inr l' \<Longrightarrow> threadId l' = threadId l"
  by (auto simp: EventLoop_cancel_def TimerQueue_cancel_def EventLoop_runInLoop_def
      dest: cancelInLoop_thread split: if_splits)

lemma retry_frame: "Connector_retry C fd w = Inr w' \<Longrightarrow> attempt_frame w w'"
  by (auto simp: Connector_retry_def Let_def EventLoop_runAfter_def res_simps
      dest: addTimer_thread split: if_splits prod.splits)

lemma removeAndReset_frame:
  "Connector_removeAndResetChannel L t w = Inr (fd, w') \<Longrightarrow> attempt_frame w w'"
  by (auto simp: Connector_removeAndResetChannel_def Let_def res_simps split: option.splits)

lemma connect_frame: "Connector_connect C w = Inr w' \<Longrightarrow> attempt_frame w w'"
  by (auto simp: Connector_connect_def Connector_connecting_def Let_def res_simps dest: retry_frame
      split: if_splits)

lemma startInLoop_frame: "Connector_startInLoop C w = Inr w' \<Longrightarrow> attempt_frame w w'"
  by (auto simp: Connector_startInLoop_def EventLoop_assertInLoopThread_def res_simps
      dest: connect_frame split: if_splits)

lemma start_frame: "Connector_start C w = Inr w' \<Longrightarrow> attempt_frame w w'"
  by (auto simp: Connector_start_def EventLoop_runInLoop_def dest!: startInLoop_frame split: if_splits)

lemma restart_frame: "Connector_restart C w = Inr w' \<Longrightarrow> attempt_frame w w'"
  by (auto simp: Connector_restart_def EventLoop_assertInLoopThread_def res_simps dest!: startInLoop_frame)

lemma stop_frame: "Connector_stop L t w = Inr w' \<Longrightarrow> attempt_frame w w'"
  by (auto simp: Connector_stop_def Connector_cancelTimer_def Let_def res_simps dest: cancel_thread)

lemma stopInLoop_frame: "Connector_stopInLoop C w = Inr w' \<Longrightarrow> attempt_frame w w'"
  by (auto simp: Connector_stopInLoop_def EventLoop_assertInLoopThread_def res_simps
      dest!: removeAndReset_frame retry_frame elim: attempt_frame_trans split: if_splits)

lemma resetChannel_frame: "Connector_resetChannel w = Inr w' \<Longrightarrow> attempt_frame w w'"
  by (auto simp: Connector_resetChannel_def res_simps split: option.splits)

lemma handleError_frame: "Connector_handleError C w = Inr w' \<Longrightarrow> attempt_frame w w'"
  by (auto simp: Connector_handleError_def res_simps dest!: removeAndReset_frame retry_frame
      elim: attempt_frame_trans split: if_splits)

text \<open>
  Only \<open>handleWrite\<close> may call the new-connection callback, at its end, once the connector's state is
  \<open>kConnected\<close>; so an event of the channel does so at most once.
\<close>

lemma handleWrite_cases:
  assumes "Connector_handleWrite C w = Inr w'"
  shows "attempt_frame w w' \<or>
    (\<exists>fd w3. attempt_frame w w3 \<and> cr_state (connector w3) = States_kConnected \<and> c_new C fd w3 = Inr w')"
proof (cases "cr_state (connector w) = States_kConnecting")
  case False
  then show ?thesis using assms by (simp add: Connector_handleWrite_def res_simps)
next
  case True
  then obtain fd w1 where w1: "Connector_removeAndResetChannel (c_ev C) (c_tid C) w = Inr (fd, w1)"
    using assms by (auto simp: Connector_handleWrite_def res_simps)
  let ?w2 = "upd_sock fd (\<lambda>s. snd (sockets_getSocketError s)) w1"
  let ?w3 = "on_cr (Connector_setState States_kConnected) ?w2"
  have fr: "attempt_frame w w1" by (rule removeAndReset_frame[OF w1])
  have retry: "attempt_frame w w'" if "Connector_retry C fd ?w2 = Inr w'"
    using attempt_frame_trans[OF fr] retry_frame[OF that] by simp
  have "Connector_retry C fd ?w2 = Inr w' \<or> c_new C fd ?w3 = Inr w' \<or> w' = upd_sock fd sockets_close ?w3"
    using assms True w1 by (auto simp: Connector_handleWrite_def Let_def split: if_splits)
  then show ?thesis
  proof (elim disjE)
    assume "c_new C fd ?w3 = Inr w'"
    moreover have "attempt_frame w ?w3" using fr by simp
    ultimately show ?thesis by (intro disjI2 exI[of _ fd] exI[of _ ?w3]) simp
  qed (use retry fr in auto)
qed

lemma event_cases:
  assumes L: "libev_ok L" and en: "cr_enabled L t (Cr_event C revents) w" and inv: "cr_inv False t w"
    and run: "Connector_event C revents w = Inr w'"
  shows "attempt_frame w w' \<or> (\<exists>fd w3 w4. attempt_frame w w3 \<and> cr_state (connector w3) = States_kConnected \<and>
    c_new C fd w3 = Inr w4 \<and> w' = on_cr_channel (eventHandling_update (\<lambda>_. False)) w4)"
proof -
  let ?w0 = "on_cr_channel (eventHandling_update (\<lambda>_. True)) w" and ?fin = "on_cr_channel (eventHandling_update (\<lambda>_. False))"
  have C: "libev_ok (c_ev C)" "cenv_ok (c_ev C) C w" "c_tid C = t" using en L by (auto simp: cenv_ok_def)
  obtain ch where ch: "cr_channel (connector w) = Some ch" "\<not> ch_tied ch" "cr_state (connector w) = States_kConnecting"
    "errorCallback ch = Some Cb_Connector_handleError"
    using en inv by (auto simp: cr_inv_def cr_ok_def channel_ok_def split: option.splits)
  have inv0: "cr_inv True (c_tid C) ?w0" using on_cr_channel_inv[OF inv] C(3) by simp
  have w0: "timerHeap (cr_ev_loop ?w0) = timerHeap (cr_ev_loop w)" "cr_state (connector ?w0) = States_kConnecting"
    using ch(3) by (simp_all add: on_cr_channel_def)
  obtain w1 where w1: "call_if (revents AND ev_ERROR \<noteq> 0) (\<lambda>w. errorCallback (the (cr_channel (connector w))))
      (Connector_callback C) ?w0 = Inr w1" "cr_inv True (c_tid C) w1" "cr_channel (connector w1) \<noteq> None"
    using error_event_inv[OF C(1,2) inv0 w0, of "revents AND ev_ERROR \<noteq> 0"] by blast
  have "attempt_frame ?w0 w1" using w1(1) ch(1,4)
    by (auto simp: call_if_def on_cr_channel_def dest: handleError_frame split: if_splits)
  then have fr: "attempt_frame w w1" by (simp add: on_cr_channel_def)
  obtain ch' where ch': "cr_channel (connector w1) = Some ch'" "readCallback ch' = None"
    "writeCallback ch' = Some Cb_Connector_handleWrite"
    using w1(2,3) by (auto simp: cr_inv_def cr_ok_def channel_ok_def)
  have "bindR (call_if (revents AND ev_WRITE \<noteq> 0) (\<lambda>w. writeCallback (the (cr_channel (connector w))))
      (Connector_callback C) w1) (\<lambda>w2. Inr (?fin w2)) = Inr w'"
    using run ch(1,2) w1(1) ch'(1,2)
    by (simp add: Connector_event_def Channel_handleEvent_def Channel_handleEventWithGuard_def call_if_def
        cong: if_cong)
  then obtain w2 where w2: "w' = ?fin w2" "w2 = w1 \<or> Connector_handleWrite C w1 = Inr w2"
    using ch'(1,3) by (auto simp: call_if_def res_simps split: if_splits)
  have fin: "attempt_frame w w'" if "attempt_frame w1 w2"
    using attempt_frame_trans[OF fr that] w2(1) by (simp add: on_cr_channel_def)
  show ?thesis
    using w2(2)
  proof
    assume "Connector_handleWrite C w1 = Inr w2"
    from handleWrite_cases[OF this] show ?thesis
      using fin w2(1) attempt_frame_trans[OF fr] by blast
  qed (use fin in simp)
qed

text \<open>A connector that is connected changes its state only by \<open>restart\<close>.\<close>

lemma connected_stays:
  assumes inv: "cr_inv False t w" and st: "cr_state (connector w) = States_kConnected"
    and en: "cr_enabled L t a w" "\<And>C. a \<noteq> Cr_restart C" and run: "cr_do L a w = Inr w'"
  shows "cr_state (connector w') = States_kConnected"
proof (cases a)
  case (Cr_run C)
  have q: "F_Connector_startInLoop \<notin> set (cr_queue (cr_ev_loop w))"
    using inv st by (auto simp: cr_inv_def cr_ok_def idle_queue_def split: option.splits)
  show ?thesis
  proof (cases "pendingFunctors (cr_ev_loop w)")
    case Nil
    then show ?thesis using run Cr_run st by simp
  next
    case (Cons f fs)
    then have "f \<noteq> F_Connector_startInLoop" using q by (auto simp: cr_queue_def)
    then show ?thesis using run Cr_run Cons st
      by (cases f) (auto simp: Connector_stopInLoop_def Connector_resetChannel_def
          EventLoop_assertInLoopThread_def res_simps split: option.splits)
  qed
qed (use assms in \<open>auto simp: cr_inv_def cr_ok_def Connector_stop_def Connector_cancelTimer_def Let_def
    cr_frame_def res_simps split: option.splits\<close>)

section \<open>The client as a system\<close>

text \<open>
  What happens beside the client and its connector: it may change the client's flags, but not which
  connection the client has, nor in which loop a connection lives. The user's callbacks return and keep
  to that.
\<close>

definition cl_frame :: "clworld \<Rightarrow> clworld \<Rightarrow> bool" where
  "cl_frame w w' \<longleftrightarrow> cr_frame w w' \<and> cr_loop (connector w') = cr_loop (connector w) \<and>
     connection (client w') = connection (client w) \<and> cl_loop (client w') = cl_loop (client w) \<and>
     cl_connectionCallback (client w') = cl_connectionCallback (client w) \<and> cl_nextObj w' = cl_nextObj w \<and>
     (\<forall>c. conn_loop (conns w' c) = conn_loop (conns w c))"

definition cl_user_ok :: "clworld env \<Rightarrow> bool" where
  "cl_user_ok E \<longleftrightarrow> (\<forall>f arg w. \<exists>w'. user E f arg w = Inr w' \<and> cl_frame w w')"

text \<open>
  The connector's own steps in a client: an event of its channel, whose new-connection callback is the
  client's, its timer, and the functors of the loop.
\<close>

fun attempt_enabled :: "libev \<Rightarrow> clworld env \<Rightarrow> clworld cr_act \<Rightarrow> clworld \<Rightarrow> bool" where
  "attempt_enabled L E (Cr_event C revents) w \<longleftrightarrow> c_new C = TcpClient_newConnection E \<and> cenv_ok L C w \<and>
     c_tid C = tid E \<and> (case cr_channel (connector w) of None \<Rightarrow> False | Some ch \<Rightarrow> Channel_live ch)"
| "attempt_enabled L E (Cr_fire C p) w \<longleftrightarrow> cr_enabled L (tid E) (Cr_fire C p) w"
| "attempt_enabled L E (Cr_run C) w \<longleftrightarrow> cr_enabled L (tid E) (Cr_run C) w"
| "attempt_enabled L E _ w \<longleftrightarrow> False"

text \<open>
  A connection's \<open>handleClose\<close>, which runs once (\<open>Tcp_Stream\<close>), calls \<open>removeConnection\<close> in the loop. It
  handles an event, and events are polled only when no functor is left of the round before: the channel
  of the attempt that made the connection has been reset.
\<close>

definition close_enabled :: "libev \<Rightarrow> clworld env \<Rightarrow> clworld cenv \<Rightarrow> clworld \<Rightarrow> bool" where
  "close_enabled L E C w \<longleftrightarrow> cenv_ok L C w \<and> c_tid C = tid E \<and>
     F_Connector_resetChannel \<notin> set (pendingFunctors (cr_ev_loop w))"

text \<open>
  The steps, with the set of the connections whose \<open>handleClose\<close> has not run yet. \<open>connect\<close> is called when
  the connector is idle; \<open>stop\<close> and \<open>disconnect\<close> come from any thread.
\<close>

inductive client_step :: "libev \<Rightarrow> clworld env \<Rightarrow> clworld \<times> conn_id set \<Rightarrow> clworld \<times> conn_id set \<Rightarrow> bool"
  for L E where
  client_connect: "cr_enabled L (tid E) (Cr_start C) w \<Longrightarrow> TcpClient_connect C w = Inr w' \<Longrightarrow>
    client_step L E (w, opened) (w', opened)"
| client_stop: "TcpClient_stop L t w = Inr w' \<Longrightarrow> client_step L E (w, opened) (w', opened)"
| client_disconnect: "TcpClient_disconnect (E\<lparr>tid := t\<rparr>) w = Inr w' \<Longrightarrow> client_step L E (w, opened) (w', opened)"
| client_enableRetry: "client_step L E (w, opened) (on_cl TcpClient_enableRetry w, opened)"
| client_attempt: "attempt_enabled L E a w \<Longrightarrow> cr_do L a w = Inr w' \<Longrightarrow>
    client_step L E (w, opened) (w', opened \<union> {cl_nextObj w ..< cl_nextObj w'})"
| client_close: "c \<in> opened \<Longrightarrow> close_enabled L E C w \<Longrightarrow> TcpClient_removeConnection C c w = Inr w' \<Longrightarrow>
    client_step L E (w, opened) (w', opened - {c})"
| client_other: "cl_frame w w' \<Longrightarrow> client_step L E (w, opened) (w', opened)"

definition client_initial :: "clworld env \<Rightarrow> clworld \<Rightarrow> bool" where
  "client_initial E w \<longleftrightarrow> cr_initial (tid E) w \<and> connection (client w) = None \<and>
     cl_loop (client w) = cr_loop (connector w) \<and> cl_connectionCallback (client w) \<noteq> None"

inductive client_reachable :: "libev \<Rightarrow> clworld env \<Rightarrow> clworld \<times> conn_id set \<Rightarrow> bool" for L E where
  client_new: "client_initial E w \<Longrightarrow> client_reachable L E (w, {})"
| client_next: "client_reachable L E s \<Longrightarrow> client_step L E s s' \<Longrightarrow> client_reachable L E s'"

definition client_inv :: "clworld env \<Rightarrow> clworld \<times> conn_id set \<Rightarrow> bool" where
  "client_inv E s \<longleftrightarrow> (case s of (w, opened) \<Rightarrow>
     cr_inv False (tid E) w \<and> cl_loop (client w) = cr_loop (connector w) \<and>
     cl_connectionCallback (client w) \<noteq> None \<and>
     (\<forall>c. connection (client w) = Some c \<longleftrightarrow> c \<in> opened) \<and>
     (\<forall>c \<in> opened. conn_loop (conns w c) = cl_loop (client w) \<and> c < cl_nextObj w) \<and>
     (opened \<noteq> {} \<longrightarrow> cr_state (connector w) = States_kConnected))"

lemma client_invD:
  assumes "client_inv E (w, opened)"
  shows "cr_inv False (tid E) w" "cl_loop (client w) = cr_loop (connector w)"
    "cl_connectionCallback (client w) \<noteq> None" "\<And>c. connection (client w) = Some c \<longleftrightarrow> c \<in> opened"
    "\<And>c. c \<in> opened \<Longrightarrow> conn_loop (conns w c) = cl_loop (client w)" "\<And>c. c \<in> opened \<Longrightarrow> c < cl_nextObj w"
    "opened \<noteq> {} \<Longrightarrow> cr_state (connector w) = States_kConnected"
  using assms by (auto simp: client_inv_def)

lemma on_cl_simps [simp]:
  "client (on_cl f w) = f (client w)" "connector (on_cl f w) = connector w" "loops (on_cl f w) = loops w"
  "conns (on_cl f w) = conns w" "socks (on_cl f w) = socks w" "cl_nextObj (on_cl f w) = cl_nextObj w"
  "cr_ev_loop (on_cl f w) = cr_ev_loop w"
  by (simp_all add: on_cl_def cr_ev_loop_def)

lemma clworld_upd_simps [simp]:
  "client (upd_loop i g w) = client w" "client (upd_conn c h w) = client w" "client (upd_sock fd k w) = client w"
  "client (on_cr f w) = client w" "client (upd_cr_loop g w) = client w"
  "cl_nextObj (upd_loop i g w) = cl_nextObj w" "cl_nextObj (upd_conn c h w) = cl_nextObj w"
  "cl_nextObj (upd_sock fd k w) = cl_nextObj w" "cl_nextObj (on_cr f w) = cl_nextObj w"
  by (simp_all add: upd_loop_def upd_conn_def upd_sock_def on_cr_def upd_cr_loop_def)

lemma attempt_frame_client:
  fixes w w' :: clworld
  assumes "attempt_frame w w'"
  shows "client w' = client w" "cl_nextObj w' = cl_nextObj w" "conns w' = conns w"
    "cr_loop (connector w') = cr_loop (connector w)" "threadId (loops w' l) = threadId (loops w l)"
  using assms by (cases w; cases w'; simp add: attempt_frame_def)+

text \<open>Whatever leaves the client's connection alone keeps the invariant, when it keeps the connector's.\<close>

lemma client_inv_kept:
  assumes "client_inv E (w, opened)" and "cr_inv False (tid E) w'"
    and "cr_loop (connector w') = cr_loop (connector w)" "cl_loop (client w') = cl_loop (client w)"
    and "connection (client w') = connection (client w)"
    and "cl_connectionCallback (client w') = cl_connectionCallback (client w)" "cl_nextObj w' = cl_nextObj w"
    and "\<And>c. conn_loop (conns w' c) = conn_loop (conns w c)"
    and "cr_state (connector w) = States_kConnected \<Longrightarrow> cr_state (connector w') = States_kConnected"
  shows "client_inv E (w', opened)"
  using assms by (auto simp: client_inv_def)

lemma cl_frame_inv: "client_inv E (w, opened) \<Longrightarrow> cl_frame w w' \<Longrightarrow> client_inv E (w', opened)"
  by (rule client_inv_kept) (auto simp: cl_frame_def cr_frame_def client_inv_def intro: cr_frame_inv[unfolded cr_frame_def])

text \<open>
  \<open>newConnection\<close> up to the user's callback: the connection is built, registered and established.
\<close>

lemma newConnection_run:
  assumes th: "threadId (loops w (cl_loop (client w))) = tid E" and f: "cl_connectionCallback (client w) = Some f"
  shows "\<exists>w4. TcpClient_newConnection E fd w = user E f (On_connection (cl_nextObj w)) w4 \<and>
    connector w4 = connector w \<and> loops w4 = loops w \<and> connection (client w4) = Some (cl_nextObj w) \<and>
    cl_loop (client w4) = cl_loop (client w) \<and> cl_connectionCallback (client w4) = Some f \<and>
    cl_nextObj w4 = cl_nextObj w + 1 \<and> cl_retry (client w4) = cl_retry (client w) \<and>
    (\<forall>c. conn_loop (conns w4 c) = (if c = cl_nextObj w then cl_loop (client w) else conn_loop (conns w c)))"
proof -
  let ?c = "cl_nextObj w" and ?peer = "sockets_getPeerAddr (socks w fd)"
  obtain ip where ip: "InetAddress_toIpPort ?peer = Inr ip" using toIpPort_eq by blast
  let ?w1 = "on_cl (\<lambda>c. c\<lparr>cl_nextConnId := cl_nextConnId c + 1\<rparr>) w"
  let ?conn = "TcpClient_build (ev E) ?c (TcpClient_connName ip (cl_nextConnId (client w))) fd
      (sockets_getLocalAddr (socks ?w1 fd)) ?peer (client ?w1)"
  let ?w3 = "on_cl (\<lambda>c. c\<lparr>connection := Some ?c\<rparr>) (upd_conn ?c (\<lambda>_. ?conn) (?w1\<lparr>cl_nextObj := ?c + 1\<rparr>))"
  let ?w4 = "upd_conn ?c (on_channel (Channel_enableReading (ev E))) (upd_conn ?c (TcpConnection_setState kConnected) ?w3)"
  have conn: "conn_loop ?conn = cl_loop (client w)" "conn_state ?conn = kConnecting"
    "connectionCallback ?conn = cl_connectionCallback (client w)"
    by (simp_all add: TcpClient_build_def TcpConnection_ctor_def TcpConnection_setCloseCallback_def
        TcpConnection_setWriteCompleteCallback_def TcpConnection_setMessageCallback_def
        TcpConnection_setConnectionCallback_def)
  have "TcpClient_newConnection E fd w = TcpConnection_connectEstablished E ?c ?w3"
    using th ip by (simp add: TcpClient_newConnection_def EventLoop_assertInLoopThread_def
        EventLoop_isInLoopThread_def Let_def)
  also have "\<dots> = user E f (On_connection ?c) ?w4"
    using th conn f by (simp add: TcpConnection_connectEstablished_def EventLoop_assertInLoopThread_def
        EventLoop_isInLoopThread_def loop_of_def call_user_def)
  finally show ?thesis using conn(1) f by (intro exI[of _ ?w4]) simp
qed

lemma newConnection_ok:
  assumes U: "cl_user_ok E" and th: "threadId (loops w (cl_loop (client w))) = tid E"
    and cb: "cl_connectionCallback (client w) \<noteq> None"
  shows "\<exists>w'. TcpClient_newConnection E fd w = Inr w' \<and> cr_frame w w' \<and>
    cr_loop (connector w') = cr_loop (connector w) \<and> connection (client w') = Some (cl_nextObj w) \<and>
    cl_loop (client w') = cl_loop (client w) \<and> cl_connectionCallback (client w') = cl_connectionCallback (client w) \<and>
    cl_nextObj w' = cl_nextObj w + 1 \<and>
    (\<forall>c. conn_loop (conns w' c) = (if c = cl_nextObj w then cl_loop (client w) else conn_loop (conns w c)))"
proof -
  obtain f where f: "cl_connectionCallback (client w) = Some f" using cb by blast
  from newConnection_run[OF th f, of fd] obtain w4 where
    w4: "TcpClient_newConnection E fd w = user E f (On_connection (cl_nextObj w)) w4" "connector w4 = connector w"
    "cr_ev_loop w4 = cr_ev_loop w" "connection (client w4) = Some (cl_nextObj w)"
    "cl_loop (client w4) = cl_loop (client w)" "cl_connectionCallback (client w4) = Some f"
    "cl_nextObj w4 = cl_nextObj w + 1"
    "\<forall>c. conn_loop (conns w4 c) = (if c = cl_nextObj w then cl_loop (client w) else conn_loop (conns w c))"
    by (auto simp: cr_ev_loop_def)
  obtain w' where "user E f (On_connection (cl_nextObj w)) w4 = Inr w'" "cl_frame w4 w'"
    using U unfolding cl_user_ok_def by blast
  then show ?thesis using w4 f by (intro exI[of _ w']) (simp add: cl_frame_def cr_frame_def)
qed

text \<open>The client's callback is what the connector asks of one.\<close>

lemma newConnection_new_ok:
  assumes U: "cl_user_ok E" and inv: "client_inv E (w, opened)" and C: "c_new C = TcpClient_newConnection E"
  shows "new_ok C w"
  unfolding new_ok_def
proof (intro allI impI)
  fix fd and w1 :: clworld
  assume fr: "attempt_frame w w1"
  note I = client_invD[OF inv]
  have "threadId (cr_ev_loop w) = tid E" using I(1) by (simp add: cr_inv_def cr_ok_def)
  then have "threadId (loops w1 (cl_loop (client w1))) = tid E"
    using I(2) attempt_frame_client[OF fr] by (simp add: cr_ev_loop_def)
  moreover have "cl_connectionCallback (client w1) \<noteq> None" using I(3) attempt_frame_client[OF fr] by simp
  ultimately show "\<exists>w2. c_new C fd w1 = Inr w2 \<and> cr_frame w1 w2" using newConnection_ok[OF U] C by metis
qed

lemma attempt_enabled_cr:
  assumes "cl_user_ok E" "client_inv E (w, opened)" "attempt_enabled L E a w"
  shows "cr_enabled L (tid E) a w" "\<And>C. a \<noteq> Cr_restart C" "\<And>w'. a \<noteq> Cr_other w'" "\<And>C. a \<noteq> Cr_start C"
    "\<And>C revents. a = Cr_event C revents \<Longrightarrow> c_new C = TcpClient_newConnection E"
  using assms newConnection_new_ok[OF assms(1,2)] by (cases a; simp)+

section \<open>Every step keeps the invariant\<close>

lemma run_frame: "cr_do L (Cr_run C) w = Inr w' \<Longrightarrow> attempt_frame w w'"
proof (cases "pendingFunctors (cr_ev_loop w)")
  case (Cons f fs)
  assume run: "cr_do L (Cr_run C) w = Inr w'"
  let ?w = "upd_cr_loop (\<lambda>l. l\<lparr>pendingFunctors := fs\<rparr>) w"
  have "Connector_functor C f ?w = Inr w'" using run Cons by simp
  then have "attempt_frame ?w w'"
    by (cases f) (auto simp: res_simps dest: startInLoop_frame stopInLoop_frame resetChannel_frame cancelInLoop_thread)
  then show ?thesis by simp
qed simp

text \<open>An attempt leaves the client as it is, or makes a connection when there was none.\<close>

lemma attempt_cases:
  assumes L: "libev_ok L" and U: "cl_user_ok E" and inv: "client_inv E (w, opened)"
    and en: "attempt_enabled L E a w" and run: "cr_do L a w = Inr w'"
  shows "attempt_frame w w' \<or> (\<exists>fd w3 w4. attempt_frame w w3 \<and> cr_state (connector w3) = States_kConnected \<and>
    opened = {} \<and> TcpClient_newConnection E fd w3 = Inr w4 \<and> w' = on_cr_channel (eventHandling_update (\<lambda>_. False)) w4)"
proof (cases a)
  case (Cr_event C revents)
  note I = client_invD[OF inv]
  note cr = attempt_enabled_cr[OF U inv en]
  have en': "cr_enabled L (tid E) (Cr_event C revents) w" using cr(1) Cr_event by simp
  have "opened = {}" using I(1,7) en' by (auto simp: cr_inv_def cr_ok_def split: option.splits)
  then show ?thesis
    using event_cases[OF L en' I(1)] run Cr_event cr(5)[OF Cr_event] by auto
next
  case (Cr_fire C p)
  then show ?thesis using run by (auto dest!: startInLoop_frame simp: timer_done_def)
next
  case (Cr_run C)
  then show ?thesis using run run_frame by blast
qed (use en in simp_all)

lemma attempt_inv:
  assumes L: "libev_ok L" and U: "cl_user_ok E" and inv: "client_inv E (w, opened)"
    and en: "attempt_enabled L E a w" and run: "cr_do L a w = Inr w'"
  shows "client_inv E (w', opened \<union> {cl_nextObj w ..< cl_nextObj w'})"
proof -
  note I = client_invD[OF inv]
  note cr = attempt_enabled_cr[OF U inv en]
  have inv': "cr_inv False (tid E) w'" using cr_step_inv[OF L I(1) cr(1) run] .
  from attempt_cases[OF L U inv en run] show ?thesis
  proof (elim disjE exE conjE)
    assume "attempt_frame w w'"
    note same = attempt_frame_client[OF this]
    have "client_inv E (w', opened)"
      by (rule client_inv_kept[OF inv inv'])
         (use same connected_stays[OF I(1) _ cr(1,2) run] in auto)
    then show ?thesis using same(2) by simp
  next
    fix fd w3 w4
    assume w3: "attempt_frame w w3" "cr_state (connector w3) = States_kConnected" and none: "opened = {}"
      and new: "TcpClient_newConnection E fd w3 = Inr w4"
      and w': "w' = on_cr_channel (eventHandling_update (\<lambda>_. False)) w4"
    note same = attempt_frame_client[OF w3(1)]
    have "threadId (cr_ev_loop w) = tid E" using I(1) by (simp add: cr_inv_def cr_ok_def)
    then have th: "threadId (loops w3 (cl_loop (client w3))) = tid E" using I(2) same by (simp add: cr_ev_loop_def)
    have cb: "cl_connectionCallback (client w3) \<noteq> None" using I(3) same by simp
    note n = newConnection_ok[OF U th cb, of fd, unfolded new, simplified]
    have w4: "connector w4 = connector w3" using n by (simp add: cr_frame_def)
    have upd: "client w' = client w4" "cl_nextObj w' = cl_nextObj w4" "conns w' = conns w4"
      "cr_loop (connector w') = cr_loop (connector w4)" "cr_state (connector w') = cr_state (connector w4)"
      by (simp_all add: w' on_cr_channel_def)
    have "connection (client w') = Some c \<longleftrightarrow> c \<in> {cl_nextObj w ..< cl_nextObj w'}" for c
      using n upd same by auto
    then show ?thesis
      using inv' n upd same I(2,3) w3(2) w4 none unfolding client_inv_def by auto
  qed
qed

text \<open>The calls of the client, which change the connector only through its own operations.\<close>

lemma connect_inv:
  assumes L: "libev_ok L" and inv: "client_inv E (w, opened)" and en: "cr_enabled L (tid E) (Cr_start C) w"
    and run: "TcpClient_connect C w = Inr w'"
  shows "client_inv E (w', opened)"
proof -
  note I = client_invD[OF inv]
  let ?w = "on_cl (\<lambda>c. c\<lparr>cl_connect := True\<rparr>) w"
  have fr: "cr_frame w ?w" by (simp add: cr_frame_def loop_frame_def)
  have en': "cr_enabled L (tid E) (Cr_start C) ?w" using en by (simp add: cenv_ok_def)
  have run': "Connector_start C ?w = Inr w'" using run by (simp add: TcpClient_connect_def)
  have inv': "cr_inv False (tid E) w'" using start_inv[OF L en' cr_frame_inv[OF I(1) fr]] run' by simp
  show ?thesis
    by (rule client_inv_kept[OF inv inv'])
       (use attempt_frame_client[OF start_frame[OF run']] en in auto)
qed

lemma client_stop_inv:
  assumes L: "libev_ok L" and inv: "client_inv E (w, opened)" and run: "TcpClient_stop L t w = Inr w'"
  shows "client_inv E (w', opened)"
proof -
  note I = client_invD[OF inv]
  let ?w = "on_cl (\<lambda>c. c\<lparr>cl_connect := False\<rparr>) w"
  have fr: "cr_frame w ?w" by (simp add: cr_frame_def loop_frame_def)
  have run': "Connector_stop L t ?w = Inr w'" using run by (simp add: TcpClient_stop_def)
  have inv': "cr_inv False (tid E) w'" using stop_inv[OF L cr_frame_inv[OF I(1) fr], of t] run' by auto
  show ?thesis
    by (rule client_inv_kept[OF inv inv'])
       (use attempt_frame_client[OF stop_frame[OF run']]
         connected_stays[OF cr_frame_inv[OF I(1) fr] _ _ _ , of L "Cr_stop t" w'] run' in auto)
qed

lemma shutdown_frame:
  fixes w :: clworld
  assumes "TcpConnection_shutdown E c w = Inr w'"
  shows "cl_frame w w'"
proof -
  let ?w = "upd_conn c (TcpConnection_setState kDisconnecting) w"
  let ?q = "upd_loop (conn_loop (conns w c)) (EventLoop_queueInLoop (tid E) (F_shutdownInLoop c)) ?w"
  have "w' = w \<or> w' = ?w \<or> (\<exists>fd h. w' = upd_sock fd h ?w) \<or> w' = ?q"
    using assms
    by (auto simp: TcpConnection_shutdown_def TcpConnection_shutdownInLoop_def Let_def EventLoop_runInLoop_def
        EventLoop_assertInLoopThread_def res_simps split: if_splits)
  then show ?thesis
    by (elim disjE exE) (auto simp: cl_frame_def cr_frame_def loop_frame_def cr_ev_loop_def)
qed

lemma disconnect_frame: "TcpClient_disconnect E w = Inr w' \<Longrightarrow> cl_frame w w'"
proof -
  assume run: "TcpClient_disconnect E w = Inr w'"
  let ?w = "on_cl (\<lambda>c. c\<lparr>cl_connect := False\<rparr>) w"
  have "w' = ?w \<or> cl_frame ?w w'"
    using run shutdown_frame[of E _ ?w w'] by (auto simp: TcpClient_disconnect_def Let_def split: option.splits)
  then show "cl_frame w w'" by (auto simp: cl_frame_def cr_frame_def loop_frame_def)
qed

text \<open>
  The end of the connection. The two assertions of \<open>removeConnection\<close> hold, and when it restarts the
  connector that one is connected and without a channel.
\<close>

lemma close_ok:
  assumes L: "libev_ok L" and inv: "client_inv E (w, opened)" and c: "c \<in> opened"
    and en: "close_enabled L E C w"
  shows "goes_on C (\<lambda>w'. connection (client w') = None \<and> client_inv E (w', opened - {c})) (TcpClient_removeConnection C c w)"
    and "\<not> (cl_connect (client w) \<and> cl_retry (client w)) \<Longrightarrow> \<exists>w'. TcpClient_removeConnection C c w = Inr w' \<and>
      connector w' = connector w"
proof -
  note I = client_invD[OF inv]
  let ?w1 = "on_cl (\<lambda>c. c\<lparr>connection := None\<rparr>) w"
  let ?w2 = "upd_cr_loop (EventLoop_queueInLoop (c_tid C) (F_connectDestroyed c)) ?w1"
  have C: "cenv_ok L C w" "c_tid C = tid E" "F_Connector_resetChannel \<notin> set (cr_queue (cr_ev_loop w))"
    using en by (auto simp: close_enabled_def cr_queue_def)
  have st: "cr_state (connector w) = States_kConnected" using I(7) c by blast
  have th: "threadId (cr_ev_loop w) = tid E" using I(1) by (simp add: cr_inv_def cr_ok_def)
  have ch: "cr_channel (connector w) = None"
    using I(1) st C(3) by (auto simp: cr_inv_def cr_ok_def idle_queue_def split: option.splits)
  have fr: "cr_frame w ?w2" by (simp add: cr_frame_def loop_frame_def)
  have inv2: "cr_inv False (tid E) ?w2" by (rule cr_frame_inv[OF I(1) fr])
  have "d = c" if "d \<in> opened" for d using I(4)[of d] I(4)[of c] that c by simp
  then have none: "opened - {c} = {}" by blast
  have rm: "TcpClient_removeConnection C c w =
      (if cl_connect (client w) \<and> cl_retry (client w) then Connector_restart C ?w2 else Inr ?w2)"
    using I(2,4) I(5)[OF c] c th C(2)
    by (simp add: TcpClient_removeConnection_def EventLoop_assertInLoopThread_def EventLoop_isInLoopThread_def
        Let_def cr_ev_loop_def upd_cr_loop_def)
  have kept: "connection (client w') = None \<and> client_inv E (w', opened - {c})"
    if "cr_inv False (tid E) w'" "attempt_frame ?w2 w'" for w'
    unfolding client_inv_def none using that(1) attempt_frame_client[OF that(2)] I(2,3) by simp
  show "\<exists>w'. TcpClient_removeConnection C c w = Inr w' \<and> connector w' = connector w"
    if "\<not> (cl_connect (client w) \<and> cl_retry (client w))"
    unfolding rm if_not_P[OF that] by (rule exI[of _ ?w2]) simp
  show "goes_on C (\<lambda>w'. connection (client w') = None \<and> client_inv E (w', opened - {c})) (TcpClient_removeConnection C c w)"
  proof (cases "cl_connect (client w) \<and> cl_retry (client w)")
    case True
    have en2: "cr_enabled L (tid E) (Cr_restart C) ?w2"
      using C(1,2) st ch by (simp add: cenv_ok_def fresh_timer_def)
    have "goes_on C (cr_inv False (tid E)) (Connector_restart C ?w2)" by (rule restart_inv[OF L en2 inv2])
    then show ?thesis unfolding rm if_P[OF True] using kept restart_frame[of C ?w2]
      by (cases "Connector_restart C ?w2") simp_all
  next
    case False
    show ?thesis unfolding rm if_not_P[OF False] using kept[OF inv2] by simp
  qed
qed

lemma client_step_inv:
  assumes "client_step L E s s'" and "libev_ok L" and "cl_user_ok E" and "client_inv E s"
  shows "client_inv E s'"
  using assms
proof (induction rule: client_step.induct)
  case (client_connect C w w' opened)
  then show ?case by (blast intro: connect_inv)
next
  case (client_stop t w w' opened)
  then show ?case by (blast intro: client_stop_inv)
next
  case (client_disconnect t w w' opened)
  then show ?case by (blast intro: cl_frame_inv disconnect_frame)
next
  case (client_enableRetry w opened)
  show ?case
    by (rule cl_frame_inv[OF client_enableRetry(3)])
       (simp add: cl_frame_def cr_frame_def loop_frame_def TcpClient_enableRetry_def)
next
  case (client_attempt a w w' opened)
  then show ?case by (blast intro: attempt_inv)
next
  case (client_close c opened C w w')
  then show ?case using close_ok(1)[of L E w opened c C] by simp
next
  case (client_other w w' opened)
  then show ?case by (blast intro: cl_frame_inv)
qed

lemma client_reachable_inv: "client_reachable L E s \<Longrightarrow> libev_ok L \<Longrightarrow> cl_user_ok E \<Longrightarrow> client_inv E s"
proof (induction rule: client_reachable.induct)
  case (client_new w)
  then show ?case
    by (simp add: client_initial_def client_inv_def cr_initial_def cr_inv_def cr_ok_def idle_queue_def)
next
  case (client_next s s')
  then show ?case by (blast intro: client_step_inv)
qed

section \<open>What the client promises\<close>

lemma retry_pending:
  "Connector_retry C fd w = Inr w' \<Longrightarrow> threadId (cr_ev_loop w) = c_tid C \<Longrightarrow>
   pendingFunctors (cr_ev_loop w') = pendingFunctors (cr_ev_loop w)"
  by (auto simp: Connector_retry_def Let_def EventLoop_runAfter_def res_simps dest: addTimer_pending
      split: if_splits prod.splits)

lemma startInLoop_pending:
  "Connector_startInLoop C w = Inr w' \<Longrightarrow> pendingFunctors (cr_ev_loop w') = pendingFunctors (cr_ev_loop w)"
  by (auto simp: Connector_startInLoop_def EventLoop_assertInLoopThread_def EventLoop_isInLoopThread_def
      Connector_connect_def Connector_connecting_def Let_def res_simps dest: retry_pending split: if_splits)

lemma removeConnection_pending:
  assumes "TcpClient_removeConnection C c w = Inr w'" and "cl_loop (client w) = cr_loop (connector w)"
  shows "pendingFunctors (cr_ev_loop w') = pendingFunctors (cr_ev_loop w) @ [F_connectDestroyed c]"
  using assms
  by (auto simp: TcpClient_removeConnection_def EventLoop_assertInLoopThread_def Connector_restart_def Let_def
      cr_ev_loop_def res_simps dest!: startInLoop_pending split: if_splits)

text \<open>
  C13. A client has one connection at a time. Whatever the kernel, the timers, other threads and the user do,
  as long as \<open>connect\<close> is called only while the connector is idle (C36 says what happens otherwise), the client's
  \<open>connection_\<close> is the one connection whose \<open>handleClose\<close> has not run, and none when there is no such
  connection; while there is one, no attempt runs, waits in the queue or is on a timer. Every step of an
  attempt returns, the new-connection callback included, and leaves an existing connection in place; and
  when the connection closes, \<open>removeConnection\<close> returns, its two assertions hold, the client has no connection,
  and \<open>connectDestroyed\<close> is queued once, behind everything that waited. Only where a new attempt begins and
  \<open>socket(2)\<close> fails does the process end, as the code means it to.
\<close>

theorem client_one_connection:
  assumes "libev_ok L" and "cl_user_ok E" and "client_reachable L E (w, opened)"
  shows "opened = set_option (connection (client w)) \<and>
    (connection (client w) \<noteq> None \<longrightarrow> cr_state (connector w) = States_kConnected \<and>
       armed (cr_ev_loop w) = {} \<and> F_Connector_startInLoop \<notin> set (pendingFunctors (cr_ev_loop w))) \<and>
    (\<forall>a. attempt_enabled L E a w \<longrightarrow> (\<exists>w'. cr_do L a w = Inr w' \<and>
       (connection (client w) \<noteq> None \<longrightarrow> connection (client w') = connection (client w))) \<or>
       cr_do L a w = Inl Fatal \<and> no_socket a) \<and>
    (\<forall>c C. connection (client w) = Some c \<longrightarrow> close_enabled L E C w \<longrightarrow>
       (\<exists>w'. TcpClient_removeConnection C c w = Inr w' \<and> connection (client w') = None \<and>
          pendingFunctors (cr_ev_loop w') = pendingFunctors (cr_ev_loop w) @ [F_connectDestroyed c]) \<or>
       TcpClient_removeConnection C c w = Inl Fatal \<and> c_sockfd C < 0)"
proof (intro conjI allI impI)
  have inv: "client_inv E (w, opened)" by (rule client_reachable_inv[OF assms(3,1,2)])
  note I = client_invD[OF inv]
  show op: "opened = set_option (connection (client w))" using I(4) by (auto simp: set_eq_iff)
  show st: "cr_state (connector w) = States_kConnected" if "connection (client w) \<noteq> None" using I(4,7) that by auto
  have quiet: "armed (cr_ev_loop w) = {} \<and> cr_queue (cr_ev_loop w) = idle_queue (connector w) (cr_ev_loop w)"
    if "connection (client w) \<noteq> None" using I(1) st[OF that] by (simp add: cr_inv_def cr_ok_def)
  then show "armed (cr_ev_loop w) = {}" if "connection (client w) \<noteq> None" using that by blast
  have "F_Connector_startInLoop \<notin> set (cr_queue (cr_ev_loop w))" if "connection (client w) \<noteq> None"
    using quiet[OF that] by (simp add: idle_queue_def split: option.splits)
  then show "F_Connector_startInLoop \<notin> set (pendingFunctors (cr_ev_loop w))" if "connection (client w) \<noteq> None"
    using that by (simp add: cr_queue_def)
  show "(\<exists>w'. cr_do L a w = Inr w' \<and>
      (connection (client w) \<noteq> None \<longrightarrow> connection (client w') = connection (client w))) \<or>
      cr_do L a w = Inl Fatal \<and> no_socket a" if en: "attempt_enabled L E a w" for a
    using cr_step_cases[OF assms(1) I(1) attempt_enabled_cr(1)[OF assms(2) inv en]]
  proof (elim disjE exE conjE)
    fix w' assume w': "cr_do L a w = Inr w'"
    from attempt_cases[OF assms(1,2) inv en w'] show ?thesis
      using w' op attempt_frame_client(1)[of w w'] by auto
  qed simp
  show "(\<exists>w'. TcpClient_removeConnection C c w = Inr w' \<and> connection (client w') = None \<and>
      pendingFunctors (cr_ev_loop w') = pendingFunctors (cr_ev_loop w) @ [F_connectDestroyed c]) \<or>
      TcpClient_removeConnection C c w = Inl Fatal \<and> c_sockfd C < 0"
    if "connection (client w) = Some c" "close_enabled L E C w" for c C
  proof -
    have "c \<in> opened" using I(4) that(1) by blast
    from close_ok(1)[OF assms(1) inv this that(2)] removeConnection_pending[of C c w] I(2) show ?thesis
      by (cases "TcpClient_removeConnection C c w") auto
  qed
qed

text \<open>
  A client of thread 1 whose user does nothing, with a socket 7 that connects: \<open>connect\<close>, the event that
  says that it is writable, the functor that destroys the attempt's channel.
\<close>

definition plain_client_env :: "clworld env" where
  "plain_client_env = base_env libev_ref 1"

definition client_cenv :: "clworld cenv" where
  "client_cenv = (attempt_env EINPROGRESS)\<lparr>c_new := TcpClient_newConnection plain_client_env\<rparr>"

definition fresh_client :: clworld where
  "fresh_client =
     \<lparr>loops = (\<lambda>_. fresh_loop libev_ref),
      conns = (\<lambda>_. TcpConnection_ctor libev_ref 0 0 [] 9 zero_sockaddr zero_sockaddr),
      socks = (\<lambda>_. \<lparr>sk_in = [], sk_taken = [], sk_fin = False, sk_rderr = [], sk_wr = [], sk_out = [],
        sk_shutWr = False, sk_error = 0, sk_closed = False, sk_local = zero_sockaddr,
        sk_peer = zero_sockaddr\<lparr>sin_port := 80\<rparr>, sk_keepAlive = False, sk_noDelay = False\<rparr>),
      timersCreated = 0,
      connector = Connector_setNewConnectionCallback (Connector_ctor 0 zero_sockaddr),
      client = \<lparr>cl_loop = 0, cl_connectionCallback = Some 1, cl_messageCallback = Some 2,
        cl_writeCompleteCallback = None, cl_retry = False, cl_connect = True, cl_nextConnId = 1,
        connection = None\<rparr>,
      cl_nextObj = 0\<rparr>"

lemma plain_client_user: "cl_user_ok plain_client_env"
  by (simp add: cl_user_ok_def plain_client_env_def base_env_def cl_frame_def cr_frame_def loop_frame_def)

lemma client_cenv_simps [simp]:
  "c_ev client_cenv = libev_ref" "c_tid client_cenv = 1" "c_sockfd client_cenv = 7" "c_ret client_cenv = -1"
  "c_errno client_cenv = EINPROGRESS" "c_timer client_cenv = 4"
  "c_new client_cenv = TcpClient_newConnection plain_client_env" "tid plain_client_env = 1"
  by (simp_all add: client_cenv_def plain_client_env_def)

lemma client_cenv_ok: "timerHeap (cr_ev_loop w) = (\<lambda>_. None) \<Longrightarrow> cenv_ok libev_ref client_cenv w"
  by (simp add: cenv_ok_def fresh_timer_def)

lemma fresh_client_simps [simp]:
  "cr_ev_loop fresh_client = fresh_loop libev_ref" "cr_state (connector fresh_client) = States_kDisconnected"
  "cr_channel (connector fresh_client) = None" "hasNewConnection (connector fresh_client)"
  "cr_loop (connector fresh_client) = 0" "connection (client fresh_client) = None" "cl_loop (client fresh_client) = 0"
  "cl_connectionCallback (client fresh_client) = Some 1" "loops fresh_client l = fresh_loop libev_ref"
  "cl_nextObj fresh_client = 0"
  by (simp_all add: fresh_client_def cr_ev_loop_def Connector_setNewConnectionCallback_def Connector_ctor_def)

definition connecting_client :: clworld where
  "connecting_client = on_cr (\<lambda>c. c\<lparr>cr_connect := True, cr_state := States_kConnecting, cr_channel := Some
     (Channel_enableWriting libev_ref (Channel_setErrorCallback Cb_Connector_handleError
       (Channel_setWriteCallback Cb_Connector_handleWrite (Channel_ctor libev_ref 0 7))))\<rparr>) fresh_client"

lemma connecting_client_reachable: "client_reachable libev_ref plain_client_env (connecting_client, {})"
proof (rule client_next[OF client_new])
  show "client_initial plain_client_env fresh_client"
    by (simp add: client_initial_def cr_initial_def cr_queue_def armed_def EventLoop_timers_inv_def TimerQueue_inv_def)
  have "TcpClient_connect client_cenv fresh_client = Inr connecting_client"
    by (simp add: TcpClient_connect_def Connector_start_def EventLoop_runInLoop_def EventLoop_isInLoopThread_def
        Connector_startInLoop_def EventLoop_assertInLoopThread_def Connector_connect_def errno_in_progress_def
        sockets_createNonblockingOrDie_def Connector_connecting_def connecting_client_def Connector_setState_def
        Let_def)
       (simp add: on_cr_def on_cl_def fresh_client_def Connector_setState_def Connector_setNewConnectionCallback_def
        Connector_ctor_def)
  then show "client_step libev_ref plain_client_env (fresh_client, {}) (connecting_client, {})"
    by (rule client_connect[rotated]) (simp add: client_cenv_ok armed_def)
qed

lemma handleWrite_connects:
  assumes "cr_state (connector w) = States_kConnecting"
    and "Connector_removeAndResetChannel (c_ev C) (c_tid C) w = Inr (fd, w1)"
    and "fst (sockets_getSocketError (socks w1 fd)) = 0"
    and "\<not> sockets_isSelfConnect (snd (sockets_getSocketError (socks w1 fd)))"
    and "cr_connect (connector w1)" "hasNewConnection (connector w1)"
  shows "Connector_handleWrite C w =
    c_new C fd (on_cr (Connector_setState States_kConnected) (upd_sock fd (\<lambda>s. snd (sockets_getSocketError s)) w1))"
  using assms by (simp add: Connector_handleWrite_def Let_def)

lemma connecting_client_event:
  assumes "Connector_event client_cenv ev_WRITE connecting_client = Inr w"
  shows "cl_nextObj w = 1 \<and> \<not> cl_retry (client w) \<and> timerHeap (cr_ev_loop w) = (\<lambda>_. None) \<and>
    pendingFunctors (cr_ev_loop w) = [F_Connector_resetChannel]"
proof -
  let ?w = "on_cr_channel (eventHandling_update (\<lambda>_. True)) connecting_client"
  obtain w2 where w2: "Connector_handleWrite client_cenv ?w = Inr w2"
    "w = on_cr_channel (eventHandling_update (\<lambda>_. False)) w2"
    using assms
    by (auto simp: Connector_event_def Channel_handleEvent_def Channel_handleEventWithGuard_def call_if_def
        connecting_client_def on_cr_channel_def Channel_ctor_def Channel_defs ev_ERROR_def
        Channel_setErrorCallback_def Channel_setWriteCallback_def res_simps)
  have pre: "cr_state (connector ?w) = States_kConnecting" "cr_connect (connector ?w)"
    "hasNewConnection (connector ?w)" "socks ?w = socks fresh_client" "loops ?w = loops fresh_client"
    "client ?w = client fresh_client" "cl_nextObj ?w = 0" "cr_loop (connector ?w) = 0"
    by (simp_all add: on_cr_channel_def connecting_client_def)
  obtain ch where ch: "cr_channel (connector ?w) = Some ch" "ch_fd ch = 7" "Channel_live ch"
    by (simp add: on_cr_channel_def connecting_client_def Channel_setErrorCallback_def
        Channel_setWriteCallback_def Channel_ctor_def Channel_defs libev_ref_def)
  have loop: "cr_ev_loop ?w = fresh_loop libev_ref" using pre(5,8) by (simp add: cr_ev_loop_def)
  obtain ch' where ch': "Connector_removeAndResetChannel libev_ref 1 ?w =
      Inr (7, upd_cr_loop (EventLoop_queueInLoop 1 F_Connector_resetChannel) (on_cr (\<lambda>c. c\<lparr>cr_channel := Some ch'\<rparr>) ?w))"
    using removeAndReset_ok[OF libev_ref_ok ch(1,3), of 1] loop ch(2) by auto
  let ?w1 = "upd_cr_loop (EventLoop_queueInLoop 1 F_Connector_resetChannel) (on_cr (\<lambda>c. c\<lparr>cr_channel := Some ch'\<rparr>) ?w)"
  let ?w3 = "on_cr (Connector_setState States_kConnected) (upd_sock 7 (\<lambda>s. snd (sockets_getSocketError s)) ?w1)"
  have sock: "fst (sockets_getSocketError (socks ?w1 7)) = 0"
    "\<not> sockets_isSelfConnect (snd (sockets_getSocketError (socks ?w1 7)))"
    by (simp_all add: pre fresh_client_def sockets_getSocketError_def sockets_isSelfConnect_def
        sockets_getLocalAddr_def sockets_getPeerAddr_def zero_sockaddr_def)
  have new: "TcpClient_newConnection plain_client_env 7 ?w3 = Inr w2"
    using handleWrite_connects[of ?w client_cenv 7 ?w1] w2(1) ch' sock pre(1,2,3) by simp
  have th: "threadId (loops ?w3 (cl_loop (client ?w3))) = tid plain_client_env"
    "cl_connectionCallback (client ?w3) = Some 1" using pre by (simp_all add: upd_cr_loop_def)
  obtain w4 where w4: "w2 = w4" "connector w4 = connector ?w3" "loops w4 = loops ?w3" "cl_nextObj w4 = cl_nextObj ?w3 + 1"
    "cl_retry (client w4) = cl_retry (client ?w3)"
    using newConnection_run[OF th, of 7] new by (auto simp: plain_client_env_def base_env_def)
  have "cl_nextObj w4 = 1" "\<not> cl_retry (client w4)" using w4(4,5) pre(6,7) by (simp_all add: upd_cr_loop_def fresh_client_def)
  moreover have "cr_ev_loop w4 = EventLoop_queueInLoop 1 F_Connector_resetChannel (fresh_loop libev_ref)"
    using w4(2,3) loop pre(8) by (simp add: cr_ev_loop_def upd_cr_loop_def)
  ultimately show ?thesis using w2(2) w4(1) by (simp add: on_cr_channel_def)
qed

lemma resetChannel_loop: "Connector_resetChannel w = Inr w' \<Longrightarrow> cr_ev_loop w' = cr_ev_loop w"
  by (auto simp: Connector_resetChannel_def res_simps split: option.splits)

lemma connected_client:
  "\<exists>w. client_reachable libev_ref plain_client_env (w, {0}) \<and> connection (client w) = Some 0 \<and>
     \<not> cl_retry (client w) \<and> close_enabled libev_ref plain_client_env client_cenv w"
proof -
  let ?L = libev_ref and ?E = plain_client_env and ?C = client_cenv
  note inv = client_invD[OF client_reachable_inv[OF _ libev_ref_ok plain_client_user]]
  have step: "\<exists>w'. cr_do ?L a w = Inr w'" if "client_reachable ?L ?E (w, opened)" "attempt_enabled ?L ?E a w" "\<not> no_socket a"
    for a w opened
    using cr_step_cases[OF libev_ref_ok inv(1)[OF that(1)]]
      attempt_enabled_cr(1)[OF plain_client_user client_reachable_inv[OF that(1) libev_ref_ok plain_client_user] that(2)]
      that(3) by auto
  note r0 = connecting_client_reachable
  have en0: "attempt_enabled ?L ?E (Cr_event ?C ev_WRITE) connecting_client"
    by (simp add: connecting_client_def client_cenv_ok Channel_setErrorCallback_def Channel_setWriteCallback_def
        Channel_ctor_def Channel_defs libev_okD[OF libev_ref_ok])
  obtain w1 where w1: "cr_do ?L (Cr_event ?C ev_WRITE) connecting_client = Inr w1" using step[OF r0 en0] by auto
  have e1: "cl_nextObj w1 = 1" "timerHeap (cr_ev_loop w1) = (\<lambda>_. None)" "\<not> cl_retry (client w1)"
    "pendingFunctors (cr_ev_loop w1) = [F_Connector_resetChannel]"
    using connecting_client_event[of w1] w1 by simp_all
  have "cl_nextObj connecting_client = 0" by (simp add: connecting_client_def)
  then have r1: "client_reachable ?L ?E (w1, {0})"
    using client_next[OF r0 client_attempt[OF en0 w1]] e1(1) by simp
  have en1: "attempt_enabled ?L ?E (Cr_run ?C) w1" using e1(2) by (simp add: client_cenv_ok)
  obtain w2 where w2: "cr_do ?L (Cr_run ?C) w1 = Inr w2" using step[OF r1 en1] by auto
  have "cr_ev_loop w2 = (cr_ev_loop w1)\<lparr>pendingFunctors := []\<rparr>" using w2 e1(4) by (auto dest: resetChannel_loop)
  then have en2: "close_enabled ?L ?E ?C w2" using e1(2) by (simp add: close_enabled_def client_cenv_ok)
  have c2: "cl_nextObj w2 = 1" "\<not> cl_retry (client w2)" using attempt_frame_client(1,2)[OF run_frame[OF w2]] e1(1,3) by simp_all
  then have r2: "client_reachable ?L ?E (w2, {0})"
    using client_next[OF r1 client_attempt[OF en1 w2]] e1(1) by simp
  then have "connection (client w2) = Some 0" using inv(4)[OF r2] by blast
  then show ?thesis using r2 c2(2) en2 by blast
qed

lemma client_one_connection_witness:
  "\<exists>w w'. client_reachable libev_ref plain_client_env (w, {0}) \<and> connection (client w) = Some 0 \<and>
     TcpClient_removeConnection client_cenv 0 w = Inr w' \<and> connection (client w') = None"
proof -
  obtain w where w: "client_reachable libev_ref plain_client_env (w, {0})" "connection (client w) = Some 0"
    "close_enabled libev_ref plain_client_env client_cenv w" using connected_client by blast
  have "\<not> c_sockfd client_cenv < 0" by simp
  then show ?thesis using client_one_connection[OF libev_ref_ok plain_client_user w(1)] w by blast
qed

section \<open>Connecting again\<close>











end
