(* ===== verification/Log_Stream.thy ===== *)
theory Log_Stream
  imports Socket_Ops "HOL-Library.Signed_Division" "HOL-Library.Sublist"
begin

text \<open>
  \<open>FixedBuffer\<close>, \<open>LogStream\<close> and \<open>Fmt\<close> (base/LogStream.h, base/LogStream.cc) and \<open>Logger\<close>
  (base/Logging.h, base/Logging.cc) with the thread-local caches it uses (base/CurrentThread.h,
  base/Thread.cc): formatting into a buffer of fixed size, which either takes an item as a whole or
  drops it, and the line that a log statement writes.
\<close>

section \<open>Fixed buffers\<close>

definition kSmallBuffer :: nat where "kSmallBuffer = 4000"
definition kLargeBuffer :: nat where "kLargeBuffer = 4000 * 1000"

text \<open>\<open>fb_data\<close> is the array \<open>data_\<close> of \<open>SIZE\<close> characters, \<open>fb_cur\<close> the offset of \<open>cur_\<close> in it.\<close>

record FixedBuffer =
  fb_data :: string
  fb_cur :: nat

definition FixedBuffer_ctor :: "string \<Rightarrow> FixedBuffer" where
  "FixedBuffer_ctor garbage = \<lparr>fb_data = garbage, fb_cur = 0\<rparr>"

definition FixedBuffer_avail :: "FixedBuffer \<Rightarrow> int" where
  "FixedBuffer_avail b = int (length (fb_data b)) - int (fb_cur b)"

text \<open>\<open>length\<close>, and \<open>asString\<close>.\<close>

definition FixedBuffer_length :: "FixedBuffer \<Rightarrow> int" where
  "FixedBuffer_length b = int (fb_cur b)"

definition FixedBuffer_asString :: "FixedBuffer \<Rightarrow> string" where
  "FixedBuffer_asString b = take (fb_cur b) (fb_data b)"

text \<open>\<open>memcpy\<close> of a negative length, or of more than the source holds, is out of bounds.\<close>

definition FixedBuffer_append :: "string \<Rightarrow> int \<Rightarrow> FixedBuffer \<Rightarrow> FixedBuffer res" where
  "FixedBuffer_append buf len b =
     (if FixedBuffer_avail b > len
      then ensure (0 \<le> len \<and> len \<le> int (length buf)) OutOfBounds
             (bindR (copy_into (fb_data b) (fb_cur b) (take (nat len) buf)) (\<lambda>d.
              Inr (b\<lparr>fb_data := d, fb_cur := fb_cur b + nat len\<rparr>)))
      else Inr b)"

definition FixedBuffer_add :: "nat \<Rightarrow> FixedBuffer \<Rightarrow> FixedBuffer" where
  "FixedBuffer_add len b = b\<lparr>fb_cur := fb_cur b + len\<rparr>"

definition FixedBuffer_reset :: "FixedBuffer \<Rightarrow> FixedBuffer" where
  "FixedBuffer_reset b = b\<lparr>fb_cur := 0\<rparr>"

definition FixedBuffer_bzero :: "FixedBuffer \<Rightarrow> FixedBuffer" where
  "FixedBuffer_bzero b = b\<lparr>fb_data := replicate (length (fb_data b)) (CHR 0x00)\<rparr>"

definition FixedBuffer_debugString :: "FixedBuffer \<Rightarrow> (string \<times> FixedBuffer) res" where
  "FixedBuffer_debugString b =
     bindR (copy_into (fb_data b) (fb_cur b) [CHR 0x00]) (\<lambda>d. Inr (d, b\<lparr>fb_data := d\<rparr>))"

section \<open>Numbers\<close>

text \<open>\<open>digits\<close>, and \<open>zero\<close> as an offset into it, which takes indices from -9 to 9.\<close>

definition digits :: string where "digits = ''9876543210123456789''"

definition zero_at :: "int \<Rightarrow> char" where
  "zero_at lsd = digits ! nat (9 + lsd)"

definition digitsHex :: string where "digitsHex = ''0123456789abcdef''"

lemma sdiv_ten_less: "(i :: int) sdiv 10 \<noteq> 0 \<Longrightarrow> \<bar>i sdiv 10\<bar> < \<bar>i\<bar>"
proof -
  assume a: "i sdiv 10 \<noteq> 0"
  have "\<bar>i sdiv 10\<bar> = \<bar>i\<bar> div 10"
    by (cases "i = 0") (simp_all add: signed_divide_int_def abs_mult)
  moreover have "i \<noteq> 0" using a by (auto simp: signed_divide_int_def)
  ultimately show ?thesis by (simp add: int_div_less_self)
qed

text \<open>The \<open>do\<close> loop of \<open>convert\<close>; \<open>/\<close> and \<open>%\<close> truncate towards zero.\<close>

function convert_loop :: "int \<Rightarrow> string \<Rightarrow> string" where
  "convert_loop i p =
     (let lsd = i smod 10; i' = i sdiv 10; p' = p @ [zero_at lsd]
      in if i' \<noteq> 0 then convert_loop i' p' else p')"
  by auto

termination
  by (relation "measure (\<lambda>(i, p). nat \<bar>i\<bar>)") (use sdiv_ten_less in \<open>auto simp: nat_less_eq_zless\<close>)

definition convert :: "int \<Rightarrow> string" where
  "convert value =
     (let p = convert_loop value []; p' = (if value < 0 then p @ ''-'' else p) in rev p')"

text \<open>\<open>convertHex\<close>, on \<open>uintptr_t\<close>.\<close>

fun convertHex_loop :: "nat \<Rightarrow> string \<Rightarrow> string" where
  "convertHex_loop i p =
     (let p' = p @ [digitsHex ! (i mod 16)] in if i div 16 \<noteq> 0 then convertHex_loop (i div 16) p' else p')"

declare convert_loop.simps [simp del] convertHex_loop.simps [simp del]

definition convertHex :: "64 word \<Rightarrow> string" where
  "convertHex value = rev (convertHex_loop (unat value) [])"

section \<open>LogStream\<close>

definition kMaxNumericSize :: int where "kMaxNumericSize = 32"

text \<open>Writing \<open>s\<close> and a terminating zero at \<open>current()\<close>.\<close>

definition write_current :: "string \<Rightarrow> FixedBuffer \<Rightarrow> FixedBuffer res" where
  "write_current s b =
     bindR (copy_into (fb_data b) (fb_cur b) (s @ [CHR 0x00])) (\<lambda>d. Inr (b\<lparr>fb_data := d\<rparr>))"

text \<open>\<open>formatInteger\<close>, for every integer type: the value is that of the argument.\<close>

definition LogStream_formatInteger :: "int \<Rightarrow> FixedBuffer \<Rightarrow> FixedBuffer res" where
  "LogStream_formatInteger v b =
     (if FixedBuffer_avail b \<ge> kMaxNumericSize
      then let s = convert v
           in bindR (write_current s b) (\<lambda>b1. Inr (FixedBuffer_add (length s) b1))
      else Inr b)"

definition LogStream_put_pointer :: "64 word \<Rightarrow> FixedBuffer \<Rightarrow> FixedBuffer res" where
  "LogStream_put_pointer v b =
     (if FixedBuffer_avail b \<ge> kMaxNumericSize
      then let s = convertHex v
           in bindR (write_current (''0x'' @ s) b) (\<lambda>b1. Inr (FixedBuffer_add (length s + 2) b1))
      else Inr b)"

text \<open>\<open>snprintf(current(), 32, "%.12g", v)\<close>: \<open>s\<close> is the text of \<open>v\<close> in that format.\<close>

definition LogStream_put_double :: "string \<Rightarrow> FixedBuffer \<Rightarrow> FixedBuffer res" where
  "LogStream_put_double s b =
     (if FixedBuffer_avail b \<ge> kMaxNumericSize
      then bindR (write_current (take 31 s) b) (\<lambda>b1. Inr (FixedBuffer_add (length s) b1))
      else Inr b)"

definition LogStream_put_bool :: "bool \<Rightarrow> FixedBuffer \<Rightarrow> FixedBuffer res" where
  "LogStream_put_bool v b = FixedBuffer_append (if v then ''1'' else ''0'') 1 b"

definition LogStream_put_char :: "char \<Rightarrow> FixedBuffer \<Rightarrow> FixedBuffer res" where
  "LogStream_put_char v b = FixedBuffer_append [v] 1 b"

text \<open>A length is a \<open>size_t\<close> that \<open>append\<close> takes as an \<open>int\<close>.\<close>

definition int_of_size :: "nat \<Rightarrow> int" where
  "int_of_size n = sint (word_of_nat n :: int32_t)"

definition LogStream_put_string :: "string \<Rightarrow> FixedBuffer \<Rightarrow> FixedBuffer res" where
  "LogStream_put_string v b = FixedBuffer_append v (int_of_size (length v)) b"

text \<open>The constructor of \<open>T\<close> checks the length it is given, that of \<open>Fmt\<close> the length of its text.\<close>

definition T_ctor :: "string \<Rightarrow> int \<Rightarrow> (string \<times> nat) res" where
  "T_ctor str len = ensure (int (length str) = len) AssertFailed (Inr (str, nat len))"

definition Fmt_ctor :: "string \<Rightarrow> string res" where
  "Fmt_ctor s = ensure (length s < 32) AssertFailed (Inr s)"

definition LogStream_put_T :: "string \<Rightarrow> int \<Rightarrow> FixedBuffer \<Rightarrow> FixedBuffer res" where
  "LogStream_put_T str len b =
     bindR (T_ctor str len) (\<lambda>(s, n). FixedBuffer_append s (int_of_size n) b)"

definition LogStream_put_Fmt :: "string \<Rightarrow> FixedBuffer \<Rightarrow> FixedBuffer res" where
  "LogStream_put_Fmt s b = bindR (Fmt_ctor s) (\<lambda>s. FixedBuffer_append s (int (length s)) b)"

text \<open>One item of a log statement, and the operator that takes it.\<close>

datatype log_item =
    Log_int int
  | Log_pointer "64 word"
  | Log_double string
  | Log_bool bool
  | Log_char char
  | Log_string string
  | Log_T string
  | Log_Fmt string

fun LogStream_put :: "log_item \<Rightarrow> FixedBuffer \<Rightarrow> FixedBuffer res" where
  "LogStream_put (Log_int v) b = LogStream_formatInteger v b"
| "LogStream_put (Log_pointer v) b = LogStream_put_pointer v b"
| "LogStream_put (Log_double s) b = LogStream_put_double s b"
| "LogStream_put (Log_bool v) b = LogStream_put_bool v b"
| "LogStream_put (Log_char v) b = LogStream_put_char v b"
| "LogStream_put (Log_string v) b = LogStream_put_string v b"
| "LogStream_put (Log_T s) b = LogStream_put_T s (int (length s)) b"
| "LogStream_put (Log_Fmt s) b = LogStream_put_Fmt s b"

section \<open>What is written for a number\<close>

lemma zero_at_digit: "\<bar>d\<bar> < 10 \<Longrightarrow> zero_at d = char_of (48 + nat \<bar>d\<bar>)"
proof -
  assume "\<bar>d\<bar> < 10"
  then have "d \<in> {-9..9}" by auto
  then have "d \<in> set [-9..9]" by (simp only: set_upto)
  moreover have "\<forall>d \<in> set [-9..9]. zero_at d = char_of (48 + nat \<bar>d\<bar>)" by code_simp
  ultimately show ?thesis by blast
qed

lemma smod_ten: "\<bar>(i :: int) smod 10\<bar> = \<bar>i\<bar> mod 10"
  by (cases "i = 0") (simp_all add: signed_modulo_int_def abs_mult)

lemma sdiv_ten: "\<bar>(i :: int) sdiv 10\<bar> = \<bar>i\<bar> div 10"
  by (cases "i = 0") (simp_all add: signed_divide_int_def abs_mult)

lemma convert_loop_digits: "convert_loop i p = p @ rev (digits_of (nat \<bar>i\<bar>))"
proof (induction i p rule: convert_loop.induct)
  case (1 i p)
  let ?a = "nat \<bar>i\<bar>"
  have digit: "zero_at (i smod 10) = char_of (48 + ?a mod 10)"
    using zero_at_digit[of "i smod 10"] by (simp add: smod_ten nat_mod_distrib)
  have quot: "nat \<bar>i sdiv 10\<bar> = ?a div 10" by (simp add: sdiv_ten nat_div_distrib)
  have "i sdiv 10 = 0 \<longleftrightarrow> \<bar>i\<bar> div 10 = 0" using sdiv_ten[of i] by linarith
  then have small: "i sdiv 10 = 0 \<longleftrightarrow> ?a < 10" by linarith
  show ?case
  proof (cases "i sdiv 10 = 0")
    case True
    then show ?thesis using digit small
      by (subst convert_loop.simps, subst digits_of.simps) (simp add: Let_def)
  next
    case False
    then have "convert_loop i p = convert_loop (i sdiv 10) (p @ [zero_at (i smod 10)])"
      by (subst convert_loop.simps) (simp add: Let_def)
    also have "\<dots> = p @ [zero_at (i smod 10)] @ rev (digits_of (?a div 10))"
      using 1[OF refl refl refl False] by (simp add: quot)
    also have "\<dots> = p @ rev (digits_of ?a)"
      using False small by (subst (2) digits_of.simps) (simp add: digit)
    finally show ?thesis .
  qed
qed

lemma convert_shows: "convert v = show_int v"
  by (simp add: convert_def convert_loop_digits show_int_def Let_def)

lemma convert_length: "\<bar>v\<bar> < 10 ^ 20 \<Longrightarrow> length (convert v) \<le> 21"
  using length_digits_of[of "nat \<bar>v\<bar>" 19] by (auto simp: convert_shows show_int_def nat_less_iff)

text \<open>The value of a string of hexadecimal digits.\<close>

definition hex_value :: "string \<Rightarrow> nat" where
  "hex_value s = foldl (\<lambda>a c. 16 * a + (if of_char c < (58 :: nat) then of_char c - 48 else of_char c - 87)) 0 s"

lemma hex_digit: "d < 16 \<Longrightarrow>
  (if of_char (digitsHex ! d) < (58 :: nat) then of_char (digitsHex ! d) - 48 else of_char (digitsHex ! d) - 87) = d"
proof -
  assume "d < 16"
  then have "d \<in> set [0..<16]" by simp
  moreover have "\<forall>d \<in> set [0..<16].
    (if of_char (digitsHex ! d) < (58 :: nat) then of_char (digitsHex ! d) - 48 else of_char (digitsHex ! d) - 87) = d"
    by code_simp
  ultimately show ?thesis by blast
qed

lemma hex_value_snoc: "d < 16 \<Longrightarrow> hex_value (s @ [digitsHex ! d]) = 16 * hex_value s + d"
  unfolding hex_value_def by (simp only: foldl_append foldl_Cons foldl_Nil hex_digit)

lemma convertHex_loop_value:
  "\<exists>ds. convertHex_loop i p = p @ ds \<and> hex_value (rev ds) = i \<and> ds \<noteq> []"
proof (induction i p rule: convertHex_loop.induct)
  case (1 i p)
  let ?c = "digitsHex ! (i mod 16)"
  show ?case
  proof (cases "i div 16 = 0")
    case True
    then show ?thesis using hex_value_snoc[of "i mod 16" "[]"]
      by (subst convertHex_loop.simps) (simp add: Let_def hex_value_def)
  next
    case False
    then obtain ds where ds: "convertHex_loop (i div 16) (p @ [?c]) = (p @ [?c]) @ ds"
      "hex_value (rev ds) = i div 16" using 1[OF refl False] by blast
    have "hex_value (rev (?c # ds)) = 16 * (i div 16) + i mod 16"
      using hex_value_snoc[of "i mod 16" "rev ds"] ds(2) by simp
    then have "hex_value (rev (?c # ds)) = i" by simp
    then show ?thesis using False ds(1)
      by (subst convertHex_loop.simps) (simp add: Let_def)
  qed
qed

lemma convertHex_loop_length: "i < 16 ^ Suc k \<Longrightarrow> length (convertHex_loop i p) \<le> length p + Suc k"
proof (induction k arbitrary: i p)
  case 0
  then show ?case by (subst convertHex_loop.simps) (simp add: Let_def)
next
  case (Suc k)
  have "i div 16 < 16 ^ Suc k" using Suc.prems by (simp add: div_less_iff_less_mult)
  from Suc.IH[OF this, of "p @ [digitsHex ! (i mod 16)]"] show ?case
    by (subst convertHex_loop.simps) (simp add: Let_def)
qed

lemma convertHex_length: "length (convertHex v) \<le> 16"
  using convertHex_loop_length[of "unat v" 15 "[]"] unsigned_less[where ?'a = nat, of v] by (simp add: convertHex_def)

lemma convertHex_value: "hex_value (convertHex v) = unat v"
  using convertHex_loop_value[of "unat v" "[]"] by (auto simp: convertHex_def)

section \<open>A sink of texts\<close>

text \<open>
  What a log statement relies on: an item that is put is either appended as a whole or dropped, and it is
  appended when there is room for it and a number more.
\<close>

locale text_sink =
  fixes ok :: "'i \<Rightarrow> bool" and shown :: "'i \<Rightarrow> string" and wf :: "'s \<Rightarrow> bool"
    and content :: "'s \<Rightarrow> string" and room :: "'s \<Rightarrow> nat" and put :: "'i \<Rightarrow> 's \<Rightarrow> 's res"
  assumes put_cases: "wf s \<Longrightarrow> ok i \<Longrightarrow> \<exists>s'. put i s = Inr s' \<and> wf s' \<and>
      (content s' = content s @ shown i \<and> room s = room s' + length (shown i) \<or>
       content s' = content s \<and> room s' = room s \<and> room s < length (shown i) + 32)"
begin

lemma puts_subseq:
  "wf s \<Longrightarrow> \<forall>i \<in> set is. ok i \<Longrightarrow>
   \<exists>s' js. foldR put is s = Inr s' \<and> wf s' \<and> subseq js is \<and> content s' = content s @ concat (map shown js)"
proof (induction "is" arbitrary: s)
  case Nil
  then show ?case by (intro exI[of _ s] exI[of _ "[]"]) simp
next
  case (Cons i "is")
  obtain s1 where s1: "put i s = Inr s1" "wf s1" "content s1 = content s @ shown i \<or> content s1 = content s"
    using put_cases[of s i] Cons.prems by auto
  obtain s2 js where s2: "foldR put is s1 = Inr s2" "wf s2" "subseq js is"
    "content s2 = content s1 @ concat (map shown js)"
    using Cons.IH[OF s1(2)] Cons.prems by auto
  show ?case
  proof (cases "content s1 = content s")
    case True
    then show ?thesis using s1(1) s2 by (intro exI[of _ s2] exI[of _ js]) auto
  next
    case False
    then show ?thesis using s1 s2 by (intro exI[of _ s2] exI[of _ "i # js"]) auto
  qed
qed

lemma puts_all:
  "wf s \<Longrightarrow> \<forall>i \<in> set is. ok i \<Longrightarrow> length (concat (map shown is)) + 32 \<le> room s \<Longrightarrow>
   \<exists>s'. foldR put is s = Inr s' \<and> wf s' \<and> content s' = content s @ concat (map shown is) \<and>
     room s = room s' + length (concat (map shown is))"
proof (induction "is" arbitrary: s)
  case Nil
  then show ?case by simp
next
  case (Cons i "is")
  have "length (shown i) + 32 \<le> room s" using Cons.prems(3) by simp
  then obtain s1 where s1: "put i s = Inr s1" "wf s1" "content s1 = content s @ shown i"
    "room s = room s1 + length (shown i)"
    using put_cases[of s i] Cons.prems(1,2) by (auto simp: not_less)
  have "length (concat (map shown is)) + 32 \<le> room s1" using Cons.prems(3) s1(4) by simp
  then obtain s2 where "foldR put is s1 = Inr s2" "wf s2" "content s2 = content s1 @ concat (map shown is)"
    "room s1 = room s2 + length (concat (map shown is))"
    using Cons.IH[OF s1(2)] Cons.prems(2) by auto
  then show ?case using s1 by simp
qed

end

text \<open>The text an item stands for, and the items the types of the code can form.\<close>

fun log_shown :: "log_item \<Rightarrow> string" where
  "log_shown (Log_int v) = show_int v"
| "log_shown (Log_pointer v) = ''0x'' @ convertHex v"
| "log_shown (Log_double s) = s"
| "log_shown (Log_bool v) = (if v then ''1'' else ''0'')"
| "log_shown (Log_char v) = [v]"
| "log_shown (Log_string v) = v"
| "log_shown (Log_T s) = s"
| "log_shown (Log_Fmt s) = s"

fun log_ok :: "log_item \<Rightarrow> bool" where
  "log_ok (Log_int v) \<longleftrightarrow> -9223372036854775808 \<le> v \<and> v < 18446744073709551616"
| "log_ok (Log_double s) \<longleftrightarrow> length s < 32"
| "log_ok (Log_string v) \<longleftrightarrow> length v < 2147483648"
| "log_ok (Log_T v) \<longleftrightarrow> length v < 2147483648"
| "log_ok (Log_Fmt s) \<longleftrightarrow> length s < 32"
| "log_ok _ \<longleftrightarrow> True"

definition FixedBuffer_wf :: "FixedBuffer \<Rightarrow> bool" where
  "FixedBuffer_wf b \<longleftrightarrow> fb_cur b < length (fb_data b)"

definition FixedBuffer_room :: "FixedBuffer \<Rightarrow> nat" where
  "FixedBuffer_room b = length (fb_data b) - fb_cur b"

lemma append_cases:
  assumes wf: "FixedBuffer_wf b"
  shows "\<exists>b'. FixedBuffer_append s (int (length s)) b = Inr b' \<and> FixedBuffer_wf b' \<and>
    (FixedBuffer_asString b' = FixedBuffer_asString b @ s \<and> FixedBuffer_room b = FixedBuffer_room b' + length s \<or>
     b' = b \<and> FixedBuffer_room b \<le> length s)"
proof (cases "length (fb_data b) - fb_cur b > length s")
  case True
  have "FixedBuffer_avail b > int (length s)" using True by (simp add: FixedBuffer_avail_def)
  moreover have "fb_cur b + length s \<le> length (fb_data b)" using True by simp
  ultimately show ?thesis using True wf
    by (simp add: FixedBuffer_append_def copy_into_def FixedBuffer_wf_def FixedBuffer_asString_def FixedBuffer_room_def)
next
  case False
  then have "\<not> FixedBuffer_avail b > int (length s)" using wf by (simp add: FixedBuffer_avail_def FixedBuffer_wf_def)
  then show ?thesis using False wf by (simp add: FixedBuffer_append_def FixedBuffer_room_def)
qed

lemma numeric_cases:
  assumes wf: "FixedBuffer_wf b" and s: "length s < 32"
  shows "\<exists>b'. (if FixedBuffer_avail b \<ge> kMaxNumericSize
      then bindR (write_current s b) (\<lambda>b1. Inr (FixedBuffer_add (length s) b1)) else Inr b) = Inr b' \<and>
    FixedBuffer_wf b' \<and>
    (FixedBuffer_asString b' = FixedBuffer_asString b @ s \<and> FixedBuffer_room b = FixedBuffer_room b' + length s \<or>
     b' = b \<and> FixedBuffer_room b < 32)"
proof (cases "FixedBuffer_avail b \<ge> kMaxNumericSize")
  case True
  then have "fb_cur b + 32 \<le> length (fb_data b)" by (simp add: FixedBuffer_avail_def kMaxNumericSize_def)
  then show ?thesis using True s
    by (simp add: write_current_def copy_into_def FixedBuffer_add_def FixedBuffer_wf_def FixedBuffer_asString_def
        FixedBuffer_room_def)
next
  case False
  then have "FixedBuffer_room b < 32"
    using wf by (simp add: FixedBuffer_avail_def kMaxNumericSize_def FixedBuffer_room_def FixedBuffer_wf_def)
  then show ?thesis using False wf by simp
qed

lemma int_of_size_small: "n < 2147483648 \<Longrightarrow> int_of_size n = int n"
  using sint_int32_of_int[of "int n"] by (simp add: int_of_size_def)

lemma LogStream_put_cases:
  assumes wf: "FixedBuffer_wf b" and ok: "log_ok i"
  shows "\<exists>b'. LogStream_put i b = Inr b' \<and> FixedBuffer_wf b' \<and>
    (FixedBuffer_asString b' = FixedBuffer_asString b @ log_shown i \<and>
       FixedBuffer_room b = FixedBuffer_room b' + length (log_shown i) \<or>
     b' = b \<and> FixedBuffer_room b < length (log_shown i) + 32)"
proof (cases i)
  case (Log_int v)
  have "\<bar>v\<bar> < 10 ^ 20" using ok Log_int by (simp add: abs_less_iff)
  then have "length (convert v) < 32" using convert_length[of v] by linarith
  then show ?thesis using numeric_cases[OF wf, of "convert v"] Log_int
    by (fastforce simp: LogStream_formatInteger_def convert_shows[symmetric] Let_def)
next
  case (Log_pointer v)
  have "length (''0x'' @ convertHex v) < 32" using convertHex_length[of v] by simp
  then show ?thesis using numeric_cases[OF wf, of "''0x'' @ convertHex v"] Log_pointer
    by (fastforce simp: LogStream_put_pointer_def Let_def)
next
  case (Log_double s)
  then show ?thesis using numeric_cases[OF wf, of s] ok by (fastforce simp: LogStream_put_double_def)
next
  case (Log_bool v)
  then show ?thesis using append_cases[OF wf, of "if v then ''1'' else ''0''"]
    by (fastforce simp: LogStream_put_bool_def split: if_splits)
next
  case (Log_char c)
  then show ?thesis using append_cases[OF wf, of "[c]"] by (fastforce simp: LogStream_put_char_def)
next
  case (Log_string s)
  then show ?thesis using append_cases[OF wf, of s] ok
    by (fastforce simp: LogStream_put_string_def int_of_size_small)
next
  case (Log_T s)
  then show ?thesis using append_cases[OF wf, of s] ok
    by (fastforce simp: LogStream_put_T_def T_ctor_def int_of_size_small)
next
  case (Log_Fmt s)
  then show ?thesis using append_cases[OF wf, of s] ok
    by (fastforce simp: LogStream_put_Fmt_def Fmt_ctor_def)
qed

interpretation stream: text_sink log_ok log_shown FixedBuffer_wf FixedBuffer_asString FixedBuffer_room LogStream_put
  by unfold_locales (use LogStream_put_cases in blast)

text \<open>A stream with a small buffer, as \<open>LogStream\<close> has.\<close>

definition LogStream_ctor :: "string \<Rightarrow> FixedBuffer" where
  "LogStream_ctor garbage = FixedBuffer_ctor (take kSmallBuffer (garbage @ replicate kSmallBuffer (CHR 0x00)))"

lemma LogStream_ctor_views [simp]:
  "FixedBuffer_wf (LogStream_ctor g)" "FixedBuffer_asString (LogStream_ctor g) = []"
  "FixedBuffer_room (LogStream_ctor g) = 4000"
  by (simp_all add: LogStream_ctor_def FixedBuffer_ctor_def FixedBuffer_wf_def FixedBuffer_asString_def
      FixedBuffer_room_def kSmallBuffer_def)

section \<open>Logger\<close>

datatype LogLevel = TRACE | DEBUG | INFO | WARN | ERROR | FATAL

primrec level_index :: "LogLevel \<Rightarrow> nat" where
  "level_index TRACE = 0" | "level_index DEBUG = 1" | "level_index INFO = 2"
| "level_index WARN = 3" | "level_index ERROR = 4" | "level_index FATAL = 5"

lemma level_index_inj: "level_index a = level_index b \<Longrightarrow> a = b"
  by (cases a; cases b) simp_all

text \<open>The levels are compared by their number.\<close>

instantiation LogLevel :: linorder
begin

definition less_eq_LogLevel :: "LogLevel \<Rightarrow> LogLevel \<Rightarrow> bool" where
  "less_eq_LogLevel a b \<longleftrightarrow> level_index a \<le> level_index b"

definition less_LogLevel :: "LogLevel \<Rightarrow> LogLevel \<Rightarrow> bool" where
  "less_LogLevel a b \<longleftrightarrow> level_index a < level_index b"

instance
  by standard (auto simp: less_eq_LogLevel_def less_LogLevel_def dest: level_index_inj)

end

definition LogLevelName :: "LogLevel \<Rightarrow> string" where
  "LogLevelName l =
     [''TRACE '', ''DEBUG '', ''INFO  '', ''WARN  '', ''ERROR '', ''FATAL ''] ! level_index l"

definition initLogLevel :: "bool \<Rightarrow> LogLevel" where
  "initLogLevel envSet = (if envSet then TRACE else DEBUG)"

text \<open>Whether the macro for a level makes a \<open>Logger\<close> at all: \<open>LOG_WARN\<close> and above always do.\<close>

definition log_enabled :: "LogLevel \<Rightarrow> LogLevel \<Rightarrow> bool" where
  "log_enabled g level \<longleftrightarrow> (if level \<in> {TRACE, DEBUG, INFO} then g \<le> level else True)"

text \<open>\<open>%<n>d\<close> and \<open>%0<n>d\<close>.\<close>

definition fmt_d :: "nat \<Rightarrow> int \<Rightarrow> string" where
  "fmt_d n i = (let s = show_int i in replicate (n - length s) (CHR '' '') @ s)"

definition fmt_0d :: "nat \<Rightarrow> int \<Rightarrow> string" where
  "fmt_0d n i =
     (if i < 0 then CHR ''-'' # (let s = digits_of (nat (- i)) in replicate (n - 1 - length s) (CHR ''0'') @ s)
      else (let s = digits_of (nat i) in replicate (n - length s) (CHR ''0'') @ s))"

text \<open>\<open>struct tm\<close>, which \<open>gmtime_r(3)\<close> fills: that function is an argument.\<close>

record tm =
  tm_year :: int
  tm_mon :: int
  tm_mday :: int
  tm_hour :: int
  tm_min :: int
  tm_sec :: int

definition tm_text :: "tm \<Rightarrow> string" where
  "tm_text m = fmt_d 4 (tm_year m + 1900) @ fmt_0d 2 (tm_mon m + 1) @ fmt_0d 2 (tm_mday m) @ '' '' @
     fmt_0d 2 (tm_hour m) @ '':'' @ fmt_0d 2 (tm_min m) @ '':'' @ fmt_0d 2 (tm_sec m)"

text \<open>A \<open>double\<close> is a real number here; the cast to an integer type truncates.\<close>

definition trunc :: "real \<Rightarrow> int" where
  "trunc x = (if x < 0 then \<lceil>x\<rceil> else \<lfloor>x\<rfloor>)"

definition Timestamp_now :: "int \<Rightarrow> int \<Rightarrow> real" where
  "Timestamp_now tv_sec tv_usec = real_of_int tv_sec + real_of_int tv_usec / 1000000"

text \<open>
  \<open>toFormattedString\<close> goes through an \<open>int\<close>: for seconds that it does not hold, from 2038 on, the cast has no
  defined value.
\<close>

definition double_to_int :: "real \<Rightarrow> int32_t res" where
  "double_to_int x = ensure (- (2 ^ 31) \<le> trunc x \<and> trunc x < 2 ^ 31) Indeterminate (Inr (word_of_int (trunc x)))"

definition Timestamp_toFormattedString :: "(int \<Rightarrow> tm) \<Rightarrow> real \<Rightarrow> string res" where
  "Timestamp_toFormattedString gmtime t =
     bindR (double_to_int t) (\<lambda>i.
     let seconds = sint i in
     bindR (double_to_int ((t - real_of_int seconds) * 1000000)) (\<lambda>microseconds.
     Inr (take 31 (tm_text (gmtime seconds) @ ''.'' @ fmt_0d 6 (sint microseconds)))))"

lemma Timestamp_toFormattedString_exact:
  "Timestamp_toFormattedString gmtime t =
     (if - (2 ^ 31) \<le> trunc t \<and> trunc t < 2 ^ 31
      then Inr (take 31 (tm_text (gmtime (trunc t)) @ ''.'' @ fmt_0d 6 (trunc ((t - real_of_int (trunc t)) * 1000000))))
      else Inl Indeterminate)"
proof -
  have int32: "sint (word_of_int (trunc x) :: int32_t) = trunc x" if "- (2 ^ 31) \<le> trunc x" "trunc x < 2 ^ 31" for x
    using that by (intro sint_int32_of_int) simp_all
  let ?f = "(t - real_of_int (trunc t)) * 1000000"
  have "- 1 \<le> t - real_of_int (trunc t)" "t - real_of_int (trunc t) \<le> 1" unfolding trunc_def by (auto; linarith)+
  then have "- 1000000 \<le> ?f" "?f \<le> 1000000" by simp_all
  then have "- 1000000 \<le> trunc ?f" "trunc ?f \<le> 1000000"
    unfolding trunc_def by (auto simp: le_ceiling_iff le_floor_iff ceiling_le_iff floor_le_iff)
  then show ?thesis using int32[of t] int32[of ?f]
    by (cases "- (2 ^ 31) \<le> trunc t \<and> trunc t < 2 ^ 31")
      (auto simp: Timestamp_toFormattedString_def double_to_int_def Let_def ensure_def simp del: of_int_sint)
qed

text \<open>The thread-local variables of Logging.cc and Thread.cc.\<close>

record log_tls =
  t_time :: string
  t_lastSecond :: int
  t_cachedTid :: int
  t_tidString :: string

text \<open>\<open>cacheTid\<close> and \<open>tid\<close>, given the number \<open>gettid\<close> returns; a length of 6 means at most five digits.\<close>

definition CurrentThread_cacheTid :: "int \<Rightarrow> log_tls \<Rightarrow> log_tls res" where
  "CurrentThread_cacheTid gettid s =
     (if t_cachedTid s = 0
      then let txt = fmt_d 5 gettid @ '' ''
           in ensure (length txt = 6) AssertFailed
                (Inr (s\<lparr>t_cachedTid := gettid, t_tidString := take 31 txt\<rparr>))
      else Inr s)"

definition CurrentThread_tid :: "int \<Rightarrow> log_tls \<Rightarrow> (int \<times> log_tls) res" where
  "CurrentThread_tid gettid s =
     bindR (if t_cachedTid s = 0 then CurrentThread_cacheTid gettid s else Inr s) (\<lambda>s1. Inr (t_cachedTid s1, s1))"

record LogImpl =
  li_time :: real
  li_stream :: FixedBuffer
  li_level :: LogLevel
  li_line :: int
  li_basename :: string

definition basename_of :: "string \<Rightarrow> string" where
  "basename_of file = rev (takeWhile (\<lambda>c. c \<noteq> CHR ''/'') (rev file))"

definition Logger_formatTime :: "(int \<Rightarrow> tm) \<Rightarrow> LogImpl \<times> log_tls \<Rightarrow> (LogImpl \<times> log_tls) res" where
  "Logger_formatTime gmtime s =
     (let (li, tls) = s;
          seconds = trunc (li_time li);
          microseconds = trunc ((li_time li - real_of_int seconds) * 1000000)
      in bindR
          (if seconds \<noteq> t_lastSecond tls
           then let txt = tm_text (gmtime seconds)
                in ensure (length txt = 17) AssertFailed
                     (Inr (tls\<lparr>t_lastSecond := seconds, t_time := take 31 txt\<rparr>))
           else Inr tls) (\<lambda>tls1.
         bindR (Fmt_ctor (''.'' @ fmt_0d 6 microseconds @ ''Z '')) (\<lambda>us.
         ensure (length us = 9) AssertFailed
           (bindR (LogStream_put_T (t_time tls1) 17 (li_stream li)) (\<lambda>b1.
            bindR (LogStream_put_T us 9 b1) (\<lambda>b2.
            Inr (li\<lparr>li_stream := b2\<rparr>, tls1)))))))"

text \<open>\<open>strerror\<close> is the text of \<open>strerror_tl(savedErrno)\<close>, \<open>garbage\<close> what the stack held before.\<close>

definition Logger_Impl ::
  "(int \<Rightarrow> tm) \<Rightarrow> real \<Rightarrow> int \<Rightarrow> string \<Rightarrow> string \<Rightarrow> LogLevel \<Rightarrow> int \<Rightarrow> string \<Rightarrow> int \<Rightarrow> log_tls \<Rightarrow>
   (LogImpl \<times> log_tls) res" where
  "Logger_Impl gmtime now gettid strerror garbage level savedErrno file line tls =
     bindR (Logger_formatTime gmtime
       (\<lparr>li_time = now, li_stream = LogStream_ctor garbage, li_level = level, li_line = line,
         li_basename = basename_of file\<rparr>, tls)) (\<lambda>(li, tls1).
     bindR (CurrentThread_tid gettid tls1) (\<lambda>(tid, tls2).
     bindR (Fmt_ctor (fmt_d 5 tid @ '' '')) (\<lambda>txt.
     ensure (length txt = 6) AssertFailed
       (bindR (LogStream_put_T txt 6 (li_stream li)) (\<lambda>b1.
        bindR (LogStream_put_T (LogLevelName level) 6 b1) (\<lambda>b2.
        bindR (if savedErrno \<noteq> 0
               then foldR LogStream_put
                      [Log_string strerror, Log_string '' (errno='', Log_int savedErrno, Log_string '') ''] b2
               else Inr b2) (\<lambda>b3.
        Inr (li\<lparr>li_stream := b3\<rparr>, tls2))))))))"

text \<open>The constructors: plain, with a level, with a level and a function name, and for system errors.\<close>

datatype logger_kind =
    Logger_info
  | Logger_level LogLevel
  | Logger_func LogLevel string
  | Logger_sys bool

fun kind_level :: "logger_kind \<Rightarrow> LogLevel" where
  "kind_level Logger_info = INFO"
| "kind_level (Logger_level l) = l"
| "kind_level (Logger_func l f) = l"
| "kind_level (Logger_sys toAbort) = (if toAbort then FATAL else ERROR)"

fun kind_errno :: "int \<Rightarrow> logger_kind \<Rightarrow> int" where
  "kind_errno e (Logger_sys toAbort) = e"
| "kind_errno e _ = 0"

fun kind_items :: "logger_kind \<Rightarrow> log_item list" where
  "kind_items (Logger_func l f) = [Log_string f, Log_char (CHR '' '')]"
| "kind_items _ = []"

definition Logger_ctor ::
  "(int \<Rightarrow> tm) \<Rightarrow> real \<Rightarrow> int \<Rightarrow> int \<Rightarrow> string \<Rightarrow> string \<Rightarrow> logger_kind \<Rightarrow> string \<Rightarrow> int \<Rightarrow> log_tls \<Rightarrow>
   (LogImpl \<times> log_tls) res" where
  "Logger_ctor gmtime now gettid errno strerror garbage kind file line tls =
     bindR (Logger_Impl gmtime now gettid strerror garbage (kind_level kind) (kind_errno errno kind) file line tls)
       (\<lambda>(li, tls1).
        bindR (foldR LogStream_put (kind_items kind) (li_stream li)) (\<lambda>b. Inr (li\<lparr>li_stream := b\<rparr>, tls1)))"

definition Logger_finish :: "LogImpl \<Rightarrow> LogImpl res" where
  "Logger_finish li =
     bindR (foldR LogStream_put
       [Log_string '' - '', Log_string (li_basename li), Log_char (CHR '':''), Log_int (li_line li),
        Log_char (CHR 0x0A)] (li_stream li)) (\<lambda>b. Inr (li\<lparr>li_stream := b\<rparr>))"

text \<open>The destructor: \<open>out\<close> are the lines that \<open>g_output\<close> has been given.\<close>

definition Logger_dtor :: "LogImpl \<Rightarrow> string list \<Rightarrow> failure option \<times> string list" where
  "Logger_dtor li out =
     (case Logger_finish li of
        Inl e \<Rightarrow> (Some e, out)
      | Inr li1 \<Rightarrow>
          let out1 = out @ [FixedBuffer_asString (li_stream li1)]
          in if li_level li1 = FATAL then (Some Fatal, out1) else (None, out1))"

text \<open>
  A whole log statement with its items: how it ends, the thread's caches after it, and the output. When it
  fails before its output the caches are of no interest.
\<close>

definition log_statement ::
  "(int \<Rightarrow> tm) \<Rightarrow> real \<Rightarrow> int \<Rightarrow> int \<Rightarrow> string \<Rightarrow> string \<Rightarrow> logger_kind \<Rightarrow> string \<Rightarrow> int \<Rightarrow> log_item list \<Rightarrow>
   log_tls \<Rightarrow> string list \<Rightarrow> failure option \<times> log_tls \<times> string list" where
  "log_statement gmtime now gettid errno strerror garbage kind file line items tls out =
     (case bindR (Logger_ctor gmtime now gettid errno strerror garbage kind file line tls) (\<lambda>(li, tls1).
             bindR (foldR LogStream_put items (li_stream li)) (\<lambda>b. Inr (li\<lparr>li_stream := b\<rparr>, tls1))) of
        Inl e \<Rightarrow> (Some e, tls, out)
      | Inr (li, tls1) \<Rightarrow>
          (case Logger_dtor li out of (r, out1) \<Rightarrow> (r, tls1, out1)))"

section \<open>A log statement as one list of items\<close>

text \<open>Everything one statement puts, in order.\<close>

definition line_items ::
  "string \<Rightarrow> int \<Rightarrow> int \<Rightarrow> int \<Rightarrow> string \<Rightarrow> logger_kind \<Rightarrow> string \<Rightarrow> int \<Rightarrow> log_item list \<Rightarrow> log_item list" where
  "line_items time us tid errno strerror kind file line items =
     [Log_T time, Log_T (''.'' @ fmt_0d 6 us @ ''Z ''), Log_T (fmt_d 5 tid @ '' ''),
      Log_T (LogLevelName (kind_level kind))] @
     (if kind_errno errno kind \<noteq> 0
      then [Log_string strerror, Log_string '' (errno='', Log_int (kind_errno errno kind), Log_string '') ''] else []) @
     kind_items kind @ items @
     [Log_string '' - '', Log_string (basename_of file), Log_char (CHR '':''), Log_int line, Log_char (CHR 0x0A)]"

definition micros :: "real \<Rightarrow> int" where
  "micros now = trunc ((now - real_of_int (trunc now)) * 1000000)"

text \<open>The caches of a thread whose number is \<open>tid\<close>.\<close>

definition tls_ok :: "(int \<Rightarrow> tm) \<Rightarrow> int \<Rightarrow> log_tls \<Rightarrow> bool" where
  "tls_ok gmtime tid tls \<longleftrightarrow> (t_cachedTid tls = 0 \<or> t_cachedTid tls = tid) \<and>
     (t_lastSecond tls \<noteq> 0 \<longrightarrow> t_time tls = tm_text (gmtime (t_lastSecond tls)))"

lemma trunc_pos: "0 \<le> x \<Longrightarrow> trunc x = \<lfloor>x\<rfloor>"
  by (simp add: trunc_def)

lemma micros_range: "0 \<le> now \<Longrightarrow> 0 \<le> micros now \<and> micros now < 1000000"
proof -
  assume now: "0 \<le> now"
  have f: "0 \<le> now - real_of_int \<lfloor>now\<rfloor>" "now - real_of_int \<lfloor>now\<rfloor> < 1" by linarith+
  then have "0 \<le> (now - real_of_int \<lfloor>now\<rfloor>) * 1000000" "(now - real_of_int \<lfloor>now\<rfloor>) * 1000000 < 1000000" by simp_all
  then show ?thesis using now by (simp add: micros_def trunc_pos floor_less_iff)
qed

lemma length_fmt_0d: "0 \<le> i \<Longrightarrow> i < 10 ^ Suc k \<Longrightarrow> length (fmt_0d (Suc k) i) = Suc k"
  using length_digits_of[of "nat i" k] by (simp add: fmt_0d_def Let_def nat_less_iff)

lemma length_fmt_d: "0 \<le> i \<Longrightarrow> i < 10 ^ Suc k \<Longrightarrow> length (fmt_d (Suc k) i) = Suc k"
  using length_digits_of[of "nat i" k] by (simp add: fmt_d_def show_int_def Let_def nat_less_iff)

lemma put_T_item: "LogStream_put_T s n b = (if int (length s) = n then LogStream_put (Log_T s) b else Inl AssertFailed)"
  by (simp add: LogStream_put_T_def T_ctor_def)

lemma length_LogLevelName: "length (LogLevelName l) = 6"
  by (cases l) (simp_all add: LogLevelName_def)

lemma formatTime_items:
  assumes now: "1 \<le> now" and tm: "length (tm_text (gmtime (trunc now))) = 17" and tls: "tls_ok gmtime tid tls"
    and li: "li_time li = now"
  shows "\<exists>tls1. tls_ok gmtime tid tls1 \<and> t_cachedTid tls1 = t_cachedTid tls \<and>
    Logger_formatTime gmtime (li, tls) =
      bindR (foldR LogStream_put [Log_T (tm_text (gmtime (trunc now))), Log_T (''.'' @ fmt_0d 6 (micros now) @ ''Z '')]
               (li_stream li)) (\<lambda>b. Inr (li\<lparr>li_stream := b\<rparr>, tls1))"
proof -
  let ?s = "trunc now"
  have us: "length (fmt_0d 6 (micros now)) = 6"
    using micros_range[of now] now length_fmt_0d[of "micros now" 5] by (simp add: numeral_eq_Suc)
  have pos: "?s \<noteq> 0" using now by (simp add: trunc_pos) linarith
  define tls1 where "tls1 = (if ?s \<noteq> t_lastSecond tls
    then tls\<lparr>t_lastSecond := ?s, t_time := take 31 (tm_text (gmtime ?s))\<rparr> else tls)"
  have time: "t_time tls1 = tm_text (gmtime ?s)" using tm tls pos by (auto simp: tls1_def tls_ok_def)
  have ok: "tls_ok gmtime tid tls1" "t_cachedTid tls1 = t_cachedTid tls"
    using tls tm by (simp_all add: tls1_def tls_ok_def)
  have m: "trunc ((li_time li - real_of_int (trunc (li_time li))) * 1000000) = micros now"
    by (simp add: micros_def li)
  have fmt: "Fmt_ctor (''.'' @ fmt_0d 6 (micros now) @ ''Z '') = Inr (''.'' @ fmt_0d 6 (micros now) @ ''Z '')"
    "length (''.'' @ fmt_0d 6 (micros now) @ ''Z '') = 9"
    using us by (simp_all add: Fmt_ctor_def)
  have cache: "(if ?s \<noteq> t_lastSecond tls
      then let txt = tm_text (gmtime ?s) in ensure (length txt = 17) AssertFailed
        (Inr (tls\<lparr>t_lastSecond := ?s, t_time := take 31 txt\<rparr>)) else Inr tls) = Inr tls1"
    using tm by (simp add: tls1_def Let_def)
  have run: "Logger_formatTime gmtime (li, tls) =
      bindR (LogStream_put_T (t_time tls1) 17 (li_stream li)) (\<lambda>b1.
      bindR (LogStream_put_T (''.'' @ fmt_0d 6 (micros now) @ ''Z '') 9 b1) (\<lambda>b2. Inr (li\<lparr>li_stream := b2\<rparr>, tls1)))"
    unfolding Logger_formatTime_def prod.case Let_def m
    by (simp only: li cache[unfolded Let_def] fmt bindR.simps ensure_True simp_thms)
  show ?thesis
    using ok us tm by (intro exI[of _ tls1]) (simp add: run time put_T_item bindR_assoc del: LogStream_put.simps)
qed

text \<open>The thread's number, once it has at most five digits.\<close>

lemma tid_ok:
  assumes "tls_ok gmtime tid tls" and "0 < tid" "tid < 100000"
  shows "\<exists>tls1. CurrentThread_tid tid tls = Inr (tid, tls1) \<and> tls_ok gmtime tid tls1"
    "length (fmt_d 5 tid @ '' '') = 6"
proof -
  show 1: "length (fmt_d 5 tid @ '' '') = 6"
    using length_fmt_d[of tid 4] assms(2,3) by (simp add: numeral_eq_Suc)
  show "\<exists>tls1. CurrentThread_tid tid tls = Inr (tid, tls1) \<and> tls_ok gmtime tid tls1"
    using assms 1 by (auto simp: CurrentThread_tid_def CurrentThread_cacheTid_def Let_def tls_ok_def)
qed

lemma Impl_items:
  assumes "1 \<le> now" and tm: "length (tm_text (gmtime (trunc now))) = 17" and "tls_ok gmtime tid tls"
    and "0 < tid" "tid < 100000"
  shows "\<exists>tls1. tls_ok gmtime tid tls1 \<and>
    Logger_Impl gmtime now tid strerror garbage level e file line tls =
      bindR (foldR LogStream_put
        ([Log_T (tm_text (gmtime (trunc now))), Log_T (''.'' @ fmt_0d 6 (micros now) @ ''Z ''),
          Log_T (fmt_d 5 tid @ '' ''), Log_T (LogLevelName level)] @
         (if e \<noteq> 0 then [Log_string strerror, Log_string '' (errno='', Log_int e, Log_string '') ''] else []))
        (LogStream_ctor garbage))
      (\<lambda>b. Inr (\<lparr>li_time = now, li_stream = b, li_level = level, li_line = line, li_basename = basename_of file\<rparr>, tls1))"
proof -
  let ?li = "\<lparr>li_time = now, li_stream = LogStream_ctor garbage, li_level = level, li_line = line,
      li_basename = basename_of file\<rparr>"
  obtain tls1 where tls1: "tls_ok gmtime tid tls1" "Logger_formatTime gmtime (?li, tls) =
      bindR (foldR LogStream_put [Log_T (tm_text (gmtime (trunc now))), Log_T (''.'' @ fmt_0d 6 (micros now) @ ''Z '')]
               (li_stream ?li)) (\<lambda>b. Inr (?li\<lparr>li_stream := b\<rparr>, tls1))"
    using formatTime_items[OF assms(1) tm assms(3), of ?li] by auto
  obtain tls2 where tls2: "CurrentThread_tid tid tls1 = Inr (tid, tls2)" "tls_ok gmtime tid tls2"
    using tid_ok(1)[OF tls1(1) assms(4,5)] by blast
  have t6: "length (fmt_d 5 tid @ '' '') = 6" by (rule tid_ok(2)[OF tls1(1) assms(4,5)])
  have fmt: "Fmt_ctor (fmt_d 5 tid @ '' '') = Inr (fmt_d 5 tid @ '' '')"
    using t6 by (simp add: Fmt_ctor_def)
  have err: "(if e \<noteq> 0 then foldR LogStream_put xs b else Inr b) = foldR LogStream_put (if e \<noteq> 0 then xs else []) b"
    for xs b by simp
  show ?thesis
    using tls2(2) t6
    by (intro exI[of _ tls2])
       (simp add: Logger_Impl_def tls1(2) tls2(1) fmt err bindR_assoc put_T_item length_LogLevelName
         del: LogStream_put.simps)
qed

text \<open>The whole statement puts its items one after the other.\<close>

lemma statement_items:
  assumes "1 \<le> now" and "length (tm_text (gmtime (trunc now))) = 17" and "tls_ok gmtime tid tls"
    and "0 < tid" "tid < 100000"
    and run: "foldR LogStream_put
      (line_items (tm_text (gmtime (trunc now))) (micros now) tid errno strerror kind file line items)
      (LogStream_ctor garbage) = Inr b"
  shows "\<exists>tls1. tls_ok gmtime tid tls1 \<and>
    log_statement gmtime now tid errno strerror garbage kind file line items tls out =
      (if kind_level kind = FATAL then Some Fatal else None, tls1, out @ [FixedBuffer_asString b])"
proof -
  let ?head = "[Log_T (tm_text (gmtime (trunc now))), Log_T (''.'' @ fmt_0d 6 (micros now) @ ''Z ''),
      Log_T (fmt_d 5 tid @ '' ''), Log_T (LogLevelName (kind_level kind))] @
      (if kind_errno errno kind \<noteq> 0
       then [Log_string strerror, Log_string '' (errno='', Log_int (kind_errno errno kind), Log_string '') ''] else [])"
  let ?tail = "[Log_string '' - '', Log_string (basename_of file), Log_char (CHR '':''), Log_int line, Log_char (CHR 0x0A)]"
  let ?li = "\<lambda>b. \<lparr>li_time = now, li_stream = b, li_level = kind_level kind, li_line = line, li_basename = basename_of file\<rparr>"
  obtain tls1 where tls1: "tls_ok gmtime tid tls1"
    "Logger_Impl gmtime now tid strerror garbage (kind_level kind) (kind_errno errno kind) file line tls =
      bindR (foldR LogStream_put ?head (LogStream_ctor garbage)) (\<lambda>b. Inr (?li b, tls1))"
    using Impl_items[OF assms(1-5), of strerror garbage "kind_level kind" "kind_errno errno kind" "file" "line"]
    by blast
  have split: "line_items (tm_text (gmtime (trunc now))) (micros now) tid errno strerror kind file line items =
      ?head @ kind_items kind @ items @ ?tail" by (simp add: line_items_def)
  from run obtain b1 b2 b3 where steps: "foldR LogStream_put ?head (LogStream_ctor garbage) = Inr b1"
    "foldR LogStream_put (kind_items kind) b1 = Inr b2" "foldR LogStream_put items b2 = Inr b3"
    "foldR LogStream_put ?tail b3 = Inr b"
    unfolding split foldR_append by (auto simp: bindR_Inr_iff simp del: foldR.simps)
  have ctor: "Logger_ctor gmtime now tid errno strerror garbage kind file line tls = Inr (?li b2, tls1)"
    unfolding Logger_ctor_def tls1(2) steps(1) by (simp add: steps(2) del: foldR.simps)
  have fin: "Logger_finish (?li b3) = Inr (?li b)"
    by (simp add: Logger_finish_def steps(4) del: foldR.simps)
  have "log_statement gmtime now tid errno strerror garbage kind file line items tls out =
      (if kind_level kind = FATAL then Some Fatal else None, tls1, out @ [FixedBuffer_asString b])"
    by (simp add: log_statement_def ctor steps(3) Logger_dtor_def fin Let_def del: foldR.simps)
  then show ?thesis using tls1(1) by blast
qed

lemma line_items_ok:
  assumes "length time = 17" and "0 \<le> us" "us < 1000000" and "0 < tid" "tid < 100000"
    and "log_ok (Log_int errno)" "log_ok (Log_int line)" "log_ok (Log_string strerror)" "log_ok (Log_string file)"
    and "\<forall>i \<in> set (kind_items kind). log_ok i" and "\<forall>i \<in> set items. log_ok i"
  shows "\<forall>i \<in> set (line_items time us tid errno strerror kind file line items). log_ok i"
proof -
  have "length (fmt_0d 6 us) = 6" "length (fmt_d 5 tid) = 5"
    using length_fmt_0d[of us 5] length_fmt_d[of tid 4] assms(2-5) by (simp_all add: numeral_eq_Suc)
  moreover have "length (basename_of file) \<le> length file"
    using length_takeWhile_le[of _ "rev file"] by (simp add: basename_of_def)
  moreover have "log_ok (Log_int (kind_errno errno kind))" using assms(6) by (cases kind) simp_all
  ultimately show ?thesis
    using assms by (auto simp: line_items_def length_LogLevelName)
qed

lemma digits_of_long: "10 ^ k \<le> n \<Longrightarrow> Suc k \<le> length (digits_of n)"
proof (induction k arbitrary: n)
  case 0
  then show ?case by (simp add: Suc_le_eq)
next
  case (Suc k)
  have "10 ^ k \<le> n div 10" "\<not> n < 10"
    using Suc.prems div_le_mono[of "10 ^ Suc k" n 10] by auto
  then show ?case using Suc.IH[of "n div 10"] by (subst digits_of.simps) simp
qed

lemma digit_chars:
  "char_of (48 :: nat) = CHR ''0''" "char_of (49 :: nat) = CHR ''1''" "char_of (50 :: nat) = CHR ''2''"
  "char_of (51 :: nat) = CHR ''3''" "char_of (52 :: nat) = CHR ''4''" "char_of (53 :: nat) = CHR ''5''"
  "char_of (54 :: nat) = CHR ''6''" "char_of (55 :: nat) = CHR ''7''" "char_of (56 :: nat) = CHR ''8''"
  "char_of (57 :: nat) = CHR ''9''"
  by code_simp+

section \<open>What logging promises\<close>

text \<open>What one statement does, for the statement of the claim and for sequences of statements.\<close>

lemma log_statement_one:
  assumes "1 \<le> now" and "length (tm_text (gmtime (trunc now))) = 17" and "tls_ok gmtime tid tls"
    and "0 < tid" "tid < 100000" and "log_ok (Log_int errno)" "log_ok (Log_int line)"
    and "log_ok (Log_string strerror)" "log_ok (Log_string file)"
    and "\<forall>i \<in> set (kind_items kind). log_ok i" and "\<forall>i \<in> set items. log_ok i"
  defines "all \<equiv> line_items (tm_text (gmtime (trunc now))) (micros now) tid errno strerror kind file line items"
  shows "\<exists>tls1 js. tls_ok gmtime tid tls1 \<and> subseq js all \<and>
    log_statement gmtime now tid errno strerror garbage kind file line items tls out =
      (if kind_level kind = FATAL then Some Fatal else None, tls1, out @ [concat (map log_shown js)]) \<and>
    (length (concat (map log_shown all)) + 32 \<le> 4000 \<longrightarrow> concat (map log_shown js) = concat (map log_shown all))"
proof -
  let ?b0 = "LogStream_ctor garbage"
  have us: "0 \<le> micros now" "micros now < 1000000" using micros_range[of now] assms(1) by auto
  have ok: "\<forall>i \<in> set all. log_ok i"
    unfolding all_def by (rule line_items_ok[OF assms(2) us assms(4-11)])
  obtain b js where b: "foldR LogStream_put all ?b0 = Inr b" "subseq js all"
    "FixedBuffer_asString b = concat (map log_shown js)"
    using stream.puts_subseq[of ?b0 all] ok by auto
  obtain tls1 where tls1: "tls_ok gmtime tid tls1"
    "log_statement gmtime now tid errno strerror garbage kind file line items tls out =
      (if kind_level kind = FATAL then Some Fatal else None, tls1, out @ [FixedBuffer_asString b])"
    using statement_items[OF assms(1-5) b(1)[unfolded all_def]] by blast
  have "length (concat (map log_shown all)) + 32 \<le> 4000 \<longrightarrow> concat (map log_shown js) = concat (map log_shown all)"
    using stream.puts_all[of ?b0 all] ok b(1,3) by auto
  then show ?thesis using b tls1 by metis
qed

text \<open>
  C9. A log statement writes one line. In a thread whose number has at most five digits, with a time that
  \<open>gmtime\<close> shows in 17 characters, a statement returns (or aborts after its output, for \<open>FATAL\<close>), and has
  written exactly one line: the texts of its items in order, from time stamp to line number, of which
  items may be missing as a whole, but never in part; and none is missing when all of them together leave
  32 of the 4000 characters free.
\<close>

theorem log_statement_line:
  assumes "1 \<le> now" and "length (tm_text (gmtime (trunc now))) = 17" and "tls_ok gmtime tid tls"
    and "0 < tid" "tid < 100000" and "log_ok (Log_int errno)" "log_ok (Log_int line)"
    and "log_ok (Log_string strerror)" "log_ok (Log_string file)"
    and "\<forall>i \<in> set (kind_items kind). log_ok i" and "\<forall>i \<in> set items. log_ok i"
  defines "all \<equiv> line_items (tm_text (gmtime (trunc now))) (micros now) tid errno strerror kind file line items"
  shows "\<exists>tls1 js. tls_ok gmtime tid tls1 \<and> subseq js all \<and>
    log_statement gmtime now tid errno strerror garbage kind file line items tls out =
      (if kind_level kind = FATAL then Some Fatal else None, tls1, out @ [concat (map log_shown js)]) \<and>
    (length (concat (map log_shown all)) + 32 \<le> 4000 \<longrightarrow> concat (map log_shown js) = concat (map log_shown all))"
  unfolding all_def by (rule log_statement_one[OF assms(1-11)])

text \<open>The first statement of a thread, at the beginning of the year 2015.\<close>

definition tm_2015 :: "int \<Rightarrow> tm" where
  "tm_2015 s = \<lparr>tm_year = 115, tm_mon = 0, tm_mday = 1, tm_hour = 0, tm_min = 0, tm_sec = 0\<rparr>"

definition new_tls :: log_tls where
  "new_tls = \<lparr>t_time = [], t_lastSecond = 0, t_cachedTid = 0, t_tidString = []\<rparr>"

lemma log_statement_line_witness:
  "\<exists>tls1 js. log_statement tm_2015 1420070400 77 0 [] [] (Logger_level WARN) ''net/TcpServer.cc'' 61
      [Log_string ''up '', Log_int (-3)] new_tls [] = (None, tls1, [concat (map log_shown js)])"
proof -
  have "length (tm_text (tm_2015 (trunc 1420070400))) = 17" by (simp add: tm_2015_def) code_simp
  moreover have "tls_ok tm_2015 77 new_tls" by (simp add: tls_ok_def new_tls_def)
  ultimately show ?thesis
    using log_statement_line[of 1420070400 tm_2015 77 new_tls 0 61 "[]" "''net/TcpServer.cc''" "Logger_level WARN"
        "[Log_string ''up '', Log_int (-3)]" "[]" "[]"] by auto
qed

text \<open>
  C37. Integers are printed exactly. For every value of every integer type of the code, the digit loop with
  its table for negative remainders gives the decimal notation of the value, the most negative one
  included; putting it into a stream with 32 characters free appends exactly that text and writes no
  character beyond the buffer; with fewer the stream is unchanged.
\<close>

theorem formatInteger_exact:
  assumes "-9223372036854775808 \<le> v" "v < 18446744073709551616" and "FixedBuffer_wf b"
  shows "convert v = show_int v \<and>
    (\<exists>b'. LogStream_formatInteger v b = Inr b' \<and> length (fb_data b') = length (fb_data b) \<and>
       (if FixedBuffer_avail b \<ge> 32 then FixedBuffer_asString b' = FixedBuffer_asString b @ show_int v else b' = b))"
proof -
  have "\<bar>v\<bar> < 10 ^ 20" using assms(1,2) by (simp add: abs_less_iff)
  then have len: "length (show_int v) \<le> 21" using convert_length[of v] by (simp add: convert_shows)
  show ?thesis
  proof (cases "FixedBuffer_avail b \<ge> 32")
    case True
    then have "fb_cur b + 32 \<le> length (fb_data b)" by (simp add: FixedBuffer_avail_def)
    then show ?thesis using True len
      by (simp add: convert_shows LogStream_formatInteger_def kMaxNumericSize_def write_current_def copy_into_def
          FixedBuffer_add_def FixedBuffer_asString_def Let_def)
  next
    case False
    then show ?thesis by (simp add: convert_shows LogStream_formatInteger_def kMaxNumericSize_def)
  qed
qed

lemma formatInteger_exact_witness:
  "convert (-9223372036854775808) = ''-9223372036854775808'' \<and>
   (\<exists>b'. LogStream_formatInteger (-9223372036854775808) (LogStream_ctor []) = Inr b')"
proof -
  have "show_int (-9223372036854775808) = ''-9223372036854775808''"
    by (simp add: show_int_def digits_of.simps digit_chars)
  then show ?thesis
    using formatInteger_exact[of "-9223372036854775808" "LogStream_ctor []"] by auto
qed

text \<open>
  Pointers are printed exactly: \<open>convertHex\<close> writes between 1 and 16 hexadecimal digits,
  whose value is that of the pointer, so that two pointers never share their text.
\<close>

theorem convertHex_exact:
  "hex_value (convertHex v) = unat v \<and> convertHex v \<noteq> [] \<and> length (convertHex v) \<le> 16 \<and>
   (convertHex v = convertHex w \<longrightarrow> v = w)"
proof (intro conjI impI)
  show "convertHex v \<noteq> []" using convertHex_loop_value[of "unat v" "[]"] by (auto simp: convertHex_def)
  assume "convertHex v = convertHex w"
  then have "unat v = unat w" using convertHex_value[of v] convertHex_value[of w] by (simp only:)
  then show "v = w" by (simp only: unsigned_word_eqI)
qed (rule convertHex_value, rule convertHex_length)

lemma convertHex_exact_witness: "convertHex 0xBEEF \<noteq> convertHex 0xBEEE \<and> hex_value (convertHex 0xBEEF) = 48879"
  using convertHex_exact[of "0xBEEF" "0xBEEE"] by auto

text \<open>
  C38. Six digits are too many. In a thread whose number, which the system may count to 4194304, has more
  than five digits, the first log statement ends in a failed assertion and writes nothing, whatever it
  logs: \<open>"%5d "\<close> is a minimum width, and the code asserts that the text has six characters.
\<close>

theorem large_tid_aborts:
  assumes "1 \<le> now" and "length (tm_text (gmtime (trunc now))) = 17" and "tls_ok gmtime tid tls"
    and "t_cachedTid tls = 0" and "100000 \<le> tid"
  shows "log_statement gmtime now tid errno strerror garbage kind file line items tls out = (Some AssertFailed, tls, out)"
proof -
  let ?li = "\<lparr>li_time = now, li_stream = LogStream_ctor garbage, li_level = kind_level kind, li_line = line,
      li_basename = basename_of file\<rparr>"
  obtain tls1 where tls1: "t_cachedTid tls1 = 0" "Logger_formatTime gmtime (?li, tls) =
      bindR (foldR LogStream_put [Log_T (tm_text (gmtime (trunc now))), Log_T (''.'' @ fmt_0d 6 (micros now) @ ''Z '')]
               (li_stream ?li)) (\<lambda>b. Inr (?li\<lparr>li_stream := b\<rparr>, tls1))"
    using formatTime_items[OF assms(1,2,3), of ?li] assms(4) by auto
  have "length (fmt_0d 6 (micros now)) = 6"
    using length_fmt_0d[of "micros now" 5] micros_range[of now] assms(1) by (simp add: numeral_eq_Suc)
  then have "\<forall>i \<in> set [Log_T (tm_text (gmtime (trunc now))), Log_T (''.'' @ fmt_0d 6 (micros now) @ ''Z '')]. log_ok i"
    using assms(2) by simp
  then obtain b where b: "foldR LogStream_put [Log_T (tm_text (gmtime (trunc now))),
      Log_T (''.'' @ fmt_0d 6 (micros now) @ ''Z '')] (LogStream_ctor garbage) = Inr b"
    using stream.puts_subseq[OF LogStream_ctor_views(1)] by blast
  have "length (digits_of (nat tid)) \<ge> 6"
    using digits_of_long[of 5 "nat tid"] assms(5) by (simp add: nat_le_iff)
  then have "length (fmt_d 5 tid @ '' '') \<noteq> 6"
    using assms(5) by (simp add: fmt_d_def show_int_def Let_def)
  then have tid: "CurrentThread_tid tid tls1 = Inl AssertFailed"
    using tls1(1) by (simp add: CurrentThread_tid_def CurrentThread_cacheTid_def Let_def del: length_append)
  have "Logger_Impl gmtime now tid strerror garbage (kind_level kind) (kind_errno errno kind) file line tls = Inl AssertFailed"
    unfolding Logger_Impl_def tls1(2) using b tid by (simp del: foldR.simps)
  then show ?thesis by (simp add: log_statement_def Logger_ctor_def)
qed

lemma large_tid_aborts_witness:
  "log_statement tm_2015 1420070400 4194304 0 [] [] Logger_info ''a.cc'' 1 [] new_tls [] = (Some AssertFailed, new_tls, [])"
proof -
  have "length (tm_text (tm_2015 (trunc 1420070400))) = 17" by (simp add: tm_2015_def) code_simp
  moreover have "tls_ok tm_2015 4194304 new_tls" "t_cachedTid new_tls = 0" by (simp_all add: tls_ok_def new_tls_def)
  ultimately show ?thesis using large_tid_aborts[of 1420070400 tm_2015 4194304 new_tls] by simp
qed

text \<open>
  Levels are a total order, and the macros respect it: a statement is skipped exactly when its level is
  below the global one and one of \<open>TRACE\<close>, \<open>DEBUG\<close> and \<open>INFO\<close>; lowering the global level never hides a
  statement, and warnings, errors and fatal errors are never hidden.
\<close>

theorem log_levels_monotone:
  "(log_enabled g l \<longleftrightarrow> g \<le> l \<or> WARN \<le> l) \<and> (g' \<le> g \<longrightarrow> log_enabled g l \<longrightarrow> log_enabled g' l) \<and>
   (log_enabled g l \<longrightarrow> l \<le> l' \<longrightarrow> log_enabled g l')"
  by (cases g; cases g'; cases l; cases l') (simp_all add: log_enabled_def less_eq_LogLevel_def)

end
