(* ===== verification/String_Piece.thy ===== *)
theory String_Piece
  imports Prelude "HOL-Library.Char_ord" "HOL-Library.List_Lexorder"
begin

text \<open>
  \<open>StringPiece\<close> and \<open>StringArg\<close> (base/StringPiece.h): a pointer into memory that somebody else owns and a
  length. The lemmas say which text a piece denotes after each operation, and that its comparisons are
  the lexicographic order of the texts as sequences of unsigned bytes.
\<close>

section \<open>Memory\<close>

text \<open>A pointer is null or an offset in a block; a heap gives the bytes of the blocks that exist.\<close>

datatype char_ptr = Null | Ptr nat int

type_synonym heap = "nat \<Rightarrow> string option"

fun ptr_add :: "char_ptr \<Rightarrow> int \<Rightarrow> char_ptr" where
  "ptr_add Null n = Null"
| "ptr_add (Ptr b i) n = Ptr b (i + n)"

text \<open>Reading \<open>n\<close> bytes; of none, no pointer is followed.\<close>

definition read_mem :: "heap \<Rightarrow> char_ptr \<Rightarrow> int \<Rightarrow> string res" where
  "read_mem H p n =
     (if n = 0 then Inr []
      else case p of Null \<Rightarrow> Inl NullPointer
           | Ptr b i \<Rightarrow>
               (case H b of None \<Rightarrow> Inl OutOfBounds
                | Some cs \<Rightarrow> ensure (0 \<le> i \<and> 0 < n \<and> i + n \<le> int (length cs)) OutOfBounds
                    (Inr (take (nat n) (drop (nat i) cs)))))"

definition strlen :: "heap \<Rightarrow> char_ptr \<Rightarrow> int res" where
  "strlen H p =
     (case p of Null \<Rightarrow> Inl NullPointer
      | Ptr b i \<Rightarrow>
          (case H b of None \<Rightarrow> Inl OutOfBounds
           | Some cs \<Rightarrow> ensure (0 \<le> i \<and> CHR 0x00 \<in> set (drop (nat i) cs)) OutOfBounds
               (Inr (int (length (takeWhile (\<lambda>c. c \<noteq> CHR 0x00) (drop (nat i) cs)))))))"

text \<open>
  \<open>memcmp\<close>: of its result only the sign is defined; this is the difference of the first two bytes that
  differ. The length is a \<open>size_t\<close>.
\<close>

fun memcmp_bytes :: "string \<Rightarrow> string \<Rightarrow> int" where
  "memcmp_bytes (c # cs) (d # ds) = (if c = d then memcmp_bytes cs ds else of_char c - of_char d)"
| "memcmp_bytes _ _ = 0"

definition memcmp :: "heap \<Rightarrow> char_ptr \<Rightarrow> char_ptr \<Rightarrow> size_t \<Rightarrow> int res" where
  "memcmp H p q n =
     bindR (read_mem H p (uint n)) (\<lambda>cs. bindR (read_mem H q (uint n)) (\<lambda>ds. Inr (memcmp_bytes cs ds)))"

section \<open>StringArg\<close>

record StringArg = sa_str :: char_ptr

text \<open>Of a \<open>char*\<close>, and of a \<open>std::string\<close>, whose characters with the final null are a block.\<close>

definition StringArg_ctor :: "char_ptr \<Rightarrow> StringArg" where
  "StringArg_ctor p = \<lparr>sa_str = p\<rparr>"

definition StringArg_of_string :: "nat \<Rightarrow> StringArg" where
  "StringArg_of_string b = \<lparr>sa_str = Ptr b 0\<rparr>"

definition StringArg_c_str :: "StringArg \<Rightarrow> char_ptr" where
  "StringArg_c_str a = sa_str a"

section \<open>StringPiece\<close>

record StringPiece =
  sp_ptr :: char_ptr
  sp_length :: int32_t

definition StringPiece_default :: StringPiece where
  "StringPiece_default = \<lparr>sp_ptr = Null, sp_length = 0\<rparr>"

definition StringPiece_ctor :: "heap \<Rightarrow> char_ptr \<Rightarrow> StringPiece res" where
  "StringPiece_ctor H p = bindR (strlen H p) (\<lambda>n. Inr \<lparr>sp_ptr = p, sp_length = word_of_int n\<rparr>)"

definition StringPiece_of_string :: "nat \<Rightarrow> string \<Rightarrow> StringPiece" where
  "StringPiece_of_string b s = \<lparr>sp_ptr = Ptr b 0, sp_length = of_nat (length s)\<rparr>"

definition StringPiece_of_range :: "char_ptr \<Rightarrow> int32_t \<Rightarrow> StringPiece" where
  "StringPiece_of_range p n = \<lparr>sp_ptr = p, sp_length = n\<rparr>"

definition StringPiece_size :: "StringPiece \<Rightarrow> int32_t" where
  "StringPiece_size x = sp_length x"

definition StringPiece_empty :: "StringPiece \<Rightarrow> bool" where
  "StringPiece_empty x \<longleftrightarrow> sp_length x = 0"

definition StringPiece_end :: "StringPiece \<Rightarrow> char_ptr" where
  "StringPiece_end x = ptr_add (sp_ptr x) (sint (sp_length x))"

definition StringPiece_clear :: "StringPiece \<Rightarrow> StringPiece" where
  "StringPiece_clear x = x\<lparr>sp_ptr := Null, sp_length := 0\<rparr>"

definition StringPiece_set :: "char_ptr \<Rightarrow> int32_t \<Rightarrow> StringPiece \<Rightarrow> StringPiece" where
  "StringPiece_set p n x = x\<lparr>sp_ptr := p, sp_length := n\<rparr>"

definition StringPiece_set_str :: "heap \<Rightarrow> char_ptr \<Rightarrow> StringPiece \<Rightarrow> StringPiece res" where
  "StringPiece_set_str H p x =
     bindR (strlen H p) (\<lambda>n. Inr (x\<lparr>sp_ptr := p, sp_length := word_of_int n\<rparr>))"

definition StringPiece_at :: "heap \<Rightarrow> int32_t \<Rightarrow> StringPiece \<Rightarrow> char res" where
  "StringPiece_at H i x = bindR (read_mem H (ptr_add (sp_ptr x) (sint i)) 1) (\<lambda>cs. Inr (hd cs))"

definition StringPiece_remove_prefix :: "int32_t \<Rightarrow> StringPiece \<Rightarrow> StringPiece" where
  "StringPiece_remove_prefix n x =
     x\<lparr>sp_ptr := ptr_add (sp_ptr x) (sint n), sp_length := sp_length x - n\<rparr>"

definition StringPiece_remove_suffix :: "int32_t \<Rightarrow> StringPiece \<Rightarrow> StringPiece" where
  "StringPiece_remove_suffix n x = x\<lparr>sp_length := sp_length x - n\<rparr>"

text \<open>The comparisons; \<open>&&\<close> does not call \<open>memcmp\<close> when the lengths differ.\<close>

definition StringPiece_eq :: "heap \<Rightarrow> StringPiece \<Rightarrow> StringPiece \<Rightarrow> bool res" where
  "StringPiece_eq H x y =
     (if sp_length x = sp_length y
      then bindR (memcmp H (sp_ptr x) (sp_ptr y) (scast (sp_length x))) (\<lambda>r. Inr (r = 0))
      else Inr False)"

definition StringPiece_ne :: "heap \<Rightarrow> StringPiece \<Rightarrow> StringPiece \<Rightarrow> bool res" where
  "StringPiece_ne H x y = bindR (StringPiece_eq H x y) (\<lambda>b. Inr (\<not> b))"

definition StringPiece_memcmp :: "heap \<Rightarrow> StringPiece \<Rightarrow> StringPiece \<Rightarrow> int res" where
  "StringPiece_memcmp H x y =
     memcmp H (sp_ptr x) (sp_ptr y) (scast (if sp_length x <s sp_length y then sp_length x else sp_length y))"

text \<open>The macro \<open>STRINGPIECE_BINARY_PREDICATE\<close>, with its two operators as arguments.\<close>

definition STRINGPIECE_BINARY_PREDICATE ::
  "(int \<Rightarrow> int \<Rightarrow> bool) \<Rightarrow> (int \<Rightarrow> int \<Rightarrow> bool) \<Rightarrow> heap \<Rightarrow> StringPiece \<Rightarrow> StringPiece \<Rightarrow> bool res" where
  "STRINGPIECE_BINARY_PREDICATE cmp auxcmp H x y =
     bindR (StringPiece_memcmp H x y) (\<lambda>r.
       Inr (auxcmp r 0 \<or> r = 0 \<and> cmp (sint (sp_length x)) (sint (sp_length y))))"

definition StringPiece_less :: "heap \<Rightarrow> StringPiece \<Rightarrow> StringPiece \<Rightarrow> bool res" where
  "StringPiece_less = STRINGPIECE_BINARY_PREDICATE (<) (<)"

definition StringPiece_less_eq :: "heap \<Rightarrow> StringPiece \<Rightarrow> StringPiece \<Rightarrow> bool res" where
  "StringPiece_less_eq = STRINGPIECE_BINARY_PREDICATE (\<le>) (<)"

definition StringPiece_greater_eq :: "heap \<Rightarrow> StringPiece \<Rightarrow> StringPiece \<Rightarrow> bool res" where
  "StringPiece_greater_eq = STRINGPIECE_BINARY_PREDICATE (\<ge>) (>)"

definition StringPiece_greater :: "heap \<Rightarrow> StringPiece \<Rightarrow> StringPiece \<Rightarrow> bool res" where
  "StringPiece_greater = STRINGPIECE_BINARY_PREDICATE (>) (>)"

definition StringPiece_compare :: "heap \<Rightarrow> StringPiece \<Rightarrow> StringPiece \<Rightarrow> int res" where
  "StringPiece_compare H x y =
     bindR (StringPiece_memcmp H x y) (\<lambda>r.
       Inr (if r = 0
            then if sint (sp_length x) < sint (sp_length y) then -1
                 else if sint (sp_length x) > sint (sp_length y) then 1 else r
            else r))"

definition StringPiece_CopyToStdString :: "heap \<Rightarrow> StringPiece \<Rightarrow> string res" where
  "StringPiece_CopyToStdString H x = read_mem H (sp_ptr x) (uint (scast (sp_length x) :: size_t))"

definition StringPiece_starts_with :: "heap \<Rightarrow> StringPiece \<Rightarrow> StringPiece \<Rightarrow> bool res" where
  "StringPiece_starts_with H x y =
     (if sint (sp_length x) \<ge> sint (sp_length y)
      then bindR (memcmp H (sp_ptr x) (sp_ptr y) (scast (sp_length y))) (\<lambda>r. Inr (r = 0))
      else Inr False)"

section \<open>The text a piece denotes\<close>

definition piece_text :: "heap \<Rightarrow> StringPiece \<Rightarrow> string res" where
  "piece_text H x = (if 0 \<le> sint (sp_length x) then read_mem H (sp_ptr x) (sint (sp_length x)) else Inl OutOfBounds)"

lemma uint_scast_nonneg: "0 \<le> sint (n :: int32_t) \<Longrightarrow> uint (scast n :: size_t) = sint n"
proof -
  assume "0 \<le> sint n"
  then have "sint n mod 18446744073709551616 = sint n" using sint_int32_range[of n] by simp
  moreover have "uint (scast n :: size_t) = sint n mod 18446744073709551616"
    by (simp only: scast_eq uint_word_of_int) simp
  ultimately show ?thesis by simp
qed

lemma read_mem_Inr:
  "n \<noteq> 0 \<Longrightarrow> read_mem H p n = Inr cs \<longleftrightarrow>
    (\<exists>b i bs. p = Ptr b i \<and> H b = Some bs \<and> 0 \<le> i \<and> 0 < n \<and> i + n \<le> int (length bs) \<and> cs = take (nat n) (drop (nat i) bs))"
proof (cases p)
  case (Ptr b i)
  assume n: "n \<noteq> 0"
  show ?thesis
  proof (cases "H b")
    case None
    then show ?thesis using n Ptr by (simp add: read_mem_def)
  next
    case (Some bs)
    then show ?thesis using n Ptr by (auto simp: read_mem_def ensure_def)
  qed
qed (simp add: read_mem_def)

lemma read_mem_0 [simp]: "read_mem H p 0 = Inr []"
  by (simp add: read_mem_def)

lemma read_mem_prefix:
  assumes "read_mem H p n = Inr cs" and "0 \<le> m" and "m \<le> n"
  shows "read_mem H p m = Inr (take (nat m) cs)"
proof (cases "m = 0")
  case False
  then have "n \<noteq> 0" "nat m \<le> nat n" using assms by auto
  then show ?thesis using assms False by (auto simp: read_mem_Inr min_def)
qed simp

lemma read_mem_suffix:
  assumes "read_mem H p n = Inr cs" and "0 \<le> m" and "m \<le> n"
  shows "read_mem H (ptr_add p m) (n - m) = Inr (drop (nat m) cs)"
proof (cases "n = m")
  case True
  then show ?thesis using assms by (cases "n = 0") (auto simp: read_mem_Inr)
next
  case False
  then have "n \<noteq> 0" using assms by simp
  then obtain b i bs where p: "p = Ptr b i" "H b = Some bs" "0 \<le> i" "i + n \<le> int (length bs)"
    and cs: "cs = take (nat n) (drop (nat i) bs)"
    using assms by (auto simp: read_mem_Inr)
  have "nat (i + m) = nat m + nat i" "nat n - nat m = nat (n - m)" using p(3) assms(2) by simp_all
  then show ?thesis using False assms(2,3) p by (simp add: read_mem_def cs drop_take)
qed

lemma read_mem_length:
  assumes "read_mem H p n = Inr cs" and "0 \<le> n"
  shows "int (length cs) = n"
proof (cases "n = 0")
  case False
  then show ?thesis using assms by (auto simp: read_mem_Inr)
qed (use assms in simp)

text \<open>The memory comparison of two texts, cut to the same length, orders them.\<close>

lemma memcmp_bytes_eq:
  "length cs = length ds \<Longrightarrow> memcmp_bytes cs ds = 0 \<longleftrightarrow> cs = ds"
  by (induction cs ds rule: memcmp_bytes.induct) auto

lemma of_char_less_int [simp]: "(of_char c :: int) < of_char d \<longleftrightarrow> c < d"
proof -
  have "(of_char c :: int) = int (of_char c)" "(of_char d :: int) = int (of_char d)" by (simp_all only: of_nat_of_char)
  then show ?thesis unfolding less_char_def by linarith
qed

lemma memcmp_bytes_swap: "memcmp_bytes ds cs = - memcmp_bytes cs ds"
  by (induction cs ds rule: memcmp_bytes.induct) auto

lemma memcmp_bytes_order:
  assumes "n = min (length cs) (length ds)" and "r = memcmp_bytes (take n cs) (take n ds)"
  shows "(r < 0 \<or> r = 0 \<and> length cs < length ds \<longleftrightarrow> cs < ds) \<and> (r = 0 \<and> length cs = length ds \<longleftrightarrow> cs = ds)"
  using assms
proof (induction cs arbitrary: ds n r)
  case Nil
  then show ?case by (cases ds) auto
next
  case (Cons c cs)
  show ?case
  proof (cases ds)
    case (Cons d ds')
    then show ?thesis using Cons.prems Cons.IH[of "min (length cs) (length ds')" ds'] by auto
  qed (use Cons.prems in simp)
qed

text \<open>What each operation does to the text.\<close>

lemma piece_text_Inr:
  "piece_text H x = Inr cs \<longleftrightarrow> 0 \<le> sint (sp_length x) \<and> read_mem H (sp_ptr x) (sint (sp_length x)) = Inr cs"
  by (simp add: piece_text_def)

lemma piece_text_length: "piece_text H x = Inr cs \<Longrightarrow> sint (sp_length x) = int (length cs)"
  by (auto simp: piece_text_Inr dest: read_mem_length)

lemma remove_prefix_text:
  assumes "piece_text H x = Inr cs" and "0 \<le> sint n" and "sint n \<le> int (length cs)"
  shows "piece_text H (StringPiece_remove_prefix n x) = Inr (drop (nat (sint n)) cs)"
proof -
  note len = piece_text_length[OF assms(1)]
  have "sint (sp_length x - n) = sint (sp_length x) - sint n"
    using sint_int32_range[of "sp_length x"] assms(2,3) len by (intro sint_int32_sub) simp_all
  then show ?thesis using assms len read_mem_suffix[of H "sp_ptr x" "sint (sp_length x)" cs "sint n"]
    by (simp add: piece_text_Inr StringPiece_remove_prefix_def)
qed

lemma remove_suffix_text:
  assumes "piece_text H x = Inr cs" and "0 \<le> sint n" and "sint n \<le> int (length cs)"
  shows "piece_text H (StringPiece_remove_suffix n x) = Inr (take (length cs - nat (sint n)) cs)"
proof -
  note len = piece_text_length[OF assms(1)]
  have sub: "sint (sp_length x - n) = sint (sp_length x) - sint n"
    using sint_int32_range[of "sp_length x"] assms(2,3) len by (intro sint_int32_sub) simp_all
  have "nat (sint (sp_length x) - sint n) = length cs - nat (sint n)" using len assms(2) by simp
  then show ?thesis
    using assms len sub read_mem_prefix[of H "sp_ptr x" "sint (sp_length x)" cs "sint (sp_length x) - sint n"]
    by (simp add: piece_text_Inr StringPiece_remove_suffix_def)
qed

lemma default_text: "piece_text H StringPiece_default = Inr []" "piece_text H (StringPiece_clear x) = Inr []"
  by (simp_all add: piece_text_def StringPiece_default_def StringPiece_clear_def)

lemma of_string_text:
  assumes "H b = Some (s @ [CHR 0x00])" and "length s < 2147483648"
  shows "piece_text H (StringPiece_of_string b s) = Inr s"
proof -
  have "sint (of_nat (length s) :: int32_t) = int (length s)"
    using sint_int32_of_int[of "int (length s)"] assms(2) by simp
  then show ?thesis using assms(1)
    by (cases "s = []") (simp_all add: piece_text_Inr StringPiece_of_string_def read_mem_def)
qed

lemma CopyToStdString_text:
  assumes "piece_text H x = Inr cs"
  shows "StringPiece_CopyToStdString H x = Inr cs"
  using assms by (simp add: piece_text_Inr StringPiece_CopyToStdString_def uint_scast_nonneg)

text \<open>A \<open>memcmp\<close> of what both pieces have.\<close>

lemma memcmp_text:
  fixes n :: int32_t
  assumes "piece_text H x = Inr cs" and "piece_text H y = Inr ds" and "0 \<le> sint n"
    and "sint n \<le> int (length cs)" and "sint n \<le> int (length ds)"
  shows "memcmp H (sp_ptr x) (sp_ptr y) (scast n) = Inr (memcmp_bytes (take (nat (sint n)) cs) (take (nat (sint n)) ds))"
  using assms piece_text_length[OF assms(1)] piece_text_length[OF assms(2)]
    read_mem_prefix[of H "sp_ptr x" "sint (sp_length x)" cs "sint n"]
    read_mem_prefix[of H "sp_ptr y" "sint (sp_length y)" ds "sint n"]
  by (simp add: memcmp_def uint_scast_nonneg piece_text_Inr)

lemma StringPiece_memcmp_text:
  assumes "piece_text H x = Inr cs" and "piece_text H y = Inr ds" and "n = min (length cs) (length ds)"
  shows "StringPiece_memcmp H x y = Inr (memcmp_bytes (take n cs) (take n ds))"
proof -
  let ?n = "if sp_length x <s sp_length y then sp_length x else sp_length y"
  have n: "sint ?n = int n"
    using piece_text_length[OF assms(1)] piece_text_length[OF assms(2)] assms(3) by (simp add: word_sless_alt)
  then show ?thesis using memcmp_text[OF assms(1,2), of ?n] assms(3) by (simp add: StringPiece_memcmp_def)
qed

text \<open>
  C29. Comparing pieces is comparing texts. For any two pieces that denote texts, each comparison returns
  and agrees with the lexicographic order of the texts as sequences of unsigned bytes: the six operators,
  the sign of \<open>compare\<close>, and \<open>starts_with\<close> with being a prefix; so the operators, although each is
  written out on its own, are consistent with each other and form a total order.
\<close>

theorem StringPiece_order:
  assumes x: "piece_text H x = Inr cs" and y: "piece_text H y = Inr ds"
  shows "StringPiece_eq H x y = Inr (cs = ds) \<and> StringPiece_ne H x y = Inr (cs \<noteq> ds) \<and>
    StringPiece_less H x y = Inr (cs < ds) \<and> StringPiece_less_eq H x y = Inr (cs \<le> ds) \<and>
    StringPiece_greater_eq H x y = Inr (ds \<le> cs) \<and> StringPiece_greater H x y = Inr (ds < cs) \<and>
    (\<exists>r. StringPiece_compare H x y = Inr r \<and> (r < 0 \<longleftrightarrow> cs < ds) \<and> (r = 0 \<longleftrightarrow> cs = ds) \<and> (r > 0 \<longleftrightarrow> ds < cs)) \<and>
    StringPiece_starts_with H x y = Inr (take (length ds) cs = ds)"
proof -
  define n where "n = min (length cs) (length ds)"
  define r where "r = memcmp_bytes (take n cs) (take n ds)"
  note len = piece_text_length[OF x] piece_text_length[OF y]
  have m: "StringPiece_memcmp H x y = Inr r" unfolding r_def by (rule StringPiece_memcmp_text[OF x y n_def])
  have less: "r < 0 \<or> r = 0 \<and> length cs < length ds \<longleftrightarrow> cs < ds" and same: "r = 0 \<and> length cs = length ds \<longleftrightarrow> cs = ds"
    using memcmp_bytes_order[OF n_def r_def] by simp_all
  have "n = min (length ds) (length cs)" "- r = memcmp_bytes (take n ds) (take n cs)"
    unfolding n_def r_def by (simp_all add: min.commute memcmp_bytes_swap[of "take _ ds"])
  from memcmp_bytes_order[OF this]
  have greater: "r > 0 \<or> r = 0 \<and> length ds < length cs \<longleftrightarrow> ds < cs" by simp
  have eq: "StringPiece_eq H x y = Inr (cs = ds)"
  proof (cases "sp_length x = sp_length y")
    case True
    then have "length cs = length ds" using len by simp
    then show ?thesis using True len memcmp_text[OF x y, of "sp_length x"] memcmp_bytes_eq[of cs ds]
      by (simp add: StringPiece_eq_def)
  next
    case False
    then have "cs \<noteq> ds" using len signed_word_eqI by metis
    then show ?thesis using False by (simp add: StringPiece_eq_def)
  qed
  have starts: "StringPiece_starts_with H x y = Inr (take (length ds) cs = ds)"
  proof (cases "length ds \<le> length cs")
    case True
    then show ?thesis using len memcmp_text[OF x y, of "sp_length y"] memcmp_bytes_eq[of "take (length ds) cs" ds]
      by (simp add: StringPiece_starts_with_def)
  next
    case False
    then have "take (length ds) cs \<noteq> ds" by (metis length_take min.cobounded1 not_le)
    then show ?thesis using False len by (simp add: StringPiece_starts_with_def)
  qed
  have ops: "StringPiece_less H x y = Inr (cs < ds)" "StringPiece_less_eq H x y = Inr (cs \<le> ds)"
    "StringPiece_greater_eq H x y = Inr (ds \<le> cs)" "StringPiece_greater H x y = Inr (ds < cs)"
    using m less same greater len
    by (auto simp: StringPiece_less_def StringPiece_less_eq_def StringPiece_greater_eq_def StringPiece_greater_def
        STRINGPIECE_BINARY_PREDICATE_def order.order_iff_strict)
  have cmp: "\<exists>r. StringPiece_compare H x y = Inr r \<and> (r < 0 \<longleftrightarrow> cs < ds) \<and> (r = 0 \<longleftrightarrow> cs = ds) \<and> (r > 0 \<longleftrightarrow> ds < cs)"
    using m less same greater len by (simp add: StringPiece_compare_def) linarith
  show ?thesis using eq starts ops cmp by (simp add: StringPiece_ne_def)
qed

theorem StringPiece_order_witness:
  "StringPiece_less [1 \<mapsto> ''HTTP'' @ [CHR 0x00], 2 \<mapsto> ''HTTPS'' @ [CHR 0x00]]
     (StringPiece_of_string 1 ''HTTP'') (StringPiece_of_string 2 ''HTTPS'') = Inr True"
proof -
  let ?H = "[1 \<mapsto> ''HTTP'' @ [CHR 0x00], 2 \<mapsto> ''HTTPS'' @ [CHR 0x00]] :: heap"
  have "piece_text ?H (StringPiece_of_string 1 ''HTTP'') = Inr ''HTTP''"
    "piece_text ?H (StringPiece_of_string 2 ''HTTPS'') = Inr ''HTTPS''"
    by (rule of_string_text; simp)+
  from StringPiece_order[OF this] show ?thesis by simp
qed

end
