(* ===== verification/Monitors.thy ===== *)
theory Monitors
  imports Io_Channel
begin

text \<open>
  \<open>MutexLock\<close>, \<open>MutexLockGuard\<close> (base/Mutex.h) and \<open>Condition\<close> (base/Condition.h) as a step relation over
  any number of threads that run operations of the shape the library gives them: lock, wait in a loop
  for a guard, work, notify, unlock. The lemmas are about any object of that shape; \<open>Blocking_Queues\<close>
  applies them to the library's three.
\<close>

section \<open>Operations under a mutex\<close>

text \<open>
  \<open>op_wait\<close> is the condition an operation waits for in its loop and the guard that ends the loop,
  \<open>op_body\<close> what it does then, with its result, and \<open>op_signal\<close> the notification after it, which may
  depend on the data the body left.
\<close>

type_synonym cond = nat

datatype signal = Notify cond | NotifyAll cond

record ('d, 'r) mop =
  op_wait :: "(cond \<times> ('d \<Rightarrow> bool)) option"
  op_body :: "'d \<Rightarrow> 'r \<times> 'd"
  op_signal :: "'d \<Rightarrow> signal option"

definition op_ready :: "('d, 'r) mop \<Rightarrow> 'd \<Rightarrow> bool" where
  "op_ready p d = (case op_wait p of None \<Rightarrow> True | Some (c, g) \<Rightarrow> g d)"

definition waits_on :: "('d, 'r) mop \<Rightarrow> cond \<Rightarrow> bool" where
  "waits_on p c = (case op_wait p of None \<Rightarrow> False | Some (c', g) \<Rightarrow> c' = c)"

text \<open>
  Where a thread is: outside; between \<open>pthread_mutex_lock\<close> and \<open>assignHolder\<close>; at the test of its loop;
  between \<open>unassignHolder\<close> and \<open>pthread_cond_wait\<close>; blocked there; unblocked, but without the mutex;
  with the mutex again; after the body; and between \<open>unassignHolder\<close> and \<open>pthread_mutex_unlock\<close>.
\<close>

datatype 'o loc =
    Outside
  | Locked 'o
  | Testing 'o
  | PreWait 'o
  | Asleep 'o
  | Awake 'o
  | Relocked 'o
  | Signalling 'o
  | Unassigned 'o

text \<open>\<open>mutex\<close> is the owner of the \<open>pthread_mutex_t\<close>, \<open>holder\<close> the field \<open>holder_\<close>, 0 for none.\<close>

record ('d, 'o) monitor =
  mutex :: "thread_id option"
  holder :: thread_id
  mdata :: 'd
  pc :: "thread_id \<Rightarrow> 'o loc"

definition MutexLock_ctor :: "'d \<Rightarrow> ('d, 'o) monitor" where
  "MutexLock_ctor d = \<lparr>mutex = None, holder = 0, mdata = d, pc = (\<lambda>_. Outside)\<rparr>"

text \<open>\<open>MCHECK\<close>, in a build with assertions, of the number a pthread function returned.\<close>

definition MCHECK :: "int \<Rightarrow> 'a res \<Rightarrow> 'a res" where
  "MCHECK errnum r = ensure (errnum = 0) AssertFailed r"

text \<open>\<open>pthread_mutex_destroy\<close> refuses a locked mutex with \<open>EBUSY\<close>.\<close>

definition pthread_mutex_destroy :: "('d, 'o) monitor \<Rightarrow> int" where
  "pthread_mutex_destroy m = (if mutex m = None then 0 else 16)"

definition MutexLock_dtor :: "('d, 'o) monitor \<Rightarrow> unit res" where
  "MutexLock_dtor m = ensure (holder m = 0) AssertFailed (MCHECK (pthread_mutex_destroy m) (Inr ()))"

definition MutexLock_isLockedByThisThread :: "thread_id \<Rightarrow> ('d, 'o) monitor \<Rightarrow> bool" where
  "MutexLock_isLockedByThisThread t m \<longleftrightarrow> holder m = t"

definition MutexLock_assertLocked :: "thread_id \<Rightarrow> ('d, 'o) monitor \<Rightarrow> unit res" where
  "MutexLock_assertLocked t m = ensure (MutexLock_isLockedByThisThread t m) AssertFailed (Inr ())"

definition MutexLock_assignHolder :: "thread_id \<Rightarrow> ('d, 'o) monitor \<Rightarrow> ('d, 'o) monitor" where
  "MutexLock_assignHolder t m = m\<lparr>holder := t\<rparr>"

definition MutexLock_unassignHolder :: "('d, 'o) monitor \<Rightarrow> ('d, 'o) monitor" where
  "MutexLock_unassignHolder m = m\<lparr>holder := 0\<rparr>"

definition UnassignGuard_ctor :: "('d, 'o) monitor \<Rightarrow> ('d, 'o) monitor" where
  "UnassignGuard_ctor m = MutexLock_unassignHolder m"

definition UnassignGuard_dtor :: "thread_id \<Rightarrow> ('d, 'o) monitor \<Rightarrow> ('d, 'o) monitor" where
  "UnassignGuard_dtor t m = MutexLock_assignHolder t m"

definition goto :: "thread_id \<Rightarrow> 'o loc \<Rightarrow> ('d, 'o) monitor \<Rightarrow> ('d, 'o) monitor" where
  "goto t l m = m\<lparr>pc := (pc m)(t := l)\<rparr>"

text \<open>A condition keeps nothing but its \<open>pthread_cond_t\<close>, which \<open>pthread_cond_init\<close> and \<open>_destroy\<close> work on.\<close>

definition Condition_ctor :: "int \<Rightarrow> unit res" where
  "Condition_ctor init = MCHECK init (Inr ())"

definition Condition_dtor :: "int \<Rightarrow> unit res" where
  "Condition_dtor destroy = MCHECK destroy (Inr ())"

text \<open>
  \<open>MutexLock::lock\<close> and \<open>unlock\<close>, \<open>Condition::wait\<close> with its \<open>UnassignGuard\<close>, each in the two steps that
  other threads can tell apart.
\<close>

definition MutexLock_lock1 :: "thread_id \<Rightarrow> 'o \<Rightarrow> ('d, 'o) monitor \<Rightarrow> ('d, 'o) monitor" where
  "MutexLock_lock1 t p m = goto t (Locked p) (m\<lparr>mutex := Some t\<rparr>)"

definition MutexLock_lock2 :: "thread_id \<Rightarrow> 'o \<Rightarrow> ('d, 'o) monitor \<Rightarrow> ('d, 'o) monitor" where
  "MutexLock_lock2 t p m = goto t (Testing p) (MutexLock_assignHolder t m)"

definition MutexLock_unlock1 :: "thread_id \<Rightarrow> 'o \<Rightarrow> ('d, 'o) monitor \<Rightarrow> ('d, 'o) monitor" where
  "MutexLock_unlock1 t p m = goto t (Unassigned p) (MutexLock_unassignHolder m)"

definition MutexLock_unlock2 :: "thread_id \<Rightarrow> ('d, 'o) monitor \<Rightarrow> ('d, 'o) monitor" where
  "MutexLock_unlock2 t m = goto t Outside (m\<lparr>mutex := None\<rparr>)"

definition Condition_wait1 :: "thread_id \<Rightarrow> 'o \<Rightarrow> ('d, 'o) monitor \<Rightarrow> ('d, 'o) monitor" where
  "Condition_wait1 t p m = goto t (PreWait p) (UnassignGuard_ctor m)"

definition Condition_wait2 :: "thread_id \<Rightarrow> 'o \<Rightarrow> ('d, 'o) monitor \<Rightarrow> ('d, 'o) monitor" where
  "Condition_wait2 t p m = goto t (Asleep p) (m\<lparr>mutex := None\<rparr>)"

definition Condition_wait3 :: "thread_id \<Rightarrow> 'o \<Rightarrow> ('d, 'o) monitor \<Rightarrow> ('d, 'o) monitor" where
  "Condition_wait3 t p m = goto t (Relocked p) (m\<lparr>mutex := Some t\<rparr>)"

definition Condition_wait4 :: "thread_id \<Rightarrow> 'o \<Rightarrow> ('d, 'o) monitor \<Rightarrow> ('d, 'o) monitor" where
  "Condition_wait4 t p m = goto t (Testing p) (UnassignGuard_dtor t m)"

text \<open>
  \<open>waitForSeconds\<close> takes the same four steps; its time-out is one more reason to be unblocked without a
  notification. This is what it does besides: the absolute time it waits for, and its result, given
  what \<open>pthread_cond_timedwait\<close> returns for that time.
\<close>

record timespec =
  ts_sec :: int
  ts_nsec :: int

definition ETIMEDOUT :: int where "ETIMEDOUT = 110"

definition Condition_waitForSeconds :: "timespec \<Rightarrow> int \<Rightarrow> (timespec \<Rightarrow> int) \<Rightarrow> bool" where
  "Condition_waitForSeconds now seconds timedwait =
     (let abstime = now\<lparr>ts_sec := ts_sec now + seconds\<rparr> in ETIMEDOUT = timedwait abstime)"

text \<open>
  The threads blocked on a condition; waking some of them. \<open>pthread_cond_signal\<close> unblocks at least one of
  them, if there is any, \<open>pthread_cond_broadcast\<close> all.
\<close>

definition blocked :: "('o \<Rightarrow> ('d, 'r) mop) \<Rightarrow> cond \<Rightarrow> ('d, 'o) monitor \<Rightarrow> thread_id set" where
  "blocked ops c m = {t. \<exists>p. pc m t = Asleep p \<and> waits_on (ops p) c}"

definition wake :: "thread_id set \<Rightarrow> ('d, 'o) monitor \<Rightarrow> ('d, 'o) monitor" where
  "wake S m = m\<lparr>pc := (\<lambda>t. if t \<in> S then (case pc m t of Asleep p \<Rightarrow> Awake p | l \<Rightarrow> l) else pc m t)\<rparr>"

fun Condition_notifies :: "('o \<Rightarrow> ('d, 'r) mop) \<Rightarrow> signal option \<Rightarrow> ('d, 'o) monitor \<Rightarrow> thread_id set \<Rightarrow> bool" where
  "Condition_notifies ops None m S \<longleftrightarrow> S = {}"
| "Condition_notifies ops (Some (Notify c)) m S \<longleftrightarrow>
     S \<subseteq> blocked ops c m \<and> (blocked ops c m \<noteq> {} \<longrightarrow> S \<noteq> {})"
| "Condition_notifies ops (Some (NotifyAll c)) m S \<longleftrightarrow> S = blocked ops c m"

text \<open>
  The steps, with the operation, its thread and its result as the label of the step that runs the body.
  Thread numbers are positive.
\<close>

inductive mstep ::
  "('o \<Rightarrow> ('d, 'r) mop) \<Rightarrow> ('d, 'o) monitor \<Rightarrow> (thread_id \<times> 'o \<times> 'r) option \<Rightarrow> ('d, 'o) monitor \<Rightarrow> bool" for ops where
  m_lock: "pc m t = Outside \<Longrightarrow> 0 < t \<Longrightarrow> mutex m = None \<Longrightarrow> mstep ops m None (MutexLock_lock1 t p m)"
| m_assign: "pc m t = Locked p \<Longrightarrow> mstep ops m None (MutexLock_lock2 t p m)"
| m_wait: "pc m t = Testing p \<Longrightarrow> \<not> op_ready (ops p) (mdata m) \<Longrightarrow> mstep ops m None (Condition_wait1 t p m)"
| m_sleep: "pc m t = PreWait p \<Longrightarrow> mstep ops m None (Condition_wait2 t p m)"
| m_spurious: "pc m t = Asleep p \<Longrightarrow> mstep ops m None (goto t (Awake p) m)"
| m_relock: "pc m t = Awake p \<Longrightarrow> mutex m = None \<Longrightarrow> mstep ops m None (Condition_wait3 t p m)"
| m_reassign: "pc m t = Relocked p \<Longrightarrow> mstep ops m None (Condition_wait4 t p m)"
| m_body: "pc m t = Testing p \<Longrightarrow> op_ready (ops p) (mdata m) \<Longrightarrow> op_body (ops p) (mdata m) = (r, d) \<Longrightarrow>
    mstep ops m (Some (t, p, r)) (goto t (Signalling p) (m\<lparr>mdata := d\<rparr>))"
| m_notify: "pc m t = Signalling p \<Longrightarrow> Condition_notifies ops (op_signal (ops p) (mdata m)) m S \<Longrightarrow>
    mstep ops m None (MutexLock_unlock1 t p (wake S m))"
| m_unlock: "pc m t = Unassigned p \<Longrightarrow> mstep ops m None (MutexLock_unlock2 t m)"

text \<open>What is reached from the constructor, with the labels so far.\<close>

inductive mreach :: "('o \<Rightarrow> ('d, 'r) mop) \<Rightarrow> 'd \<Rightarrow> ('d, 'o) monitor \<Rightarrow> (thread_id \<times> 'o \<times> 'r) list \<Rightarrow> bool" for ops d0 where
  m_start: "mreach ops d0 (MutexLock_ctor d0) []"
| m_quiet: "mreach ops d0 m h \<Longrightarrow> mstep ops m None m' \<Longrightarrow> mreach ops d0 m' h"
| m_event: "mreach ops d0 m h \<Longrightarrow> mstep ops m (Some e) m' \<Longrightarrow> mreach ops d0 m' (h @ [e])"

inductive_cases quiet_stepE: "mstep ops m None m'"
inductive_cases body_stepE: "mstep ops m (Some e) m'"

section \<open>Who holds the mutex\<close>

text \<open>The places in which a thread owns the mutex, and those in which \<open>holder_\<close> says so.\<close>

fun owns :: "'o loc \<Rightarrow> bool" where
  "owns (Locked p) = True" | "owns (Testing p) = True" | "owns (PreWait p) = True"
| "owns (Relocked p) = True" | "owns (Signalling p) = True" | "owns (Unassigned p) = True"
| "owns Outside = False" | "owns (Asleep p) = False" | "owns (Awake p) = False"

fun held :: "'o loc \<Rightarrow> bool" where
  "held (Testing p) = True" | "held (Signalling p) = True"
| "held (Locked p) = False" | "held (PreWait p) = False" | "held (Relocked p) = False"
| "held (Unassigned p) = False" | "held Outside = False" | "held (Asleep p) = False" | "held (Awake p) = False"

lemma held_owns: "held l \<Longrightarrow> owns l"
  by (cases l) simp_all

definition mutex_inv :: "('d, 'o) monitor \<Rightarrow> bool" where
  "mutex_inv m \<longleftrightarrow> (\<forall>t. owns (pc m t) \<longleftrightarrow> mutex m = Some t) \<and> pc m 0 = Outside \<and>
     (\<forall>t. 0 < t \<longrightarrow> (held (pc m t) \<longleftrightarrow> holder m = t)) \<and> finite {t. pc m t \<noteq> Outside}"

lemmas monitor_defs =
  goto_def MutexLock_lock1_def MutexLock_lock2_def MutexLock_unlock1_def MutexLock_unlock2_def
  Condition_wait1_def Condition_wait2_def Condition_wait3_def Condition_wait4_def
  MutexLock_assignHolder_def MutexLock_unassignHolder_def UnassignGuard_ctor_def UnassignGuard_dtor_def

lemma wake_frame [simp]:
  "mutex (wake S m) = mutex m" "holder (wake S m) = holder m" "mdata (wake S m) = mdata m"
  "owns (pc (wake S m) t) = owns (pc m t)" "held (pc (wake S m) t) = held (pc m t)"
  "(pc (wake S m) t = Outside) = (pc m t = Outside)"
  by (auto simp: wake_def split: loc.splits)

lemma finite_goto [simp]:
  "finite {t'. ((pc m)(t := l)) t' \<noteq> Outside} = finite {t'. pc m t' \<noteq> Outside}"
proof -
  have "{t'. ((pc m)(t := l)) t' \<noteq> Outside} \<subseteq> insert t {t'. pc m t' \<noteq> Outside}"
    "{t'. pc m t' \<noteq> Outside} \<subseteq> insert t {t'. ((pc m)(t := l)) t' \<noteq> Outside}" by (auto split: if_splits)
  then show ?thesis by (meson finite_insert finite_subset)
qed

text \<open>One thread at a time moves; what it needs to keep the invariant.\<close>

lemma mutex_inv_move:
  assumes inv: "mutex_inv m" and t: "0 < t" and pc: "pc m' = (pc m)(t := l)"
    and others: "\<And>t'. t' \<noteq> t \<Longrightarrow> mutex m' = Some t' \<longleftrightarrow> mutex m = Some t'"
      "\<And>t'. t' \<noteq> t \<Longrightarrow> 0 < t' \<Longrightarrow> holder m' = t' \<longleftrightarrow> holder m = t'"
    and own: "owns l \<longleftrightarrow> mutex m' = Some t" "held l \<longleftrightarrow> holder m' = t"
  shows "mutex_inv m'"
proof -
  have "finite {t'. pc m' t' \<noteq> Outside}" using inv unfolding pc finite_goto by (simp add: mutex_inv_def)
  moreover have "(\<forall>t'. owns (pc m' t') \<longleftrightarrow> mutex m' = Some t') \<and> pc m' 0 = Outside \<and>
     (\<forall>t'. 0 < t' \<longrightarrow> (held (pc m' t') \<longleftrightarrow> holder m' = t'))"
    using inv t others own unfolding mutex_inv_def pc by auto
  ultimately show ?thesis by (simp add: mutex_inv_def)
qed

lemma moving_thread:
  assumes "mutex_inv m" and "pc m t \<noteq> Outside"
  shows "0 < t" "\<And>t'. owns (pc m t) \<Longrightarrow> mutex m = Some t' \<longleftrightarrow> t' = t"
    "held (pc m t) \<longleftrightarrow> holder m = t" "\<And>t'. owns (pc m t) \<Longrightarrow> t' \<noteq> t \<Longrightarrow> 0 < t' \<Longrightarrow> holder m \<noteq> t'"
proof -
  show t: "0 < t" using assms by (cases t) (auto simp: mutex_inv_def)
  show "mutex m = Some t' \<longleftrightarrow> t' = t" if "owns (pc m t)" for t' using assms(1) that by (auto simp: mutex_inv_def)
  show "held (pc m t) \<longleftrightarrow> holder m = t" using assms(1) t by (auto simp: mutex_inv_def)
  show "holder m \<noteq> t'" if "owns (pc m t)" "t' \<noteq> t" "0 < t'" for t'
    using assms(1) that held_owns[of "pc m t'"] by (metis mutex_inv_def option.inject)
qed

lemma mutex_inv_wake: "mutex_inv (wake S m) \<longleftrightarrow> mutex_inv m"
  by (simp add: mutex_inv_def)

lemma mutex_inv_step:
  assumes "mstep ops m e m'" and inv: "mutex_inv m"
  shows "mutex_inv m'"
  using assms(1)
proof (cases rule: mstep.cases)
  case (m_lock t p)
  have "holder m \<noteq> t" using inv m_lock by (metis mutex_inv_def held.simps(7))
  then show ?thesis using inv m_lock
    by (intro mutex_inv_move[OF inv, of t _ "Locked p"]) (auto simp: monitor_defs)
next
  case (m_assign t p)
  note M = moving_thread[OF inv, of t]
  show ?thesis using M m_assign
    by (intro mutex_inv_move[OF inv, of t _ "Testing p"]) (auto simp: monitor_defs)
next
  case (m_wait t p)
  note M = moving_thread[OF inv, of t]
  show ?thesis using M m_wait
    by (intro mutex_inv_move[OF inv, of t _ "PreWait p"]) (auto simp: monitor_defs)
next
  case (m_sleep t p)
  note M = moving_thread[OF inv, of t]
  show ?thesis using M m_sleep
    by (intro mutex_inv_move[OF inv, of t _ "Asleep p"]) (auto simp: monitor_defs)
next
  case (m_spurious t p)
  note M = moving_thread[OF inv, of t]
  have "mutex m \<noteq> Some t" using inv m_spurious by (metis mutex_inv_def owns.simps(8))
  then show ?thesis using M m_spurious
    by (intro mutex_inv_move[OF inv, of t _ "Awake p"]) (auto simp: monitor_defs)
next
  case (m_relock t p)
  note M = moving_thread[OF inv, of t]
  show ?thesis using M m_relock
    by (intro mutex_inv_move[OF inv, of t _ "Relocked p"]) (auto simp: monitor_defs)
next
  case (m_reassign t p)
  note M = moving_thread[OF inv, of t]
  show ?thesis using M m_reassign
    by (intro mutex_inv_move[OF inv, of t _ "Testing p"]) (auto simp: monitor_defs)
next
  case (m_body t p r d)
  note M = moving_thread[OF inv, of t]
  show ?thesis using M m_body
    by (intro mutex_inv_move[OF inv, of t _ "Signalling p"]) (auto simp: monitor_defs)
next
  case (m_notify t p S)
  have inv': "mutex_inv (wake S m)" using inv by (simp add: mutex_inv_wake)
  have pc: "pc (wake S m) t = Signalling p" using m_notify by (simp add: wake_def)
  note M = moving_thread[OF inv', of t, unfolded pc]
  show ?thesis using M m_notify
    by (intro mutex_inv_move[OF inv', of t _ "Unassigned p"]) (auto simp: monitor_defs)
next
  case (m_unlock t p)
  note M = moving_thread[OF inv, of t]
  show ?thesis using M m_unlock
    by (intro mutex_inv_move[OF inv, of t _ Outside]) (auto simp: monitor_defs)
qed

lemma mreach_mutex: "mreach ops d0 m h \<Longrightarrow> mutex_inv m"
proof (induction rule: mreach.induct)
  case m_start
  then show ?case by (simp add: mutex_inv_def MutexLock_ctor_def)
qed (blast intro: mutex_inv_step)+

lemma only_owner:
  assumes "mutex_inv m" and "owns (pc m t)" and "owns (pc m t')"
  shows "t' = t"
  using assms by (auto simp: mutex_inv_def)

section \<open>No lost wake-ups\<close>

text \<open>The operation that a thread inside, or on its way back, is about to test the guard of.\<close>

fun to_test :: "'o loc \<Rightarrow> 'o option" where
  "to_test (Locked p) = Some p" | "to_test (Testing p) = Some p" | "to_test (Awake p) = Some p"
| "to_test (Relocked p) = Some p"
| "to_test (PreWait p) = None" | "to_test (Asleep p) = None" | "to_test (Signalling p) = None"
| "to_test (Unassigned p) = None" | "to_test Outside = None"

definition is_taker :: "('o \<Rightarrow> ('d, 'r) mop) \<Rightarrow> cond \<Rightarrow> 'o loc \<Rightarrow> bool" where
  "is_taker ops c l \<longleftrightarrow> (case to_test l of None \<Rightarrow> False | Some p \<Rightarrow> waits_on (ops p) c)"

definition is_giver :: "('o \<Rightarrow> ('d, 'r) mop) \<Rightarrow> cond \<Rightarrow> 'd \<Rightarrow> 'o loc \<Rightarrow> bool" where
  "is_giver ops c d l \<longleftrightarrow> (case l of Signalling p \<Rightarrow> op_signal (ops p) d = Some (Notify c) | _ \<Rightarrow> False)"

definition takers :: "('o \<Rightarrow> ('d, 'r) mop) \<Rightarrow> cond \<Rightarrow> ('d, 'o) monitor \<Rightarrow> thread_id set" where
  "takers ops c m = {t. is_taker ops c (pc m t)}"

definition givers :: "('o \<Rightarrow> ('d, 'r) mop) \<Rightarrow> cond \<Rightarrow> ('d, 'o) monitor \<Rightarrow> thread_id set" where
  "givers ops c m = {t. is_giver ops c (mdata m) (pc m t)}"

lemma taker_simps [simp]:
  "is_taker ops c (Locked p) = waits_on (ops p) c" "is_taker ops c (Testing p) = waits_on (ops p) c"
  "is_taker ops c (Awake p) = waits_on (ops p) c" "is_taker ops c (Relocked p) = waits_on (ops p) c"
  "\<not> is_taker ops c (PreWait p)" "\<not> is_taker ops c (Asleep p)" "\<not> is_taker ops c (Signalling p)"
  "\<not> is_taker ops c (Unassigned p)" "\<not> is_taker ops c Outside"
  by (simp_all add: is_taker_def)

lemma giver_simps [simp]:
  "is_giver ops c d (Signalling p) = (op_signal (ops p) d = Some (Notify c))"
  "\<not> is_giver ops c d (Locked p)" "\<not> is_giver ops c d (Testing p)" "\<not> is_giver ops c d (Awake p)"
  "\<not> is_giver ops c d (Relocked p)" "\<not> is_giver ops c d (PreWait p)" "\<not> is_giver ops c d (Asleep p)"
  "\<not> is_giver ops c d (Unassigned p)" "\<not> is_giver ops c d Outside"
  by (simp_all add: is_giver_def)

lemma card_moved:
  assumes "finite {t'. f t' \<noteq> Outside}" and "\<not> P Outside"
  shows "card {t'. P ((f(t := l)) t')} + of_bool (P (f t)) = card {t'. P (f t')} + of_bool (P l)"
proof -
  have fin: "finite {t'. P (f t')}" using assms by (metis (mono_tags, lifting) finite_subset mem_Collect_eq subsetI)
  let ?rest = "{t'. P (f t')} - {t}"
  have new: "{t'. P ((f(t := l)) t')} = (if P l then insert t ?rest else ?rest)" by auto
  have old: "{t'. P (f t')} = (if P (f t) then insert t ?rest else ?rest)" by auto
  have "card {t'. P ((f(t := l)) t')} = card ?rest + of_bool (P l)" unfolding new using fin by (simp add: card_insert_disjoint del: insert_Diff_single)
  moreover have "card {t'. P (f t')} = card ?rest + of_bool (P (f t))" by (subst old) (use fin in \<open>simp add: card_insert_disjoint del: insert_Diff_single\<close>)
  ultimately show ?thesis by simp
qed

text \<open>
  A condition that stands for something countable, such as items or free places: its waiters can go on
  exactly when there is one, they use it up, and whoever makes one more notifies.
\<close>

locale counted_condition =
  fixes ops :: "'o \<Rightarrow> ('d, 'r) mop" and c :: cond and credits :: "'d \<Rightarrow> nat"
  assumes ready: "waits_on (ops p) c \<Longrightarrow> op_ready (ops p) d \<longleftrightarrow> 0 < credits d"
    and taken: "waits_on (ops p) c \<Longrightarrow> 0 < credits d \<Longrightarrow> credits (snd (op_body (ops p) d)) < credits d"
    and given: "\<not> waits_on (ops p) c \<Longrightarrow> op_ready (ops p) d \<Longrightarrow>
      credits (snd (op_body (ops p) d)) \<le> credits d \<or>
      credits (snd (op_body (ops p) d)) = Suc (credits d) \<and>
        op_signal (ops p) (snd (op_body (ops p) d)) = Some (Notify c)"
begin

definition wakeup_inv :: "('d, 'o) monitor \<Rightarrow> bool" where
  "wakeup_inv m \<longleftrightarrow>
     (blocked ops c m \<noteq> {} \<longrightarrow> credits (mdata m) \<le> card (takers ops c m) + card (givers ops c m)) \<and>
     (\<forall>t p. pc m t = PreWait p \<longrightarrow> waits_on (ops p) c \<longrightarrow> credits (mdata m) = 0)"

text \<open>A move of one thread that leaves the data alone.\<close>

lemma wakeup_inv_move:
  assumes inv: "wakeup_inv m" and mu: "mutex_inv m" and m': "pc m' = (pc m)(t := l)" "mdata m' = mdata m"
    and taker: "is_taker ops c (pc m t) \<Longrightarrow> is_taker ops c l \<or> credits (mdata m) = 0"
    and giver: "is_giver ops c (mdata m) (pc m t) \<Longrightarrow> blocked ops c m = {}"
    and blk: "\<And>p. l = Asleep p \<Longrightarrow> waits_on (ops p) c \<Longrightarrow> credits (mdata m) = 0"
    and pre: "\<And>p. l = PreWait p \<Longrightarrow> waits_on (ops p) c \<Longrightarrow> credits (mdata m) = 0"
  shows "wakeup_inv m'"
proof -
  have fin: "finite {t'. pc m t' \<noteq> Outside}" using mu by (simp add: mutex_inv_def)
  have cards: "card (takers ops c m') + of_bool (is_taker ops c (pc m t)) = card (takers ops c m) + of_bool (is_taker ops c l)"
    "card (givers ops c m') + of_bool (is_giver ops c (mdata m) (pc m t)) =
     card (givers ops c m) + of_bool (is_giver ops c (mdata m) l)"
    using card_moved[OF fin, of "is_taker ops c" t l] card_moved[OF fin, of "is_giver ops c (mdata m)" t l]
    by (simp_all add: takers_def givers_def m')
  have blocked: "t' \<in> blocked ops c m \<or> (\<exists>p. l = Asleep p \<and> waits_on (ops p) c)" if "t' \<in> blocked ops c m'" for t'
    using that by (auto simp: blocked_def m' split: if_splits)
  have "credits (mdata m) \<le> card (takers ops c m') + card (givers ops c m')" if b: "blocked ops c m' \<noteq> {}"
  proof (cases "credits (mdata m) = 0")
    case False
    then have "blocked ops c m \<noteq> {}" using b blocked blk by fastforce
    then have "credits (mdata m) \<le> card (takers ops c m) + card (givers ops c m)"
      "\<not> is_giver ops c (mdata m) (pc m t)" using inv giver by (auto simp: wakeup_inv_def)
    moreover have "is_taker ops c (pc m t) \<Longrightarrow> is_taker ops c l" using taker False by blast
    ultimately show ?thesis using cards by (auto simp: of_bool_def split: if_splits)
  qed simp
  moreover have "credits (mdata m) = 0" if "pc m' t' = PreWait p" "waits_on (ops p) c" for t' p
    using that inv pre by (auto simp: wakeup_inv_def m' split: if_splits)
  ultimately show ?thesis unfolding wakeup_inv_def m'(2) by blast
qed

lemma wakeup_inv_body:
  assumes inv: "wakeup_inv m" and mu: "mutex_inv m" and pc: "pc m t = Testing p"
    and rdy: "op_ready (ops p) (mdata m)" and body: "op_body (ops p) (mdata m) = (r, d)"
  shows "wakeup_inv (goto t (Signalling p) (m\<lparr>mdata := d\<rparr>))"
proof -
  let ?m = "goto t (Signalling p) (m\<lparr>mdata := d\<rparr>)"
  have fin: "finite {t'. pc m t' \<noteq> Outside}" using mu by (simp add: mutex_inv_def)
  have alone: "owns (pc m t') \<Longrightarrow> t' = t" for t' using only_owner[OF mu, of t t'] pc by simp
  have no_givers: "givers ops c m = {}"
  proof -
    have "\<not> is_giver ops c (mdata m) (pc m t')" for t' using alone[of t'] pc by (cases "pc m t'") auto
    then show ?thesis by (simp add: givers_def)
  qed
  have takers': "card (takers ops c ?m) + of_bool (waits_on (ops p) c) = card (takers ops c m)"
    using card_moved[OF fin, of "is_taker ops c" t "Signalling p"] pc by (simp add: takers_def goto_def)
  have giver': "op_signal (ops p) d = Some (Notify c) \<Longrightarrow> 1 \<le> card (givers ops c ?m)"
  proof -
    assume "op_signal (ops p) d = Some (Notify c)"
    then have "t \<in> givers ops c ?m" by (simp add: givers_def goto_def)
    moreover have "finite (givers ops c ?m)"
      by (rule finite_subset[of _ "insert t {t'. pc m t' \<noteq> Outside}"]) (use fin in \<open>auto simp: givers_def goto_def\<close>)
    ultimately show "1 \<le> card (givers ops c ?m)" by (metis One_nat_def Suc_le_eq card_gt_0_iff empty_iff)
  qed
  have blocked: "blocked ops c ?m = blocked ops c m" using pc by (auto simp: blocked_def goto_def)
  have "credits d \<le> card (takers ops c ?m) + card (givers ops c ?m)" if "blocked ops c m \<noteq> {}"
  proof -
    have le: "credits (mdata m) \<le> card (takers ops c m)"
      using inv that no_givers by (simp add: wakeup_inv_def)
    show ?thesis
    proof (cases "waits_on (ops p) c")
      case True
      then have "credits d < credits (mdata m)" using taken[OF True, of "mdata m"] ready[OF True] rdy body by simp
      then show ?thesis using le takers' True by simp
    next
      case False
      then show ?thesis using le takers' giver' given[OF False rdy] body by auto
    qed
  qed
  moreover have "pc ?m t' \<noteq> PreWait p'" for t' p' using alone[of t'] pc by (auto simp: goto_def split: if_splits)
  ultimately show ?thesis unfolding wakeup_inv_def blocked by (auto simp: goto_def)
qed

lemma wakeup_inv_notify:
  assumes inv: "wakeup_inv m" and mu: "mutex_inv m" and pc: "pc m t = Signalling p"
    and S: "Condition_notifies ops (op_signal (ops p) (mdata m)) m S"
  shows "wakeup_inv (MutexLock_unlock1 t p (wake S m))"
proof -
  let ?m = "MutexLock_unlock1 t p (wake S m)"
  have fin: "finite {t'. pc m t' \<noteq> Outside}" using mu by (simp add: mutex_inv_def)
  have m': "mdata ?m = mdata m" "pc ?m t = Unassigned p" "\<And>t'. t' \<noteq> t \<Longrightarrow> pc ?m t' = pc (wake S m) t'"
    by (simp_all add: monitor_defs)
  have finm: "finite {t'. pc ?m t' \<noteq> Outside}"
    by (rule finite_subset[of _ "insert t {t'. pc m t' \<noteq> Outside}"]) (use fin in \<open>auto simp: monitor_defs\<close>)
  have "t' \<in> blocked ops c ?m \<longleftrightarrow> t' \<in> blocked ops c m - S" for t'
    using pc by (cases "t' = t"; cases "pc m t'") (auto simp: blocked_def monitor_defs wake_def)
  then have blocked: "blocked ops c ?m = blocked ops c m - S" by blast
  have takers: "takers ops c m \<union> (S \<inter> blocked ops c m) \<subseteq> takers ops c ?m"
    using pc by (auto simp: takers_def blocked_def monitor_defs wake_def split: loc.splits)
  have "finite (takers ops c ?m)" by (rule finite_subset[OF _ finm]) (auto simp: takers_def)
  from card_mono[OF this takers] have card_t: "card (takers ops c m \<union> (S \<inter> blocked ops c m)) \<le> card (takers ops c ?m)" .
  have disj: "takers ops c m \<inter> (S \<inter> blocked ops c m) = {}" by (auto simp: takers_def blocked_def)
  have fint: "finite (takers ops c m)" "finite (S \<inter> blocked ops c m)"
    by (rule finite_subset[OF _ fin]; auto simp: takers_def blocked_def)+
  have givers: "givers ops c m - {t} \<subseteq> givers ops c ?m"
    by (auto simp: givers_def monitor_defs wake_def split: loc.splits)
  have "finite (givers ops c ?m)" by (rule finite_subset[OF _ finm]) (auto simp: givers_def)
  from card_mono[OF this givers] have card_g: "card (givers ops c m) - of_bool (t \<in> givers ops c m) \<le> card (givers ops c ?m)"
    by (cases "t \<in> givers ops c m") (simp_all add: card_Diff_singleton_if)
  have woken: "S \<inter> blocked ops c m \<noteq> {}" if "t \<in> givers ops c m" "blocked ops c m \<noteq> {}"
    using S that pc by (auto simp: givers_def)
  have "credits (mdata m) \<le> card (takers ops c ?m) + card (givers ops c ?m)" if "blocked ops c m - S \<noteq> {}"
  proof -
    have b: "blocked ops c m \<noteq> {}" using that by blast
    then have le: "credits (mdata m) \<le> card (takers ops c m) + card (givers ops c m)" using inv by (simp add: wakeup_inv_def)
    have sum: "card (takers ops c m) + card (S \<inter> blocked ops c m) \<le> card (takers ops c ?m)"
      using card_t card_Un_disjoint[OF fint disj] by simp
    show ?thesis
    proof (cases "t \<in> givers ops c m")
      case True
      then have "1 \<le> card (S \<inter> blocked ops c m)" using woken b fint(2) by (metis One_nat_def Suc_le_eq card_gt_0_iff)
      then show ?thesis using le sum card_g True by simp
    next
      case False
      then show ?thesis using le sum card_g by simp
    qed
  qed
  moreover have "credits (mdata m) = 0" if "pc ?m t' = PreWait p'" "waits_on (ops p') c" for t' p'
    using that inv m'(2) by (auto simp: wakeup_inv_def monitor_defs wake_def split: loc.splits if_splits)
  ultimately show ?thesis unfolding wakeup_inv_def blocked m'(1) by blast
qed

lemma wakeup_inv_step:
  assumes "mstep ops m e m'" and mu: "mutex_inv m" and inv: "wakeup_inv m"
  shows "wakeup_inv m'"
  using assms(1)
proof (cases rule: mstep.cases)
  case (m_lock t p)
  then show ?thesis by (intro wakeup_inv_move[OF inv mu, of m' t "Locked p"]) (auto simp: monitor_defs)
next
  case (m_assign t p)
  then show ?thesis by (intro wakeup_inv_move[OF inv mu, of m' t "Testing p"]) (auto simp: monitor_defs)
next
  case (m_wait t p)
  have "waits_on (ops p) c \<Longrightarrow> credits (mdata m) = 0" using ready[of p "mdata m"] m_wait by simp
  then show ?thesis using m_wait
    by (intro wakeup_inv_move[OF inv mu, of m' t "PreWait p"]) (auto simp: monitor_defs)
next
  case (m_sleep t p)
  have "waits_on (ops p) c \<Longrightarrow> credits (mdata m) = 0" using inv m_sleep by (auto simp: wakeup_inv_def)
  then show ?thesis using m_sleep
    by (intro wakeup_inv_move[OF inv mu, of m' t "Asleep p"]) (auto simp: monitor_defs)
next
  case (m_spurious t p)
  then show ?thesis by (intro wakeup_inv_move[OF inv mu, of m' t "Awake p"]) (auto simp: monitor_defs)
next
  case (m_relock t p)
  then show ?thesis by (intro wakeup_inv_move[OF inv mu, of m' t "Relocked p"]) (auto simp: monitor_defs)
next
  case (m_reassign t p)
  then show ?thesis by (intro wakeup_inv_move[OF inv mu, of m' t "Testing p"]) (auto simp: monitor_defs)
next
  case (m_body t p r d)
  then show ?thesis using wakeup_inv_body[OF inv mu] by simp
next
  case (m_notify t p S)
  then show ?thesis using wakeup_inv_notify[OF inv mu] by simp
next
  case (m_unlock t p)
  then show ?thesis by (intro wakeup_inv_move[OF inv mu, of m' t Outside]) (auto simp: monitor_defs)
qed

lemma mreach_wakeup: "mreach ops d0 m h \<Longrightarrow> wakeup_inv m"
proof (induction rule: mreach.induct)
  case m_start
  then show ?case by (simp add: wakeup_inv_def MutexLock_ctor_def blocked_def)
qed (blast intro: wakeup_inv_step dest: mreach_mutex)+

text \<open>Whoever is blocked although there is something for it is about to be overtaken or woken.\<close>

lemma blocked_not_forgotten:
  assumes "mreach ops d0 m h" and "blocked ops c m \<noteq> {}" and "0 < credits (mdata m)"
  shows "takers ops c m \<noteq> {} \<or> givers ops c m \<noteq> {}"
proof -
  have "0 < card (takers ops c m) + card (givers ops c m)"
    using mreach_wakeup[OF assms(1)] assms(2,3) by (auto simp: wakeup_inv_def)
  then show ?thesis by (metis add_is_0 card.empty less_numeral_extra(3))
qed

end

text \<open>A thread that owns the mutex, or is unblocked while nobody owns it, can move.\<close>

lemma owner_moves:
  assumes "owns (pc m t)"
  shows "\<exists>e m'. mstep ops m e m'"
proof (cases "pc m t")
  case (Locked p)
  then show ?thesis by (blast intro: mstep.m_assign)
next
  case (Testing p)
  obtain r d where "op_body (ops p) (mdata m) = (r, d)" by fastforce
  then show ?thesis using Testing by (cases "op_ready (ops p) (mdata m)") (blast intro: mstep.m_body mstep.m_wait)+
next
  case (PreWait p)
  then show ?thesis by (blast intro: mstep.m_sleep)
next
  case (Relocked p)
  then show ?thesis by (blast intro: mstep.m_reassign)
next
  case (Signalling p)
  have "\<exists>S. Condition_notifies ops (op_signal (ops p) (mdata m)) m S"
  proof (cases "op_signal (ops p) (mdata m)")
    case (Some a)
    then show ?thesis by (cases a) (auto intro: exI[of _ "blocked ops _ m"])
  qed auto
  then show ?thesis using Signalling by (blast intro: mstep.m_notify)
next
  case (Unassigned p)
  then show ?thesis by (blast intro: mstep.m_unlock)
qed (use assms in simp_all)

section \<open>Gates\<close>

text \<open>
  A condition that stands for a gate: its waiters can go on exactly when it is open, and whoever opens it
  notifies all of them.
\<close>

locale gate_condition =
  fixes ops :: "'o \<Rightarrow> ('d, 'r) mop" and c :: cond and is_open :: "'d \<Rightarrow> bool"
  assumes gate_ready: "waits_on (ops p) c \<Longrightarrow> op_ready (ops p) d \<longleftrightarrow> is_open d"
    and opened: "op_ready (ops p) d \<Longrightarrow> \<not> is_open d \<Longrightarrow> is_open (snd (op_body (ops p) d)) \<Longrightarrow>
      op_signal (ops p) (snd (op_body (ops p) d)) = Some (NotifyAll c)"
begin

definition signal_due :: "('d, 'o) monitor \<Rightarrow> bool" where
  "signal_due m \<longleftrightarrow> (\<exists>t p. pc m t = Signalling p \<and> op_signal (ops p) (mdata m) = Some (NotifyAll c))"

definition gate_inv :: "('d, 'o) monitor \<Rightarrow> bool" where
  "gate_inv m \<longleftrightarrow> (blocked ops c m \<noteq> {} \<longrightarrow> \<not> is_open (mdata m) \<or> signal_due m) \<and>
     (\<forall>t p. pc m t = PreWait p \<longrightarrow> waits_on (ops p) c \<longrightarrow> \<not> is_open (mdata m))"

lemma gate_inv_move:
  assumes inv: "gate_inv m" and m': "pc m' = (pc m)(t := l)" "mdata m' = mdata m"
    and sig: "\<And>p. pc m t \<noteq> Signalling p"
    and blk: "\<And>p. l = Asleep p \<or> l = PreWait p \<Longrightarrow> waits_on (ops p) c \<Longrightarrow> \<not> is_open (mdata m)"
  shows "gate_inv m'"
proof -
  have "signal_due m \<Longrightarrow> signal_due m'" using sig unfolding signal_due_def m' by (metis fun_upd_other)
  moreover have "t' \<in> blocked ops c m \<or> (\<exists>p. l = Asleep p \<and> waits_on (ops p) c)" if "t' \<in> blocked ops c m'" for t'
    using that by (auto simp: blocked_def m' split: if_splits)
  moreover have "\<not> is_open (mdata m)" if "pc m' t' = PreWait p" "waits_on (ops p) c" for t' p
    using that inv blk by (auto simp: gate_inv_def m' split: if_splits)
  ultimately show ?thesis using inv blk unfolding gate_inv_def m'(2) by blast
qed

lemma gate_inv_body:
  assumes inv: "gate_inv m" and mu: "mutex_inv m" and pc: "pc m t = Testing p"
    and rdy: "op_ready (ops p) (mdata m)" and body: "op_body (ops p) (mdata m) = (r, d)"
  shows "gate_inv (goto t (Signalling p) (m\<lparr>mdata := d\<rparr>))"
proof -
  let ?m = "goto t (Signalling p) (m\<lparr>mdata := d\<rparr>)"
  have alone: "t' = t" if "owns (pc m t')" for t' using mu pc that by (auto simp: mutex_inv_def)
  have "\<not> signal_due m"
  proof
    assume "signal_due m"
    then obtain t' p' where "pc m t' = Signalling p'" by (auto simp: signal_due_def)
    then show False using alone[of t'] pc by simp
  qed
  moreover have "blocked ops c ?m = blocked ops c m" using pc by (auto simp: blocked_def goto_def)
  moreover have "signal_due ?m" if "\<not> is_open (mdata m)" "is_open d"
    using opened[OF rdy that(1)] that(2) body by (auto simp: signal_due_def goto_def)
  moreover have "pc ?m t' \<noteq> PreWait p'" for t' p' using alone[of t'] pc by (auto simp: goto_def split: if_splits)
  ultimately show ?thesis using inv unfolding gate_inv_def by (auto simp: goto_def)
qed

lemma gate_inv_notify:
  assumes inv: "gate_inv m" and mu: "mutex_inv m" and pc: "pc m t = Signalling p"
    and S: "Condition_notifies ops (op_signal (ops p) (mdata m)) m S"
  shows "gate_inv (MutexLock_unlock1 t p (wake S m))"
proof -
  let ?m = "MutexLock_unlock1 t p (wake S m)"
  have alone: "t' = t" if "owns (pc m t')" for t' using mu pc that by (auto simp: mutex_inv_def)
  have "t' \<in> blocked ops c ?m \<longleftrightarrow> t' \<in> blocked ops c m - S" for t'
    using pc by (cases "t' = t"; cases "pc m t'") (auto simp: blocked_def monitor_defs wake_def)
  then have blocked: "blocked ops c ?m = blocked ops c m - S" by blast
  have mine: "op_signal (ops p) (mdata m) = Some (NotifyAll c)" if due: "signal_due m"
  proof -
    obtain t' p' where t': "pc m t' = Signalling p'" "op_signal (ops p') (mdata m) = Some (NotifyAll c)"
      using due by (auto simp: signal_due_def)
    then show ?thesis using alone[of t'] pc by simp
  qed
  have "\<not> is_open (mdata m)" if "blocked ops c m - S \<noteq> {}"
  proof -
    have "\<not> signal_due m" using that S mine by auto
    then show ?thesis using that inv by (auto simp: gate_inv_def)
  qed
  moreover have "\<not> is_open (mdata m)" if "pc ?m t' = PreWait p'" "waits_on (ops p') c" for t' p'
  proof -
    have "pc m t' = PreWait p'" using that(1) pc by (cases "t' = t"; cases "pc m t'") (auto simp: monitor_defs wake_def split: if_splits)
    then show ?thesis using that(2) inv by (auto simp: gate_inv_def)
  qed
  moreover have "mdata ?m = mdata m" by (simp add: monitor_defs)
  ultimately show ?thesis unfolding gate_inv_def blocked by simp
qed

lemma gate_inv_step:
  assumes "mstep ops m e m'" and mu: "mutex_inv m" and inv: "gate_inv m"
  shows "gate_inv m'"
  using assms(1)
proof (cases rule: mstep.cases)
  case (m_lock t p)
  then show ?thesis by (intro gate_inv_move[OF inv, of m' t "Locked p"]) (auto simp: monitor_defs)
next
  case (m_assign t p)
  then show ?thesis by (intro gate_inv_move[OF inv, of m' t "Testing p"]) (auto simp: monitor_defs)
next
  case (m_wait t p)
  then show ?thesis using gate_ready[of p "mdata m"]
    by (intro gate_inv_move[OF inv, of m' t "PreWait p"]) (auto simp: monitor_defs)
next
  case (m_sleep t p)
  then show ?thesis using inv
    by (intro gate_inv_move[OF inv, of m' t "Asleep p"]) (auto simp: monitor_defs gate_inv_def)
next
  case (m_spurious t p)
  then show ?thesis by (intro gate_inv_move[OF inv, of m' t "Awake p"]) (auto simp: monitor_defs)
next
  case (m_relock t p)
  then show ?thesis by (intro gate_inv_move[OF inv, of m' t "Relocked p"]) (auto simp: monitor_defs)
next
  case (m_reassign t p)
  then show ?thesis by (intro gate_inv_move[OF inv, of m' t "Testing p"]) (auto simp: monitor_defs)
next
  case (m_body t p r d)
  then show ?thesis using gate_inv_body[OF inv mu] by simp
next
  case (m_notify t p S)
  then show ?thesis using gate_inv_notify[OF inv mu] by simp
next
  case (m_unlock t p)
  then show ?thesis by (intro gate_inv_move[OF inv, of m' t Outside]) (auto simp: monitor_defs)
qed

lemma mreach_gate: "mreach ops d0 m h \<Longrightarrow> gate_inv m"
proof (induction rule: mreach.induct)
  case m_start
  then show ?case by (simp add: gate_inv_def MutexLock_ctor_def blocked_def)
qed (blast intro: gate_inv_step dest: mreach_mutex)+

end

section \<open>States of two threads\<close>

text \<open>For concrete runs: threads 2 and 3 are somewhere, all others outside.\<close>

definition two :: "thread_id option \<Rightarrow> thread_id \<Rightarrow> 'd \<Rightarrow> 'o loc \<Rightarrow> 'o loc \<Rightarrow> ('d, 'o) monitor" where
  "two mu ho d l2 l3 = \<lparr>mutex = mu, holder = ho, mdata = d, pc = (\<lambda>_. Outside)(2 := l2, 3 := l3)\<rparr>"

lemma two_simps [simp]:
  "mutex (two mu ho d l2 l3) = mu" "holder (two mu ho d l2 l3) = ho" "mdata (two mu ho d l2 l3) = d"
  "pc (two mu ho d l2 l3) 2 = l2" "pc (two mu ho d l2 l3) 3 = l3"
  "goto 2 l (two mu ho d l2 l3) = two mu ho d l l3" "goto 3 l (two mu ho d l2 l3) = two mu ho d l2 l"
  "(two mu ho d l2 l3)\<lparr>mutex := mu'\<rparr> = two mu' ho d l2 l3"
  "(two mu ho d l2 l3)\<lparr>holder := ho'\<rparr> = two mu ho' d l2 l3"
  "(two mu ho d l2 l3)\<lparr>mdata := d'\<rparr> = two mu ho d' l2 l3"
  by (simp_all add: two_def goto_def fun_eq_iff)

lemma two_start: "mreach ops d (two None 0 d Outside Outside) []"
  using m_start[of ops d] by (simp add: MutexLock_ctor_def two_def fun_upd_idem)

text \<open>The first half of an operation of thread 2 and of thread 3.\<close>

lemma two_enter2:
  assumes "mreach ops d0 (two None ho d Outside l) h"
  shows "mreach ops d0 (two (Some 2) 2 d (Testing p) l) h"
proof -
  have "mreach ops d0 (two (Some 2) ho d (Locked p) l) h"
    by (rule m_quiet[OF assms]) (use mstep.m_lock[of "two None ho d Outside l" 2 ops p] in \<open>simp add: MutexLock_lock1_def\<close>)
  then show ?thesis
    by (rule m_quiet)
      (use mstep.m_assign[of "two (Some 2) ho d (Locked p) l" 2 p ops] in \<open>simp add: MutexLock_lock2_def MutexLock_assignHolder_def\<close>)
qed

lemma two_enter3:
  assumes "mreach ops d0 (two None ho d l Outside) h"
  shows "mreach ops d0 (two (Some 3) 3 d l (Testing p)) h"
proof -
  have "mreach ops d0 (two (Some 3) ho d l (Locked p)) h"
    by (rule m_quiet[OF assms]) (use mstep.m_lock[of "two None ho d l Outside" 3 ops p] in \<open>simp add: MutexLock_lock1_def\<close>)
  then show ?thesis
    by (rule m_quiet)
      (use mstep.m_assign[of "two (Some 3) ho d l (Locked p)" 3 p ops] in \<open>simp add: MutexLock_lock2_def MutexLock_assignHolder_def\<close>)
qed

lemma two_block2:
  assumes "mreach ops d0 (two (Some 2) 2 d (Testing p) l) h" and "\<not> op_ready (ops p) d"
  shows "mreach ops d0 (two None 0 d (Asleep p) l) h"
proof -
  have "mreach ops d0 (two (Some 2) 0 d (PreWait p) l) h"
    by (rule m_quiet[OF assms(1)])
      (use mstep.m_wait[of "two (Some 2) 2 d (Testing p) l" 2 p ops] assms(2) in
        \<open>simp add: Condition_wait1_def UnassignGuard_ctor_def MutexLock_unassignHolder_def\<close>)
  then show ?thesis
    by (rule m_quiet) (use mstep.m_sleep[of "two (Some 2) 0 d (PreWait p) l" 2 p ops] in \<open>simp add: Condition_wait2_def\<close>)
qed

lemma two_body3:
  assumes "mreach ops d0 (two mu ho d l (Testing p)) h" and "op_ready (ops p) d" and "op_body (ops p) d = (r, d')"
  shows "mreach ops d0 (two mu ho d' l (Signalling p)) (h @ [(3, p, r)])"
  by (rule m_event[OF assms(1)]) (use mstep.m_body[of "two mu ho d l (Testing p)" 3 p ops r d'] assms(2,3) in simp)

end
