(* ===== verification/Blocking_Queues.thy ===== *)
theory Blocking_Queues
  imports Monitors
begin

text \<open>
  The library's three monitors: \<open>BlockingQueue\<close> (base/BlockingQueue.h), \<open>BoundedBlockingQueue\<close>
  (base/BoundedBlockingQueue.h) and \<open>CountDownLatch\<close> (base/CountDownLatch.h, base/CountDownLatch.cc), as
  operations for the step relation of \<open>Monitors\<close>. The lemmas show that the queues deliver what was put,
  in order, within their bounds, that their assertions hold, and that no wake-up is lost.
\<close>

section \<open>BlockingQueue\<close>

text \<open>\<open>notEmpty_\<close> is condition 0. The result of an operation is a \<open>reply\<close>; taking from an empty queue is \<open>AssertFailed\<close>.\<close>

datatype 'a queue_op = Put 'a | Take | Size | Is_empty | Is_full | Capacity

datatype 'a reply = Done | Item 'a | Number nat | Flag bool | Broken failure

definition notEmpty :: cond where "notEmpty = 0"
definition notFull :: cond where "notFull = 1"

definition BlockingQueue_ctor :: "'a list" where "BlockingQueue_ctor = []"

definition BlockingQueue_put :: "'a \<Rightarrow> ('a list, 'a reply) mop" where
  "BlockingQueue_put x =
     \<lparr>op_wait = None, op_body = (\<lambda>q. (Done, q @ [x])), op_signal = (\<lambda>_. Some (Notify notEmpty))\<rparr>"

definition BlockingQueue_take :: "('a list, 'a reply) mop" where
  "BlockingQueue_take =
     \<lparr>op_wait = Some (notEmpty, \<lambda>q. q \<noteq> []),
      op_body = (\<lambda>q. case q of [] \<Rightarrow> (Broken AssertFailed, []) | x # q' \<Rightarrow> (Item x, q')),
      op_signal = (\<lambda>_. None)\<rparr>"

definition BlockingQueue_size :: "('a list, 'a reply) mop" where
  "BlockingQueue_size = \<lparr>op_wait = None, op_body = (\<lambda>q. (Number (length q), q)), op_signal = (\<lambda>_. None)\<rparr>"

text \<open>The class has these three operations; the others are those of the bounded queue.\<close>

fun BlockingQueue_ops :: "'a queue_op \<Rightarrow> ('a list, 'a reply) mop" where
  "BlockingQueue_ops (Put x) = BlockingQueue_put x"
| "BlockingQueue_ops Take = BlockingQueue_take"
| "BlockingQueue_ops _ = BlockingQueue_size"

text \<open>What a history put and what it took.\<close>

fun put_of :: "thread_id \<times> 'a queue_op \<times> 'a reply \<Rightarrow> 'a list" where
  "put_of (t, Put x, r) = [x]"
| "put_of _ = []"

fun taken_of :: "thread_id \<times> 'a queue_op \<times> 'a reply \<Rightarrow> 'a list" where
  "taken_of (t, Take, Item x) = [x]"
| "taken_of _ = []"

definition items_put :: "(thread_id \<times> 'a queue_op \<times> 'a reply) list \<Rightarrow> 'a list" where
  "items_put h = concat (map put_of h)"

definition items_taken :: "(thread_id \<times> 'a queue_op \<times> 'a reply) list \<Rightarrow> 'a list" where
  "items_taken h = concat (map taken_of h)"

definition never_broken :: "(thread_id \<times> 'a queue_op \<times> 'a reply) list \<Rightarrow> bool" where
  "never_broken h \<longleftrightarrow> (\<forall>(t, p, r) \<in> set h. \<forall>e. r \<noteq> Broken e)"

lemma history_simps [simp]:
  "items_put [] = []" "items_put (h @ [e]) = items_put h @ put_of e"
  "items_taken [] = []" "items_taken (h @ [e]) = items_taken h @ taken_of e"
  "never_broken []" "never_broken (h @ [(t, p, r)]) = (never_broken h \<and> (\<forall>e. r \<noteq> Broken e))"
  by (auto simp: items_put_def items_taken_def never_broken_def)

text \<open>Only the step that runs a body changes the data, and it runs ready.\<close>

lemma quiet_step_data: "mstep ops m None m' \<Longrightarrow> mdata m' = mdata m"
  by (erule quiet_stepE) (simp_all add: monitor_defs)

lemma body_step_data:
  "mstep ops m (Some (t, p, r)) m' \<Longrightarrow> op_ready (ops p) (mdata m) \<and> op_body (ops p) (mdata m) = (r, mdata m')"
  by (erule body_stepE) (simp add: monitor_defs)

text \<open>An invariant of data and history that every ready body keeps.\<close>

lemma mreach_data:
  assumes "mreach ops d0 m h" and "I d0 []"
    and "\<And>d h t p r d'. I d h \<Longrightarrow> op_ready (ops p) d \<Longrightarrow> op_body (ops p) d = (r, d') \<Longrightarrow> I d' (h @ [(t, p, r)])"
  shows "I (mdata m) h"
  using assms(1)
proof (induction rule: mreach.induct)
  case m_start
  then show ?case using assms(2) by (simp add: MutexLock_ctor_def)
next
  case (m_quiet m h m')
  then show ?case by (simp add: quiet_step_data)
next
  case (m_event m h e m')
  obtain t p r where e: "e = (t, p, r)" by (cases e)
  then show ?case using m_event body_step_data[of ops m t p r m'] assms(3) by blast
qed

lemma BlockingQueue_waits: "waits_on (BlockingQueue_ops p) c \<longleftrightarrow> p = Take \<and> c = notEmpty"
  by (cases p) (auto simp: waits_on_def BlockingQueue_put_def BlockingQueue_take_def BlockingQueue_size_def)

interpretation bq: counted_condition BlockingQueue_ops notEmpty length
proof unfold_locales
  show "\<not> waits_on (BlockingQueue_ops p) notEmpty \<Longrightarrow> op_ready (BlockingQueue_ops p) d \<Longrightarrow>
      length (snd (op_body (BlockingQueue_ops p) d)) \<le> length d \<or>
      length (snd (op_body (BlockingQueue_ops p) d)) = Suc (length d) \<and>
        op_signal (BlockingQueue_ops p) (snd (op_body (BlockingQueue_ops p) d)) = Some (Notify notEmpty)" for p and d :: "'a list"
    unfolding BlockingQueue_waits by (cases p) (simp_all add: BlockingQueue_put_def BlockingQueue_size_def)
qed (auto simp: BlockingQueue_waits op_ready_def BlockingQueue_take_def split: list.splits)

lemma BlockingQueue_history:
  assumes "mreach BlockingQueue_ops [] m h"
  shows "items_taken h @ mdata m = items_put h \<and> never_broken h"
proof (rule mreach_data[OF assms, where I = "\<lambda>q h. items_taken h @ q = items_put h \<and> never_broken h"])
  fix q :: "'a list" and h t p r d'
  assume I: "items_taken h @ q = items_put h \<and> never_broken h" and rdy: "op_ready (BlockingQueue_ops p) q"
    and body: "op_body (BlockingQueue_ops p) q = (r, d')"
  show "items_taken (h @ [(t, p, r)]) @ d' = items_put (h @ [(t, p, r)]) \<and> never_broken (h @ [(t, p, r)])"
  proof (cases p)
    case Take
    then obtain x q' where "q = x # q'" using rdy by (cases q) (auto simp: op_ready_def BlockingQueue_take_def)
    then show ?thesis using I body Take by (auto simp: BlockingQueue_take_def)
  qed (use I body in \<open>auto simp: BlockingQueue_put_def BlockingQueue_size_def\<close>)
qed simp

section \<open>BoundedBlockingQueue\<close>

text \<open>
  \<open>boost::circular_buffer\<close> is not part of the repository: its operations are an argument. \<open>circular_ok\<close>
  says what its documentation promises, with \<open>content\<close> the elements from the front to the back.
\<close>

record ('b, 'a) circular_ops =
  cb_make :: "size_t \<Rightarrow> 'b"
  cb_full :: "'b \<Rightarrow> bool"
  cb_empty :: "'b \<Rightarrow> bool"
  cb_push_back :: "'a \<Rightarrow> 'b \<Rightarrow> 'b"
  cb_front :: "'b \<Rightarrow> 'a"
  cb_pop_front :: "'b \<Rightarrow> 'b"
  cb_size :: "'b \<Rightarrow> nat"
  cb_capacity :: "'b \<Rightarrow> nat"

definition circular_ok :: "('b, 'a) circular_ops \<Rightarrow> ('b \<Rightarrow> 'a list) \<Rightarrow> bool" where
  "circular_ok C content \<longleftrightarrow>
     (\<forall>n. content (cb_make C n) = [] \<and> cb_capacity C (cb_make C n) = unat n) \<and>
     (\<forall>b. length (content b) \<le> cb_capacity C b) \<and> (\<forall>b. cb_size C b = length (content b)) \<and>
     (\<forall>b. cb_full C b \<longleftrightarrow> length (content b) = cb_capacity C b) \<and> (\<forall>b. cb_empty C b \<longleftrightarrow> content b = []) \<and>
     (\<forall>b x. \<not> cb_full C b \<longrightarrow> content (cb_push_back C x b) = content b @ [x] \<and>
        cb_capacity C (cb_push_back C x b) = cb_capacity C b) \<and>
     (\<forall>b. \<not> cb_empty C b \<longrightarrow> cb_front C b = hd (content b) \<and> content (cb_pop_front C b) = tl (content b) \<and>
        cb_capacity C (cb_pop_front C b) = cb_capacity C b)"

text \<open>The constructor turns the \<open>int\<close> it is given into a capacity.\<close>

definition BoundedBlockingQueue_ctor :: "('b, 'a) circular_ops \<Rightarrow> int \<Rightarrow> 'b" where
  "BoundedBlockingQueue_ctor C maxSize = cb_make C (word_of_int maxSize)"

definition BoundedBlockingQueue_put :: "('b, 'a) circular_ops \<Rightarrow> 'a \<Rightarrow> ('b, 'a reply) mop" where
  "BoundedBlockingQueue_put C x =
     \<lparr>op_wait = Some (notFull, \<lambda>b. \<not> cb_full C b),
      op_body = (\<lambda>b. if cb_full C b then (Broken AssertFailed, b) else (Done, cb_push_back C x b)),
      op_signal = (\<lambda>_. Some (Notify notEmpty))\<rparr>"

definition BoundedBlockingQueue_take :: "('b, 'a) circular_ops \<Rightarrow> ('b, 'a reply) mop" where
  "BoundedBlockingQueue_take C =
     \<lparr>op_wait = Some (notEmpty, \<lambda>b. \<not> cb_empty C b),
      op_body = (\<lambda>b. if cb_empty C b then (Broken AssertFailed, b) else (Item (cb_front C b), cb_pop_front C b)),
      op_signal = (\<lambda>_. Some (Notify notFull))\<rparr>"

definition BoundedBlockingQueue_query :: "('b \<Rightarrow> 'a reply) \<Rightarrow> ('b, 'a reply) mop" where
  "BoundedBlockingQueue_query f = \<lparr>op_wait = None, op_body = (\<lambda>b. (f b, b)), op_signal = (\<lambda>_. None)\<rparr>"

fun BoundedBlockingQueue_ops :: "('b, 'a) circular_ops \<Rightarrow> 'a queue_op \<Rightarrow> ('b, 'a reply) mop" where
  "BoundedBlockingQueue_ops C (Put x) = BoundedBlockingQueue_put C x"
| "BoundedBlockingQueue_ops C Take = BoundedBlockingQueue_take C"
| "BoundedBlockingQueue_ops C Size = BoundedBlockingQueue_query (\<lambda>b. Number (cb_size C b))"
| "BoundedBlockingQueue_ops C Is_empty = BoundedBlockingQueue_query (\<lambda>b. Flag (cb_empty C b))"
| "BoundedBlockingQueue_ops C Is_full = BoundedBlockingQueue_query (\<lambda>b. Flag (cb_full C b))"
| "BoundedBlockingQueue_ops C Capacity = BoundedBlockingQueue_query (\<lambda>b. Number (cb_capacity C b))"

lemma Bounded_waits:
  "waits_on (BoundedBlockingQueue_ops C p) notEmpty \<longleftrightarrow> p = Take"
  "waits_on (BoundedBlockingQueue_ops C p) notFull \<longleftrightarrow> (\<exists>x. p = Put x)"
  by (cases p; simp add: waits_on_def BoundedBlockingQueue_put_def BoundedBlockingQueue_take_def
      BoundedBlockingQueue_query_def notEmpty_def notFull_def)+

lemmas bounded_op_defs = BoundedBlockingQueue_put_def BoundedBlockingQueue_take_def BoundedBlockingQueue_query_def

lemma Bounded_notEmpty:
  assumes C: "circular_ok C content"
  shows "counted_condition (BoundedBlockingQueue_ops C) notEmpty (\<lambda>b. length (content b))"
proof unfold_locales
  show "\<not> waits_on (BoundedBlockingQueue_ops C p) notEmpty \<Longrightarrow> op_ready (BoundedBlockingQueue_ops C p) d \<Longrightarrow>
      length (content (snd (op_body (BoundedBlockingQueue_ops C p) d))) \<le> length (content d) \<or>
      length (content (snd (op_body (BoundedBlockingQueue_ops C p) d))) = Suc (length (content d)) \<and>
        op_signal (BoundedBlockingQueue_ops C p) (snd (op_body (BoundedBlockingQueue_ops C p) d)) = Some (Notify notEmpty)" for p d
    unfolding Bounded_waits using C
    by (cases p) (auto simp: bounded_op_defs circular_ok_def op_ready_def)
qed (use C in \<open>auto simp: Bounded_waits op_ready_def bounded_op_defs circular_ok_def\<close>)

lemma Bounded_notFull:
  assumes C: "circular_ok C content"
  shows "counted_condition (BoundedBlockingQueue_ops C) notFull (\<lambda>b. cb_capacity C b - length (content b))"
proof unfold_locales
  have le: "length (content b) \<le> cb_capacity C b" "cb_full C b \<longleftrightarrow> length (content b) = cb_capacity C b" for b
    using C by (simp_all add: circular_ok_def)
  show "waits_on (BoundedBlockingQueue_ops C p) notFull \<Longrightarrow>
      op_ready (BoundedBlockingQueue_ops C p) d \<longleftrightarrow> 0 < cb_capacity C d - length (content d)" for p d
    using le[of d] by (auto simp: Bounded_waits op_ready_def bounded_op_defs)
  show "waits_on (BoundedBlockingQueue_ops C p) notFull \<Longrightarrow> 0 < cb_capacity C d - length (content d) \<Longrightarrow>
      cb_capacity C (snd (op_body (BoundedBlockingQueue_ops C p) d)) - length (content (snd (op_body (BoundedBlockingQueue_ops C p) d)))
      < cb_capacity C d - length (content d)" for p d
    using C le[of d] by (auto simp: Bounded_waits bounded_op_defs circular_ok_def)
  show "\<not> waits_on (BoundedBlockingQueue_ops C p) notFull \<Longrightarrow> op_ready (BoundedBlockingQueue_ops C p) d \<Longrightarrow>
      cb_capacity C (snd (op_body (BoundedBlockingQueue_ops C p) d)) - length (content (snd (op_body (BoundedBlockingQueue_ops C p) d)))
        \<le> cb_capacity C d - length (content d) \<or>
      cb_capacity C (snd (op_body (BoundedBlockingQueue_ops C p) d)) - length (content (snd (op_body (BoundedBlockingQueue_ops C p) d)))
        = Suc (cb_capacity C d - length (content d)) \<and>
        op_signal (BoundedBlockingQueue_ops C p) (snd (op_body (BoundedBlockingQueue_ops C p) d)) = Some (Notify notFull)" for p d
    unfolding Bounded_waits
  proof (cases p)
    case Take
    assume rdy: "op_ready (BoundedBlockingQueue_ops C p) d"
    then have ne: "\<not> cb_empty C d" "content d \<noteq> []"
      using Take C by (auto simp: op_ready_def bounded_op_defs circular_ok_def)
    then have "content (cb_pop_front C d) = tl (content d)" "cb_capacity C (cb_pop_front C d) = cb_capacity C d"
      using C by (simp_all add: circular_ok_def)
    moreover have "cb_capacity C d - (length (content d) - 1) = Suc (cb_capacity C d - length (content d))"
      using le(1)[of d] ne(2) by (cases "content d") auto
    ultimately show ?thesis using Take ne(1) by (simp add: bounded_op_defs)
  qed (simp_all add: bounded_op_defs)
qed

lemma Bounded_history:
  assumes C: "circular_ok C content" and m: "mreach (BoundedBlockingQueue_ops C) d0 m h"
    and d0: "content d0 = []" "cb_capacity C d0 = n"
  shows "items_taken h @ content (mdata m) = items_put h \<and> never_broken h \<and> cb_capacity C (mdata m) = n"
proof (rule mreach_data[OF m, where I = "\<lambda>b h. items_taken h @ content b = items_put h \<and> never_broken h \<and> cb_capacity C b = n"])
  show "items_taken [] @ content d0 = items_put [] \<and> never_broken [] \<and> cb_capacity C d0 = n" using d0 by simp
next
  fix b h t p r d'
  assume I: "items_taken h @ content b = items_put h \<and> never_broken h \<and> cb_capacity C b = n"
    and rdy: "op_ready (BoundedBlockingQueue_ops C p) b" and body: "op_body (BoundedBlockingQueue_ops C p) b = (r, d')"
  show "items_taken (h @ [(t, p, r)]) @ content d' = items_put (h @ [(t, p, r)]) \<and> never_broken (h @ [(t, p, r)]) \<and>
      cb_capacity C d' = n"
  proof (cases p)
    case (Put x)
    then have "\<not> cb_full C b" using rdy by (simp add: op_ready_def bounded_op_defs)
    then show ?thesis using I body Put C by (auto simp: bounded_op_defs circular_ok_def)
  next
    case Take
    then have ne: "\<not> cb_empty C b" using rdy by (simp add: op_ready_def bounded_op_defs)
    then have "content b \<noteq> []" using C by (simp add: circular_ok_def)
    then have "content b = cb_front C b # content (cb_pop_front C b)" "cb_capacity C (cb_pop_front C b) = cb_capacity C b"
      using ne C by (simp_all add: circular_ok_def)
    then show ?thesis using I body Take ne by (auto simp: bounded_op_defs)
  qed (use I body in \<open>auto simp: bounded_op_defs\<close>)
qed

section \<open>CountDownLatch\<close>

datatype latch_op = Latch_wait | Latch_countDown | Latch_getCount

text \<open>\<open>condition_\<close> is condition 0; the reply is the count where there is one.\<close>

definition CountDownLatch_ctor :: "int32_t \<Rightarrow> int32_t" where "CountDownLatch_ctor count = count"

definition CountDownLatch_wait :: "(int32_t, int option) mop" where
  "CountDownLatch_wait =
     \<lparr>op_wait = Some (0, \<lambda>n. \<not> sint n > 0), op_body = (\<lambda>n. (None, n)), op_signal = (\<lambda>_. None)\<rparr>"

definition CountDownLatch_countDown :: "(int32_t, int option) mop" where
  "CountDownLatch_countDown =
     \<lparr>op_wait = None, op_body = (\<lambda>n. (None, n - 1)),
      op_signal = (\<lambda>n. if n = 0 then Some (NotifyAll 0) else None)\<rparr>"

definition CountDownLatch_getCount :: "(int32_t, int option) mop" where
  "CountDownLatch_getCount = \<lparr>op_wait = None, op_body = (\<lambda>n. (Some (sint n), n)), op_signal = (\<lambda>_. None)\<rparr>"

fun CountDownLatch_ops :: "latch_op \<Rightarrow> (int32_t, int option) mop" where
  "CountDownLatch_ops Latch_wait = CountDownLatch_wait"
| "CountDownLatch_ops Latch_countDown = CountDownLatch_countDown"
| "CountDownLatch_ops Latch_getCount = CountDownLatch_getCount"

lemmas latch_op_defs = CountDownLatch_wait_def CountDownLatch_countDown_def CountDownLatch_getCount_def

definition count_downs :: "(thread_id \<times> latch_op \<times> int option) list \<Rightarrow> nat" where
  "count_downs h = length (filter (\<lambda>(t, p, r). p = Latch_countDown) h)"

lemma count_downs_simps [simp]:
  "count_downs [] = 0" "count_downs (h @ h') = count_downs h + count_downs h'"
  "count_downs [(t, p, r)] = of_bool (p = Latch_countDown)"
  by (simp_all add: count_downs_def)

lemma count_downs_le: "count_downs h \<le> length h"
  by (simp add: count_downs_def)

interpretation latch: gate_condition CountDownLatch_ops 0 "\<lambda>n. \<not> sint n > 0"
proof unfold_locales
  show "waits_on (CountDownLatch_ops p) 0 \<Longrightarrow> op_ready (CountDownLatch_ops p) n \<longleftrightarrow> \<not> sint n > 0" for p n
    by (cases p) (simp_all add: latch_op_defs waits_on_def op_ready_def)
  show "op_ready (CountDownLatch_ops p) n \<Longrightarrow> \<not> \<not> sint n > 0 \<Longrightarrow>
      \<not> sint (snd (op_body (CountDownLatch_ops p) n)) > 0 \<Longrightarrow>
      op_signal (CountDownLatch_ops p) (snd (op_body (CountDownLatch_ops p) n)) = Some (NotifyAll 0)" for p and n :: int32_t
  proof (cases p)
    case Latch_countDown
    assume n: "\<not> \<not> sint n > 0" "\<not> sint (snd (op_body (CountDownLatch_ops p) n)) > 0"
    have "sint (n + -1) = sint n + sint (-1 :: int32_t)"
      using n(1) sint_int32_range[of n] by (intro sint_int32_add) simp_all
    then have "sint (n - 1) = sint n - 1" by simp
    then have "sint (n - 1) = 0" using n Latch_countDown by (simp add: latch_op_defs)
    then have "n - 1 = 0" by (intro signed_word_eqI) simp
    then show ?thesis using Latch_countDown by (simp add: latch_op_defs)
  qed (simp_all add: latch_op_defs)
qed

text \<open>The count is what the constructor was given, less the calls of \<open>countDown\<close>.\<close>

lemma latch_history:
  assumes m: "mreach CountDownLatch_ops n0 m h" and n0: "0 \<le> sint n0"
  shows "length h < 2147483648 \<longrightarrow> sint (mdata m) = sint n0 - int (count_downs h) \<and>
    (\<forall>h1 t r h2. h = h1 @ (t, Latch_wait, r) # h2 \<longrightarrow> sint n0 \<le> int (count_downs h1))"
proof (rule mreach_data[OF m, where I = "\<lambda>n h. length h < 2147483648 \<longrightarrow> sint n = sint n0 - int (count_downs h) \<and>
    (\<forall>h1 t r h2. h = h1 @ (t, Latch_wait, r) # h2 \<longrightarrow> sint n0 \<le> int (count_downs h1))"])
  fix n :: int32_t and h t p r n'
  assume I: "length h < 2147483648 \<longrightarrow> sint n = sint n0 - int (count_downs h) \<and>
      (\<forall>h1 t r h2. h = h1 @ (t, Latch_wait, r) # h2 \<longrightarrow> sint n0 \<le> int (count_downs h1))"
    and rdy: "op_ready (CountDownLatch_ops p) n" and body: "op_body (CountDownLatch_ops p) n = (r, n')"
  show "length (h @ [(t, p, r)]) < 2147483648 \<longrightarrow>
      sint n' = sint n0 - int (count_downs (h @ [(t, p, r)])) \<and>
      (\<forall>h1 t' r' h2. h @ [(t, p, r)] = h1 @ (t', Latch_wait, r') # h2 \<longrightarrow> sint n0 \<le> int (count_downs h1))"
  proof (intro impI conjI allI)
    assume len: "length (h @ [(t, p, r)]) < 2147483648"
    have n: "sint n = sint n0 - int (count_downs h)"
      and old: "\<And>h1 t r h2. h = h1 @ (t, Latch_wait, r) # h2 \<Longrightarrow> sint n0 \<le> int (count_downs h1)"
      using I len by auto
    have low: "-2147483648 < sint n" using n n0 count_downs_le[of h] len by simp
    show "sint n' = sint n0 - int (count_downs (h @ [(t, p, r)]))"
    proof (cases p)
      case Latch_countDown
      have "sint (n + -1) = sint n + sint (-1 :: int32_t)"
        using low sint_int32_range[of n] by (intro sint_int32_add) simp_all
      then show ?thesis using n body Latch_countDown by (auto simp: latch_op_defs)
    qed (use n body in \<open>auto simp: latch_op_defs\<close>)
    fix h1 t' r' h2
    assume split: "h @ [(t, p, r)] = h1 @ (t', Latch_wait, r') # h2"
    show "sint n0 \<le> int (count_downs h1)"
    proof (cases h2 rule: rev_cases)
      case Nil
      then have "p = Latch_wait" "h1 = h" using split by auto
      then show ?thesis using n rdy by (simp add: op_ready_def latch_op_defs)
    next
      case (snoc h2' e)
      then have "h = h1 @ (t', Latch_wait, r') # h2'" using split by simp
      then show ?thesis by (rule old)
    qed
  qed
qed simp


section \<open>The properties\<close>

lemma waiters_are [simp]:
  "waits_on BlockingQueue_take notEmpty" "\<not> waits_on (BlockingQueue_put x) c"
  by (simp_all add: waits_on_def BlockingQueue_take_def BlockingQueue_put_def)

text \<open>
  A state for the examples: thread 2 is blocked in \<open>take\<close>, thread 3 has put 7 and is about to notify.
\<close>

definition blocked_taker :: "(nat list, nat queue_op) monitor" where
  "blocked_taker = two (Some 3) 3 [7] (Asleep Take) (Signalling (Put 7))"

lemma blocked_taker_reach: "mreach BlockingQueue_ops [] blocked_taker [(3, Put 7, Done)]"
proof -
  have "mreach BlockingQueue_ops [] (two (Some 2) 2 ([] :: nat list) (Testing Take) Outside) []"
    by (rule two_enter2[OF two_start])
  then have "mreach BlockingQueue_ops [] (two None 0 ([] :: nat list) (Asleep Take) Outside) []"
    by (rule two_block2) (simp add: op_ready_def BlockingQueue_take_def)
  then have "mreach BlockingQueue_ops [] (two (Some 3) 3 ([] :: nat list) (Asleep Take) (Testing (Put 7))) []"
    by (rule two_enter3)
  from two_body3[OF this, of Done "[7]"] show ?thesis
    by (simp add: op_ready_def BlockingQueue_put_def blocked_taker_def)
qed

text \<open>
  C19. The mutex excludes, knows its owner, and is never stuck. In every state that threads running
  operations of a monitor can reach: at most one of them is between locking and unlocking; for the thread
  that calls it, \<open>isLockedByThisThread\<close> says whether it is inside (across the waits, where the guard of
  \<open>Condition::wait\<close> takes the holder away and gives it back), so that \<open>assertLocked\<close> succeeds inside;
  the destructor's assertion holds once nobody uses the mutex; and as long as a thread is neither outside
  nor blocked in a wait, some thread can take a step.
\<close>

theorem mutex_exact:
  assumes "mreach ops d0 m h"
  shows "(owns (pc m t) \<longrightarrow> owns (pc m t') \<longrightarrow> t = t') \<and>
    (0 < t \<longrightarrow> (MutexLock_isLockedByThisThread t m \<longleftrightarrow> held (pc m t))) \<and>
    (held (pc m t) \<longrightarrow> MutexLock_assertLocked t m = Inr ()) \<and>
    ((\<forall>u. pc m u = Outside) \<longrightarrow> MutexLock_dtor m = Inr ()) \<and>
    (pc m t \<noteq> Outside \<longrightarrow> (\<forall>p. pc m t \<noteq> Asleep p) \<longrightarrow> (\<exists>e m'. mstep ops m e m'))"
proof -
  have inv: "mutex_inv m" by (rule mreach_mutex[OF assms])
  have locked: "0 < u \<Longrightarrow> holder m = u \<longleftrightarrow> held (pc m u)" for u using inv by (auto simp: mutex_inv_def)
  have unlocked: "mutex m = None" if "\<forall>u. pc m u = Outside"
    using inv that by (cases "mutex m") (auto simp: mutex_inv_def)
  have pos: "held (pc m t) \<Longrightarrow> 0 < t" using moving_thread(1)[OF inv, of t] by (cases "pc m t") auto
  have free: "(\<forall>u. pc m u = Outside) \<Longrightarrow> holder m = 0" using locked[of "holder m"] by (cases "holder m") auto
  have "\<exists>e m'. mstep ops m e m'" if at: "pc m t \<noteq> Outside" "\<forall>p. pc m t \<noteq> Asleep p"
  proof (cases "mutex m")
    case None
    then have "\<not> owns (pc m t)" using inv by (auto simp: mutex_inv_def)
    then obtain p where "pc m t = Awake p" using at by (cases "pc m t") simp_all
    then show ?thesis using None by (blast intro: mstep.m_relock)
  next
    case (Some u)
    then show ?thesis using inv by (intro owner_moves[of m u]) (auto simp: mutex_inv_def)
  qed
  then show ?thesis
    using only_owner[OF inv, of t t'] locked pos free unlocked
    by (auto simp: MutexLock_isLockedByThisThread_def MutexLock_assertLocked_def MutexLock_dtor_def MCHECK_def
        pthread_mutex_destroy_def)
qed

theorem mutex_exact_witness:
  "MutexLock_assertLocked 3 blocked_taker = Inr () \<and> \<not> MutexLock_isLockedByThisThread 2 blocked_taker"
  using mutex_exact[OF blocked_taker_reach, of 3 2] mutex_exact[OF blocked_taker_reach, of 2 3]
  by (simp add: blocked_taker_def)

text \<open>
  C20. \<open>BlockingQueue\<close> delivers. Over any interleaving of any threads' calls: what was taken, followed by
  what the queue holds, is what was put, in the order of the critical sections; the assertion of \<open>take\<close>
  never fails; and no wake-up is lost: while a thread is blocked and the queue holds something, a \<open>put\<close> is
  about to notify or a thread on its way to the test of \<open>take\<close> will find it, and there are at least
  as many of these as items.
\<close>

theorem BlockingQueue_delivers:
  assumes "mreach BlockingQueue_ops BlockingQueue_ctor m h"
  shows "items_taken h @ mdata m = items_put h \<and> never_broken h \<and>
    (blocked BlockingQueue_ops notEmpty m \<noteq> {} \<longrightarrow>
      length (mdata m) \<le> card {t. to_test (pc m t) = Some Take} + card {t. \<exists>x. pc m t = Signalling (Put x)})"
proof -
  have "is_taker BlockingQueue_ops notEmpty l \<longleftrightarrow> to_test l = Some Take" for l :: "'a queue_op loc"
    by (auto simp: is_taker_def BlockingQueue_waits split: option.splits)
  then have takers: "takers BlockingQueue_ops notEmpty m = {t. to_test (pc m t) = Some Take}" by (simp add: takers_def)
  have "op_signal (BlockingQueue_ops p) d = Some (Notify notEmpty) \<longleftrightarrow> (\<exists>x. p = Put x)" for p :: "'a queue_op" and d
    by (cases p) (simp_all add: BlockingQueue_put_def BlockingQueue_take_def BlockingQueue_size_def)
  then have "is_giver BlockingQueue_ops notEmpty (mdata m) l \<longleftrightarrow> (\<exists>x. l = Signalling (Put x))" for l
    by (cases l) simp_all
  then have givers: "givers BlockingQueue_ops notEmpty m = {t. \<exists>x. pc m t = Signalling (Put x)}" by (simp add: givers_def)
  show ?thesis using BlockingQueue_history[OF assms[unfolded BlockingQueue_ctor_def]] bq.mreach_wakeup[OF assms]
    by (simp add: bq.wakeup_inv_def takers givers)
qed

theorem BlockingQueue_delivers_witness:
  "items_taken [(3, Put (7 :: nat), Done)] @ mdata blocked_taker = [7] \<and>
   1 \<le> card {t. to_test (pc blocked_taker t) = Some Take} + card {t. \<exists>x. pc blocked_taker t = Signalling (Put x)}"
proof -
  have "blocked BlockingQueue_ops notEmpty blocked_taker \<noteq> {}"
    by (auto simp: blocked_def blocked_taker_def intro: exI[of _ 2])
  then show ?thesis using BlockingQueue_delivers[unfolded BlockingQueue_ctor_def, OF blocked_taker_reach]
    by (simp add: items_put_def) (simp add: blocked_taker_def)
qed

text \<open>
  C21. \<open>BoundedBlockingQueue\<close> delivers within its bound. For a size that an \<open>int\<close> holds and any circular
  buffer that keeps its promises: what was taken followed by what the buffer holds is what was put, in
  order; it never holds more than that size; the assertions of \<open>put\<close> and \<open>take\<close> never fail; a thread
  blocked on an item while there is one, or on a free place while there is one, is about to be notified
  or overtaken.
\<close>

theorem BoundedBlockingQueue_delivers:
  assumes "circular_ok C content" and "0 \<le> maxSize" and "maxSize < 2 ^ 31"
    and "mreach (BoundedBlockingQueue_ops C) (BoundedBlockingQueue_ctor C maxSize) m h"
  shows "items_taken h @ content (mdata m) = items_put h \<and> int (length (content (mdata m))) \<le> maxSize \<and>
    never_broken h \<and>
    (blocked (BoundedBlockingQueue_ops C) notEmpty m \<noteq> {} \<longrightarrow> content (mdata m) \<noteq> [] \<longrightarrow>
      takers (BoundedBlockingQueue_ops C) notEmpty m \<noteq> {} \<or> givers (BoundedBlockingQueue_ops C) notEmpty m \<noteq> {}) \<and>
    (blocked (BoundedBlockingQueue_ops C) notFull m \<noteq> {} \<longrightarrow> int (length (content (mdata m))) < maxSize \<longrightarrow>
      takers (BoundedBlockingQueue_ops C) notFull m \<noteq> {} \<or> givers (BoundedBlockingQueue_ops C) notFull m \<noteq> {})"
proof -
  let ?n = "nat maxSize"
  have "unat (word_of_int maxSize :: size_t) = ?n"
    using assms(2,3) by (simp add: unat_eq_nat_uint uint_word_of_int)
  then have "content (BoundedBlockingQueue_ctor C maxSize) = [] \<and>
      cb_capacity C (BoundedBlockingQueue_ctor C maxSize) = ?n"
    using assms(1) by (simp add: BoundedBlockingQueue_ctor_def circular_ok_def)
  then have H: "items_taken h @ content (mdata m) = items_put h" "never_broken h" "cb_capacity C (mdata m) = ?n"
    using Bounded_history[OF assms(1,4)] by auto
  have le: "length (content (mdata m)) \<le> ?n" using assms(1) H(3) unfolding circular_ok_def by metis
  note E = counted_condition.blocked_not_forgotten[OF Bounded_notEmpty[OF assms(1)] assms(4)]
  note F = counted_condition.blocked_not_forgotten[OF Bounded_notFull[OF assms(1)] assms(4)]
  show ?thesis using H le E F assms(2) by auto
qed

text \<open>A circular buffer for the example: a capacity, and a list of which at most that many items count.\<close>

definition list_circular :: "(nat \<times> nat list, nat) circular_ops" where
  "list_circular = \<lparr>cb_make = (\<lambda>n. (unat n, [])), cb_full = (\<lambda>(n, xs). length (take n xs) = n),
     cb_empty = (\<lambda>(n, xs). take n xs = []), cb_push_back = (\<lambda>x (n, xs). (n, take n xs @ [x])),
     cb_front = (\<lambda>(n, xs). hd (take n xs)), cb_pop_front = (\<lambda>(n, xs). (n, tl (take n xs))),
     cb_size = (\<lambda>(n, xs). length (take n xs)), cb_capacity = fst\<rparr>"

lemma list_circular_ok: "circular_ok list_circular (\<lambda>(n, xs). take n xs)"
  by (auto simp: circular_ok_def list_circular_def min_def take_tl)

theorem BoundedBlockingQueue_delivers_witness:
  "\<exists>m :: (nat \<times> nat list, nat queue_op) monitor.
     int (length ((\<lambda>(n, xs). take n xs) (mdata m))) \<le> 1 \<and> mdata m = (1, [7])"
proof -
  let ?ops = "BoundedBlockingQueue_ops list_circular" and ?d = "BoundedBlockingQueue_ctor list_circular 1"
  have d: "?d = (1, [])" by (simp add: BoundedBlockingQueue_ctor_def list_circular_def)
  have "mreach ?ops ?d (two (Some 2) 2 ?d (Testing Take) Outside) []"
    by (rule two_enter2[OF two_start])
  then have "mreach ?ops ?d (two None 0 ?d (Asleep Take) Outside) []"
    by (rule two_block2) (unfold d, simp add: op_ready_def bounded_op_defs list_circular_def)
  then have "mreach ?ops ?d (two (Some 3) 3 ?d (Asleep Take) (Testing (Put 7))) []"
    by (rule two_enter3)
  then have "mreach ?ops ?d (two (Some 3) 3 (1, [7]) (Asleep Take) (Signalling (Put 7))) ([] @ [(3, Put 7, Done)])"
    by (rule two_body3) (unfold d, simp_all add: op_ready_def bounded_op_defs list_circular_def)
  from BoundedBlockingQueue_delivers[OF list_circular_ok _ _ this]
  have "int (length ((\<lambda>(n, xs). take n xs) (mdata (two (Some 3) 3 (1, [7]) (Asleep Take) (Signalling (Put (7 :: nat))))))) \<le> 1"
    by simp
  then show ?thesis by (intro exI[of _ "two (Some 3) 3 (1, [7]) (Asleep Take) (Signalling (Put 7))"]) simp
qed

text \<open>
  C22. The latch counts exactly and lets nobody through early or leaves nobody behind. In every state
  reached with fewer than 2^31 operations: the count is the initial one less the calls of \<open>countDown\<close>;
  before each \<open>wait\<close> that returned there were as many \<open>countDown\<close>s as the initial count; and if a thread
  is blocked although enough were made, the \<open>countDown\<close> that reached 0 is just about to notify all.
\<close>

theorem CountDownLatch_exact:
  assumes "mreach CountDownLatch_ops (CountDownLatch_ctor n0) m h" and "0 \<le> sint n0" and "length h < 2 ^ 31"
  shows "sint (mdata m) = sint n0 - int (count_downs h) \<and>
    (\<forall>h1 t r h2. h = h1 @ (t, Latch_wait, r) # h2 \<longrightarrow> sint n0 \<le> int (count_downs h1)) \<and>
    (sint n0 \<le> int (count_downs h) \<longrightarrow> blocked CountDownLatch_ops 0 m \<noteq> {} \<longrightarrow>
      (\<exists>t. pc m t = Signalling Latch_countDown \<and> mdata m = 0))"
proof -
  note reach = assms(1)[unfolded CountDownLatch_ctor_def]
  note H = latch_history[OF reach assms(2)]
  have "op_signal (CountDownLatch_ops p) n = Some (NotifyAll 0) \<longleftrightarrow> p = Latch_countDown \<and> n = 0" for p n
    by (cases p) (simp_all add: latch_op_defs)
  then have "latch.signal_due m \<longleftrightarrow> (\<exists>t. pc m t = Signalling Latch_countDown \<and> mdata m = 0)"
    by (auto simp: latch.signal_due_def)
  then show ?thesis using H latch.mreach_gate[OF reach] assms(3) by (auto simp: latch.gate_inv_def)
qed

theorem CountDownLatch_exact_witness:
  "sint (mdata (two (Some 3) 3 (0 :: int32_t) (Asleep Latch_wait) (Signalling Latch_countDown))) = 0 \<and>
   (\<exists>t. pc (two (Some 3) 3 (0 :: int32_t) (Asleep Latch_wait) (Signalling Latch_countDown)) t = Signalling Latch_countDown)"
proof -
  let ?R = "mreach CountDownLatch_ops (1 :: int32_t)"
  let ?m = "two (Some 3) 3 (0 :: int32_t) (Asleep Latch_wait) (Signalling Latch_countDown)"
  have "?R (two (Some 2) 2 1 (Testing Latch_wait) Outside) []" by (rule two_enter2[OF two_start])
  then have "?R (two None 0 1 (Asleep Latch_wait) Outside) []"
    by (rule two_block2) (simp add: op_ready_def latch_op_defs)
  then have "?R (two (Some 3) 3 1 (Asleep Latch_wait) (Testing Latch_countDown)) []" by (rule two_enter3)
  from two_body3[OF this, of None 0] have m: "?R ?m [(3, Latch_countDown, None)]"
    by (simp add: op_ready_def latch_op_defs)
  have "2 \<in> blocked CountDownLatch_ops 0 ?m" by (simp add: blocked_def waits_on_def latch_op_defs)
  then have b: "blocked CountDownLatch_ops 0 ?m \<noteq> {}" by blast
  have c: "count_downs [(3, Latch_countDown, None)] = 1" by simp
  show ?thesis using CountDownLatch_exact[unfolded CountDownLatch_ctor_def, OF m] b unfolding c by auto
qed

end
