(* ===== verification/Exceptions.thy ===== *)
theory Exceptions
  imports Prelude
begin

text \<open>
  \<open>simplev::Exception\<close> (base/Exception.h, base/Exception.cc): a message and the text of the stack at the point
  of construction. \<open>backtrace(3)\<close> and \<open>backtrace_symbols(3)\<close> are arguments: the frames of the stack, innermost
  first, and whether there was memory for their names. The trace has one line for each of the innermost 200
  frames, and reading it line by line gives their names back.
\<close>

section \<open>State and operations\<close>

record Exception =
  ex_message :: string
  ex_stack :: string

text \<open>What a string function of C sees of a \<open>std::string\<close>.\<close>

definition c_str :: "string \<Rightarrow> string" where
  "c_str s = takeWhile (\<lambda>c. c \<noteq> CHR 0x00) s"

definition trace_len :: nat where
  "trace_len = 200"

text \<open>The loop of \<open>fillStackTrace\<close>, from index \<open>i\<close>.\<close>

function trace_loop :: "string list \<Rightarrow> nat \<Rightarrow> nat \<Rightarrow> string \<Rightarrow> string" where
  "trace_loop strings nptrs i stack =
     (if i < nptrs then trace_loop strings nptrs (i + 1) ((stack @ strings ! i) @ [CHR 0x0A]) else stack)"
  by pat_completeness auto
termination
  by (relation "measure (\<lambda>(strings, nptrs, i, stack). nptrs - i)") auto

declare trace_loop.simps [simp del]

definition Exception_fillStackTrace :: "bool \<Rightarrow> string list \<Rightarrow> Exception \<Rightarrow> Exception" where
  "Exception_fillStackTrace memory frames ex =
     (let nptrs = min trace_len (length frames);
          strings = (if memory then Some (take nptrs frames) else None)
      in case strings of
           Some names \<Rightarrow> ex\<lparr>ex_stack := trace_loop names nptrs 0 (ex_stack ex)\<rparr>
         | None \<Rightarrow> ex)"

definition Exception_ctor :: "bool \<Rightarrow> string list \<Rightarrow> string \<Rightarrow> Exception" where
  "Exception_ctor memory frames msg = Exception_fillStackTrace memory frames \<lparr>ex_message = msg, ex_stack = ''''\<rparr>"

text \<open>The constructor for a C string.\<close>

definition Exception_ctor_c :: "bool \<Rightarrow> string list \<Rightarrow> string \<Rightarrow> Exception" where
  "Exception_ctor_c memory frames msg = Exception_fillStackTrace memory frames \<lparr>ex_message = c_str msg, ex_stack = ''''\<rparr>"

definition Exception_what :: "Exception \<Rightarrow> string" where
  "Exception_what ex = c_str (ex_message ex)"

definition Exception_stackTrace :: "Exception \<Rightarrow> string" where
  "Exception_stackTrace ex = c_str (ex_stack ex)"

section \<open>The trace\<close>

text \<open>The loop appends the remaining names, each with the end of its line.\<close>

lemma trace_loop_eq:
  "n \<le> length strings \<Longrightarrow>
   trace_loop strings n i stack = stack @ concat (map (\<lambda>s. s @ [CHR 0x0A]) (drop i (take n strings)))"
proof (induction strings n i stack rule: trace_loop.induct)
  case (1 strings n i stack)
  show ?case
  proof (cases "i < n")
    case True
    then have "drop i (take n strings) = strings ! i # drop (i + 1) (take n strings)"
      using 1(2) Cons_nth_drop_Suc[of i "take n strings"] by simp
    then show ?thesis using 1 True by (simp add: trace_loop.simps[of strings n i])
  next
    case False
    then show ?thesis by (simp add: trace_loop.simps[of strings n i])
  qed
qed

text \<open>Reading the lines of a text, each ended by a newline.\<close>

fun split_lines :: "string \<Rightarrow> string list" where
  "split_lines [] = []"
| "split_lines (c # cs) =
     (if c = CHR 0x0A then [] # split_lines cs
      else case split_lines cs of [] \<Rightarrow> [[c]] | l # ls \<Rightarrow> (c # l) # ls)"

lemma split_lines_line: "CHR 0x0A \<notin> set s \<Longrightarrow> split_lines (s @ CHR 0x0A # rest) = s # split_lines rest"
  by (induction s) auto

lemma split_lines_concat:
  "list_all (\<lambda>s. CHR 0x0A \<notin> set s) xs \<Longrightarrow> split_lines (concat (map (\<lambda>s. s @ [CHR 0x0A]) xs)) = xs"
  by (induction xs) (simp_all add: split_lines_line)

lemma c_str_id: "CHR 0x00 \<notin> set s \<Longrightarrow> c_str s = s"
  by (auto simp: c_str_def takeWhile_eq_all_conv)

text \<open>
  An exception carries its message and the names of the innermost 200 frames, which can be read back from the
  trace line by line; without memory for the names the trace is empty.
\<close>

theorem Exception_trace:
  assumes "CHR 0x00 \<notin> set msg" and "list_all (\<lambda>s. CHR 0x0A \<notin> set s \<and> CHR 0x00 \<notin> set s) frames"
  shows "Exception_what (Exception_ctor memory frames msg) = msg \<and>
    split_lines (Exception_stackTrace (Exception_ctor memory frames msg)) = (if memory then take trace_len frames else [])"
proof -
  let ?t = "take (min trace_len (length frames)) frames"
  have t: "?t = take trace_len frames" by (simp add: min_def)
  have sub: "set (take trace_len frames) \<subseteq> set frames" by (rule set_take_subset)
  have stack: "ex_stack (Exception_ctor memory frames msg) =
      (if memory then concat (map (\<lambda>s. s @ [CHR 0x0A]) (take trace_len frames)) else '''')"
    using trace_loop_eq[of "min trace_len (length frames)" ?t 0 "[]"] by (simp add: Exception_ctor_def Exception_fillStackTrace_def Let_def t)
  let ?text = "concat (map (\<lambda>s. s @ [CHR 0x0A]) (take trace_len frames))"
  have "CHR 0x00 \<notin> set ?text"
    using assms(2) sub by (auto simp: list_all_iff)
  then have "c_str ?text = ?text" by (rule c_str_id)
  moreover have "list_all (\<lambda>s. CHR 0x0A \<notin> set s) (take trace_len frames)"
    using assms(2) sub by (auto simp: list_all_iff)
  then have "split_lines ?text = take trace_len frames" by (rule split_lines_concat)
  ultimately have "split_lines (Exception_stackTrace (Exception_ctor memory frames msg)) =
      (if memory then take trace_len frames else [])"
    unfolding Exception_stackTrace_def stack
    by (cases memory) (simp_all only: if_True if_False c_str_id[of "[]"] list.set empty_iff split_lines.simps simp_thms)
  moreover have "ex_message (Exception_ctor memory frames msg) = msg"
    by (simp add: Exception_ctor_def Exception_fillStackTrace_def Let_def)
  ultimately show ?thesis using c_str_id[OF assms(1)] by (simp add: Exception_what_def)
qed

lemma Exception_trace_witness:
  "split_lines (Exception_stackTrace (Exception_ctor True [''f(+0x1)'', ''main''] ''bad'')) = [''f(+0x1)'', ''main'']"
  using Exception_trace[of "''bad''" "[''f(+0x1)'', ''main'']" True] by (simp add: trace_len_def)

end
