(* ===== verification/Threads.thy ===== *)
theory Threads
  imports Acceptor_Pool Log_Stream Exceptions
begin

text \<open>
  \<open>Thread\<close> (base/Thread.h, base/Thread.cc) with the part of the process it lives in, and the protocol
  between the two threads of an \<open>EventLoopThread\<close> (net/EventLoopThread.h, net/EventLoopThread.cc), of which
  \<open>Acceptor_Pool\<close> has what the owner sees. The lemmas show that a thread is joined or detached exactly
  once, that a thread never writes its number through a dead pointer, that \<open>startLoop\<close> returns the new
  loop and always gets there, and when the destructor is safe.
\<close>

section \<open>Thread\<close>

text \<open>
  \<open>tid_\<close> is a shared pointer to a cell that holds the thread's number. What a process knows: the cells
  that some shared pointer keeps alive, the counter, and the state of each \<open>pthread_t\<close>.
\<close>

datatype pthread_state = Joinable | Joined | Detached

record process =
  tid_cells :: "nat \<Rightarrow> int option"
  next_cell :: nat
  numCreated :: int32_t
  pthreads :: "nat \<Rightarrow> pthread_state option"

record 'f Thread =
  th_started :: bool
  th_joined :: bool
  pthreadId :: nat
  th_tid :: nat
  th_func :: 'f
  th_name :: string

definition Thread_ctor :: "'f \<Rightarrow> string \<Rightarrow> process \<Rightarrow> 'f Thread \<times> process" where
  "Thread_ctor f n w =
     (\<lparr>th_started = False, th_joined = False, pthreadId = 0, th_tid = next_cell w, th_func = f, th_name = n\<rparr>,
      w\<lparr>tid_cells := (tid_cells w)(next_cell w \<mapsto> 0), next_cell := next_cell w + 1,
        numCreated := Atomic_increment (numCreated w)\<rparr>)"

text \<open>The destructor of the members gives the cell back.\<close>

definition Thread_dtor :: "'f Thread \<Rightarrow> process \<Rightarrow> process" where
  "Thread_dtor th w =
     (let w1 = (if th_started th \<and> \<not> th_joined th
                then w\<lparr>pthreads := (pthreads w)(pthreadId th \<mapsto> Detached)\<rparr> else w)
      in w1\<lparr>tid_cells := (tid_cells w1)(th_tid th := None)\<rparr>)"

definition Thread_tid :: "'f Thread \<Rightarrow> process \<Rightarrow> int option" where
  "Thread_tid th w = tid_cells w (th_tid th)"

record 'f ThreadData =
  data_func :: 'f
  data_name :: string
  wkTid :: nat

definition ThreadData_ctor :: "'f \<Rightarrow> string \<Rightarrow> nat \<Rightarrow> 'f ThreadData" where
  "ThreadData_ctor f n c = \<lparr>data_func = f, data_name = n, wkTid = c\<rparr>"

text \<open>\<open>start\<close>, given the thread that \<open>pthread_create\<close> makes, if it does; \<open>abort()\<close> is \<open>Fatal\<close>.\<close>

definition Thread_start :: "nat option \<Rightarrow> 'f Thread \<Rightarrow> process \<Rightarrow> ('f ThreadData \<times> 'f Thread \<times> process) res" where
  "Thread_start create th w =
     ensure (\<not> th_started th) AssertFailed
       (let th1 = th\<lparr>th_started := True\<rparr>;
            data = ThreadData_ctor (th_func th1) (th_name th1) (th_tid th1)
        in case create of
             None \<Rightarrow> Inl Fatal
           | Some i \<Rightarrow> Inr (data, th1\<lparr>pthreadId := i\<rparr>, w\<lparr>pthreads := (pthreads w)(i \<mapsto> Joinable)\<rparr>))"

text \<open>\<open>join\<close>, with the result of \<open>pthread_join\<close>: \<open>EINVAL\<close> is 22, \<open>ESRCH\<close> is 3.\<close>

definition pthread_join :: "nat \<Rightarrow> process \<Rightarrow> int \<times> process" where
  "pthread_join i w =
     (case pthreads w i of
        Some Joinable \<Rightarrow> (0, w\<lparr>pthreads := (pthreads w)(i \<mapsto> Joined)\<rparr>)
      | Some Detached \<Rightarrow> (22, w)
      | _ \<Rightarrow> (3, w))"

definition Thread_join :: "'f Thread \<Rightarrow> process \<Rightarrow> (int \<times> 'f Thread \<times> process) res" where
  "Thread_join th w =
     ensure (th_started th) AssertFailed
       (ensure (\<not> th_joined th) AssertFailed
         (let (r, w1) = pthread_join (pthreadId th) w in Inr (r, th\<lparr>th_joined := True\<rparr>, w1)))"

text \<open>
  What the thread does: how its function ended; the names it had; what it printed to \<open>stderr\<close>; how the
  thread ends.
\<close>

datatype func_end = Returns | Throws_Exception Exception | Throws_std string | Throws_other

datatype thread_end = Finished | Aborted | Rethrown

record thread_run =
  run_names :: "string list"
  run_prctl :: string
  run_stderr :: "string list"
  run_end :: thread_end

definition ThreadData_outcome :: "string \<Rightarrow> func_end \<Rightarrow> string \<times> string list \<times> thread_end" where
  "ThreadData_outcome n e =
     (case e of
        Returns \<Rightarrow> (''finished'', [], Finished)
      | Throws_Exception ex \<Rightarrow>
          (''crashed'', [''exception caught in Thread '' @ c_str n, ''reason: '' @ Exception_what ex,
             ''stack trace: '' @ Exception_stackTrace ex], Aborted)
      | Throws_std what \<Rightarrow> (''crashed'', [''exception caught in Thread '' @ c_str n, ''reason: '' @ c_str what], Aborted)
      | Throws_other \<Rightarrow> (''crashed'', [''unknown exception caught in Thread '' @ c_str n], Rethrown))"

definition ThreadData_runInThread ::
  "int \<Rightarrow> ('f \<Rightarrow> func_end) \<Rightarrow> 'f ThreadData \<Rightarrow> log_tls \<Rightarrow> process \<Rightarrow> (thread_run \<times> log_tls \<times> process) res" where
  "ThreadData_runInThread gettid call d tls w =
     bindR (CurrentThread_tid gettid tls) (\<lambda>(tid, tls1).
       let w1 = (case tid_cells w (wkTid d) of
                   None \<Rightarrow> w
                 | Some _ \<Rightarrow> w\<lparr>tid_cells := (tid_cells w)(wkTid d \<mapsto> tid)\<rparr>);
           name = (if data_name d = '''' then ''simplevThread'' else c_str (data_name d));
           (final, err, e) = ThreadData_outcome (data_name d) (call (data_func d))
       in Inr (\<lparr>run_names = [name, final], run_prctl = take 15 name, run_stderr = err, run_end = e\<rparr>, tls1, w1))"

text \<open>
  \<open>startThread\<close>, the function \<open>pthread_create\<close> runs, owns the data: \<open>freed\<close> says whether it was deleted, which a
  thread that aborts or is ended by its exception does not come to.
\<close>

definition startThread ::
  "int \<Rightarrow> ('f \<Rightarrow> func_end) \<Rightarrow> 'f ThreadData \<Rightarrow> log_tls \<Rightarrow> process \<Rightarrow> (bool \<times> thread_run \<times> log_tls \<times> process) res" where
  "startThread gettid call data tls w =
     bindR (ThreadData_runInThread gettid call data tls w) (\<lambda>(run, tls1, w1).
     let freed = (run_end run = Finished) in Inr (freed, run, tls1, w1))"

text \<open>\<open>isMainThread\<close>, given the number of the process.\<close>

definition CurrentThread_isMainThread :: "int \<Rightarrow> int \<Rightarrow> log_tls \<Rightarrow> (bool \<times> log_tls) res" where
  "CurrentThread_isMainThread getpid gettid tls =
     bindR (CurrentThread_tid gettid tls) (\<lambda>(tid, tls1). Inr (tid = getpid, tls1))"

text \<open>A thread writes its number only into a cell that is alive.\<close>

lemma runInThread_cells:
  assumes "ThreadData_runInThread gettid call d tls w = Inr (run, tls1, w1)"
  shows "dom (tid_cells w1) = dom (tid_cells w) \<and> (\<forall>c. c \<noteq> wkTid d \<longrightarrow> tid_cells w1 c = tid_cells w c)"
proof -
  obtain n err e where o: "ThreadData_outcome (data_name d) (call (data_func d)) = (n, err, e)" by (metis prod_cases3)
  from assms obtain tid tls' where "CurrentThread_tid gettid tls = Inr (tid, tls')"
    by (auto simp: ThreadData_runInThread_def res_simps)
  then show ?thesis using assms
    by (cases "tid_cells w (wkTid d)") (auto simp: ThreadData_runInThread_def o Let_def split: if_splits)
qed

text \<open>
  Whatever calls of \<open>start\<close> and \<open>join\<close> succeed on a new thread: after the destructor no thread that was
  created is joinable any more; none is joined or detached twice.
\<close>

datatype thread_call = Call_start "nat option" | Call_join

fun Thread_call :: "thread_call \<Rightarrow> 'f Thread \<times> process \<Rightarrow> ('f Thread \<times> process) res" where
  "Thread_call (Call_start c) (th, w) = bindR (Thread_start c th w) (\<lambda>(d, th1, w1). Inr (th1, w1))"
| "Thread_call Call_join (th, w) = bindR (Thread_join th w) (\<lambda>(r, th1, w1). ensure (r = 0) Fatal (Inr (th1, w1)))"

definition thread_state_ok :: "'f Thread \<times> process \<Rightarrow> bool" where
  "thread_state_ok = (\<lambda>(th, w).
     (th_joined th \<longrightarrow> th_started th) \<and>
     {i. pthreads w i = Some Joinable} = (if th_started th \<and> \<not> th_joined th then {pthreadId th} else {}) \<and>
     tid_cells w (th_tid th) \<noteq> None)"

lemma Thread_call_ok:
  assumes "Thread_call c s = Inr s'" and "thread_state_ok s"
  shows "thread_state_ok s'"
proof -
  obtain th w where s: "s = (th, w)" by fastforce
  show ?thesis
  proof (cases c)
    case (Call_start i)
    then show ?thesis using assms s
      by (auto simp: Thread_start_def res_simps Let_def thread_state_ok_def ThreadData_ctor_def
          split: option.splits if_splits)
  next
    case Call_join
    then show ?thesis using assms s
      by (auto simp: Thread_join_def pthread_join_def res_simps thread_state_ok_def
          split: option.splits pthread_state.splits if_splits)
  qed
qed

lemma thread_released:
  assumes "Thread_ctor f n w0 = (th0, w1)" and "\<And>i. pthreads w0 i \<noteq> Some Joinable"
    and "foldR Thread_call cs (th0, w1) = Inr (th, w)"
  shows "pthreads (Thread_dtor th w) i \<noteq> Some Joinable \<and> Thread_tid th (Thread_dtor th w) = None"
proof -
  have "thread_state_ok (th0, w1)" using assms(1,2) by (auto simp: Thread_ctor_def thread_state_ok_def)
  then have "thread_state_ok (th, w)" using foldR_invariant[OF assms(3), of thread_state_ok] Thread_call_ok by blast
  then show ?thesis by (auto simp: thread_state_ok_def Thread_dtor_def Thread_tid_def Let_def split: if_splits)
qed

section \<open>The two threads of an EventLoopThread\<close>

text \<open>
  Where the owner is: before \<open>startLoop\<close>, at its lock, at its loop's test with the mutex, blocked, unblocked
  without the mutex, about to read \<open>loop_\<close> for its result, after it; in the destructor: about to call
  \<open>quit\<close> on the loop it read, and at \<open>join\<close>; and a crash, through a null pointer or a dead loop.
\<close>

datatype owner_pc =
    O_idle | O_locking | O_testing | O_asleep | O_awake | O_leaving | O_returned "loop_id option"
  | O_quitting loop_id | O_joining | O_gone | O_crashed

text \<open>
  Where the thread is: not there, with its loop constructed, with the mutex, with \<open>loop_\<close> set, after the
  notification, in \<open>loop.loop()\<close>, after it, and gone with its loop.
\<close>

datatype worker_pc =
    W_none | W_constructed | W_locked | W_set | W_notified | W_looping | W_ended | W_exited

datatype party = Owner | Worker

record elt_sys =
  es_loop :: "loop_id option"
  es_exiting :: bool
  es_thread :: "unit Thread"
  es_process :: process
  es_mutex :: "party option"
  es_owner :: owner_pc
  es_worker :: worker_pc
  es_quit :: bool
  es_quit_by_other :: bool

definition elt_start :: "process \<Rightarrow> elt_sys" where
  "elt_start w =
     (let (th, w1) = Thread_ctor () '''' w
      in \<lparr>es_loop = None, es_exiting = False, es_thread = th, es_process = w1, es_mutex = None,
          es_owner = O_idle, es_worker = W_none, es_quit = False, es_quit_by_other = False\<rparr>)"

text \<open>What the owner's description of \<open>Acceptor_Pool\<close> keeps of it.\<close>

definition elt_abs :: "elt_sys \<Rightarrow> EventLoopThread" where
  "elt_abs s = \<lparr>elt_loop = es_loop s, elt_exiting = es_exiting s, elt_started = th_started (es_thread s)\<rparr>"

definition loop_alive :: "worker_pc \<Rightarrow> bool" where
  "loop_alive p \<longleftrightarrow> p \<noteq> W_none \<and> p \<noteq> W_exited"

text \<open>
  The steps. \<open>l\<close> is the loop that \<open>threadFunc\<close> constructs, the flag says whether others decide the step: a
  spurious wake-up, or somebody who got the loop from \<open>startLoop\<close> and asks it to quit. The last
  statements of \<open>threadFunc\<close> and the reads of \<open>loop_\<close> in \<open>return loop_\<close> and in the destructor are not under
  the mutex.
\<close>

inductive elt_step :: "loop_id \<Rightarrow> elt_sys \<Rightarrow> bool \<Rightarrow> elt_sys \<Rightarrow> bool" for l where
  startLoop_start: "es_owner s = O_idle \<Longrightarrow>
    Thread_start (Some i) (es_thread s) (es_process s) = Inr (d, th, w) \<Longrightarrow>
    elt_step l s False (s\<lparr>es_thread := th, es_process := w, es_owner := O_locking, es_worker := W_constructed\<rparr>)"
| startLoop_lock: "es_owner s = O_locking \<Longrightarrow> es_mutex s = None \<Longrightarrow>
    elt_step l s False (s\<lparr>es_mutex := Some Owner, es_owner := O_testing\<rparr>)"
| startLoop_wait: "es_owner s = O_testing \<Longrightarrow> es_loop s = None \<Longrightarrow>
    elt_step l s False (s\<lparr>es_mutex := None, es_owner := O_asleep\<rparr>)"
| startLoop_spurious: "es_owner s = O_asleep \<Longrightarrow> elt_step l s True (s\<lparr>es_owner := O_awake\<rparr>)"
| startLoop_relock: "es_owner s = O_awake \<Longrightarrow> es_mutex s = None \<Longrightarrow>
    elt_step l s False (s\<lparr>es_mutex := Some Owner, es_owner := O_testing\<rparr>)"
| startLoop_unlock: "es_owner s = O_testing \<Longrightarrow> es_loop s \<noteq> None \<Longrightarrow>
    elt_step l s False (s\<lparr>es_mutex := None, es_owner := O_leaving\<rparr>)"
| startLoop_return: "es_owner s = O_leaving \<Longrightarrow> elt_step l s False (s\<lparr>es_owner := O_returned (es_loop s)\<rparr>)"
| threadFunc_lock: "es_worker s = W_constructed \<Longrightarrow> es_mutex s = None \<Longrightarrow>
    elt_step l s False (s\<lparr>es_mutex := Some Worker, es_worker := W_locked\<rparr>)"
| threadFunc_set: "es_worker s = W_locked \<Longrightarrow> elt_step l s False (s\<lparr>es_loop := Some l, es_worker := W_set\<rparr>)"
| threadFunc_notify: "es_worker s = W_set \<Longrightarrow>
    elt_step l s False (s\<lparr>es_owner := (if es_owner s = O_asleep then O_awake else es_owner s), es_worker := W_notified\<rparr>)"
| threadFunc_unlock: "es_worker s = W_notified \<Longrightarrow>
    elt_step l s False (s\<lparr>es_mutex := None, es_worker := W_looping\<rparr>)"
| threadFunc_loop: "es_worker s = W_looping \<Longrightarrow> es_quit s \<Longrightarrow> elt_step l s False (s\<lparr>es_worker := W_ended\<rparr>)"
| threadFunc_end: "es_worker s = W_ended \<Longrightarrow> elt_step l s False (s\<lparr>es_loop := None, es_worker := W_exited\<rparr>)"
| other_quit: "es_owner s = O_returned (Some l') \<or> es_owner s = O_quitting l' \<or> es_owner s = O_joining \<Longrightarrow>
    loop_alive (es_worker s) \<Longrightarrow> elt_step l s True (s\<lparr>es_quit := True, es_quit_by_other := True\<rparr>)"
| dtor_read: "es_owner s = O_idle \<or> (\<exists>r. es_owner s = O_returned r) \<Longrightarrow>
    elt_step l s False (s\<lparr>es_exiting := True,
      es_owner := (case es_loop s of None \<Rightarrow> O_crashed | Some l' \<Rightarrow> O_quitting l')\<rparr>)"
| dtor_quit: "es_owner s = O_quitting l' \<Longrightarrow>
    elt_step l s False (if loop_alive (es_worker s) then s\<lparr>es_quit := True, es_owner := O_joining\<rparr>
                        else s\<lparr>es_owner := O_crashed\<rparr>)"
| dtor_join: "es_owner s = O_joining \<Longrightarrow> es_worker s = W_exited \<Longrightarrow>
    Thread_join (es_thread s) (es_process s) = Inr (r, th, w) \<Longrightarrow>
    elt_step l s False (s\<lparr>es_thread := th, es_process := w, es_owner := O_gone\<rparr>)"

inductive elt_reach :: "process \<Rightarrow> loop_id \<Rightarrow> elt_sys \<Rightarrow> bool" for w l where
  elt_initial: "elt_reach w l (elt_start w)"
| elt_next: "elt_reach w l s \<Longrightarrow> elt_step l s b s' \<Longrightarrow> elt_reach w l s'"

inductive_cases elt_stepE: "elt_step l s b s'"

text \<open>Inside \<open>startLoop\<close>, after the start of the thread.\<close>

fun in_startLoop :: "owner_pc \<Rightarrow> bool" where
  "in_startLoop O_locking = True" | "in_startLoop O_testing = True" | "in_startLoop O_asleep = True"
| "in_startLoop O_awake = True" | "in_startLoop O_leaving = True" | "in_startLoop _ = False"

text \<open>
  The invariant in three parts: who has the mutex and what \<open>loop_\<close> is; how far the two are of each other;
  and who asked the loop to quit.
\<close>

fun worker_holds :: "worker_pc \<Rightarrow> bool" where
  "worker_holds W_locked = True" | "worker_holds W_set = True" | "worker_holds W_notified = True"
| "worker_holds _ = False"

fun published :: "worker_pc \<Rightarrow> bool" where
  "published W_set = True" | "published W_notified = True" | "published W_looping = True"
| "published W_ended = True" | "published _ = False"

fun before_notify :: "worker_pc \<Rightarrow> bool" where
  "before_notify W_constructed = True" | "before_notify W_locked = True" | "before_notify W_set = True"
| "before_notify _ = False"

fun before_set :: "worker_pc \<Rightarrow> bool" where
  "before_set W_none = True" | "before_set W_constructed = True" | "before_set W_locked = True"
| "before_set _ = False"

fun after_loop :: "worker_pc \<Rightarrow> bool" where
  "after_loop W_ended = True" | "after_loop W_exited = True" | "after_loop _ = False"

fun knows_loop :: "loop_id \<Rightarrow> owner_pc \<Rightarrow> bool" where
  "knows_loop l (O_returned r) = (r = Some l)"
| "knows_loop l (O_quitting l') = (l' = l)"
| "knows_loop l _ = True"

fun in_dtor :: "owner_pc \<Rightarrow> bool" where
  "in_dtor (O_quitting l) = True" | "in_dtor O_joining = True" | "in_dtor O_gone = True" | "in_dtor O_crashed = True"
| "in_dtor _ = False"

fun past_wait :: "owner_pc \<Rightarrow> bool" where
  "past_wait O_leaving = True" | "past_wait (O_returned r) = True" | "past_wait (O_quitting l) = True"
| "past_wait O_joining = True" | "past_wait O_gone = True" | "past_wait _ = False"

definition elt_sync :: "loop_id \<Rightarrow> elt_sys \<Rightarrow> bool" where
  "elt_sync l s \<longleftrightarrow>
     es_mutex s = (if es_owner s = O_testing then Some Owner
                   else if worker_holds (es_worker s) then Some Worker else None) \<and>
     (es_owner s = O_testing \<longrightarrow> \<not> worker_holds (es_worker s)) \<and>
     es_loop s = (if published (es_worker s) then Some l else None)"

definition elt_phases :: "loop_id \<Rightarrow> elt_sys \<Rightarrow> bool" where
  "elt_phases l s \<longleftrightarrow>
     (es_worker s = W_none \<longrightarrow> es_owner s = O_idle \<or> es_owner s = O_crashed) \<and>
     (es_owner s = O_idle \<longrightarrow> es_worker s = W_none) \<and>
     (es_owner s = O_asleep \<longrightarrow> before_notify (es_worker s)) \<and>
     (es_exiting s \<longrightarrow> in_dtor (es_owner s)) \<and> (es_owner s = O_gone \<longrightarrow> es_worker s = W_exited) \<and>
     (past_wait (es_owner s) \<longrightarrow> \<not> before_set (es_worker s)) \<and> knows_loop l (es_owner s)"

definition elt_quits :: "elt_sys \<Rightarrow> bool" where
  "elt_quits s \<longleftrightarrow>
     (after_loop (es_worker s) \<longrightarrow> es_quit s) \<and>
     (es_quit s \<longrightarrow> es_quit_by_other s \<or> es_owner s = O_joining \<or> es_owner s = O_gone) \<and>
     (es_owner s = O_joining \<longrightarrow> es_quit s) \<and>
     (es_quit_by_other s \<longrightarrow> \<not> in_startLoop (es_owner s) \<and> es_owner s \<noteq> O_idle) \<and>
     (es_owner s = O_crashed \<longrightarrow> es_quit_by_other s \<or> es_worker s = W_none)"

definition elt_joins :: "elt_sys \<Rightarrow> bool" where
  "elt_joins s \<longleftrightarrow>
     (th_started (es_thread s) \<longleftrightarrow> es_worker s \<noteq> W_none) \<and> (th_joined (es_thread s) \<longleftrightarrow> es_owner s = O_gone) \<and>
     (th_started (es_thread s) \<longrightarrow> pthreads (es_process s) (pthreadId (es_thread s)) =
        Some (if th_joined (es_thread s) then Joined else Joinable))"

definition elt_inv :: "loop_id \<Rightarrow> elt_sys \<Rightarrow> bool" where
  "elt_inv l s \<longleftrightarrow> elt_sync l s \<and> elt_phases l s \<and> elt_quits s \<and> elt_joins s"

lemma elt_sync_step: "elt_step l s b s' \<Longrightarrow> elt_inv l s \<Longrightarrow> elt_sync l s'"
  by (erule elt_stepE) (auto simp: elt_inv_def elt_sync_def elt_phases_def split: if_splits)

lemma elt_phases_step: "elt_step l s b s' \<Longrightarrow> elt_inv l s \<Longrightarrow> elt_phases l s'"
  by (erule elt_stepE; cases "es_worker s")
    (simp_all add: elt_inv_def elt_sync_def elt_phases_def elt_quits_def loop_alive_def split: if_splits, blast+)

lemma elt_quits_step: "elt_step l s b s' \<Longrightarrow> elt_inv l s \<Longrightarrow> elt_quits s'"
  by (erule elt_stepE; cases "es_worker s")
    (auto simp: elt_inv_def elt_sync_def elt_phases_def elt_quits_def loop_alive_def)

lemma elt_joins_step: "elt_step l s b s' \<Longrightarrow> elt_inv l s \<Longrightarrow> elt_joins s'"
  by (erule elt_stepE)
    (auto simp: elt_inv_def elt_phases_def elt_joins_def Thread_start_def Thread_join_def pthread_join_def res_simps Let_def
      split: option.splits)

lemma elt_reach_inv: "elt_reach w l s \<Longrightarrow> elt_inv l s"
proof (induction rule: elt_reach.induct)
  case elt_initial
  then show ?case
    by (simp add: elt_inv_def elt_sync_def elt_phases_def elt_quits_def elt_joins_def elt_start_def Thread_ctor_def)
next
  case (elt_next s b s')
  then show ?case
    using elt_sync_step elt_phases_step elt_quits_step elt_joins_step by (simp add: elt_inv_def)
qed

text \<open>How much is left of \<open>startLoop\<close> and of the part of \<open>threadFunc\<close> it waits for.\<close>

fun owner_left :: "owner_pc \<Rightarrow> nat" where
  "owner_left O_locking = 6" | "owner_left O_awake = 6" | "owner_left O_testing = 5"
| "owner_left O_leaving = 2" | "owner_left O_asleep = 1" | "owner_left _ = 0"

fun worker_left :: "worker_pc \<Rightarrow> nat" where
  "worker_left W_none = 50" | "worker_left W_constructed = 40" | "worker_left W_locked = 30"
| "worker_left W_set = 20" | "worker_left W_notified = 10" | "worker_left _ = 0"

definition elt_left :: "elt_sys \<Rightarrow> nat" where
  "elt_left s = owner_left (es_owner s) + worker_left (es_worker s)"

lemma startLoop_step_left:
  assumes "elt_step l s b s'" and "elt_inv l s" and "in_startLoop (es_owner s)"
  shows "if b then elt_left s' = elt_left s + 5 else elt_left s' < elt_left s"
  by (rule elt_stepE[OF assms(1)]; cases "es_worker s")
    (use assms(2,3) in \<open>auto simp: elt_inv_def elt_sync_def elt_phases_def elt_quits_def elt_left_def\<close>)

lemma startLoop_enabled:
  assumes "elt_inv l s" and "in_startLoop (es_owner s)"
  shows "\<exists>s'. elt_step l s False s'"
proof (cases "worker_holds (es_worker s)")
  case True
  then show ?thesis
    by (cases "es_worker s") (auto intro: threadFunc_set threadFunc_notify threadFunc_unlock)
next
  case False
  then have free: "es_owner s \<noteq> O_testing \<Longrightarrow> es_mutex s = None" using assms(1) by (simp add: elt_inv_def elt_sync_def)
  show ?thesis
  proof (cases "es_owner s")
    case O_asleep
    then have "es_worker s = W_constructed"
      using False assms(1) by (cases "es_worker s") (simp_all add: elt_inv_def elt_phases_def)
    moreover have "es_mutex s = None" using free O_asleep by simp
    ultimately show ?thesis by (blast intro: threadFunc_lock)
  next
    case O_testing
    then show ?thesis by (cases "es_loop s") (blast intro: startLoop_wait startLoop_unlock)+
  qed (use assms(2) free in \<open>auto intro: startLoop_lock startLoop_relock startLoop_return\<close>)
qed

text \<open>A run of steps of which some are spurious wake-ups.\<close>

inductive elt_run :: "loop_id \<Rightarrow> elt_sys \<Rightarrow> bool list \<Rightarrow> elt_sys \<Rightarrow> bool" for l where
  run_nil: "elt_run l s [] s"
| run_step: "elt_run l s bs s1 \<Longrightarrow> in_startLoop (es_owner s1) \<Longrightarrow> elt_step l s1 b s2 \<Longrightarrow> elt_run l s (bs @ [b]) s2"

lemma startLoop_run_bound:
  assumes "elt_run l s bs s'" and "elt_inv l s"
  shows "elt_inv l s' \<and> length (filter Not bs) + elt_left s' \<le> elt_left s + 5 * length (filter id bs)"
  using assms
proof (induction rule: elt_run.induct)
  case (run_step s bs s1 b s2)
  then have "elt_inv l s2"
    using elt_sync_step elt_phases_step elt_quits_step elt_joins_step by (simp add: elt_inv_def)
  moreover have "if b then elt_left s2 = elt_left s1 + 5 else elt_left s2 < elt_left s1"
    using run_step startLoop_step_left[of l s1 b s2] by blast
  ultimately show ?case using run_step by (auto split: if_splits)
qed simp

lemma startLoop_leaves:
  assumes "elt_step l s b s'" and "in_startLoop (es_owner s)"
  shows "in_startLoop (es_owner s') \<or> (\<exists>r. es_owner s' = O_returned r)"
  by (rule elt_stepE[OF assms(1)]) (use assms(2) in auto)

text \<open>
  C25. \<open>startLoop\<close> gets there, and no wake-up is lost. After its thread was started: while \<open>startLoop\<close> has
  not returned, some step of one of the two threads is possible that is no spurious wake-up; with \<open>n\<close>
  spurious wake-ups it takes at most \<open>46 + 5 n\<close> such steps, of whatever interleaving, until it returns; and
  what it returns, although it reads \<open>loop_\<close> without the mutex, is the loop of the new thread.
\<close>

theorem startLoop_terminates:
  assumes "elt_reach w l s" and "in_startLoop (es_owner s)" and "elt_run l s bs s'"
  shows "length (filter Not bs) \<le> 46 + 5 * length (filter id bs) \<and>
    (in_startLoop (es_owner s') \<longrightarrow> (\<exists>s''. elt_step l s' False s'')) \<and>
    (\<not> in_startLoop (es_owner s') \<longrightarrow> es_owner s' = O_returned (Some l))"
proof -
  have inv: "elt_inv l s" by (rule elt_reach_inv[OF assms(1)])
  note run = startLoop_run_bound[OF assms(3) inv]
  have "es_worker s \<noteq> W_none" using inv assms(2) by (auto simp: elt_inv_def elt_phases_def)
  then have "worker_left (es_worker s) \<le> 40" by (cases "es_worker s") simp_all
  moreover have "owner_left (es_owner s) \<le> 6" by (cases "es_owner s") simp_all
  ultimately have "elt_left s \<le> 46" by (simp add: elt_left_def)
  moreover have "in_startLoop (es_owner s') \<or> es_owner s' = O_returned (Some l)"
    using assms(3,2) inv
  proof (induction rule: elt_run.induct)
    case (run_step s bs s1 b s2)
    have "elt_inv l s1" using startLoop_run_bound run_step by blast
    then have "knows_loop l (es_owner s2)" using elt_phases_step[OF run_step(3)] by (simp add: elt_phases_def)
    then show ?case using startLoop_leaves[OF run_step(3,2)] by auto
  qed simp
  ultimately show ?thesis using run startLoop_enabled[of l s'] by auto
qed

definition no_process :: process where
  "no_process = \<lparr>tid_cells = Map.empty, next_cell = 0, numCreated = 0, pthreads = Map.empty\<rparr>"

definition elt_started_sys :: elt_sys where
  "elt_started_sys = (let (th, w1) = Thread_ctor () '''' no_process in
     \<lparr>es_loop = None, es_exiting = False, es_thread = th\<lparr>th_started := True, pthreadId := 5\<rparr>,
      es_process = w1\<lparr>pthreads := [5 \<mapsto> Joinable]\<rparr>, es_mutex = None,
      es_owner = O_locking, es_worker = W_constructed, es_quit = False, es_quit_by_other = False\<rparr>)"

lemma elt_started_reach: "elt_reach no_process 7 elt_started_sys"
proof -
  let ?s = "elt_start no_process"
  obtain d th w where st: "Thread_start (Some 5) (es_thread ?s) (es_process ?s) = Inr (d, th, w)"
    by (auto simp: Thread_start_def elt_start_def Thread_ctor_def Let_def)
  have "elt_reach no_process 7 (?s\<lparr>es_thread := th, es_process := w, es_owner := O_locking, es_worker := W_constructed\<rparr>)"
    by (rule elt_next[OF elt_initial startLoop_start[OF _ st]]) (simp add: elt_start_def Thread_ctor_def)
  moreover have "?s\<lparr>es_thread := th, es_process := w, es_owner := O_locking, es_worker := W_constructed\<rparr> = elt_started_sys"
    using st by (auto simp: Thread_start_def elt_start_def Thread_ctor_def Let_def elt_started_sys_def no_process_def)
  ultimately show ?thesis by simp
qed

theorem startLoop_terminates_witness:
  "\<exists>s''. elt_step 7 (elt_started_sys\<lparr>es_mutex := None, es_owner := O_asleep\<rparr>) False s''"
proof -
  have o: "es_owner elt_started_sys = O_locking" "es_mutex elt_started_sys = None" "es_loop elt_started_sys = None"
    by (simp_all add: elt_started_sys_def Thread_ctor_def)
  let ?s1 = "elt_started_sys\<lparr>es_mutex := Some Owner, es_owner := O_testing\<rparr>"
  have "elt_run 7 elt_started_sys ([] @ [False]) ?s1"
    by (rule run_step[OF run_nil]) (simp_all add: o startLoop_lock)
  then have "elt_run 7 elt_started_sys (([] @ [False]) @ [False]) (?s1\<lparr>es_mutex := None, es_owner := O_asleep\<rparr>)"
    by (rule run_step) (simp, rule startLoop_wait, simp_all add: o)
  from startLoop_terminates[OF elt_started_reach _ this] show ?thesis by (simp add: o)
qed

text \<open>
  The destructor from its read of \<open>loop_\<close> to the end of \<open>join\<close>: how much is left of it and of the thread it
  waits for, and a run of both with the number of its steps that are nobody else's.
\<close>

fun dtor_waits :: "owner_pc \<Rightarrow> bool" where
  "dtor_waits (O_quitting l) = True" | "dtor_waits O_joining = True" | "dtor_waits _ = False"

inductive dtor_run :: "loop_id \<Rightarrow> elt_sys \<Rightarrow> nat \<Rightarrow> elt_sys \<Rightarrow> bool" for l s where
  dtor_run_nil: "dtor_run l s 0 s"
| dtor_run_step: "dtor_run l s n s1 \<Longrightarrow> dtor_waits (es_owner s1) \<Longrightarrow> elt_step l s1 b s2 \<Longrightarrow>
    dtor_run l s (if b then n else Suc n) s2"

fun quitting_left :: "owner_pc \<Rightarrow> nat" where
  "quitting_left (O_quitting l) = 2" | "quitting_left O_joining = 1" | "quitting_left _ = 0"

fun ending_left :: "worker_pc \<Rightarrow> nat" where
  "ending_left W_set = 4" | "ending_left W_notified = 3" | "ending_left W_looping = 2" | "ending_left W_ended = 1"
| "ending_left _ = 0"

definition dtor_left :: "elt_sys \<Rightarrow> nat" where
  "dtor_left s = quitting_left (es_owner s) + ending_left (es_worker s)"

lemma dtor_waits_past: "dtor_waits p \<Longrightarrow> past_wait p"
  by (cases p) simp_all

lemma dtor_step_left:
  assumes "elt_step l s b s'" and "elt_inv l s" and "dtor_waits (es_owner s)"
  shows "if b then dtor_left s' = dtor_left s else dtor_left s' < dtor_left s"
  by (rule elt_stepE[OF assms(1)]; cases "es_worker s")
    (use assms(2,3) dtor_waits_past[OF assms(3)] in \<open>auto simp: elt_inv_def elt_phases_def dtor_left_def\<close>)

text \<open>Whoever waits for the thread can rely on it: it was asked to quit, and gets to its end.\<close>

lemma dtor_enabled:
  assumes "elt_inv l s" and "dtor_waits (es_owner s)"
  shows "\<exists>s'. elt_step l s False s'"
proof (cases "es_owner s")
  case (O_quitting l')
  then show ?thesis using dtor_quit by blast
next
  case O_joining
  then have w: "\<not> before_set (es_worker s)" "es_quit s" "th_started (es_thread s)" "\<not> th_joined (es_thread s)"
    using assms(1) by (auto simp: elt_inv_def elt_phases_def elt_quits_def elt_joins_def)
  show ?thesis
  proof (cases "es_worker s")
    case W_exited
    have "\<exists>r th p. Thread_join (es_thread s) (es_process s) = Inr (r, th, p)"
      using w(3,4) by (simp add: Thread_join_def split: prod.splits)
    then show ?thesis using dtor_join[OF O_joining W_exited] by blast
  qed (use w in \<open>auto intro: threadFunc_notify threadFunc_unlock threadFunc_loop threadFunc_end\<close>)
qed (use assms(2) in simp_all)

lemma dtor_step_leaves:
  assumes "elt_step l s b s'" and "elt_inv l s" and "dtor_waits (es_owner s)"
  shows "dtor_waits (es_owner s') \<or> es_owner s' = O_gone \<or> es_owner s' = O_crashed"
  by (rule elt_stepE[OF assms(1)]) (use assms(2,3) in auto)

lemma dtor_run_bound:
  assumes "dtor_run l s n s'" and "elt_inv l s" and "dtor_waits (es_owner s)"
  shows "elt_inv l s' \<and> n + dtor_left s' \<le> dtor_left s \<and>
    (dtor_waits (es_owner s') \<or> es_owner s' = O_gone \<or> es_owner s' = O_crashed)"
  using assms
proof (induction rule: dtor_run.induct)
  case (dtor_run_step n s1 b s2)
  then have IH: "elt_inv l s1" "n + dtor_left s1 \<le> dtor_left s" by blast+
  have "elt_inv l s2"
    using elt_sync_step elt_phases_step elt_quits_step elt_joins_step dtor_run_step(3) IH(1) by (simp add: elt_inv_def)
  then show ?case
    using IH dtor_step_left[OF dtor_run_step(3) IH(1) dtor_run_step(2)]
      dtor_step_leaves[OF dtor_run_step(3) IH(1) dtor_run_step(2)] by auto
qed simp

lemma dtor_run_started:
  "dtor_run l s n s' \<Longrightarrow> dtor_waits (es_owner s) \<Longrightarrow> elt_inv l s \<Longrightarrow> es_worker s' \<noteq> W_none"
proof (induction rule: dtor_run.induct)
  case dtor_run_nil
  then show ?case by (auto simp: elt_inv_def elt_phases_def)
next
  case (dtor_run_step n s1 b s2)
  then show ?case by (auto elim!: elt_stepE split: if_splits)
qed

lemma elt_joined:
  assumes "elt_inv l s" and "es_owner s = O_gone"
  shows "es_worker s = W_exited" "th_joined (es_thread s)"
    "pthreads (es_process s) (pthreadId (es_thread s)) = Some Joined"
  using assms by (auto simp: elt_inv_def elt_joins_def elt_phases_def)

text \<open>
  C26. The owner's view is right, and the destructor comes to its end. What \<open>startLoop\<close> returns and leaves is
  what the owner's sequential description says, as is the end of the loop; the destructor follows that
  description: it dereferences a null pointer exactly when \<open>startLoop\<close> was never called or the loop has
  already ended; it crashes only if \<open>startLoop\<close> was never called or somebody else asked the loop to quit, in
  which case the loop may even end between its test and its use. From its read of \<open>loop_\<close> on it never hangs:
  until it is through, a step of it or of its thread is possible, it takes at most six of them, in whatever
  interleaving; and then the thread has ended and is joined, unless that crash happened.
\<close>

theorem EventLoopThread_refines:
  assumes "elt_reach w l s" and "elt_step l s b s'"
  shows "(es_owner s = O_leaving \<and> (\<exists>r. es_owner s' = O_returned r) \<longrightarrow>
      EventLoopThread_startLoop l EventLoopThread_ctor = Inr (l, elt_abs s') \<and> es_owner s' = O_returned (Some l)) \<and>
    (es_worker s = W_ended \<and> es_worker s' = W_exited \<longrightarrow> elt_abs s' = EventLoopThread_loopEnded (elt_abs s)) \<and>
    (es_exiting s' \<and> \<not> es_exiting s \<longrightarrow>
      EventLoopThread_dtor (elt_abs s) = (if es_owner s' = O_crashed then Inl NullPointer else Inr (l, elt_abs s')) \<and>
      (es_owner s' = O_crashed \<longleftrightarrow> es_worker s = W_none \<or> es_worker s = W_exited)) \<and>
    (es_owner s' = O_crashed \<longrightarrow> es_worker s' = W_none \<or> es_quit_by_other s') \<and>
    (\<forall>n s2. dtor_waits (es_owner s') \<and> dtor_run l s' n s2 \<longrightarrow> n \<le> 6 \<and>
      (if dtor_waits (es_owner s2) then \<exists>s3. elt_step l s2 False s3
       else es_owner s2 = O_gone \<and> es_worker s2 = W_exited \<and> th_joined (es_thread s2) \<and>
           pthreads (es_process s2) (pthreadId (es_thread s2)) = Some Joined \<or>
         es_owner s2 = O_crashed \<and> es_quit_by_other s2))"
proof -
  have inv: "elt_inv l s" by (rule elt_reach_inv[OF assms(1)])
  then have inv': "elt_inv l s'" using assms by (meson elt_reach_inv elt_next)
  have ret: "es_owner s' = O_returned (Some l) \<and> elt_abs s' = \<lparr>elt_loop = Some l, elt_exiting = False, elt_started = True\<rparr>"
    if "es_owner s = O_leaving" "es_owner s' = O_returned r" for r
    by (rule elt_stepE[OF assms(2)]) (use inv' that in \<open>auto simp: elt_inv_def elt_phases_def elt_joins_def elt_abs_def\<close>)
  have fin: "elt_abs s' = EventLoopThread_loopEnded (elt_abs s)" if "es_worker s = W_ended" "es_worker s' = W_exited"
    by (rule elt_stepE[OF assms(2)]) (use that in \<open>auto simp: elt_abs_def EventLoopThread_loopEnded_def split: if_splits\<close>)
  have dtor: "EventLoopThread_dtor (elt_abs s) = (if es_owner s' = O_crashed then Inl NullPointer else Inr (l, elt_abs s')) \<and>
      (es_owner s' = O_crashed \<longleftrightarrow> es_worker s = W_none \<or> es_worker s = W_exited)" if "es_exiting s'" "\<not> es_exiting s"
    by (rule elt_stepE[OF assms(2)]; cases "es_worker s")
      (use inv that in \<open>auto simp: elt_inv_def elt_sync_def elt_phases_def elt_abs_def EventLoopThread_dtor_def split: if_splits\<close>)
  have crash: "es_worker u = W_none \<or> es_quit_by_other u" if "elt_inv l u" "es_owner u = O_crashed" for u
    using that by (auto simp: elt_inv_def elt_quits_def)
  have ends: "n \<le> 6 \<and> (if dtor_waits (es_owner s2) then \<exists>s3. elt_step l s2 False s3
       else es_owner s2 = O_gone \<and> es_worker s2 = W_exited \<and> th_joined (es_thread s2) \<and>
           pthreads (es_process s2) (pthreadId (es_thread s2)) = Some Joined \<or>
         es_owner s2 = O_crashed \<and> es_quit_by_other s2)"
    if "dtor_waits (es_owner s')" "dtor_run l s' n s2" for n s2
  proof -
    note run = dtor_run_bound[OF that(2) inv' that(1)]
    have "quitting_left (es_owner s') \<le> 2" "ending_left (es_worker s') \<le> 4"
      by (cases "es_owner s'"; simp) (cases "es_worker s'"; simp)
    then have "n \<le> 6" using run by (simp add: dtor_left_def)
    moreover have "es_worker s2 \<noteq> W_none" using dtor_run_started[OF that(2,1)] inv' by blast
    ultimately show ?thesis using run dtor_enabled[of l s2] elt_joined[of l s2] crash[of s2] by auto
  qed
  have "EventLoopThread_startLoop l EventLoopThread_ctor = Inr (l, \<lparr>elt_loop = Some l, elt_exiting = False, elt_started = True\<rparr>)"
    by (simp add: EventLoopThread_startLoop_def EventLoopThread_ctor_def)
  then have "es_owner s = O_leaving \<and> (\<exists>r. es_owner s' = O_returned r) \<longrightarrow>
      EventLoopThread_startLoop l EventLoopThread_ctor = Inr (l, elt_abs s') \<and> es_owner s' = O_returned (Some l)"
    using ret by auto
  with fin dtor crash[OF inv'] ends show ?thesis by blast
qed

text \<open>
  A thread that has run up to its loop, with its owner after \<open>startLoop\<close>; and the owner in its destructor.
\<close>

definition elt_running_sys :: elt_sys where
  "elt_running_sys = elt_started_sys\<lparr>es_loop := Some 7, es_owner := O_returned (Some 7), es_worker := W_looping\<rparr>"

lemma elt_running_reach: "elt_reach no_process 7 elt_running_sys"
proof -
  let ?s = elt_started_sys
  have o: "es_owner ?s = O_locking" "es_worker ?s = W_constructed" "es_mutex ?s = None" "es_loop ?s = None"
    by (simp_all add: elt_started_sys_def Thread_ctor_def)
  let ?s1 = "?s\<lparr>es_mutex := Some Worker, es_worker := W_locked\<rparr>"
  have r1: "elt_reach no_process 7 ?s1"
    by (rule elt_next[OF elt_started_reach threadFunc_lock]) (simp_all add: o)
  let ?s2 = "?s1\<lparr>es_loop := Some 7, es_worker := W_set\<rparr>"
  have r2: "elt_reach no_process 7 ?s2" by (rule elt_next[OF r1 threadFunc_set]) simp
  have "elt_step 7 ?s2 False (?s2\<lparr>es_owner := O_locking, es_worker := W_notified\<rparr>)"
    using threadFunc_notify[of ?s2 7] by (simp add: o)
  with r2 have r3: "elt_reach no_process 7 (?s2\<lparr>es_owner := O_locking, es_worker := W_notified\<rparr>)" (is "elt_reach _ _ ?s3")
    by (rule elt_next)
  let ?s4 = "?s3\<lparr>es_mutex := None, es_worker := W_looping\<rparr>"
  have r4: "elt_reach no_process 7 ?s4" by (rule elt_next[OF r3 threadFunc_unlock]) simp
  let ?s5 = "?s4\<lparr>es_mutex := Some Owner, es_owner := O_testing\<rparr>"
  have r5: "elt_reach no_process 7 ?s5" by (rule elt_next[OF r4 startLoop_lock]) simp_all
  let ?s6 = "?s5\<lparr>es_mutex := None, es_owner := O_leaving\<rparr>"
  have r6: "elt_reach no_process 7 ?s6" by (rule elt_next[OF r5 startLoop_unlock]) simp_all
  have "elt_reach no_process 7 (?s6\<lparr>es_owner := O_returned (es_loop ?s6)\<rparr>)"
    by (rule elt_next[OF r6 startLoop_return]) simp
  moreover have "?s6\<lparr>es_owner := O_returned (es_loop ?s6)\<rparr> = elt_running_sys"
    by (simp add: elt_running_sys_def elt_started_sys_def Let_def split: prod.split)
  ultimately show ?thesis by simp
qed

theorem EventLoopThread_refines_witness:
  "EventLoopThread_dtor (elt_abs (elt_start no_process)) = Inl NullPointer \<and>
   (\<exists>s s3. es_owner s = O_quitting 7 \<and> EventLoopThread_dtor (elt_abs elt_running_sys) = Inr (7, elt_abs s) \<and> elt_step 7 s False s3)"
proof -
  let ?s = "elt_start no_process" and ?r = elt_running_sys
  have o: "es_owner ?s = O_idle" "es_worker ?s = W_none" "es_loop ?s = None" "\<not> es_exiting ?s"
    by (simp_all add: elt_start_def Thread_ctor_def)
  have "elt_step 7 ?s False (?s\<lparr>es_exiting := True, es_owner := O_crashed\<rparr>)"
    using dtor_read[of ?s 7] by (simp add: o)
  from EventLoopThread_refines[OF elt_initial this] have crash: "EventLoopThread_dtor (elt_abs ?s) = Inl NullPointer"
    by (simp add: o)
  have r: "es_owner ?r = O_returned (Some 7)" "es_worker ?r = W_looping" "es_loop ?r = Some 7" "\<not> es_exiting ?r"
    by (simp_all add: elt_running_sys_def elt_started_sys_def Let_def split: prod.split)
  let ?q = "?r\<lparr>es_exiting := True, es_owner := O_quitting 7\<rparr>"
  have "elt_step 7 ?r False ?q" using dtor_read[of ?r 7] by (simp add: r)
  from EventLoopThread_refines[OF elt_running_reach this] dtor_run_nil[of 7 ?q] r
  have "EventLoopThread_dtor (elt_abs ?r) = Inr (7, elt_abs ?q)" "\<exists>s3. elt_step 7 ?q False s3" by auto
  then have "es_owner ?q = O_quitting 7 \<and> EventLoopThread_dtor (elt_abs ?r) = Inr (7, elt_abs ?q) \<and> (\<exists>s3. elt_step 7 ?q False s3)"
    by simp
  then show ?thesis using crash by blast
qed

end
