(* ===== verification/Pool_Threads.thy ===== *)
theory Pool_Threads
  imports Threads
begin

text \<open>
  \<open>EventLoopThreadPool\<close> (net/EventLoopThreadPool.cc) with the threads it owns: \<open>threads_\<close> holds the objects of
  \<open>Threads\<close>, each with its two parties, and they share the threads of one process. \<open>start\<close> makes one after the
  other and waits for each, and the pool's destructor, through \<open>threads_\<close>, destroys each. The pool's
  description in \<open>Acceptor_Pool\<close> is what its owner sees of this system.
\<close>

section \<open>The system\<close>

text \<open>
  Where the pool's thread is: before \<open>start\<close>; in its loop, before thread \<open>i\<close> and in \<open>startLoop\<close> of thread \<open>i\<close>;
  after \<open>start\<close>; in the destructor, between two threads and in the destructor of thread \<open>i\<close>; after it.
\<close>

datatype pool_pc = PP_before | PP_next nat | PP_waiting nat | PP_running | PP_destroying | PP_deleting nat | PP_gone

text \<open>\<open>ps_deleted\<close> are the threads already destroyed, \<open>ps_given\<close> the loops that \<open>getNextLoop\<close> returned so far.\<close>

record pool_sys =
  ps_pool :: EventLoopThreadPool
  ps_threads :: "elt_sys list"
  ps_process :: process
  ps_pc :: pool_pc
  ps_deleted :: "nat list"
  ps_given :: "loop_id list"

definition pool_new :: "int \<Rightarrow> loop_id \<Rightarrow> process \<Rightarrow> pool_sys" where
  "pool_new n l w =
     \<lparr>ps_pool = EventLoopThreadPool_setThreadNum n (EventLoopThreadPool_ctor l), ps_threads = [], ps_process = w,
      ps_pc = PP_before, ps_deleted = [], ps_given = []\<rparr>"

definition pool_thread :: "pool_sys \<Rightarrow> nat \<Rightarrow> elt_sys" where
  "pool_thread s i = (ps_threads s ! i)\<lparr>es_process := ps_process s\<rparr>"

text \<open>
  What a step of thread \<open>i\<close> may be: its owner is the pool's thread, which starts it in \<open>startLoop\<close> and destroys it
  in the destructor; and \<open>pthread_create\<close> makes no thread with the number of one that is yet to be joined.
\<close>

definition thread_step_ok :: "pool_sys \<Rightarrow> nat \<Rightarrow> elt_sys \<Rightarrow> bool" where
  "thread_step_ok s i e \<longleftrightarrow>
     (es_owner (ps_threads s ! i) = O_idle \<longrightarrow>
        ps_pc s = PP_waiting i \<and> pthreads (ps_process s) (pthreadId (es_thread e)) \<noteq> Some Joinable) \<and>
     (es_exiting e \<and> \<not> es_exiting (ps_threads s ! i) \<longrightarrow> ps_pc s = PP_deleting i)"

text \<open>
  The steps. \<open>loops i\<close> is the loop that thread \<open>i\<close> constructs. The flag marks the steps that others
  decide: spurious wake-ups, somebody's \<open>quit\<close> of a loop of the pool, and calls of \<open>getNextLoop\<close>.
  In which order \<open>boost::ptr_vector\<close> destroys its elements is left open.
\<close>

inductive pool_step :: "(nat \<Rightarrow> loop_id) \<Rightarrow> pool_sys \<Rightarrow> bool \<Rightarrow> pool_sys \<Rightarrow> bool" for loops where
  pool_begin: "ps_pc s = PP_before \<Longrightarrow> \<not> pool_started (ps_pool s) \<Longrightarrow>
    pool_step loops s False (s\<lparr>ps_pool := (ps_pool s)\<lparr>pool_started := True\<rparr>, ps_pc := PP_next 0\<rparr>)"
| pool_create: "ps_pc s = PP_next i \<Longrightarrow> int i < numThreads (ps_pool s) \<Longrightarrow> e = elt_start (ps_process s) \<Longrightarrow>
    pool_step loops s False (s\<lparr>ps_threads := ps_threads s @ [e], ps_process := es_process e, ps_pc := PP_waiting i\<rparr>)"
| pool_push: "ps_pc s = PP_waiting i \<Longrightarrow> es_owner (ps_threads s ! i) = O_returned (Some l) \<Longrightarrow>
    pool_step loops s False (s\<lparr>ps_pool := (ps_pool s)\<lparr>pool_loops := pool_loops (ps_pool s) @ [l]\<rparr>, ps_pc := PP_next (Suc i)\<rparr>)"
| pool_ready: "ps_pc s = PP_next i \<Longrightarrow> \<not> int i < numThreads (ps_pool s) \<Longrightarrow>
    pool_step loops s False (s\<lparr>ps_pc := PP_running\<rparr>)"
| pool_hand_out: "ps_pc s = PP_running \<Longrightarrow> EventLoopThreadPool_getNextLoop True (ps_pool s) = Inr (l, p) \<Longrightarrow>
    pool_step loops s True (s\<lparr>ps_pool := p, ps_given := ps_given s @ [l]\<rparr>)"
| pool_destroy: "ps_pc s = PP_running \<Longrightarrow> pool_step loops s False (s\<lparr>ps_pc := PP_destroying\<rparr>)"
| pool_delete: "ps_pc s = PP_destroying \<Longrightarrow> i < length (ps_threads s) \<Longrightarrow> i \<notin> set (ps_deleted s) \<Longrightarrow>
    pool_step loops s False (s\<lparr>ps_pc := PP_deleting i\<rparr>)"
| pool_deleted: "ps_pc s = PP_deleting i \<Longrightarrow> es_owner (ps_threads s ! i) = O_gone \<Longrightarrow>
    pool_step loops s False (s\<lparr>ps_process := Thread_dtor (es_thread (ps_threads s ! i)) (ps_process s),
      ps_deleted := i # ps_deleted s, ps_pc := PP_destroying\<rparr>)"
| pool_end: "ps_pc s = PP_destroying \<Longrightarrow> \<forall>i < length (ps_threads s). i \<in> set (ps_deleted s) \<Longrightarrow>
    pool_step loops s False (s\<lparr>ps_pc := PP_gone\<rparr>)"
| pool_thread_step: "i < length (ps_threads s) \<Longrightarrow> elt_step (loops i) (pool_thread s i) b e \<Longrightarrow> thread_step_ok s i e \<Longrightarrow>
    pool_step loops s b (s\<lparr>ps_threads := (ps_threads s)[i := e], ps_process := es_process e\<rparr>)"

text \<open>The runs of a pool: which of their steps others decided, in their order.\<close>

inductive pool_run :: "(nat \<Rightarrow> loop_id) \<Rightarrow> pool_sys \<Rightarrow> bool list \<Rightarrow> pool_sys \<Rightarrow> bool" for loops where
  pool_run_nil: "pool_run loops s [] s"
| pool_run_step: "pool_run loops s bs s1 \<Longrightarrow> pool_step loops s1 b s2 \<Longrightarrow> pool_run loops s (bs @ [b]) s2"

inductive_cases pool_stepE: "pool_step loops s b s'"

section \<open>Threads that share a process\<close>

lemma elt_inv_step: "elt_step l s b s' \<Longrightarrow> elt_inv l s \<Longrightarrow> elt_inv l s'"
  using elt_sync_step elt_phases_step elt_quits_step elt_joins_step by (simp add: elt_inv_def)

lemma elt_inv_start: "elt_inv l (elt_start w)"
  by (rule elt_reach_inv[OF elt_initial])

text \<open>What a thread's invariant says of the process is the state of that thread.\<close>

lemma elt_inv_process:
  assumes "elt_inv l (e\<lparr>es_process := w\<rparr>)"
    and "th_started (es_thread e) \<Longrightarrow> pthreads w' (pthreadId (es_thread e)) = pthreads w (pthreadId (es_thread e))"
  shows "elt_inv l (e\<lparr>es_process := w'\<rparr>)"
  using assms by (simp add: elt_inv_def elt_sync_def elt_phases_def elt_quits_def elt_joins_def)

lemma elt_step_process:
  assumes "elt_step l s b s'" and "elt_inv l s"
  shows "tid_cells (es_process s') = tid_cells (es_process s)" and "th_tid (es_thread s') = th_tid (es_thread s)"
    and "x \<noteq> pthreadId (es_thread s') \<Longrightarrow> pthreads (es_process s') x = pthreads (es_process s) x"
    and "es_owner s \<noteq> O_idle \<Longrightarrow> pthreadId (es_thread s') = pthreadId (es_thread s)"
    and "th_started (es_thread s) \<Longrightarrow> th_started (es_thread s')"
    and "finite (dom (pthreads (es_process s))) \<Longrightarrow> finite (dom (pthreads (es_process s')))"
  by (rule elt_stepE[OF assms(1)]; use assms(2) in \<open>auto simp: Thread_start_def Thread_join_def pthread_join_def res_simps
      Let_def elt_inv_def elt_joins_def split: option.splits pthread_state.splits\<close>)+

section \<open>The invariant\<close>

text \<open>Where the owner's side of thread \<open>j\<close> may be, by where the pool's thread is.\<close>

definition owner_ok :: "(nat \<Rightarrow> loop_id) \<Rightarrow> pool_pc \<Rightarrow> nat list \<Rightarrow> nat \<Rightarrow> owner_pc \<Rightarrow> bool" where
  "owner_ok loops pc ds j a \<longleftrightarrow>
     (if j \<in> set ds then a = O_gone
      else if pc = PP_waiting j then a = O_idle \<or> in_startLoop a \<or> a = O_returned (Some (loops j))
      else if pc = PP_deleting j then a = O_returned (Some (loops j)) \<or> in_dtor a
      else a = O_returned (Some (loops j)))"

fun pool_len :: "nat \<Rightarrow> pool_pc \<Rightarrow> nat" where
  "pool_len n PP_before = 0" | "pool_len n (PP_next i) = i" | "pool_len n (PP_waiting i) = Suc i" | "pool_len n _ = n"

fun loops_len :: "nat \<Rightarrow> pool_pc \<Rightarrow> nat" where
  "loops_len n PP_before = 0" | "loops_len n (PP_next i) = i" | "loops_len n (PP_waiting i) = i" | "loops_len n _ = n"

fun pc_ok :: "nat \<Rightarrow> pool_pc \<Rightarrow> nat list \<Rightarrow> bool" where
  "pc_ok n (PP_next i) ds = (i \<le> n \<and> ds = [])"
| "pc_ok n (PP_waiting i) ds = (i < n \<and> ds = [])"
| "pc_ok n (PP_deleting i) ds = (i < n \<and> i \<notin> set ds)"
| "pc_ok n PP_destroying ds = True"
| "pc_ok n PP_gone ds = ({..<n} \<subseteq> set ds)"
| "pc_ok n _ ds = (ds = [])"

fun starting :: "pool_pc \<Rightarrow> bool" where
  "starting PP_before = True" | "starting (PP_next i) = True" | "starting (PP_waiting i) = True" | "starting _ = False"

text \<open>The pool's own members, and the loops it handed out.\<close>

definition pool_members :: "(nat \<Rightarrow> loop_id) \<Rightarrow> int \<Rightarrow> loop_id \<Rightarrow> pool_sys \<Rightarrow> bool" where
  "pool_members loops n l s \<longleftrightarrow>
     ps_pool s = \<lparr>baseLoop = l, pool_started = (ps_pc s \<noteq> PP_before), numThreads = n,
       next_loop = (if 0 < n then length (ps_given s) mod nat n else 0), pool_loops = map loops [0..<loops_len (nat n) (ps_pc s)]\<rparr> \<and>
     ps_given s = map (\<lambda>i. if 0 < n then loops (i mod nat n) else l) [0..<length (ps_given s)] \<and>
     (starting (ps_pc s) \<longrightarrow> ps_given s = []) \<and>
     length (ps_threads s) = pool_len (nat n) (ps_pc s) \<and> pc_ok (nat n) (ps_pc s) (ps_deleted s) \<and>
     distinct (ps_deleted s) \<and> set (ps_deleted s) \<subseteq> {..<nat n}"

definition pool_owners :: "(nat \<Rightarrow> loop_id) \<Rightarrow> pool_sys \<Rightarrow> bool" where
  "pool_owners loops s \<longleftrightarrow>
     (\<forall>j < length (ps_threads s). elt_inv (loops j) (pool_thread s j) \<and>
        owner_ok loops (ps_pc s) (ps_deleted s) j (es_owner (ps_threads s ! j)) \<and>
        (es_worker (ps_threads s ! j) = W_none \<longrightarrow> es_owner (ps_threads s ! j) = O_idle) \<and>
        (j \<in> set (ps_deleted s) \<longrightarrow> tid_cells (ps_process s) (th_tid (es_thread (ps_threads s ! j))) = None))"

definition pool_numbers :: "pool_sys \<Rightarrow> bool" where
  "pool_numbers s \<longleftrightarrow>
     (\<forall>j < length (ps_threads s). \<forall>k < length (ps_threads s). j \<noteq> k \<and>
        th_started (es_thread (ps_threads s ! j)) \<and> th_started (es_thread (ps_threads s ! k)) \<longrightarrow>
        pthreadId (es_thread (ps_threads s ! j)) \<noteq> pthreadId (es_thread (ps_threads s ! k)))"

definition pool_inv :: "(nat \<Rightarrow> loop_id) \<Rightarrow> int \<Rightarrow> loop_id \<Rightarrow> pool_sys \<Rightarrow> bool" where
  "pool_inv loops n l s \<longleftrightarrow> pool_members loops n l s \<and> pool_owners loops s \<and> pool_numbers s"

lemma pool_numbersD:
  assumes "pool_numbers s" and "j < length (ps_threads s)" and "k < length (ps_threads s)" and "j \<noteq> k"
    and "th_started (es_thread (ps_threads s ! j))" and "th_started (es_thread (ps_threads s ! k))"
  shows "pthreadId (es_thread (ps_threads s ! j)) \<noteq> pthreadId (es_thread (ps_threads s ! k))"
  using assms unfolding pool_numbers_def by blast

lemma pool_inv_new: "pool_inv loops n l (pool_new n l w)"
  by (simp add: pool_inv_def pool_members_def pool_owners_def pool_numbers_def pool_new_def
      EventLoopThreadPool_ctor_def EventLoopThreadPool_setThreadNum_def)

lemma hand_out_ok:
  assumes "pool_members loops n l s" and "ps_pc s = PP_running"
    and "EventLoopThreadPool_getNextLoop True (ps_pool s) = Inr (x, p)"
  shows "x = (if 0 < n then loops (length (ps_given s) mod nat n) else l)"
    and "p = (ps_pool s)\<lparr>next_loop := (if 0 < n then Suc (length (ps_given s)) mod nat n else 0)\<rparr>"
proof -
  let ?g = "length (ps_given s)"
  have p: "ps_pool s = \<lparr>baseLoop = l, pool_started = True, numThreads = n,
      next_loop = (if 0 < n then ?g mod nat n else 0), pool_loops = map loops [0..<nat n]\<rparr>"
    using assms(1,2) by (simp add: pool_members_def)
  have "x = (if 0 < n then loops (?g mod nat n) else l) \<and>
    p = (ps_pool s)\<lparr>next_loop := (if 0 < n then Suc ?g mod nat n else 0)\<rparr>"
  proof (cases "0 < n")
    case True
    then have "EventLoopThreadPool_getNextLoop True (ps_pool s) =
        Inr (pool_loops (ps_pool s) ! next_loop (ps_pool s),
          (ps_pool s)\<lparr>next_loop := (next_loop (ps_pool s) + 1) mod length (pool_loops (ps_pool s))\<rparr>)"
      by (intro getNextLoop_ok) (simp_all add: p)
    then show ?thesis using True assms(3) by (simp add: p mod_Suc_eq)
  next
    case False
    then show ?thesis using assms(3) by (auto simp: p EventLoopThreadPool_getNextLoop_def res_simps)
  qed
  then show "x = (if 0 < n then loops (?g mod nat n) else l)"
    and "p = (ps_pool s)\<lparr>next_loop := (if 0 < n then Suc ?g mod nat n else 0)\<rparr>" by auto
qed

lemma pool_members_step:
  assumes "pool_step loops s b s'" and "pool_inv loops n l s"
  shows "pool_members loops n l s'"
proof -
  have M: "pool_members loops n l s" using assms(2) by (simp add: pool_inv_def)
  show ?thesis
  proof (rule pool_stepE[OF assms(1)])
    fix i x assume A: "s' = s\<lparr>ps_pool := (ps_pool s)\<lparr>pool_loops := pool_loops (ps_pool s) @ [x]\<rparr>, ps_pc := PP_next (Suc i)\<rparr>"
      "ps_pc s = PP_waiting i" "es_owner (ps_threads s ! i) = O_returned (Some x)"
    then have "x = loops i"
      using assms(2) by (auto simp: pool_inv_def pool_owners_def pool_members_def owner_ok_def dest!: spec[of _ i])
    then show ?thesis using M A by (simp add: pool_members_def)
  next
    fix x p assume A: "s' = s\<lparr>ps_pool := p, ps_given := ps_given s @ [x]\<rparr>" "ps_pc s = PP_running"
      "EventLoopThreadPool_getNextLoop True (ps_pool s) = Inr (x, p)"
    show ?thesis using M A hand_out_ok[OF M A(2,3)] by (simp add: pool_members_def)
  next
    fix i assume A: "s' = s\<lparr>ps_pc := PP_running\<rparr>" "ps_pc s = PP_next i" "\<not> int i < numThreads (ps_pool s)"
    then have "i = nat n" using M by (auto simp: pool_members_def)
    then show ?thesis using M A by (simp add: pool_members_def)
  qed (use M in \<open>auto simp: pool_members_def subset_eq split: if_splits\<close>)
qed

lemma elt_step_pthreads:
  assumes "elt_step l s b s'" and "es_owner s \<noteq> O_idle"
  shows "th_started (es_thread s') = th_started (es_thread s)"
    and "x \<noteq> pthreadId (es_thread s) \<or> \<not> th_started (es_thread s) \<Longrightarrow>
      pthreads (es_process s') x = pthreads (es_process s) x"
  by (rule elt_stepE[OF assms(1)]; use assms(2) in \<open>auto simp: Thread_join_def pthread_join_def res_simps Let_def
      split: option.splits pthread_state.splits\<close>)+

lemma elt_owner_step:
  assumes "elt_step l s b s'"
  shows "es_owner s = O_idle \<Longrightarrow> es_owner s' = O_idle \<or> es_owner s' = O_locking \<or> es_exiting s'"
    and "es_owner s = O_returned r \<Longrightarrow> es_owner s' = O_returned r \<or> es_exiting s' \<and> in_dtor (es_owner s')"
    and "in_dtor (es_owner s) \<Longrightarrow> in_dtor (es_owner s')"
    and "es_owner s = O_gone \<Longrightarrow> es_owner s' = O_gone"
    and "in_startLoop (es_owner s) \<Longrightarrow> es_exiting s' = es_exiting s"
  by (rule elt_stepE[OF assms]; auto split: option.splits)+

lemma elt_worker_step:
  assumes "elt_step l s b s'" and "es_worker s' = W_none"
  shows "es_worker s = W_none" and "es_owner s = O_idle \<Longrightarrow> es_owner s' \<noteq> O_locking"
  by (rule elt_stepE[OF assms(1)]; use assms(2) in \<open>simp split: if_splits option.splits\<close>)+

lemma owner_ok_step:
  assumes "elt_step (loops i) (pool_thread s i) b e" and "thread_step_ok s i e"
    and "elt_inv (loops i) (pool_thread s i)"
    and "owner_ok loops (ps_pc s) ds i (es_owner (ps_threads s ! i))"
    and "ps_pc s = PP_deleting i \<Longrightarrow> i \<notin> set ds"
  shows "owner_ok loops (ps_pc s) ds i (es_owner e)"
proof -
  let ?a = "es_owner (ps_threads s ! i)"
  have o: "es_owner (pool_thread s i) = ?a" "es_exiting (pool_thread s i) = es_exiting (ps_threads s ! i)"
    by (simp_all add: pool_thread_def)
  note st = elt_owner_step[OF assms(1), unfolded o]
  have ex: "es_exiting (ps_threads s ! i) \<Longrightarrow> in_dtor ?a" and k: "knows_loop (loops i) (es_owner e)"
    using assms(3) elt_phases_step[OF assms(1,3)] by (simp_all add: elt_inv_def elt_phases_def pool_thread_def)
  have new: "es_exiting e \<Longrightarrow> \<not> in_dtor ?a \<Longrightarrow> ps_pc s = PP_deleting i"
    using assms(2) ex by (auto simp: thread_step_ok_def)
  have "in_startLoop ?a \<Longrightarrow> in_startLoop (es_owner e) \<or> (\<exists>r. es_owner e = O_returned r)"
    using startLoop_leaves[OF assms(1)] by (simp add: o)
  then have sl: "in_startLoop ?a \<Longrightarrow> in_startLoop (es_owner e) \<or> es_owner e = O_returned (Some (loops i))"
    using k by auto
  show ?thesis
  proof (cases "i \<in> set ds \<or> ps_pc s = PP_deleting i")
    case True
    then show ?thesis using assms(4,5) st by (auto simp: owner_ok_def split: if_splits)
  next
    case False
    then show ?thesis using assms(4) st(1) st(2)[of "Some (loops i)"] sl new by (auto simp: owner_ok_def split: if_splits)
  qed
qed

text \<open>A step of one thread leaves what the process knows of the others.\<close>

lemma other_thread_kept:
  assumes "pool_inv loops n l s" and "i < length (ps_threads s)" and "j < length (ps_threads s)" and "j \<noteq> i"
    and "elt_step (loops i) (pool_thread s i) b e" and "thread_step_ok s i e"
    and "th_started (es_thread (ps_threads s ! j))"
  shows "pthreads (es_process e) (pthreadId (es_thread (ps_threads s ! j))) =
      pthreads (ps_process s) (pthreadId (es_thread (ps_threads s ! j)))"
    and "th_started (es_thread e) \<Longrightarrow> pthreadId (es_thread e) \<noteq> pthreadId (es_thread (ps_threads s ! j))"
proof -
  let ?j = "pthreadId (es_thread (ps_threads s ! j))"
  have invi: "elt_inv (loops i) (pool_thread s i)" and invj: "elt_inv (loops j) (pool_thread s j)"
    and ownj: "owner_ok loops (ps_pc s) (ps_deleted s) j (es_owner (ps_threads s ! j))"
    using assms(1,2,3) by (simp_all add: pool_inv_def pool_owners_def)
  have P: "pthreads (es_process e) ?j = pthreads (ps_process s) ?j \<and>
    (th_started (es_thread e) \<longrightarrow> pthreadId (es_thread e) \<noteq> ?j)"
  proof (cases "es_owner (ps_threads s ! i) = O_idle")
    case True
    then have f: "ps_pc s = PP_waiting i" "pthreads (ps_process s) (pthreadId (es_thread e)) \<noteq> Some Joinable"
      using assms(6) by (simp_all add: thread_step_ok_def)
    then have "es_owner (ps_threads s ! j) = O_returned (Some (loops j))"
      using ownj assms(1,4) by (auto simp: owner_ok_def pool_inv_def pool_members_def)
    then have "pthreads (ps_process s) ?j = Some Joinable"
      using invj assms(7) by (simp add: elt_inv_def elt_joins_def pool_thread_def)
    then have "?j \<noteq> pthreadId (es_thread e)" using f(2) by auto
    then show ?thesis using elt_step_process(3)[OF assms(5) invi] by (simp add: pool_thread_def)
  next
    case False
    then have o: "es_owner (pool_thread s i) \<noteq> O_idle" by (simp add: pool_thread_def)
    have "th_started (es_thread (ps_threads s ! i)) \<Longrightarrow> ?j \<noteq> pthreadId (es_thread (ps_threads s ! i))"
      using assms(1,2,3,4,7) by (auto simp: pool_inv_def pool_numbers_def)
    then show ?thesis
      using elt_step_pthreads(1)[OF assms(5) o] elt_step_pthreads(2)[OF assms(5) o, of ?j] elt_step_process(4)[OF assms(5) invi o]
      by (auto simp: pool_thread_def)
  qed
  then show "pthreads (es_process e) ?j = pthreads (ps_process s) ?j"
    and "th_started (es_thread e) \<Longrightarrow> pthreadId (es_thread e) \<noteq> ?j" by auto
qed

text \<open>A thread of the pool is not destroyed before it was started.\<close>

lemma start_not_skipped:
  assumes "pool_inv loops n l s" and "i < length (ps_threads s)"
    and "elt_step (loops i) (pool_thread s i) b e" and "thread_step_ok s i e" and "es_worker e = W_none"
  shows "es_owner e = O_idle"
proof -
  have o: "es_owner (pool_thread s i) = es_owner (ps_threads s ! i)" "es_exiting (pool_thread s i) = es_exiting (ps_threads s ! i)"
    "es_worker (pool_thread s i) = es_worker (ps_threads s ! i)" by (simp_all add: pool_thread_def)
  have inv: "elt_inv (loops i) (pool_thread s i)" "es_worker (ps_threads s ! i) = W_none \<longrightarrow> es_owner (ps_threads s ! i) = O_idle"
    using assms(1,2) by (simp_all add: pool_inv_def pool_owners_def)
  then have idle: "es_owner (ps_threads s ! i) = O_idle" using elt_worker_step(1)[OF assms(3,5)] by (simp add: o)
  then have "\<not> es_exiting (ps_threads s ! i)" using inv(1) by (auto simp: elt_inv_def elt_phases_def pool_thread_def)
  then have "\<not> es_exiting e" using assms(4) idle by (auto simp: thread_step_ok_def)
  then show ?thesis using elt_owner_step(1)[OF assms(3)] elt_worker_step(2)[OF assms(3,5)] idle by (auto simp: o)
qed

lemma thread_step_inv:
  assumes "pool_inv loops n l s" and "i < length (ps_threads s)"
    and "elt_step (loops i) (pool_thread s i) b e" and "thread_step_ok s i e"
    and "s' = s\<lparr>ps_threads := (ps_threads s)[i := e], ps_process := es_process e\<rparr>"
  shows "pool_owners loops s' \<and> pool_numbers s'"
proof -
  have own: "elt_inv (loops j) (pool_thread s j)" "owner_ok loops (ps_pc s) (ps_deleted s) j (es_owner (ps_threads s ! j))"
      "j \<in> set (ps_deleted s) \<Longrightarrow> tid_cells (ps_process s) (th_tid (es_thread (ps_threads s ! j))) = None"
      "es_worker (ps_threads s ! j) = W_none \<Longrightarrow> es_owner (ps_threads s ! j) = O_idle"
    if "j < length (ps_threads s)" for j using assms(1) that by (simp_all add: pool_inv_def pool_owners_def)
  have num: "j \<noteq> k \<Longrightarrow> th_started (es_thread (ps_threads s ! j)) \<Longrightarrow> th_started (es_thread (ps_threads s ! k)) \<Longrightarrow>
      pthreadId (es_thread (ps_threads s ! j)) \<noteq> pthreadId (es_thread (ps_threads s ! k))"
    if "j < length (ps_threads s)" "k < length (ps_threads s)" for j k
    using pool_numbersD[OF _ that] assms(1) by (simp add: pool_inv_def)
  have del: "ps_pc s = PP_deleting i \<Longrightarrow> i \<notin> set (ps_deleted s)"
    using assms(1) by (simp add: pool_inv_def pool_members_def)
  have none: "es_owner e = O_idle" if "es_worker e = W_none"
    using start_not_skipped[OF assms(1-4) that] .
  have inve: "elt_inv (loops i) e" by (rule elt_inv_step[OF assms(3) own(1)[OF assms(2)]])
  note cells = elt_step_process(1,2)[OF assms(3) own(1)[OF assms(2)]]
  have same: "e\<lparr>es_process := es_process e\<rparr> = e" by (cases e) simp
  have "elt_inv (loops j) (pool_thread s' j) \<and> owner_ok loops (ps_pc s') (ps_deleted s') j (es_owner (ps_threads s' ! j)) \<and>
      (es_worker (ps_threads s' ! j) = W_none \<longrightarrow> es_owner (ps_threads s' ! j) = O_idle) \<and>
      (j \<in> set (ps_deleted s') \<longrightarrow> tid_cells (ps_process s') (th_tid (es_thread (ps_threads s' ! j))) = None)"
    if j: "j < length (ps_threads s)" for j
  proof (cases "j = i")
    case True
    have "pool_thread s' j = e" using True assms(2) same by (simp add: assms(5) pool_thread_def)
    moreover have "owner_ok loops (ps_pc s) (ps_deleted s) i (es_owner e)"
      by (rule owner_ok_step[OF assms(3,4) own(1,2)[OF assms(2)] del])
    moreover have "th_tid (es_thread e) = th_tid (es_thread (ps_threads s ! i))" "tid_cells (es_process e) = tid_cells (ps_process s)"
      using cells by (simp_all add: pool_thread_def)
    ultimately show ?thesis using inve none own(3)[OF assms(2)] True assms(2) by (simp add: assms(5))
  next
    case False
    have "elt_inv (loops j) ((ps_threads s ! j)\<lparr>es_process := es_process e\<rparr>)"
      by (rule elt_inv_process[OF own(1)[OF j, unfolded pool_thread_def]])
        (rule other_thread_kept(1)[OF assms(1,2) j False assms(3,4)])
    moreover have "tid_cells (es_process e) = tid_cells (ps_process s)" using cells(1) by (simp add: pool_thread_def)
    ultimately show ?thesis using own(2,3,4)[OF j] False by (simp add: assms(5) pool_thread_def)
  qed
  moreover have "pool_numbers s'"
    unfolding pool_numbers_def
  proof (intro allI impI)
    fix j k assume A: "j < length (ps_threads s')" "k < length (ps_threads s')"
      "j \<noteq> k \<and> th_started (es_thread (ps_threads s' ! j)) \<and> th_started (es_thread (ps_threads s' ! k))"
    have len: "j < length (ps_threads s)" "k < length (ps_threads s)" using A(1,2) by (simp_all add: assms(5))
    consider "j = i" "k \<noteq> i" | "j \<noteq> i" "k = i" | "j \<noteq> i" "k \<noteq> i" using A(3) by blast
    then show "pthreadId (es_thread (ps_threads s' ! j)) \<noteq> pthreadId (es_thread (ps_threads s' ! k))"
    proof cases
      case 1
      then show ?thesis
        using other_thread_kept(2)[OF assms(1,2) len(2) 1(2) assms(3,4)] A(3) assms(2) by (simp add: assms(5) nth_list_update split: if_splits)
    next
      case 2
      then show ?thesis
        using other_thread_kept(2)[OF assms(1,2) len(1) 2(1) assms(3,4)] A(3) assms(2) by (simp add: assms(5) nth_list_update split: if_splits)
    next
      case 3
      then show ?thesis using num[OF len] A(3) by (simp add: assms(5))
    qed
  qed
  ultimately show ?thesis using assms(5) by (simp add: pool_owners_def)
qed

lemma Thread_dtor_joined:
  assumes "th_joined th"
  shows "pthreads (Thread_dtor th w) = pthreads w"
    and "tid_cells (Thread_dtor th w) = (tid_cells w)(th_tid th := None)"
  using assms by (simp_all add: Thread_dtor_def)

lemma pool_deleted_inv:
  assumes "pool_inv loops n l s" and "ps_pc s = PP_deleting i" and "es_owner (ps_threads s ! i) = O_gone"
    and "s' = s\<lparr>ps_process := Thread_dtor (es_thread (ps_threads s ! i)) (ps_process s),
      ps_deleted := i # ps_deleted s, ps_pc := PP_destroying\<rparr>"
  shows "pool_owners loops s' \<and> pool_numbers s'"
proof -
  have i: "i < length (ps_threads s)" using assms(1,2) by (simp add: pool_inv_def pool_members_def)
  have own: "elt_inv (loops j) (pool_thread s j)" "owner_ok loops (ps_pc s) (ps_deleted s) j (es_owner (ps_threads s ! j))"
      "j \<in> set (ps_deleted s) \<Longrightarrow> tid_cells (ps_process s) (th_tid (es_thread (ps_threads s ! j))) = None"
      "es_worker (ps_threads s ! j) = W_none \<Longrightarrow> es_owner (ps_threads s ! j) = O_idle"
    if "j < length (ps_threads s)" for j using assms(1) that by (simp_all add: pool_inv_def pool_owners_def)
  have "th_joined (es_thread (ps_threads s ! i))"
    using own(1)[OF i] assms(3) by (simp add: elt_inv_def elt_joins_def pool_thread_def)
  note d = Thread_dtor_joined[OF this, of "ps_process s"]
  have "elt_inv (loops j) (pool_thread s' j)" if "j < length (ps_threads s)" for j
    using elt_inv_process[OF own(1)[OF that, unfolded pool_thread_def], of "ps_process s'"] d(1)
    by (simp add: assms(4) pool_thread_def)
  moreover have "owner_ok loops (ps_pc s') (ps_deleted s') j (es_owner (ps_threads s' ! j))" if "j < length (ps_threads s)" for j
    using own(2)[OF that] assms(2,3) by (cases "j = i") (simp_all add: assms(4) owner_ok_def split: if_splits)
  moreover have "tid_cells (ps_process s') (th_tid (es_thread (ps_threads s' ! j))) = None"
    if "j < length (ps_threads s)" "j \<in> set (ps_deleted s')" for j
    using own(3)[OF that(1)] that(2) d(2) by (auto simp: assms(4))
  moreover have "es_worker (ps_threads s' ! j) = W_none \<Longrightarrow> es_owner (ps_threads s' ! j) = O_idle"
    if "j < length (ps_threads s)" for j using own(4)[OF that] by (simp add: assms(4))
  moreover have "pool_numbers s'" using assms(1,4) by (simp add: pool_inv_def pool_numbers_def)
  ultimately show ?thesis using assms(4) by (simp add: pool_owners_def)
qed

lemma pool_created_inv:
  assumes "pool_inv loops n l s" and "ps_pc s = PP_next i" and "e = elt_start (ps_process s)"
    and "s' = s\<lparr>ps_threads := ps_threads s @ [e], ps_process := es_process e, ps_pc := PP_waiting i\<rparr>"
  shows "pool_owners loops s' \<and> pool_numbers s'"
proof -
  have i: "i = length (ps_threads s)" "ps_deleted s = []" using assms(1,2) by (simp_all add: pool_inv_def pool_members_def)
  have own: "elt_inv (loops j) (pool_thread s j)" "owner_ok loops (ps_pc s) (ps_deleted s) j (es_owner (ps_threads s ! j))"
      "es_worker (ps_threads s ! j) = W_none \<Longrightarrow> es_owner (ps_threads s ! j) = O_idle"
    if "j < length (ps_threads s)" for j using assms(1) that by (simp_all add: pool_inv_def pool_owners_def)
  have e: "pthreads (es_process e) = pthreads (ps_process s)" "es_owner e = O_idle" "\<not> th_started (es_thread e)"
    by (simp_all add: assms(3) elt_start_def Thread_ctor_def)
  have same: "e\<lparr>es_process := es_process e\<rparr> = e" by (cases e) simp
  have "elt_inv (loops j) (pool_thread s' j) \<and> owner_ok loops (ps_pc s') (ps_deleted s') j (es_owner (ps_threads s' ! j)) \<and>
      (es_worker (ps_threads s' ! j) = W_none \<longrightarrow> es_owner (ps_threads s' ! j) = O_idle)"
    if "j < length (ps_threads s')" for j
  proof (cases "j = i")
    case True
    then show ?thesis using e(2) elt_inv_start[of "loops i" "ps_process s"] assms(3,4) i same
      by (simp add: pool_thread_def owner_ok_def)
  next
    case False
    then have j: "j < length (ps_threads s)" using that assms(4) i by simp
    have "elt_inv (loops j) ((ps_threads s ! j)\<lparr>es_process := es_process e\<rparr>)"
      by (rule elt_inv_process[OF own(1)[OF j, unfolded pool_thread_def]]) (simp add: e)
    moreover have "es_worker (ps_threads s ! j) = W_none \<longrightarrow> es_owner (ps_threads s ! j) = O_idle" using own(3)[OF j] by blast
    ultimately show ?thesis using own(2)[OF j] j False assms(2,4) i by (simp add: pool_thread_def owner_ok_def nth_append)
  qed
  moreover have "pool_numbers s'"
    unfolding pool_numbers_def
  proof (intro allI impI)
    fix j k assume A: "j < length (ps_threads s')" "k < length (ps_threads s')"
      "j \<noteq> k \<and> th_started (es_thread (ps_threads s' ! j)) \<and> th_started (es_thread (ps_threads s' ! k))"
    then have "j \<noteq> i" "k \<noteq> i" using e(3) i(1) by (auto simp: assms(4))
    then have "j < length (ps_threads s)" "k < length (ps_threads s)" using A(1,2) i(1) by (simp_all add: assms(4))
    then show "pthreadId (es_thread (ps_threads s' ! j)) \<noteq> pthreadId (es_thread (ps_threads s' ! k))"
      using pool_numbersD[of s j k] A(3) assms(1) by (simp add: assms(4) nth_append pool_inv_def)
  qed
  ultimately show ?thesis using assms(4) i by (simp add: pool_owners_def)
qed

text \<open>Steps that change only where the pool's thread is, and what the pool itself knows.\<close>

lemma pool_moved_inv:
  assumes "pool_inv loops n l s" and "ps_threads s' = ps_threads s" and "ps_process s' = ps_process s"
    and "ps_deleted s' = ps_deleted s"
    and "\<And>j a. j < length (ps_threads s) \<Longrightarrow> a = es_owner (ps_threads s ! j) \<Longrightarrow>
      owner_ok loops (ps_pc s) (ps_deleted s) j a \<Longrightarrow> owner_ok loops (ps_pc s') (ps_deleted s) j a"
  shows "pool_owners loops s' \<and> pool_numbers s'"
  using assms by (simp add: pool_inv_def pool_owners_def pool_numbers_def pool_thread_def)

lemma pool_inv_step:
  assumes "pool_step loops s b s'" and "pool_inv loops n l s"
  shows "pool_inv loops n l s'"
proof -
  have "pool_owners loops s' \<and> pool_numbers s'"
  proof (rule pool_stepE[OF assms(1)])
    fix i assume "s' = s\<lparr>ps_threads := ps_threads s @ [elt_start (ps_process s)],
        ps_process := es_process (elt_start (ps_process s)), ps_pc := PP_waiting i\<rparr>" "ps_pc s = PP_next i"
    then show ?thesis using pool_created_inv[OF assms(2)] by blast
  next
    fix i assume "s' = s\<lparr>ps_process := Thread_dtor (es_thread (ps_threads s ! i)) (ps_process s),
        ps_deleted := i # ps_deleted s, ps_pc := PP_destroying\<rparr>" "ps_pc s = PP_deleting i" "es_owner (ps_threads s ! i) = O_gone"
    then show ?thesis using pool_deleted_inv[OF assms(2)] by blast
  next
    fix i e assume "s' = s\<lparr>ps_threads := (ps_threads s)[i := e], ps_process := es_process e\<rparr>"
      "i < length (ps_threads s)" "elt_step (loops i) (pool_thread s i) b e" "thread_step_ok s i e"
    then show ?thesis using thread_step_inv[OF assms(2)] by blast
  next
    fix i x assume A: "s' = s\<lparr>ps_pool := (ps_pool s)\<lparr>pool_loops := pool_loops (ps_pool s) @ [x]\<rparr>, ps_pc := PP_next (Suc i)\<rparr>"
      "ps_pc s = PP_waiting i" "es_owner (ps_threads s ! i) = O_returned (Some x)"
    show ?thesis
      by (rule pool_moved_inv[OF assms(2)]) (use A in \<open>auto simp: owner_ok_def split: if_splits\<close>)
  qed (rule pool_moved_inv[OF assms(2)]; auto simp: owner_ok_def split: if_splits)+
  then show ?thesis using pool_members_step[OF assms] by (simp add: pool_inv_def)
qed

lemma pool_run_inv:
  assumes "pool_run loops s bs s'" and "pool_inv loops n l s"
  shows "pool_inv loops n l s'"
  using assms by (induction rule: pool_run.induct) (auto intro: pool_inv_step)

lemma pool_inv_crash:
  assumes "pool_inv loops n l s"
  shows "\<forall>e \<in> set (ps_threads s). es_owner e = O_crashed \<longrightarrow> es_quit_by_other e"
  unfolding all_set_conv_all_nth
proof (intro allI impI)
  fix j assume "j < length (ps_threads s)" "es_owner (ps_threads s ! j) = O_crashed"
  then show "es_quit_by_other (ps_threads s ! j)"
    using assms by (auto simp: pool_inv_def pool_owners_def elt_inv_def elt_quits_def pool_thread_def)
qed

section \<open>Refinement and safety\<close>

text \<open>
  C27. A pool is what its description says, and its threads are safe. After \<open>start\<close> the pool's members are those
  that the sequential description of \<open>start\<close> gives for the loops that the threads constructed, each published
  by its own thread, and the calls of \<open>getNextLoop\<close> hand them out in a cycle; a loop of the pool is there to be
  used unless somebody else made it quit. The destructor dereferences a null pointer or a dead loop only if somebody
  else made a loop quit; once it is through, every thread has left its loop, ended and been joined, and
  its cell is given back.
\<close>

theorem pool_threads_exact:
  assumes "pool_run loops (pool_new n l w) bs s"
  shows "(ps_pc s = PP_running \<longrightarrow>
      (\<exists>p. EventLoopThreadPool_start True loops (EventLoopThreadPool_setThreadNum n (EventLoopThreadPool_ctor l)) = Inr p \<and>
        next_loops (length (ps_given s)) p = Inr (ps_given s, ps_pool s)) \<and>
      ps_given s = map (\<lambda>i. if 0 < n then loops (i mod nat n) else l) [0..<length (ps_given s)] \<and>
      (\<forall>e \<in> set (ps_threads s). loop_alive (es_worker e) \<or> es_quit_by_other e)) \<and>
    (\<forall>e \<in> set (ps_threads s). es_owner e = O_crashed \<longrightarrow> es_quit_by_other e) \<and>
    (ps_pc s = PP_gone \<longrightarrow> length (ps_threads s) = nat n \<and>
      (\<forall>e \<in> set (ps_threads s). es_worker e = W_exited \<and> th_joined (es_thread e) \<and>
        pthreads (ps_process s) (pthreadId (es_thread e)) = Some Joined \<and>
        tid_cells (ps_process s) (th_tid (es_thread e)) = None))"
proof -
  have inv: "pool_inv loops n l s" by (rule pool_run_inv[OF assms pool_inv_new])
  then have M: "pool_members loops n l s" by (simp add: pool_inv_def)
  have own: "elt_inv (loops j) (pool_thread s j)" "owner_ok loops (ps_pc s) (ps_deleted s) j (es_owner (ps_threads s ! j))"
      "j \<in> set (ps_deleted s) \<Longrightarrow> tid_cells (ps_process s) (th_tid (es_thread (ps_threads s ! j))) = None"
      "es_worker (ps_threads s ! j) = W_none \<Longrightarrow> es_owner (ps_threads s ! j) = O_idle"
    if "j < length (ps_threads s)" for j using inv that by (simp_all add: pool_inv_def pool_owners_def)
  have run: "next_loops (length (ps_given s)) \<lparr>baseLoop = l, pool_started = True, numThreads = n, next_loop = 0,
        pool_loops = map loops [0..<nat n]\<rparr> = Inr (ps_given s, ps_pool s)" if "ps_pc s = PP_running"
    using M that by (subst pool_next_loops[OF refl]) (simp add: pool_members_def)
  have alive: "loop_alive (es_worker (ps_threads s ! j)) \<or> es_quit_by_other (ps_threads s ! j)"
    if "ps_pc s = PP_running" "j < length (ps_threads s)" for j
    using own(1,2)[OF that(2)] M that(1)
    by (cases "es_worker (ps_threads s ! j)")
      (auto simp: elt_inv_def elt_quits_def elt_phases_def pool_thread_def owner_ok_def pool_members_def loop_alive_def)
  have gone: "es_worker (ps_threads s ! j) = W_exited \<and> th_joined (es_thread (ps_threads s ! j)) \<and>
      pthreads (ps_process s) (pthreadId (es_thread (ps_threads s ! j))) = Some Joined \<and>
      tid_cells (ps_process s) (th_tid (es_thread (ps_threads s ! j))) = None"
    if "ps_pc s = PP_gone" "j < length (ps_threads s)" for j
  proof -
    have d: "j \<in> set (ps_deleted s)" using M that by (auto simp: pool_members_def)
    then have "es_owner (ps_threads s ! j) = O_gone" using own(2)[OF that(2)] by (simp add: owner_ok_def)
    then show ?thesis using own(1)[OF that(2)] own(3)[OF that(2) d]
      by (simp add: elt_inv_def elt_phases_def elt_joins_def pool_thread_def)
  qed
  have "ps_pc s = PP_gone \<Longrightarrow> length (ps_threads s) = nat n" using M by (simp add: pool_members_def)
  moreover have "ps_given s = map (\<lambda>i. if 0 < n then loops (i mod nat n) else l) [0..<length (ps_given s)]"
    using M by (simp add: pool_members_def)
  ultimately show ?thesis using run alive gone pool_inv_crash[OF inv] by (simp add: pool_start_exact all_set_conv_all_nth)
qed

section \<open>The life of a pool ends\<close>

text \<open>How much is left of a thread's life, and of the pool's.\<close>

fun dtor_left :: "owner_pc \<Rightarrow> nat" where
  "dtor_left (O_quitting l) = 2" | "dtor_left O_joining = 1" | "dtor_left O_gone = 0" | "dtor_left O_crashed = 0"
| "dtor_left _ = 3"

fun loop_left :: "worker_pc \<Rightarrow> nat" where
  "loop_left W_ended = 1" | "loop_left W_exited = 0" | "loop_left _ = 2"

definition life_left :: "elt_sys \<Rightarrow> nat" where
  "life_left s = elt_left s + dtor_left (es_owner s) + loop_left (es_worker s)"

lemma life_left_start: "life_left (elt_start w) = 55"
  by (simp add: life_left_def elt_left_def elt_start_def Thread_ctor_def)

lemma life_left_step:
  assumes "elt_step l s b s'" and "elt_inv l s"
  shows "if b then life_left s' \<le> life_left s + 5 else life_left s' < life_left s"
  by (rule elt_stepE[OF assms(1)]; cases "es_worker s")
    (use assms(2) in \<open>auto simp: elt_inv_def elt_sync_def elt_phases_def life_left_def elt_left_def split: option.splits\<close>)

fun phase_left :: "nat \<Rightarrow> nat \<Rightarrow> pool_pc \<Rightarrow> nat" where
  "phase_left n k PP_before = 58 * n + 2 * n + 4"
| "phase_left n k (PP_next i) = 58 * (n - i) + 2 * n + 3"
| "phase_left n k (PP_waiting i) = 58 * (n - Suc i) + 2 + 2 * n + 3"
| "phase_left n k PP_running = 2 * n + 2"
| "phase_left n k PP_destroying = 2 * (n - k) + 1"
| "phase_left n k (PP_deleting i) = 2 * (n - k)"
| "phase_left n k PP_gone = 0"

definition pool_left :: "nat \<Rightarrow> pool_sys \<Rightarrow> nat" where
  "pool_left n s = phase_left n (length (ps_deleted s)) (ps_pc s) + sum_list (map life_left (ps_threads s))"

lemma sum_list_update_less:
  fixes f :: "'a \<Rightarrow> nat"
  assumes "i < length xs"
  shows "sum_list (map f (xs[i := x])) + f (xs ! i) = sum_list (map f xs) + f x"
  using assms by (induction xs arbitrary: i) (auto split: nat.splits)

lemma deleting_less:
  assumes "pool_members loops n l s" and "ps_pc s = PP_deleting i"
  shows "length (ps_deleted s) < nat n"
proof -
  have "set (ps_deleted s) \<subset> {..<nat n}" using assms by (auto simp: pool_members_def)
  then have "card (set (ps_deleted s)) < nat n" using psubset_card_mono[of "{..<nat n}"] by simp
  then show ?thesis using assms by (simp add: pool_members_def distinct_card)
qed

lemma pool_left_step:
  assumes "pool_step loops s b s'" and "pool_inv loops n l s"
  shows "if b then pool_left (nat n) s' \<le> pool_left (nat n) s + 5 else pool_left (nat n) s' < pool_left (nat n) s"
proof -
  have M: "pool_members loops n l s" using assms(2) by (simp add: pool_inv_def)
  show ?thesis
  proof (rule pool_stepE[OF assms(1)])
    fix i assume A: "s' = s\<lparr>ps_threads := ps_threads s @ [elt_start (ps_process s)],
        ps_process := es_process (elt_start (ps_process s)), ps_pc := PP_waiting i\<rparr>"
      "ps_pc s = PP_next i" "\<not> b" "int i < numThreads (ps_pool s)"
    then have "i < nat n" using M by (auto simp: pool_members_def)
    then have "nat n - i = Suc (nat n - Suc i)" by simp
    then show ?thesis using A by (simp add: pool_left_def life_left_start)
  next
    fix i assume A: "s' = s\<lparr>ps_process := Thread_dtor (es_thread (ps_threads s ! i)) (ps_process s),
        ps_deleted := i # ps_deleted s, ps_pc := PP_destroying\<rparr>" "ps_pc s = PP_deleting i" "\<not> b"
    then show ?thesis using deleting_less[OF M A(2)] by (simp add: pool_left_def)
  next
    fix i e assume A: "s' = s\<lparr>ps_threads := (ps_threads s)[i := e], ps_process := es_process e\<rparr>"
      "i < length (ps_threads s)" "elt_step (loops i) (pool_thread s i) b e"
    have "elt_inv (loops i) (pool_thread s i)" using assms(2) A(2) by (simp add: pool_inv_def pool_owners_def)
    note life = life_left_step[OF A(3) this]
    have "life_left (pool_thread s i) = life_left (ps_threads s ! i)" by (simp add: pool_thread_def life_left_def elt_left_def)
    then show ?thesis using life A(1) sum_list_update_less[OF A(2), of life_left e] by (auto simp: pool_left_def split: if_splits)
  qed (use M in \<open>auto simp: pool_left_def pool_members_def\<close>)
qed

lemma Thread_dtor_pthreads:
  "pthreads (Thread_dtor th w) =
    (if th_started th \<and> \<not> th_joined th then (pthreads w)(pthreadId th \<mapsto> Detached) else pthreads w)"
  by (simp add: Thread_dtor_def Let_def)

lemma pool_run_finite:
  assumes "pool_run loops s bs s'" and "pool_inv loops n l s" and "finite (dom (pthreads (ps_process s)))"
  shows "finite (dom (pthreads (ps_process s')))"
  using assms
proof (induction rule: pool_run.induct)
  case (pool_run_step s bs s1 b s2)
  then have inv: "pool_inv loops n l s1" and f: "finite (dom (pthreads (ps_process s1)))" using pool_run_inv by blast+
  show ?case
  proof (rule pool_stepE[OF pool_run_step(2)])
    fix i e assume A: "s2 = s1\<lparr>ps_threads := (ps_threads s1)[i := e], ps_process := es_process e\<rparr>"
      "i < length (ps_threads s1)" "elt_step (loops i) (pool_thread s1 i) b e"
    have "elt_inv (loops i) (pool_thread s1 i)" using inv A(2) by (simp add: pool_inv_def pool_owners_def)
    then show ?thesis using elt_step_process(6)[OF A(3)] f A(1) by (simp add: pool_thread_def)
  next
    fix i assume "s2 = s1\<lparr>ps_process := Thread_dtor (es_thread (ps_threads s1 ! i)) (ps_process s1),
        ps_deleted := i # ps_deleted s1, ps_pc := PP_destroying\<rparr>"
    then show ?thesis using f by (simp add: Thread_dtor_pthreads)
  qed (use f in \<open>auto simp: elt_start_def Thread_ctor_def\<close>)
qed simp

lemma pool_run_left:
  assumes "pool_run loops s bs s'" and "pool_inv loops n l s"
  shows "length (filter Not bs) + pool_left (nat n) s' \<le> pool_left (nat n) s + 5 * length (filter id bs)"
  using assms
proof (induction rule: pool_run.induct)
  case (pool_run_step s bs s1 b s2)
  then show ?case using pool_left_step[of loops s1 b s2 n l] pool_run_inv by (auto split: if_splits)
qed simp

text \<open>A thread that was asked to quit gets to its end, and its owner to the end of \<open>join\<close>.\<close>

lemma startLoop_start_enabled:
  assumes "elt_inv l s" and "es_owner s = O_idle" and "finite (dom (pthreads (es_process s)))"
  shows "\<exists>e. elt_step l s False e \<and> pthreads (es_process s) (pthreadId (es_thread e)) \<noteq> Some Joinable \<and> \<not> es_exiting e"
proof -
  obtain i where i: "i \<notin> dom (pthreads (es_process s))" using assms(3) infinite_UNIV_nat ex_new_if_finite by blast
  have n: "\<not> th_started (es_thread s)" "\<not> es_exiting s" using assms(1,2) by (auto simp: elt_inv_def elt_joins_def elt_phases_def)
  then obtain d th w where st: "Thread_start (Some i) (es_thread s) (es_process s) = Inr (d, th, w)" "pthreadId th = i"
    by (auto simp: Thread_start_def Let_def res_simps)
  from startLoop_start[OF assms(2) st(1), of l] st(2) i n show ?thesis by (auto simp: domIff intro!: exI)
qed

lemma quitting_worker_enabled:
  assumes "elt_inv l s" and "es_owner s = O_joining"
  shows "\<exists>e. elt_step l s False e"
proof (cases "es_worker s = W_exited")
  case True
  have "th_started (es_thread s)" "\<not> th_joined (es_thread s)"
    using assms True by (auto simp: elt_inv_def elt_joins_def)
  then obtain r where "Thread_join (es_thread s) (es_process s) = Inr r"
    by (cases "pthread_join (pthreadId (es_thread s)) (es_process s)") (auto simp: Thread_join_def)
  then show ?thesis using dtor_join[OF assms(2) True] by (cases r) blast
next
  case False
  then have "es_worker s \<in> {W_set, W_notified, W_looping, W_ended}" "es_quit s"
    using assms by (cases "es_worker s"; auto simp: elt_inv_def elt_phases_def elt_quits_def)+
  then show ?thesis by (auto intro: threadFunc_notify threadFunc_unlock threadFunc_loop threadFunc_end)
qed

lemma destroying_enabled:
  assumes "elt_inv l s" and "es_owner s = O_returned r \<or> in_dtor (es_owner s)"
    and "es_owner s \<noteq> O_gone" and "es_owner s \<noteq> O_crashed"
  shows "\<exists>e. elt_step l s False e"
proof (cases "es_owner s")
  case (O_returned r)
  then show ?thesis using dtor_read[of s l] by blast
next
  case (O_quitting x)
  then show ?thesis using dtor_quit[of s x l] by blast
next
  case O_joining
  then show ?thesis using quitting_worker_enabled[OF assms(1)] by blast
qed (use assms in auto)

lemma pool_enabled:
  assumes "pool_inv loops n l s" and "finite (dom (pthreads (ps_process s)))"
    and "ps_pc s \<noteq> PP_gone" and "\<forall>e \<in> set (ps_threads s). es_owner e \<noteq> O_crashed"
  shows "\<exists>s'. pool_step loops s False s'"
proof -
  have M: "pool_members loops n l s" using assms(1) by (simp add: pool_inv_def)
  have own: "elt_inv (loops j) (pool_thread s j)" "owner_ok loops (ps_pc s) (ps_deleted s) j (es_owner (ps_threads s ! j))"
    if "j < length (ps_threads s)" for j using assms(1) that by (simp_all add: pool_inv_def pool_owners_def)
  have o: "es_owner (pool_thread s j) = es_owner (ps_threads s ! j)" "es_exiting (pool_thread s j) = es_exiting (ps_threads s ! j)"
    "es_process (pool_thread s j) = ps_process s" for j by (simp_all add: pool_thread_def)
  show ?thesis
  proof (cases "ps_pc s")
    case PP_before
    then show ?thesis using M pool_begin[of s loops] by (auto simp: pool_members_def)
  next
    case (PP_next i)
    then show ?thesis using pool_create[of s i] pool_ready[of s i loops] by blast
  next
    case (PP_waiting i)
    then have i: "i < length (ps_threads s)" "i \<notin> set (ps_deleted s)" using M by (auto simp: pool_members_def)
    then consider "es_owner (ps_threads s ! i) = O_idle" | "in_startLoop (es_owner (ps_threads s ! i))"
      | "es_owner (ps_threads s ! i) = O_returned (Some (loops i))"
      using own(2)[OF i(1)] PP_waiting by (auto simp: owner_ok_def)
    then show ?thesis
    proof cases
      case 1
      then obtain e where "elt_step (loops i) (pool_thread s i) False e"
        "pthreads (ps_process s) (pthreadId (es_thread e)) \<noteq> Some Joinable" "\<not> es_exiting e"
        using startLoop_start_enabled[OF own(1)[OF i(1)]] assms(2) by (auto simp: o)
      then show ?thesis using pool_thread_step[OF i(1), of loops False e] PP_waiting by (auto simp: thread_step_ok_def)
    next
      case 2
      then obtain e where e: "elt_step (loops i) (pool_thread s i) False e"
        using startLoop_enabled[OF own(1)[OF i(1)]] by (auto simp: o)
      have "es_owner (ps_threads s ! i) \<noteq> O_idle" using 2 by auto
      then show ?thesis using pool_thread_step[where loops = loops and b = False and e = e, OF i(1) e] elt_owner_step(5)[OF e] 2
        by (auto simp: thread_step_ok_def o)
    next
      case 3
      then show ?thesis using pool_push[OF PP_waiting] by blast
    qed
  next
    case PP_running
    then show ?thesis using pool_destroy[of s loops] by blast
  next
    case PP_destroying
    then show ?thesis using pool_delete[of s _ loops] pool_end[of s loops] by blast
  next
    case (PP_deleting i)
    then have i: "i < length (ps_threads s)" "i \<notin> set (ps_deleted s)" using M by (auto simp: pool_members_def)
    show ?thesis
    proof (cases "es_owner (ps_threads s ! i) = O_gone")
      case True
      then show ?thesis using pool_deleted[OF PP_deleting] by blast
    next
      case False
      have ow: "es_owner (ps_threads s ! i) = O_returned (Some (loops i)) \<or> in_dtor (es_owner (ps_threads s ! i))"
        using own(2)[OF i(1)] i(2) PP_deleting by (simp add: owner_ok_def)
      moreover have "es_owner (ps_threads s ! i) \<noteq> O_crashed" using assms(4) i(1) by simp
      ultimately obtain e where e: "elt_step (loops i) (pool_thread s i) False e"
        using destroying_enabled[OF own(1)[OF i(1)]] False by (auto simp: o)
      have "es_owner (ps_threads s ! i) \<noteq> O_idle" using ow by auto
      then show ?thesis using pool_thread_step[where loops = loops and b = False and e = e, OF i(1) e] PP_deleting by (auto simp: thread_step_ok_def)
    qed
  qed (use assms(3) in simp)
qed

text \<open>
  C28. A pool's life ends, whatever the interleaving. Not counting what others decide (spurious wake-ups, calls of
  \<open>getNextLoop\<close>, and somebody's \<open>quit\<close> of a loop), the start of a pool of \<open>n\<close> threads and its destruction take at most
  \<open>60 n + 4\<close> steps of all its threads, and \<open>5\<close> more for each thing that others do; and until the pool is
  gone, or its destructor crashed, there is always a step that waits for nobody else.
\<close>

theorem pool_life_ends:
  assumes "finite (dom (pthreads w))" and "pool_run loops (pool_new n l w) bs s"
  shows "length (filter Not bs) \<le> 60 * nat n + 4 + 5 * length (filter id bs) \<and>
    (ps_pc s = PP_gone \<or> (\<exists>e \<in> set (ps_threads s). es_owner e = O_crashed) \<or> (\<exists>s'. pool_step loops s False s'))"
proof -
  have inv: "pool_inv loops n l (pool_new n l w)" by (rule pool_inv_new)
  have "pool_left (nat n) (pool_new n l w) = 60 * nat n + 4" by (simp add: pool_left_def pool_new_def)
  moreover have "finite (dom (pthreads (ps_process s)))"
    by (rule pool_run_finite[OF assms(2) inv]) (simp add: pool_new_def assms(1))
  ultimately show ?thesis
    using pool_run_left[OF assms(2) inv] pool_enabled[OF pool_run_inv[OF assms(2) inv]] by auto
qed

section \<open>A run that ends\<close>

text \<open>When nobody else makes a loop quit, the destructor gets through.\<close>

lemma elt_step_alone: "elt_step l s False s' \<Longrightarrow> es_quit_by_other s' = es_quit_by_other s"
  by (erule elt_stepE) auto

lemma pool_step_alone:
  assumes "pool_step loops s False s'" and "\<forall>e \<in> set (ps_threads s). \<not> es_quit_by_other e"
  shows "\<forall>e \<in> set (ps_threads s'). \<not> es_quit_by_other e"
proof (rule pool_stepE[OF assms(1)])
  fix i e assume A: "s' = s\<lparr>ps_threads := (ps_threads s)[i := e], ps_process := es_process e\<rparr>"
    "i < length (ps_threads s)" "elt_step (loops i) (pool_thread s i) False e"
  have "\<not> es_quit_by_other e" using elt_step_alone[OF A(3)] assms(2) A(2) by (simp add: pool_thread_def)
  then show ?thesis using A(1) assms(2) by (auto dest: set_update_subset_insert[THEN subsetD])
qed (use assms(2) in \<open>auto simp: elt_start_def Thread_ctor_def\<close>)

lemma pool_finishes:
  assumes "pool_run loops (pool_new n l w) bs s" and "finite (dom (pthreads w))"
    and "\<forall>e \<in> set (ps_threads s). \<not> es_quit_by_other e"
  shows "\<exists>k s'. pool_run loops (pool_new n l w) (bs @ replicate k False) s' \<and> ps_pc s' = PP_gone"
  using assms(1,3)
proof (induction "pool_left (nat n) s" arbitrary: bs s rule: less_induct)
  case less
  have inv: "pool_inv loops n l s" by (rule pool_run_inv[OF less(2) pool_inv_new])
  have fin: "finite (dom (pthreads (ps_process s)))"
    by (rule pool_run_finite[OF less(2) pool_inv_new]) (simp add: pool_new_def assms(2))
  have "\<forall>e \<in> set (ps_threads s). es_owner e \<noteq> O_crashed" using pool_inv_crash[OF inv] less(3) by blast
  then consider "ps_pc s = PP_gone" | s1 where "pool_step loops s False s1" using pool_enabled[OF inv fin] by blast
  then show ?case
  proof cases
    case 1
    then show ?thesis using less(2) by (intro exI[of _ 0] exI[of _ s]) simp
  next
    case (2 s1)
    have "pool_left (nat n) s1 < pool_left (nat n) s" using pool_left_step[OF 2 inv] by simp
    from less(1)[OF this pool_run_step[OF less(2) 2] pool_step_alone[OF 2 less(3)]]
    obtain k s' where "pool_run loops (pool_new n l w) ((bs @ [False]) @ replicate k False) s'" "ps_pc s' = PP_gone" by blast
    then show ?thesis by (intro exI[of _ "Suc k"] exI[of _ s']) simp
  qed
qed

lemma pool_finishes_new:
  "\<exists>k s. pool_run (\<lambda>i. 7 + i) (pool_new 1 3 no_process) (replicate k False) s \<and> ps_pc s = PP_gone"
proof -
  have "finite (dom (pthreads no_process))" by (simp add: no_process_def)
  moreover have "\<forall>e \<in> set (ps_threads (pool_new 1 3 no_process)). \<not> es_quit_by_other e" by (simp add: pool_new_def)
  ultimately show ?thesis
    using pool_finishes[where loops = "\<lambda>i. 7 + i" and n = 1 and l = 3 and bs = "[]", OF pool_run_nil] by simp
qed

lemma pool_threads_exact_witness:
  "\<exists>k s. pool_run (\<lambda>i. 7 + i) (pool_new 1 3 no_process) (replicate k False) s \<and> length (ps_threads s) = 1 \<and>
    es_worker (hd (ps_threads s)) = W_exited \<and>
    pthreads (ps_process s) (pthreadId (es_thread (hd (ps_threads s)))) = Some Joined"
proof -
  obtain k s where s: "pool_run (\<lambda>i. 7 + i) (pool_new 1 3 no_process) (replicate k False) s" "ps_pc s = PP_gone"
    using pool_finishes_new by blast
  from pool_threads_exact[OF s(1)] s(2) have "length (ps_threads s) = 1" and
    all: "\<forall>e \<in> set (ps_threads s). es_worker e = W_exited \<and> pthreads (ps_process s) (pthreadId (es_thread e)) = Some Joined"
    by simp_all
  then have "hd (ps_threads s) \<in> set (ps_threads s)" by (cases "ps_threads s") simp_all
  with all s(1) \<open>length (ps_threads s) = 1\<close> show ?thesis by blast
qed

lemma pool_life_ends_witness:
  "\<exists>k s. pool_run (\<lambda>i. 7 + i) (pool_new 1 3 no_process) (replicate k False) s \<and> k \<le> 64"
proof -
  obtain k s where s: "pool_run (\<lambda>i. 7 + i) (pool_new 1 3 no_process) (replicate k False) s" "ps_pc s = PP_gone"
    using pool_finishes_new by blast
  from pool_life_ends[OF _ s(1)] have "k \<le> 64" by (simp add: no_process_def)
  with s(1) show ?thesis by blast
qed

end
