(* ===== verification/Curl_Requests.thy ===== *)
theory Curl_Requests
  imports Io_Channel Socket_Ops
begin

text \<open>
  \<open>Request\<close> and \<open>Curl\<close> (cases/curl/Curl.h, cases/curl/Curl.cc): the binding of libcurl's multi interface
  to an event loop. libcurl is not part of the repository: what it is told is a list of calls, what it
  answers is an argument of the operations. The lemmas are about the channel a request keeps for libcurl's
  socket and about which requests are finished.
\<close>

section \<open>State\<close>

text \<open>A handle of libcurl is a number; so is a request, whose callbacks are those of its user.\<close>

type_synonym easy = nat
type_synonym request_id = nat

datatype curl_option =
    CURLOPT_URL string
  | CURLOPT_WRITEFUNCTION_writeData
  | CURLOPT_WRITEDATA request_id
  | CURLOPT_HEADERFUNCTION_headerData
  | CURLOPT_HEADERDATA request_id
  | CURLOPT_PRIVATE request_id
  | CURLOPT_USERAGENT string
  | CURLOPT_NOBODY int
  | CURLOPT_RANGE string

datatype curl_call =
    Easy_setopt easy curl_option
  | Multi_add_handle easy
  | Multi_remove_handle easy
  | Easy_cleanup easy
  | Multi_assign int "request_id option"
  | Multi_setopt_callbacks
  | Multi_cleanup
  | Global_init bool

text \<open>
  What the code asks of its event loop: keep a channel alive until the functors queued so far have run,
  a timer for \<open>onTimer\<close>, the end of the loop.
\<close>

datatype loop_call =
    Queue_dummy Channel
  | Run_onTimer_after real
  | Loop_quit

record 'cb Request =
  req_curl :: easy
  req_channel :: "Channel option"
  dataCb :: "'cb option"
  headerCb :: "'cb option"
  doneCb :: "'cb option"

text \<open>
  \<open>curlm_\<close> is left out, as there is one. \<open>socketp\<close> is the pointer that \<open>curl_multi_assign\<close> keeps with a
  descriptor, here the request whose channel it points to.
\<close>

record 'cb curl_world =
  cw_loop :: loop_id
  requests :: "request_id \<Rightarrow> 'cb Request option"
  next_request :: request_id
  runningHandles :: int
  prevRunningHandles :: int
  curl_calls :: "curl_call list"
  loop_calls :: "loop_call list"

definition curl_log :: "curl_call list \<Rightarrow> ('cb, 'a) curl_world_scheme \<Rightarrow> ('cb, 'a) curl_world_scheme" where
  "curl_log cs w = w\<lparr>curl_calls := curl_calls w @ cs\<rparr>"

definition loop_log :: "loop_call \<Rightarrow> ('cb, 'a) curl_world_scheme \<Rightarrow> ('cb, 'a) curl_world_scheme" where
  "loop_log c w = w\<lparr>loop_calls := loop_calls w @ [c]\<rparr>"

definition put_request ::
  "request_id \<Rightarrow> 'cb Request option \<Rightarrow> ('cb, 'a) curl_world_scheme \<Rightarrow> ('cb, 'a) curl_world_scheme" where
  "put_request r q w = w\<lparr>requests := (requests w)(r := q)\<rparr>"

text \<open>Using a request through its pointer.\<close>

definition with_request ::
  "request_id \<Rightarrow> ('cb Request \<Rightarrow> 'b res) \<Rightarrow> ('cb, 'a) curl_world_scheme \<Rightarrow> 'b res" where
  "with_request r f w = (case requests w r of None \<Rightarrow> Inl OutOfBounds | Some q \<Rightarrow> f q)"

section \<open>Request\<close>

text \<open>The constructor, given whether \<open>curl_easy_init\<close> succeeds; a request and its handle have one number.\<close>

definition Request_ctor ::
  "bool \<Rightarrow> string \<Rightarrow> ('cb, 'a) curl_world_scheme \<Rightarrow> (request_id \<times> ('cb, 'a) curl_world_scheme) res" where
  "Request_ctor easy_init url w =
     ensure easy_init Fatal
       (let r = next_request w
        in Inr (r, curl_log
             [Easy_setopt r (CURLOPT_URL url), Easy_setopt r CURLOPT_WRITEFUNCTION_writeData,
              Easy_setopt r (CURLOPT_WRITEDATA r), Easy_setopt r CURLOPT_HEADERFUNCTION_headerData,
              Easy_setopt r (CURLOPT_HEADERDATA r), Easy_setopt r (CURLOPT_PRIVATE r),
              Easy_setopt r (CURLOPT_USERAGENT ''curl''), Multi_add_handle r]
             (put_request r (Some \<lparr>req_curl = r, req_channel = None, dataCb = None, headerCb = None, doneCb = None\<rparr>)
               (w\<lparr>next_request := r + 1\<rparr>))))"

definition Request_dtor ::
  "request_id \<Rightarrow> ('cb, 'a) curl_world_scheme \<Rightarrow> ('cb, 'a) curl_world_scheme res" where
  "Request_dtor r w =
     with_request r (\<lambda>q.
       ensure (case req_channel q of None \<Rightarrow> True | Some ch \<Rightarrow> Channel_isNoneEvent ch) AssertFailed
         (Inr (curl_log [Multi_remove_handle (req_curl q), Easy_cleanup (req_curl q)] (put_request r None w)))) w"

definition Request_setDataCallback ::
  "'cb \<Rightarrow> request_id \<Rightarrow> ('cb, 'a) curl_world_scheme \<Rightarrow> ('cb, 'a) curl_world_scheme res" where
  "Request_setDataCallback cb r w =
     with_request r (\<lambda>q. Inr (put_request r (Some (q\<lparr>dataCb := Some cb\<rparr>)) w)) w"

definition Request_setDoneCallback ::
  "'cb \<Rightarrow> request_id \<Rightarrow> ('cb, 'a) curl_world_scheme \<Rightarrow> ('cb, 'a) curl_world_scheme res" where
  "Request_setDoneCallback cb r w =
     with_request r (\<lambda>q. Inr (put_request r (Some (q\<lparr>doneCb := Some cb\<rparr>)) w)) w"

definition Request_setHeaderCallback ::
  "'cb \<Rightarrow> request_id \<Rightarrow> ('cb, 'a) curl_world_scheme \<Rightarrow> ('cb, 'a) curl_world_scheme res" where
  "Request_setHeaderCallback cb r w =
     with_request r (\<lambda>q. Inr (put_request r (Some (q\<lparr>headerCb := Some cb\<rparr>)) w)) w"

text \<open>\<open>setopt\<close>: its four overloads differ in the type of the value, which is part of the option here.\<close>

definition Request_setopt ::
  "curl_option \<Rightarrow> request_id \<Rightarrow> ('cb, 'a) curl_world_scheme \<Rightarrow> ('cb, 'a) curl_world_scheme res" where
  "Request_setopt opt r w = with_request r (\<lambda>q. Inr (curl_log [Easy_setopt (req_curl q) opt] w)) w"

definition Request_headerOnly ::
  "request_id \<Rightarrow> ('cb, 'a) curl_world_scheme \<Rightarrow> ('cb, 'a) curl_world_scheme res" where
  "Request_headerOnly r w = Request_setopt (CURLOPT_NOBODY 1) r w"

definition Request_setRange ::
  "string \<Rightarrow> request_id \<Rightarrow> ('cb, 'a) curl_world_scheme \<Rightarrow> ('cb, 'a) curl_world_scheme res" where
  "Request_setRange rng r w = Request_setopt (CURLOPT_RANGE rng) r w"

text \<open>
  The getters ask libcurl about the handle, whose answer is an argument: nothing when \<open>curl_easy_getinfo\<close>
  fails, which the code does not look at; else a string, which may be null, or a number, which is cut to \<open>int\<close>.
\<close>

definition Request_getEffectiveUrl ::
  "(easy \<Rightarrow> string option option) \<Rightarrow> request_id \<Rightarrow> ('cb, 'a) curl_world_scheme \<Rightarrow> string option res" where
  "Request_getEffectiveUrl getinfo r w =
     with_request r (\<lambda>q. Inr (case getinfo (req_curl q) of None \<Rightarrow> None | Some p \<Rightarrow> p)) w"

definition Request_getRedirectUrl ::
  "(easy \<Rightarrow> string option option) \<Rightarrow> request_id \<Rightarrow> ('cb, 'a) curl_world_scheme \<Rightarrow> string option res" where
  "Request_getRedirectUrl getinfo r w =
     with_request r (\<lambda>q. Inr (case getinfo (req_curl q) of None \<Rightarrow> None | Some p \<Rightarrow> p)) w"

definition Request_getResponseCode ::
  "(easy \<Rightarrow> int64_t option) \<Rightarrow> request_id \<Rightarrow> ('cb, 'a) curl_world_scheme \<Rightarrow> int32_t res" where
  "Request_getResponseCode getinfo r w =
     with_request r (\<lambda>q. Inr (ucast (case getinfo (req_curl q) of None \<Rightarrow> 0 | Some code \<Rightarrow> code))) w"

definition Request_setChannel ::
  "libev \<Rightarrow> int \<Rightarrow> request_id \<Rightarrow> ('cb, 'a) curl_world_scheme \<Rightarrow> ('cb, 'a) curl_world_scheme res" where
  "Request_setChannel L fd r w =
     with_request r (\<lambda>q.
       ensure (req_channel q = None) AssertFailed
         (Inr (put_request r (Some (q\<lparr>req_channel := Some (Channel_doTie r (Channel_ctor L (cw_loop w) fd))\<rparr>)) w))) w"

definition Request_removeChannel ::
  "libev \<Rightarrow> bool \<Rightarrow> request_id \<Rightarrow> ('cb, 'a) curl_world_scheme \<Rightarrow> ('cb, 'a) curl_world_scheme res" where
  "Request_removeChannel L inLoop r w =
     with_request r (\<lambda>q.
       case req_channel q of None \<Rightarrow> Inl NullPointer
       | Some ch \<Rightarrow>
           bindR (Channel_remove L inLoop (Channel_disableAll L ch)) (\<lambda>ch1.
             Inr (put_request r (Some (q\<lparr>req_channel := None\<rparr>)) (loop_log (Queue_dummy ch1) w)))) w"

text \<open>
  The callbacks; \<open>run cb\<close> is the effect of one of the user's, given the data, or the request and the code.
\<close>

definition Request_done ::
  "('cb \<Rightarrow> request_id \<Rightarrow> int \<Rightarrow> ('cb, 'a) curl_world_scheme \<Rightarrow> ('cb, 'a) curl_world_scheme res) \<Rightarrow>
   int \<Rightarrow> request_id \<Rightarrow> ('cb, 'a) curl_world_scheme \<Rightarrow> ('cb, 'a) curl_world_scheme res" where
  "Request_done run code r w =
     with_request r (\<lambda>q. case doneCb q of None \<Rightarrow> Inr w | Some cb \<Rightarrow> run cb r code w) w"

definition Request_dataCallback ::
  "('cb \<Rightarrow> string \<Rightarrow> ('cb, 'a) curl_world_scheme \<Rightarrow> ('cb, 'a) curl_world_scheme res) \<Rightarrow>
   string \<Rightarrow> request_id \<Rightarrow> ('cb, 'a) curl_world_scheme \<Rightarrow> ('cb, 'a) curl_world_scheme res" where
  "Request_dataCallback run buf r w =
     with_request r (\<lambda>q. case dataCb q of None \<Rightarrow> Inr w | Some cb \<Rightarrow> run cb buf w) w"

definition Request_headerCallback ::
  "('cb \<Rightarrow> string \<Rightarrow> ('cb, 'a) curl_world_scheme \<Rightarrow> ('cb, 'a) curl_world_scheme res) \<Rightarrow>
   string \<Rightarrow> request_id \<Rightarrow> ('cb, 'a) curl_world_scheme \<Rightarrow> ('cb, 'a) curl_world_scheme res" where
  "Request_headerCallback run buf r w =
     with_request r (\<lambda>q. case headerCb q of None \<Rightarrow> Inr w | Some cb \<Rightarrow> run cb buf w) w"

text \<open>What libcurl calls with \<open>nmemb\<close> elements of \<open>size\<close> bytes at \<open>buf\<close>; the result is \<open>nmemb\<close>.\<close>

definition Request_writeData ::
  "('cb \<Rightarrow> string \<Rightarrow> ('cb, 'a) curl_world_scheme \<Rightarrow> ('cb, 'a) curl_world_scheme res) \<Rightarrow>
   string \<Rightarrow> nat \<Rightarrow> nat \<Rightarrow> request_id \<Rightarrow> ('cb, 'a) curl_world_scheme \<Rightarrow> (nat \<times> ('cb, 'a) curl_world_scheme) res" where
  "Request_writeData run buf sz nmemb r w =
     ensure (sz = 1) AssertFailed
       (bindR (Request_dataCallback run (take nmemb buf) r w) (\<lambda>w1. Inr (nmemb, w1)))"

definition Request_headerData ::
  "('cb \<Rightarrow> string \<Rightarrow> ('cb, 'a) curl_world_scheme \<Rightarrow> ('cb, 'a) curl_world_scheme res) \<Rightarrow>
   string \<Rightarrow> nat \<Rightarrow> nat \<Rightarrow> request_id \<Rightarrow> ('cb, 'a) curl_world_scheme \<Rightarrow> (nat \<times> ('cb, 'a) curl_world_scheme) res" where
  "Request_headerData run buf sz nmemb r w =
     ensure (sz = 1) AssertFailed
       (bindR (Request_headerCallback run (take nmemb buf) r w) (\<lambda>w1. Inr (nmemb, w1)))"

section \<open>Curl\<close>

text \<open>The constructor, given whether \<open>curl_multi_init\<close> succeeds.\<close>

definition Curl_initialize :: "bool \<Rightarrow> curl_call" where
  "Curl_initialize ssl = Global_init ssl"

definition Curl_ctor :: "bool \<Rightarrow> loop_id \<Rightarrow> 'cb curl_world res" where
  "Curl_ctor multi_init l =
     ensure multi_init Fatal
       (Inr \<lparr>cw_loop = l, requests = Map.empty, next_request = 0, runningHandles = 0, prevRunningHandles = 0,
             curl_calls = [Multi_setopt_callbacks], loop_calls = []\<rparr>)"

definition Curl_dtor :: "('cb, 'a) curl_world_scheme \<Rightarrow> ('cb, 'a) curl_world_scheme" where
  "Curl_dtor w = curl_log [Multi_cleanup] w"

definition Curl_getUrl ::
  "bool \<Rightarrow> string \<Rightarrow> ('cb, 'a) curl_world_scheme \<Rightarrow> (request_id \<times> ('cb, 'a) curl_world_scheme) res" where
  "Curl_getUrl easy_init url w = Request_ctor easy_init url w"

text \<open>\<open>curl_easy_getinfo(c, CURLINFO_PRIVATE, &req)\<close>: the last one that was set.\<close>

fun private_of :: "easy \<Rightarrow> curl_call \<Rightarrow> request_id option" where
  "private_of c (Easy_setopt c' (CURLOPT_PRIVATE r)) = (if c' = c then Some r else None)"
| "private_of c _ = None"

definition curl_private :: "easy \<Rightarrow> ('cb, 'a) curl_world_scheme \<Rightarrow> request_id option" where
  "curl_private c w =
     (case filter (\<lambda>r. r \<noteq> None) (map (private_of c) (rev (curl_calls w))) of [] \<Rightarrow> None | r # _ \<Rightarrow> r)"

text \<open>The pointer of a socket, which libcurl passes to the callback: the last that \<open>curl_multi_assign\<close> gave it.\<close>

fun assign_pointer :: "int \<Rightarrow> curl_call \<Rightarrow> request_id option \<Rightarrow> request_id option" where
  "assign_pointer fd (Multi_assign fd' p) old = (if fd' = fd then p else old)"
| "assign_pointer fd _ old = old"

definition curl_socketp :: "int \<Rightarrow> ('cb, 'a) curl_world_scheme \<Rightarrow> request_id option" where
  "curl_socketp fd w = fold (assign_pointer fd) (curl_calls w) None"

text \<open>The bits of \<open>what\<close>.\<close>

definition CURL_POLL_OUT :: int where "CURL_POLL_OUT = 2"
definition CURL_POLL_REMOVE :: int where "CURL_POLL_REMOVE = 4"

text \<open>An operation on the channel of a request, which \<open>socketCallback\<close> reaches through a pointer.\<close>

definition on_request_channel ::
  "(Channel \<Rightarrow> Channel) \<Rightarrow> request_id \<Rightarrow> ('cb, 'a) curl_world_scheme \<Rightarrow> ('cb, 'a) curl_world_scheme res" where
  "on_request_channel f r w =
     with_request r (\<lambda>q. case req_channel q of None \<Rightarrow> Inl NullPointer
       | Some ch \<Rightarrow> Inr (put_request r (Some (q\<lparr>req_channel := Some (f ch)\<rparr>)) w)) w"

text \<open>Whether the channel of \<open>r\<close> is the one a pointer of libcurl's points to.\<close>

definition getChannel_is :: "request_id \<Rightarrow> request_id option \<Rightarrow> ('cb, 'a) curl_world_scheme \<Rightarrow> bool" where
  "getChannel_is r ch w \<longleftrightarrow>
     (case requests w r of None \<Rightarrow> False
      | Some q \<Rightarrow> (case ch of None \<Rightarrow> req_channel q = None | Some r' \<Rightarrow> r' = r \<and> req_channel q \<noteq> None))"

text \<open>
  \<open>socketCallback\<close> for the handle \<open>c\<close>; \<open>socketp\<close> is the request of which libcurl holds the channel. The
  index into \<open>whatstr\<close> has to be one of its five.
\<close>

definition Curl_socketCallback ::
  "libev \<Rightarrow> bool \<Rightarrow> easy \<Rightarrow> int \<Rightarrow> int \<Rightarrow> request_id option \<Rightarrow> ('cb, 'a) curl_world_scheme \<Rightarrow>
   ('cb, 'a) curl_world_scheme res" where
  "Curl_socketCallback L inLoop c fd what socketp w =
     ensure (0 \<le> what \<and> what < 5) OutOfBounds
      (case curl_private c w of None \<Rightarrow> Inl NullPointer | Some r \<Rightarrow>
       with_request r (\<lambda>q.
         ensure (req_curl q = c) AssertFailed
          (if what = CURL_POLL_REMOVE
           then ensure (getChannel_is r socketp w) AssertFailed
                  (bindR (Request_removeChannel L inLoop r w) (\<lambda>w1. Inr (curl_log [Multi_assign fd None] w1)))
           else
             bindR (case socketp of
                      Some r' \<Rightarrow> Inr (r', w)
                    | None \<Rightarrow>
                        bindR (Request_setChannel L fd r w) (\<lambda>w1.
                        bindR (on_request_channel (\<lambda>ch. Channel_enableReading L
                                 (Channel_setWriteCallback (Cb_Curl_onWrite fd)
                                   (Channel_setReadCallback (Cb_Curl_onRead fd) ch))) r w1) (\<lambda>w2.
                        Inr (r, curl_log [Multi_assign fd (Some r)] w2)))) (\<lambda>(ch, w3).
             ensure (getChannel_is r (Some ch) w3) AssertFailed
              (on_request_channel
                (if bit what 1 then Channel_enableWriting L else Channel_disableWriting L) r w3)))) w)"

text \<open>The \<open>long\<close> of libcurl is cut to an \<open>int\<close>.\<close>

definition Curl_timerCallback :: "int64_t \<Rightarrow> ('cb, 'a) curl_world_scheme \<Rightarrow> ('cb, 'a) curl_world_scheme" where
  "Curl_timerCallback ms w =
     loop_log (Run_onTimer_after (real_of_int (sint (ucast ms :: int32_t)) / 1000)) w"

text \<open>
  \<open>checkFinish\<close>: the messages libcurl has, of which those with the flag are \<open>CURLMSG_DONE\<close>.
\<close>

definition Curl_message ::
  "('cb \<Rightarrow> request_id \<Rightarrow> int \<Rightarrow> ('cb, 'a) curl_world_scheme \<Rightarrow> ('cb, 'a) curl_world_scheme res) \<Rightarrow>
   bool \<times> easy \<times> int \<Rightarrow> ('cb, 'a) curl_world_scheme \<Rightarrow> ('cb, 'a) curl_world_scheme res" where
  "Curl_message run = (\<lambda>(is_done, c, code) w.
     if is_done
     then (case curl_private c w of None \<Rightarrow> Inl NullPointer | Some r \<Rightarrow>
             with_request r (\<lambda>q. ensure (req_curl q = c) AssertFailed (Request_done run code r w)) w)
     else Inr w)"

definition Curl_checkFinish ::
  "('cb \<Rightarrow> request_id \<Rightarrow> int \<Rightarrow> ('cb, 'a) curl_world_scheme \<Rightarrow> ('cb, 'a) curl_world_scheme res) \<Rightarrow>
   (bool \<times> easy \<times> int) list \<Rightarrow> ('cb, 'a) curl_world_scheme \<Rightarrow> ('cb, 'a) curl_world_scheme res" where
  "Curl_checkFinish run messages w =
     bindR (if prevRunningHandles w > runningHandles w \<or> runningHandles w = 0
            then foldR (Curl_message run) messages w else Inr w) (\<lambda>w1.
     Inr (w1\<lparr>prevRunningHandles := runningHandles w1\<rparr>))"

text \<open>
  The loop of \<open>onTimer\<close>, \<open>onRead\<close> and \<open>onWrite\<close>: \<open>action\<close> is the call of \<open>curl_multi_socket_action\<close>, with
  the callbacks libcurl makes in it, the code it returns and the number of running handles; the loop
  goes on while the code is \<open>CURLM_CALL_MULTI_PERFORM\<close>, -1. It ends only if libcurl returns another code.
\<close>

partial_function (option) Curl_perform ::
  "(('cb, 'a) curl_world_scheme \<Rightarrow> int \<times> int \<times> ('cb, 'a) curl_world_scheme) \<Rightarrow> ('cb, 'a) curl_world_scheme \<Rightarrow>
   ('cb, 'a) curl_world_scheme option" where
  "Curl_perform action w =
     (let (rc, running, w1) = action w; w2 = w1\<lparr>runningHandles := running\<rparr>
      in if rc = -1 then Curl_perform action w2 else Some w2)"

definition Curl_onAction ::
  "('cb \<Rightarrow> request_id \<Rightarrow> int \<Rightarrow> ('cb, 'a) curl_world_scheme \<Rightarrow> ('cb, 'a) curl_world_scheme res) \<Rightarrow>
   (('cb, 'a) curl_world_scheme \<Rightarrow> int \<times> int \<times> ('cb, 'a) curl_world_scheme) \<Rightarrow>
   (('cb, 'a) curl_world_scheme \<Rightarrow> (bool \<times> easy \<times> int) list) \<Rightarrow>
   ('cb, 'a) curl_world_scheme \<Rightarrow> ('cb, 'a) curl_world_scheme res option" where
  "Curl_onAction run action messages w =
     (case Curl_perform action w of None \<Rightarrow> None
      | Some w1 \<Rightarrow> Some (Curl_checkFinish run (messages w1) w1))"

text \<open>
  The three callers; \<open>action fd events\<close> is \<open>curl_multi_socket_action(curlm_, fd, events, &runningHandles_)\<close>.
\<close>

definition CURL_SOCKET_TIMEOUT :: int where "CURL_SOCKET_TIMEOUT = -1"
definition CURL_POLL_IN :: int where "CURL_POLL_IN = 1"

definition Curl_onTimer ::
  "('cb \<Rightarrow> request_id \<Rightarrow> int \<Rightarrow> ('cb, 'a) curl_world_scheme \<Rightarrow> ('cb, 'a) curl_world_scheme res) \<Rightarrow>
   (int \<Rightarrow> int \<Rightarrow> ('cb, 'a) curl_world_scheme \<Rightarrow> int \<times> int \<times> ('cb, 'a) curl_world_scheme) \<Rightarrow>
   (('cb, 'a) curl_world_scheme \<Rightarrow> (bool \<times> easy \<times> int) list) \<Rightarrow>
   ('cb, 'a) curl_world_scheme \<Rightarrow> ('cb, 'a) curl_world_scheme res option" where
  "Curl_onTimer run action messages w = Curl_onAction run (action CURL_SOCKET_TIMEOUT 0) messages w"

definition Curl_onRead ::
  "('cb \<Rightarrow> request_id \<Rightarrow> int \<Rightarrow> ('cb, 'a) curl_world_scheme \<Rightarrow> ('cb, 'a) curl_world_scheme res) \<Rightarrow>
   (int \<Rightarrow> int \<Rightarrow> ('cb, 'a) curl_world_scheme \<Rightarrow> int \<times> int \<times> ('cb, 'a) curl_world_scheme) \<Rightarrow>
   (('cb, 'a) curl_world_scheme \<Rightarrow> (bool \<times> easy \<times> int) list) \<Rightarrow>
   int \<Rightarrow> ('cb, 'a) curl_world_scheme \<Rightarrow> ('cb, 'a) curl_world_scheme res option" where
  "Curl_onRead run action messages fd w = Curl_onAction run (action fd CURL_POLL_IN) messages w"

definition Curl_onWrite ::
  "('cb \<Rightarrow> request_id \<Rightarrow> int \<Rightarrow> ('cb, 'a) curl_world_scheme \<Rightarrow> ('cb, 'a) curl_world_scheme res) \<Rightarrow>
   (int \<Rightarrow> int \<Rightarrow> ('cb, 'a) curl_world_scheme \<Rightarrow> int \<times> int \<times> ('cb, 'a) curl_world_scheme) \<Rightarrow>
   (('cb, 'a) curl_world_scheme \<Rightarrow> (bool \<times> easy \<times> int) list) \<Rightarrow>
   int \<Rightarrow> ('cb, 'a) curl_world_scheme \<Rightarrow> ('cb, 'a) curl_world_scheme res option" where
  "Curl_onWrite run action messages fd w = Curl_onAction run (action fd CURL_POLL_OUT) messages w"

section \<open>What the operations do\<close>

lemma request_frames [simp]:
  "requests (curl_log cs w) = requests w" "next_request (curl_log cs w) = next_request w"
  "loop_calls (curl_log cs w) = loop_calls w" "curl_calls (curl_log cs w) = curl_calls w @ cs"
  "requests (put_request r q w) = (requests w)(r := q)" "next_request (put_request r q w) = next_request w"
  "loop_calls (put_request r q w) = loop_calls w" "curl_calls (put_request r q w) = curl_calls w"
  "requests (loop_log lc w) = requests w" "next_request (loop_log lc w) = next_request w"
  "loop_calls (loop_log lc w) = loop_calls w @ [lc]" "curl_calls (loop_log lc w) = curl_calls w"
  by (simp_all add: curl_log_def put_request_def loop_log_def)

text \<open>Calls that do not set \<open>CURLOPT_PRIVATE\<close> of a handle leave it.\<close>

lemma curl_private_log [simp]:
  "list_all (\<lambda>x. private_of c x = None) cs \<Longrightarrow> curl_private c (curl_log cs w) = curl_private c w"
proof -
  assume "list_all (\<lambda>x. private_of c x = None) cs"
  then have "filter (\<lambda>r. r \<noteq> None) (map (private_of c) (rev cs)) = []" by (auto simp: filter_empty_conv list_all_iff)
  then show ?thesis by (simp add: curl_private_def curl_log_def)
qed

lemma req_channel_update_eq [simp]: "q\<lparr>req_channel := a\<rparr> = q\<lparr>req_channel := b\<rparr> \<longleftrightarrow> a = b"
  by (metis Request.select_convs(2) Request.surjective Request.update_convs(2))

lemma requests_channel_eq [simp]:
  "m(r \<mapsto> q\<lparr>req_channel := Some a\<rparr>) = m(r \<mapsto> q\<lparr>req_channel := Some b\<rparr>) \<longleftrightarrow> a = b"
  by (metis fun_upd_same option.inject req_channel_update_eq)

lemma curl_private_put [simp]: "curl_private c (put_request r q w) = curl_private c w"
  by (simp add: curl_private_def)

lemma curl_socketp_frame [simp]:
  "curl_socketp fd (put_request r q w) = curl_socketp fd w" "curl_socketp fd (loop_log lc w) = curl_socketp fd w"
  "curl_socketp fd (curl_log cs w) = fold (assign_pointer fd) cs (curl_socketp fd w)"
  by (simp_all add: curl_socketp_def)

text \<open>What a socket callback leaves alone: the rest of the world, the user's callbacks of the requests.\<close>

definition curl_frame :: "('cb, 'a) curl_world_scheme \<Rightarrow> ('cb, 'a) curl_world_scheme \<Rightarrow> bool" where
  "curl_frame w w' \<longleftrightarrow> curl_world.more w' = curl_world.more w \<and> next_request w' = next_request w \<and>
     (Loop_quit \<in> set (loop_calls w') \<longleftrightarrow> Loop_quit \<in> set (loop_calls w)) \<and>
     (\<forall>c. curl_private c w' = curl_private c w)"

lemma curl_more [simp]:
  "curl_world.more (curl_log cs w) = curl_world.more w" "curl_world.more (put_request r q w) = curl_world.more w"
  "curl_world.more (loop_log lc w) = curl_world.more w"
  by (simp_all add: curl_log_def put_request_def loop_log_def)

lemma curl_private_loop [simp]: "curl_private c (loop_log lc w) = curl_private c w"
  by (simp add: curl_private_def)

text \<open>
  After libcurl asked to watch its socket for \<open>what\<close>, for the first time or again, the request's channel is
  live, watches for reading, and for writing exactly when \<open>what\<close> says so; when it asked to stop, the
  channel watches nothing, its watcher is stopped, and it lives until the queued functors have run.
\<close>

lemma socketCallback_watches:
  assumes L: "libev_ok L" and q: "requests w r = Some q" "req_curl q = c" "curl_private c w = Some r"
    and what: "0 \<le> what" "what < 4"
    and ch: "case req_channel q of None \<Rightarrow> socketp = None
             | Some ch \<Rightarrow> socketp = Some r \<and> Channel_live ch \<and> Channel_isReading ch \<and> ch_fd ch = fd"
  shows "\<exists>w' ch'. Curl_socketCallback L inLoop c fd what socketp w = Inr w' \<and>
    requests w' = (requests w)(r \<mapsto> q\<lparr>req_channel := Some ch'\<rparr>) \<and> Channel_live ch' \<and> Channel_isReading ch' \<and>
    ch_fd ch' = fd \<and> (Channel_isWriting ch' \<longleftrightarrow> bit what 1) \<and> curl_frame w w' \<and>
    (\<forall>fd'. curl_socketp fd' w' = (if fd' = fd \<and> socketp = None then Some r else curl_socketp fd' w))"
proof (cases "req_channel q")
  case None
  let ?ch = "Channel_enableReading L (Channel_setWriteCallback (Cb_Curl_onWrite fd)
     (Channel_setReadCallback (Cb_Curl_onRead fd) (Channel_doTie r (Channel_ctor L (cw_loop w) fd))))"
  have live: "Channel_live ?ch" "Channel_isReading ?ch" "ch_fd ?ch = fd" using L
    by (simp_all add: Channel_defs libev_okD Channel_ctor_def Channel_doTie_def Channel_setReadCallback_def Channel_setWriteCallback_def)
  then show ?thesis using L q what ch None
    by (simp add: Curl_socketCallback_def Request_setChannel_def with_request_def on_request_channel_def
        getChannel_is_def CURL_POLL_REMOVE_def curl_frame_def)
next
  case (Some ch0)
  then show ?thesis using L q what ch
    by (simp add: Curl_socketCallback_def with_request_def on_request_channel_def getChannel_is_def CURL_POLL_REMOVE_def
        curl_frame_def)
qed

lemma socketCallback_removes:
  assumes L: "libev_ok L" and q: "requests w r = Some q" "req_curl q = c" "curl_private c w = Some r"
    and ch: "req_channel q = Some ch" "Channel_live ch"
  shows "\<exists>w' ch'. Curl_socketCallback L True c fd CURL_POLL_REMOVE (Some r) w = Inr w' \<and>
    requests w' = (requests w)(r \<mapsto> q\<lparr>req_channel := None\<rparr>) \<and> loop_calls w' = loop_calls w @ [Queue_dummy ch'] \<and>
    Channel_isNoneEvent ch' \<and> \<not> Channel_live ch' \<and> curl_frame w w' \<and>
    (\<forall>fd'. curl_socketp fd' w' = (if fd' = fd then None else curl_socketp fd' w))"
  using assms
  by (simp add: Curl_socketCallback_def with_request_def getChannel_is_def CURL_POLL_REMOVE_def Request_removeChannel_def
      Channel_remove_def EventLoop_removeChannel_def Channel_stop_def Channel_defs libev_okD curl_frame_def)

text \<open>
  When libcurl's pointer is not the one to the request's channel: a second socket for a request that has a
  channel, a socket that is watched for another request, a socket that is given up and was not watched.
\<close>

lemma socketCallback_fails:
  assumes q: "requests w r = Some q" "req_curl q = c" "curl_private c w = Some r" and what: "0 \<le> what" "what \<le> 4"
    and ch: "socketp \<noteq> (if req_channel q = None then None else Some r) \<or> socketp = None \<and> what = CURL_POLL_REMOVE"
    and other: "socketp = Some r \<Longrightarrow> req_channel q \<noteq> None"
  shows "Curl_socketCallback L inLoop c fd what socketp w =
    Inl (if socketp = None \<and> req_channel q = None then NullPointer else AssertFailed)"
proof (cases socketp)
  case None
  then show ?thesis using assms
    by (cases "req_channel q") (auto simp: Curl_socketCallback_def Request_setChannel_def Request_removeChannel_def
        with_request_def getChannel_is_def CURL_POLL_REMOVE_def)
next
  case (Some r')
  then have "\<not> getChannel_is r socketp w" using q(1) ch other by (auto simp: getChannel_is_def)
  then show ?thesis using q what Some by (simp add: Curl_socketCallback_def with_request_def)
qed

section \<open>The channels follow libcurl\<close>

text \<open>
  What libcurl watches: for each request the descriptor and what to watch it for, and for each descriptor the
  request. A socket callback changes it; the binding has one channel for a request and one request for a
  descriptor, and these are the callbacks that it cannot take.
\<close>

type_synonym libcurl_watches = "(request_id \<Rightarrow> (int \<times> int) option) \<times> (int \<Rightarrow> request_id option)"

type_synonym socket_event = "request_id \<times> int \<times> int"

definition socket_spec :: "socket_event \<Rightarrow> libcurl_watches \<Rightarrow> libcurl_watches res" where
  "socket_spec = (\<lambda>(r, fd, what) (asked, holder).
     case holder fd of
       Some r' \<Rightarrow>
         if r' \<noteq> r then Inl AssertFailed
         else if what = CURL_POLL_REMOVE then Inr (asked(r := None), holder(fd := None))
         else Inr (asked(r \<mapsto> (fd, what)), holder)
     | None \<Rightarrow>
         if asked r \<noteq> None then Inl AssertFailed
         else if what = CURL_POLL_REMOVE then Inl NullPointer
         else Inr (asked(r \<mapsto> (fd, what)), holder(fd \<mapsto> r)))"

definition socket_event_run ::
  "libev \<Rightarrow> socket_event \<Rightarrow> ('cb, 'a) curl_world_scheme \<Rightarrow> ('cb, 'a) curl_world_scheme res" where
  "socket_event_run L = (\<lambda>(r, fd, what) w. Curl_socketCallback L True r fd what (curl_socketp fd w) w)"

definition channel_follows :: "(int \<times> int) option \<Rightarrow> Channel option \<Rightarrow> bool" where
  "channel_follows a ch \<longleftrightarrow>
     (case (a, ch) of
        (None, None) \<Rightarrow> True
      | (Some (fd, what), Some c) \<Rightarrow>
          Channel_live c \<and> Channel_isReading c \<and> ch_fd c = fd \<and> (Channel_isWriting c \<longleftrightarrow> bit what 1)
      | _ \<Rightarrow> False)"

definition channels_follow :: "libcurl_watches \<Rightarrow> ('cb, 'a) curl_world_scheme \<Rightarrow> bool" where
  "channels_follow s w \<longleftrightarrow>
     (\<forall>r q. requests w r = Some q \<longrightarrow>
        req_curl q = r \<and> curl_private r w = Some r \<and> channel_follows (fst s r) (req_channel q)) \<and>
     (\<forall>fd. curl_socketp fd w = snd s fd) \<and>
     (\<forall>fd r. snd s fd = Some r \<longleftrightarrow> (\<exists>what. fst s r = Some (fd, what)))"

lemma channels_followD:
  assumes "channels_follow s w"
  shows "requests w r = Some q \<Longrightarrow> req_curl q = r" "requests w r = Some q \<Longrightarrow> curl_private r w = Some r"
    "requests w r = Some q \<Longrightarrow> channel_follows (fst s r) (req_channel q)" "curl_socketp fd w = snd s fd"
    "snd s fd = Some r \<longleftrightarrow> (\<exists>what. fst s r = Some (fd, what))"
  using assms by (auto simp: channels_follow_def)

lemma channel_follows_None [simp]:
  "channel_follows None ch \<longleftrightarrow> ch = None" "channel_follows a None \<longleftrightarrow> a = None"
  by (auto simp: channel_follows_def split: option.splits)

lemma channel_follows_Some [simp]:
  "channel_follows (Some (fd, what)) (Some c) \<longleftrightarrow>
     Channel_live c \<and> Channel_isReading c \<and> ch_fd c = fd \<and> (Channel_isWriting c \<longleftrightarrow> bit what 1)"
  by (simp add: channel_follows_def)

text \<open>A callback that changes one request and the pointer of one descriptor.\<close>

lemma channels_follow_step:
  assumes inv: "channels_follow s w" and r: "requests w r = Some q"
    and w': "requests w' = (requests w)(r \<mapsto> q\<lparr>req_channel := ch\<rparr>)" "curl_frame w w'"
    and ch: "channel_follows (fst s' r) ch" "\<And>r'. r' \<noteq> r \<Longrightarrow> fst s' r' = fst s r'"
    and ptr: "\<And>fd. curl_socketp fd w' = snd s' fd" "\<And>fd r. snd s' fd = Some r \<longleftrightarrow> (\<exists>what. fst s' r = Some (fd, what))"
  shows "channels_follow s' w'"
  unfolding channels_follow_def
proof (intro conjI allI impI)
  fix r' q'
  assume q': "requests w' r' = Some q'"
  show "req_curl q' = r'" "curl_private r' w' = Some r'" "channel_follows (fst s' r') (req_channel q')"
    using q' w' ch channels_followD(1-3)[OF inv, of r'] r by (cases "r' = r"; auto simp: curl_frame_def)+
qed (use ptr in simp_all)

text \<open>One callback does what the specification says, or fails as it says.\<close>

lemma socket_event_refines:
  assumes L: "libev_ok L" and inv: "channels_follow s w" and r: "requests w r = Some q" and what: "0 \<le> what" "what \<le> 4"
  shows "case socket_spec (r, fd, what) s of
      Inr s' \<Rightarrow> \<exists>w' ch. socket_event_run L (r, fd, what) w = Inr w' \<and> channels_follow s' w' \<and>
        requests w' = (requests w)(r \<mapsto> q\<lparr>req_channel := ch\<rparr>) \<and> curl_frame w w'
    | Inl e \<Rightarrow> socket_event_run L (r, fd, what) w = Inl e"
proof -
  obtain asked holder where s: "s = (asked, holder)" by (cases s)
  note D = channels_followD[OF inv]
  note Q = D(1-3)[OF r]
  have ptr: "curl_socketp fd' w = holder fd'" for fd' using D(4) s by simp
  have own: "holder fd' = Some r' \<longleftrightarrow> (\<exists>what. asked r' = Some (fd', what))" for fd' r' using D(5) s by simp
  have chan: "req_channel q = None \<longleftrightarrow> asked r = None" using Q(3) s by (cases "asked r"; cases "req_channel q") auto
  consider (other) r' where "holder fd = Some r'" "r' \<noteq> r" | (second) "holder fd = None" "asked r \<noteq> None"
    | (unwatched) "holder fd = None" "asked r = None" "what = CURL_POLL_REMOVE"
    | (gone) "holder fd = Some r" "what = CURL_POLL_REMOVE" | (again) "holder fd = Some r" "what \<noteq> CURL_POLL_REMOVE"
    | (new) "holder fd = None" "asked r = None" "what \<noteq> CURL_POLL_REMOVE"
    by (cases "holder fd"; cases "asked r") auto
  then show ?thesis
  proof cases
    case other
    have "socket_event_run L (r, fd, what) w = Inl AssertFailed"
      using socketCallback_fails[OF r Q(1,2) what, of "Some r'" L True fd] other ptr by (simp add: socket_event_run_def)
    then show ?thesis using other s by (simp add: socket_spec_def)
  next
    case second
    then obtain a where "holder fd = None" "asked r = Some a" by blast
    then have "socket_event_run L (r, fd, what) w = Inl AssertFailed"
      using socketCallback_fails[OF r Q(1,2) what, of None L True fd] ptr chan by (simp add: socket_event_run_def)
    then show ?thesis using second s by (simp add: socket_spec_def)
  next
    case unwatched
    then have "socket_event_run L (r, fd, what) w = Inl NullPointer"
      using socketCallback_fails[OF r Q(1,2) what, of None L True fd] ptr chan by (simp add: socket_event_run_def)
    then show ?thesis using unwatched s by (simp add: socket_spec_def)
  next
    case gone
    then obtain w0 ch where a: "asked r = Some (fd, w0)" "req_channel q = Some ch" "Channel_live ch"
      using own[of fd r] Q(3) s chan by (cases "req_channel q") auto
    from socketCallback_removes[OF L r Q(1,2) a(2,3), of fd] obtain w' where w':
      "Curl_socketCallback L True r fd CURL_POLL_REMOVE (Some r) w = Inr w'"
      "requests w' = (requests w)(r \<mapsto> q\<lparr>req_channel := None\<rparr>)" "curl_frame w w'"
      "\<And>fd'. curl_socketp fd' w' = (if fd' = fd then None else curl_socketp fd' w)" by blast
    have mine: "r' = r" if "asked r' = Some (fd, x)" for r' x using own[of fd r'] gone(1) that by auto
    have "channels_follow (asked(r := None), holder(fd := None)) w'"
      using own a(1) by (intro channels_follow_step[OF inv r w'(2,3)]) (auto simp: w'(4) ptr s dest: mine)
    then show ?thesis using gone w'(1-3) ptr s by (auto simp: socket_event_run_def socket_spec_def)
  next
    case again
    then have lt: "what < 4" using what by (simp add: CURL_POLL_REMOVE_def)
    obtain w0 ch where a: "asked r = Some (fd, w0)" "req_channel q = Some ch"
      using again own[of fd r] Q(3) s chan by (cases "req_channel q") auto
    have "case req_channel q of None \<Rightarrow> Some r = None
        | Some ch \<Rightarrow> Some r = Some r \<and> Channel_live ch \<and> Channel_isReading ch \<and> ch_fd ch = fd" using a Q(3) s by simp
    from socketCallback_watches[OF L r Q(1,2) what(1) lt this, of True] obtain w' ch' where w':
      "Curl_socketCallback L True r fd what (Some r) w = Inr w'"
      "requests w' = (requests w)(r \<mapsto> q\<lparr>req_channel := Some ch'\<rparr>)" "Channel_live ch'" "Channel_isReading ch'"
      "ch_fd ch' = fd" "Channel_isWriting ch' \<longleftrightarrow> bit what 1" "curl_frame w w'"
      "\<And>fd'. curl_socketp fd' w' = curl_socketp fd' w" by auto
    have "channels_follow (asked(r \<mapsto> (fd, what)), holder) w'"
      using own a(1) w'(3-6) by (intro channels_follow_step[OF inv r w'(2,7)]) (auto simp: w'(8) ptr s)
    then show ?thesis using again w'(1,2,7) ptr s by (auto simp: socket_event_run_def socket_spec_def)
  next
    case new
    then have lt: "what < 4" using what by (simp add: CURL_POLL_REMOVE_def)
    have "case req_channel q of None \<Rightarrow> None = None
        | Some ch \<Rightarrow> None = Some r \<and> Channel_live ch \<and> Channel_isReading ch \<and> ch_fd ch = fd" using new chan by simp
    from socketCallback_watches[OF L r Q(1,2) what(1) lt this, of True] obtain w' ch' where w':
      "Curl_socketCallback L True r fd what None w = Inr w'"
      "requests w' = (requests w)(r \<mapsto> q\<lparr>req_channel := Some ch'\<rparr>)" "Channel_live ch'" "Channel_isReading ch'"
      "ch_fd ch' = fd" "Channel_isWriting ch' \<longleftrightarrow> bit what 1" "curl_frame w w'"
      "\<And>fd'. curl_socketp fd' w' = (if fd' = fd then Some r else curl_socketp fd' w)" by auto
    have own': "asked r' \<noteq> Some (fd, x)" for r' x using own[of fd r'] new(1) by auto
    have "channels_follow (asked(r \<mapsto> (fd, what)), holder(fd \<mapsto> r)) w'"
      using own own' new w'(3-6) by (intro channels_follow_step[OF inv r w'(2,7)]) (auto simp: w'(8) ptr s)
    then show ?thesis using new w'(1,2,7) ptr s by (auto simp: socket_event_run_def socket_spec_def)
  qed
qed

text \<open>
  C23. The channels of requests follow libcurl. Take any sequence of socket callbacks, for any number of live
  requests and any sockets, each with the pointer that was last given to \<open>curl_multi_assign\<close> for its socket.
  While each request uses one socket at a time and each socket one request, no callback fails, and then each
  request has a channel exactly if libcurl watches a socket for it, on that descriptor, live, reading, and
  writing exactly when libcurl last asked for it. The first callback that is different ends the run: a second
  socket for a request that has one, or a socket that is watched for another request, fails an assertion of the
  binding, and giving up a socket that is not watched, which libcurl does not do, follows a null pointer.
\<close>

theorem curl_channels_follow:
  assumes "libev_ok L" and "channels_follow s w"
    and "\<forall>(r, fd, what) \<in> set es. requests w r \<noteq> None \<and> 0 \<le> what \<and> what \<le> 4"
  shows "case foldR socket_spec es s of
      Inr s' \<Rightarrow> \<exists>w'. foldR (socket_event_run L) es w = Inr w' \<and> channels_follow s' w'
    | Inl e \<Rightarrow> foldR (socket_event_run L) es w = Inl e"
  using assms(2,3)
proof (induction es arbitrary: s w)
  case Nil
  then show ?case by simp
next
  case (Cons e es)
  obtain r fd what where e: "e = (r, fd, what)" by (metis prod_cases3)
  obtain q where q: "requests w r = Some q" "0 \<le> what" "what \<le> 4" using Cons.prems(2) e by auto
  note step = socket_event_refines[OF assms(1) Cons.prems(1) q, of fd, folded e]
  show ?case
  proof (cases "socket_spec e s")
    case (Inl x)
    then show ?thesis using step by simp
  next
    case (Inr s1)
    then obtain w1 ch where w1: "socket_event_run L e w = Inr w1" "channels_follow s1 w1"
      "requests w1 = (requests w)(r \<mapsto> q\<lparr>req_channel := ch\<rparr>)" using step by auto
    have "\<forall>(r, fd, what) \<in> set es. requests w1 r \<noteq> None \<and> 0 \<le> what \<and> what \<le> 4" using Cons.prems(2) w1(3) by auto
    from Cons.IH[OF w1(2) this] show ?thesis using Inr w1(1) by (cases "foldR socket_spec es s1") simp_all
  qed
qed

text \<open>
  Two new requests; libcurl watches both, lets one write, and gives the other up; then it tries a second
  socket for the first.
\<close>

definition two_requests :: "nat curl_world" where
  "two_requests =
     (case bindR (Curl_ctor True 0) (\<lambda>w. bindR (Curl_getUrl True ''a'' w) (\<lambda>(r, w1). Curl_getUrl True ''b'' w1)) of
        Inr (r, w2) \<Rightarrow> w2)"

lemma two_requests_follow:
  "channels_follow (\<lambda>_. None, \<lambda>_. None) two_requests" "requests two_requests 0 \<noteq> None" "requests two_requests 1 \<noteq> None"
  by (auto simp: two_requests_def Curl_ctor_def Curl_getUrl_def Request_ctor_def Let_def channels_follow_def
      curl_private_def curl_socketp_def curl_log_def put_request_def)

lemma curl_channels_follow_witness:
  "(\<exists>w'. foldR (socket_event_run libev_ref) [(0, 7, 1), (1, 8, 1), (0, 7, 3), (1, 8, 4)] two_requests = Inr w' \<and>
      channels_follow ((\<lambda>_. None)(0 \<mapsto> (7, 3)), (\<lambda>_. None)(7 \<mapsto> 0)) w') \<and>
   foldR (socket_event_run libev_ref) [(0, 7, 1), (1, 8, 1), (0, 9, 1)] two_requests = Inl AssertFailed"
  using curl_channels_follow[OF libev_ref_ok two_requests_follow(1), of "[(0, 7, 1), (1, 8, 1), (0, 7, 3), (1, 8, 4)]"]
    curl_channels_follow[OF libev_ref_ok two_requests_follow(1), of "[(0, 7, 1), (1, 8, 1), (0, 9, 1)]"]
    two_requests_follow(2,3)
  by (simp add: socket_spec_def CURL_POLL_REMOVE_def fun_upd_twist)

text \<open>
  The loop around \<open>curl_multi_socket_action\<close> ends when libcurl cannot ask to be called again for ever: some
  measure of its state goes down whenever it does.
\<close>

lemma Curl_perform_ends:
  assumes "\<And>w n w1. action w = (-1, n, w1) \<Longrightarrow> m (w1\<lparr>runningHandles := n\<rparr>) < (m w :: nat)"
  shows "\<exists>w'. Curl_perform action w = Some w'"
proof (induction "m w" arbitrary: w rule: less_induct)
  case less
  obtain rc n w1 where a: "action w = (rc, n, w1)" by (metis prod_cases3)
  then show ?case using less[of "w1\<lparr>runningHandles := n\<rparr>"] assms[of w n w1]
    by (subst Curl_perform.simps) (auto simp: Let_def)
qed

end
