(* ===== verification/Curl_Download.thy ===== *)
theory Curl_Download
  imports Curl_Requests Log_Stream
begin

text \<open>
  The concurrent downloader (cases/curl/download.cc) on \<open>Curl_Requests\<close>: a \<open>HEAD\<close> request that learns the
  length of a file, then four requests for a piece each, and the end of the loop when all are done. The
  lemmas show that the pieces' ranges are the file, and that the loop ends exactly when all are written.
\<close>

section \<open>State\<close>

datatype dl_cb =
    Dl_onHeader | Dl_onHeaderDone | Dl_onData | Dl_onDownloadDone | Piece_onData nat | Piece_onDone nat

record Piece =
  pc_req :: "request_id option"
  pc_out :: "string option"
  pc_range :: string

text \<open>
  The world of a downloader: requests, the files it wrote by name, its members. A \<open>FILE*\<close> is the name of
  its file. A request ends when the one pointer to it is reset.
\<close>

record dworld = "dl_cb curl_world" +
  dl_files :: "string \<Rightarrow> string option"
  dl_url :: string
  dl_req :: "request_id option"
  dl_req2 :: "request_id option"
  dl_found :: bool
  dl_acceptRanges :: bool
  dl_length :: int
  dl_out :: "string option"
  dl_pieces :: "Piece list"
  dl_concurrent :: int

text \<open>What the system decides: whether \<open>fopen\<close> opens a file, \<open>curl_easy_init\<close> makes the handle of a request.\<close>

record dl_env =
  can_open :: "string \<Rightarrow> bool"
  easy_inits :: "request_id \<Rightarrow> bool"

definition kConcurrent :: int where "kConcurrent = 4"

definition startWith :: "string \<Rightarrow> string \<Rightarrow> bool" where
  "startWith str pre \<longleftrightarrow> length pre \<le> length str \<and> take (length pre) str = pre"

text \<open>\<open>atoll\<close>: spaces, a sign, digits; out of the range of 64 bits it gives the end of the range.\<close>

definition is_space :: "char \<Rightarrow> bool" where
  "is_space c \<longleftrightarrow> (of_char c :: nat) = 32 \<or> 9 \<le> (of_char c :: nat) \<and> (of_char c :: nat) \<le> 13"

definition atoll :: "string \<Rightarrow> int" where
  "atoll s =
     (let t = dropWhile is_space s;
          neg = (t \<noteq> [] \<and> hd t = CHR ''-'');
          u = (if t \<noteq> [] \<and> (hd t = CHR ''-'' \<or> hd t = CHR ''+'') then tl t else t);
          v = int (digits_value (takeWhile is_digit u))
      in if neg then max (- 9223372036854775808) (- v) else min 9223372036854775807 v)"

definition getUrl :: "dl_env \<Rightarrow> dworld \<Rightarrow> (request_id \<times> dworld) res" where
  "getUrl E w = Curl_getUrl (easy_inits E (next_request w)) (dl_url w) w"

definition dl_fopen :: "dl_env \<Rightarrow> string \<Rightarrow> dworld \<Rightarrow> string option \<times> dworld" where
  "dl_fopen E n w = (if can_open E n then (Some n, w\<lparr>dl_files := (dl_files w)(n \<mapsto> '''')\<rparr>) else (None, w))"

text \<open>\<open>fwrite\<close>, given how many of the bytes it writes, which may be fewer than it is given; the code does not look.\<close>

definition dl_fwrite :: "nat \<Rightarrow> string \<Rightarrow> string option \<Rightarrow> dworld \<Rightarrow> dworld res" where
  "dl_fwrite written buf out w =
     (case out of None \<Rightarrow> Inl NullPointer
      | Some n \<Rightarrow> Inr (w\<lparr>dl_files := (dl_files w)(n \<mapsto>
          (case dl_files w n of None \<Rightarrow> '''' | Some s \<Rightarrow> s) @ take written buf)\<rparr>))"

text \<open>Resetting a pointer to a request.\<close>

definition reset_request :: "request_id option \<Rightarrow> dworld \<Rightarrow> dworld res" where
  "reset_request p w = (case p of None \<Rightarrow> Inr w | Some r \<Rightarrow> Request_dtor r w)"

section \<open>Downloader\<close>

definition Downloader_onDownloadDone :: "dworld \<Rightarrow> dworld" where
  "Downloader_onDownloadDone w =
     (let w1 = w\<lparr>dl_concurrent := dl_concurrent w - 1\<rparr>
      in if dl_concurrent w1 \<le> 0 then loop_log Loop_quit w1 else w1)"

text \<open>A piece, which is a member of \<open>pieces_\<close> from its construction on.\<close>

definition Piece_ctor :: "request_id \<Rightarrow> string \<Rightarrow> string \<Rightarrow> dworld \<Rightarrow> dworld res" where
  "Piece_ctor req out rng w =
     (let i = length (dl_pieces w);
          w1 = w\<lparr>dl_pieces := dl_pieces w @ [\<lparr>pc_req = Some req, pc_out = Some out, pc_range = rng\<rparr>]\<rparr>
      in bindR (Request_setRange rng req w1) (\<lambda>w2.
         bindR (Request_setDataCallback (Piece_onData i) req w2) (\<lambda>w3.
         Request_setDoneCallback (Piece_onDone i) req w3)))"

definition Piece_data :: "nat \<Rightarrow> nat \<Rightarrow> string \<Rightarrow> dworld \<Rightarrow> dworld res" where
  "Piece_data written i buf w =
     ensure (i < length (dl_pieces w)) OutOfBounds (dl_fwrite written buf (pc_out (dl_pieces w ! i)) w)"

definition Piece_done :: "nat \<Rightarrow> dworld \<Rightarrow> dworld res" where
  "Piece_done i w =
     ensure (i < length (dl_pieces w)) OutOfBounds
       (let p = dl_pieces w ! i
        in bindR (reset_request (pc_req p) w) (\<lambda>w1.
           Inr (Downloader_onDownloadDone
                 (w1\<lparr>dl_pieces := (dl_pieces w1)[i := p\<lparr>pc_req := None, pc_out := None\<rparr>]\<rparr>))))"

definition Downloader_onHeader :: "string \<Rightarrow> dworld \<Rightarrow> dworld" where
  "Downloader_onHeader line w =
     (let w1 = (if startWith line ''HTTP/1.1 200'' \<or> startWith line ''HTTP/1.0 200''
                then w\<lparr>dl_found := True\<rparr> else w)
      in if line = ''Accept-Ranges: bytes'' @ [CHR 0x0D, CHR 0x0A] then w1\<lparr>dl_acceptRanges := True\<rparr>
         else if startWith line ''Content-Length:'' then w1\<lparr>dl_length := atoll (drop 15 line)\<rparr>
         else w1)"

definition piece_name :: "nat \<Rightarrow> string" where
  "piece_name i = ''output-'' @ fmt_0d 5 (int i) @ ''-of-'' @ fmt_0d 5 kConcurrent"

definition piece_range :: "int \<Rightarrow> nat \<Rightarrow> string" where
  "piece_range len i =
     (let pieceLen = len div kConcurrent
      in if int i < kConcurrent - 1
         then show_int (int i * pieceLen) @ ''-'' @ show_int ((int i + 1) * pieceLen - 1)
         else show_int (int i * pieceLen) @ ''-'' @ show_int (len - 1))"

text \<open>One round of the loop of \<open>concurrentDownload\<close>; the length is not negative there.\<close>

definition download_piece :: "dl_env \<Rightarrow> nat \<Rightarrow> dworld \<Rightarrow> dworld res" where
  "download_piece E i w =
     (case dl_fopen E (piece_name i) w of
        (None, w1) \<Rightarrow> Inr (loop_log Loop_quit w1)
      | (Some out, w1) \<Rightarrow>
          bindR (getUrl E w1) (\<lambda>(req, w2). Piece_ctor req out (piece_range (dl_length w2) i) w2))"

definition Downloader_concurrentDownload :: "dl_env \<Rightarrow> dworld \<Rightarrow> dworld res" where
  "Downloader_concurrentDownload E w = foldR (download_piece E) [0..<nat kConcurrent] w"

definition Downloader_onHeaderDone :: "dl_env \<Rightarrow> dworld \<Rightarrow> dworld res" where
  "Downloader_onHeaderDone E w =
     (if dl_acceptRanges w \<and> dl_length w \<ge> kConcurrent * 4096
      then Downloader_concurrentDownload E (w\<lparr>dl_concurrent := kConcurrent\<rparr>)
      else if dl_found w
      then (case dl_fopen E ''output.html'' w of
              (None, w1) \<Rightarrow> Inr (loop_log Loop_quit w1)
            | (Some out, w1) \<Rightarrow>
                bindR (reset_request (dl_req w1) (w1\<lparr>dl_out := Some out\<rparr>)) (\<lambda>w2.
                bindR (getUrl E (w2\<lparr>dl_req := None\<rparr>)) (\<lambda>(req2, w3).
                bindR (Request_setDataCallback Dl_onData req2 (w3\<lparr>dl_req2 := Some req2\<rparr>)) (\<lambda>w4.
                bindR (Request_setDoneCallback Dl_onDownloadDone req2 w4) (\<lambda>w5.
                Inr (w5\<lparr>dl_concurrent := 1\<rparr>))))))
      else Inr (loop_log Loop_quit w))"

text \<open>What the callbacks are bound to; \<open>written\<close> is what \<open>fwrite\<close> writes, if it is called.\<close>

definition dl_run_data :: "nat \<Rightarrow> dl_cb \<Rightarrow> string \<Rightarrow> dworld \<Rightarrow> dworld res" where
  "dl_run_data written cb buf w =
     (case cb of
        Dl_onHeader \<Rightarrow> Inr (Downloader_onHeader buf w)
      | Dl_onData \<Rightarrow> dl_fwrite written buf (dl_out w) w
      | Piece_onData i \<Rightarrow> Piece_data written i buf w
      | _ \<Rightarrow> Inl BadFunctionCall)"

definition dl_run_done :: "dl_env \<Rightarrow> dl_cb \<Rightarrow> request_id \<Rightarrow> int \<Rightarrow> dworld \<Rightarrow> dworld res" where
  "dl_run_done E cb r code w =
     (case cb of
        Dl_onHeaderDone \<Rightarrow> Downloader_onHeaderDone E w
      | Dl_onDownloadDone \<Rightarrow> Inr (Downloader_onDownloadDone w)
      | Piece_onDone i \<Rightarrow> Piece_done i w
      | _ \<Rightarrow> Inl BadFunctionCall)"

definition Downloader_ctor :: "dl_env \<Rightarrow> bool \<Rightarrow> loop_id \<Rightarrow> string \<Rightarrow> dworld res" where
  "Downloader_ctor E multi_init l url =
     bindR (Curl_ctor multi_init l) (\<lambda>c :: dl_cb curl_world.
     bindR (getUrl E (curl_world.extend c
        \<lparr>dl_files = Map.empty, dl_url = url, dl_req = None, dl_req2 = None, dl_found = False,
         dl_acceptRanges = False, dl_length = 0, dl_out = None, dl_pieces = [], dl_concurrent = 0\<rparr>)) (\<lambda>(r, w).
     bindR (Request_setHeaderCallback Dl_onHeader r (w\<lparr>dl_req := Some r\<rparr>)) (\<lambda>w1.
     bindR (Request_setDoneCallback Dl_onHeaderDone r w1) (\<lambda>w2.
     Request_headerOnly r w2))))"

text \<open>\<open>main\<close> up to its loop: libcurl is initialised with SSL before the downloader is made.\<close>

definition download_main :: "dl_env \<Rightarrow> bool \<Rightarrow> loop_id \<Rightarrow> dworld res" where
  "download_main E multi_init l =
     (let init = Curl_initialize True
      in bindR (Downloader_ctor E multi_init l ''http://www.baidu.com/'') (\<lambda>w.
         Inr (w\<lparr>curl_calls := init # curl_calls w\<rparr>)))"

section \<open>Setting the pieces up\<close>

lemma piece_names: "distinct (map piece_name [0, 1, 2, 3])"
  by code_simp

lemma below_4: "(i :: nat) < 4 \<Longrightarrow> i = 0 \<or> i = 1 \<or> i = 2 \<or> i = 3"
  by linarith

lemma piece_name_inj: "i < 4 \<Longrightarrow> j < 4 \<Longrightarrow> piece_name i = piece_name j \<longleftrightarrow> i = j"
  using below_4[of i] below_4[of j] piece_names by auto

lemma curl_socketp_members [simp]:
  "curl_socketp fd (w\<lparr>dl_files := f\<rparr>) = curl_socketp fd w" "curl_socketp fd (w\<lparr>dl_pieces := ps\<rparr>) = curl_socketp fd w"
  "curl_socketp fd (w\<lparr>dl_concurrent := n\<rparr>) = curl_socketp fd w"
  by (simp_all add: curl_socketp_def)

lemma curl_private_frame [simp]:
  "curl_private c (w\<lparr>dl_files := f\<rparr>) = curl_private c w" "curl_private c (w\<lparr>dl_pieces := ps\<rparr>) = curl_private c w"
  "curl_private c (w\<lparr>dl_concurrent := n\<rparr>) = curl_private c w"
  by (simp_all add: curl_private_def)

lemma dl_frames [simp]:
  "dl_files (curl_log cs w) = dl_files w" "dl_pieces (curl_log cs w) = dl_pieces w"
  "dl_length (curl_log cs w) = dl_length w" "dl_concurrent (curl_log cs w) = dl_concurrent w"
  "dl_files (put_request r q w) = dl_files w" "dl_pieces (put_request r q w) = dl_pieces w"
  "dl_length (put_request r q w) = dl_length w" "dl_concurrent (put_request r q w) = dl_concurrent w"
  "dl_files (loop_log lc w) = dl_files w" "dl_pieces (loop_log lc w) = dl_pieces w"
  "dl_length (loop_log lc w) = dl_length w" "dl_concurrent (loop_log lc w) = dl_concurrent w"
  by (simp_all add: curl_log_def put_request_def loop_log_def)

text \<open>What holds of the first \<open>k\<close> pieces, whose requests have the numbers from \<open>n0\<close> on.\<close>

definition piece_ready :: "nat \<Rightarrow> nat \<Rightarrow> int \<Rightarrow> dworld \<Rightarrow> bool" where
  "piece_ready n0 i len w \<longleftrightarrow>
     dl_pieces w ! i = \<lparr>pc_req = Some (n0 + i), pc_out = Some (piece_name i), pc_range = piece_range len i\<rparr> \<and>
     requests w (n0 + i) = Some \<lparr>req_curl = n0 + i, req_channel = None, dataCb = Some (Piece_onData i),
       headerCb = None, doneCb = Some (Piece_onDone i)\<rparr> \<and>
     curl_private (n0 + i) w = Some (n0 + i) \<and>
     Easy_setopt (n0 + i) (CURLOPT_RANGE (piece_range len i)) \<in> set (curl_calls w) \<and>
     dl_files w (piece_name i) = Some ''''"

definition pieces_ready :: "nat \<Rightarrow> nat \<Rightarrow> int \<Rightarrow> loop_call list \<Rightarrow> libcurl_watches \<Rightarrow> dworld \<Rightarrow> bool" where
  "pieces_ready n0 k len lcs s w \<longleftrightarrow> channels_follow s w \<and> (\<forall>r\<ge>n0. fst s r = None) \<and>
     next_request w = n0 + k \<and> length (dl_pieces w) = k \<and> dl_length w = len \<and> dl_concurrent w = kConcurrent \<and>
     loop_calls w = lcs \<and> (\<forall>i<k. piece_ready n0 i len w)"

text \<open>A world in which one request is different, or gone.\<close>

lemma channels_follow_put:
  assumes "channels_follow s w" and "requests w' = (requests w)(r := p)"
    and "\<And>q. p = Some q \<Longrightarrow> req_curl q = r \<and> curl_private r w' = Some r \<and> channel_follows (fst s r) (req_channel q)"
    and "\<And>c. c \<noteq> r \<Longrightarrow> curl_private c w' = curl_private c w" and "\<And>fd. curl_socketp fd w' = curl_socketp fd w"
  shows "channels_follow s w'"
  using assms by (auto simp: channels_follow_def split: if_splits)

lemma download_piece_ready:
  assumes P: "pieces_ready n0 k len lcs s w" and k: "k < 4"
    and E: "can_open E (piece_name k)" "easy_inits E (n0 + k)"
  shows "\<exists>w'. download_piece E k w = Inr w' \<and> pieces_ready n0 (Suc k) len lcs s w'"
proof -
  have w: "next_request w = n0 + k" "length (dl_pieces w) = k" "dl_length w = len" "loop_calls w = lcs"
    "dl_concurrent w = kConcurrent" using P by (simp_all add: pieces_ready_def)
  let ?f = "w\<lparr>dl_files := (dl_files w)(piece_name k \<mapsto> '''')\<rparr>" and ?r = "n0 + k" and ?rng = "piece_range len k"
  obtain w2 where w2: "getUrl E ?f = Inr (?r, w2)"
    and v: "requests w2 = (requests w)(?r \<mapsto> \<lparr>req_curl = ?r, req_channel = None, dataCb = None, headerCb = None, doneCb = None\<rparr>)"
      "next_request w2 = Suc ?r" "dl_length w2 = len" "dl_pieces w2 = dl_pieces w" "dl_concurrent w2 = kConcurrent"
      "loop_calls w2 = lcs" "dl_files w2 = (dl_files w)(piece_name k \<mapsto> '''')" "set (curl_calls w) \<subseteq> set (curl_calls w2)"
      "curl_private ?r w2 = Some ?r" "\<And>c. c \<noteq> ?r \<Longrightarrow> curl_private c w2 = curl_private c w"
      "\<And>fd. curl_socketp fd w2 = curl_socketp fd w"
    using E(2) w by (simp add: getUrl_def Curl_getUrl_def Request_ctor_def Let_def)
      (auto simp: curl_private_def curl_socketp_def curl_log_def put_request_def)
  define w3 where "w3 = curl_log [Easy_setopt ?r (CURLOPT_RANGE ?rng)]
      (w2\<lparr>dl_pieces := dl_pieces w2 @ [\<lparr>pc_req = Some ?r, pc_out = Some (piece_name k), pc_range = ?rng\<rparr>]\<rparr>)"
  let ?q = "\<lparr>req_curl = ?r, req_channel = None, dataCb = Some (Piece_onData k), headerCb = None, doneCb = Some (Piece_onDone k)\<rparr>"
  have run: "download_piece E k w =
      Inr (put_request ?r (Some ?q) (put_request ?r (Some (?q\<lparr>doneCb := None\<rparr>)) w3))"
    using E(1) w w2 v by (simp add: download_piece_def dl_fopen_def Piece_ctor_def Request_setRange_def Request_setopt_def
        Request_setDataCallback_def Request_setDoneCallback_def with_request_def w3_def Let_def)
  have old: "piece_ready n0 i len (put_request ?r (Some ?q) (put_request ?r (Some (?q\<lparr>doneCb := None\<rparr>)) w3))"
    if "i < k" for i
    using P that w v k piece_name_inj[of i k] unfolding w3_def
    by (auto simp: pieces_ready_def piece_ready_def nth_append)
  have new: "piece_ready n0 k len (put_request ?r (Some ?q) (put_request ?r (Some (?q\<lparr>doneCb := None\<rparr>)) w3))"
    using w v unfolding w3_def by (auto simp: piece_ready_def nth_append)
  have follow: "channels_follow s w" "fst s ?r = None" "\<forall>r\<ge>n0. fst s r = None" using P by (simp_all add: pieces_ready_def)
  have "channels_follow s (put_request ?r (Some ?q) (put_request ?r (Some (?q\<lparr>doneCb := None\<rparr>)) w3))"
    using v follow(2) unfolding w3_def by (intro channels_follow_put[OF follow(1), of _ ?r "Some ?q"]) auto
  then have "pieces_ready n0 (Suc k) len lcs s (put_request ?r (Some ?q) (put_request ?r (Some (?q\<lparr>doneCb := None\<rparr>)) w3))"
    using w v old new follow(3) unfolding w3_def by (auto simp: pieces_ready_def less_Suc_eq)
  then show ?thesis using run by blast
qed

lemma concurrentDownload_ready:
  assumes "pieces_ready n0 0 len lcs s w" and "\<And>k. k < 4 \<Longrightarrow> can_open E (piece_name k) \<and> easy_inits E (n0 + k)"
  shows "\<exists>w'. Downloader_concurrentDownload E w = Inr w' \<and> pieces_ready n0 4 len lcs s w'"
proof -
  have "\<exists>w'. foldR (download_piece E) [0..<k] w = Inr w' \<and> pieces_ready n0 k len lcs s w'" if "k \<le> 4" for k
    using that
  proof (induction k)
    case 0
    then show ?case using assms(1) by simp
  next
    case (Suc k)
    then obtain w1 where "foldR (download_piece E) [0..<k] w = Inr w1" "pieces_ready n0 k len lcs s w1" by auto
    then show ?case using download_piece_ready[of n0 k len lcs s w1 E] assms(2)[of k] Suc.prems
      by (auto simp: foldR_append)
  qed
  from this[of 4] show ?thesis by (simp add: Downloader_concurrentDownload_def kConcurrent_def)
qed

text \<open>The ranges of the four pieces.\<close>

definition piece_bounds :: "int \<Rightarrow> (int \<times> int) list" where
  "piece_bounds len = (let p = len div 4 in [(0, p - 1), (p, 2 * p - 1), (2 * p, 3 * p - 1), (3 * p, len - 1)])"

lemma piece_range_bounds:
  "map (piece_range len) [0, 1, 2, 3] = map (\<lambda>(a, b). show_int a @ ''-'' @ show_int b) (piece_bounds len)"
  by (simp add: piece_range_def piece_bounds_def kConcurrent_def Let_def)

lemma piece_bounds_cover:
  assumes "4 \<le> len"
  shows "concat (map (\<lambda>(a, b). [a..b]) (piece_bounds len)) = [0..len - 1]"
    "\<forall>(a, b) \<in> set (piece_bounds len). a \<le> b"
proof -
  define p where "p = len div 4"
  have p: "1 \<le> p" "4 * p \<le> len" unfolding p_def using assms by linarith+
  have "[0..len - 1] = [0..p - 1] @ [p..len - 1]" using p by (intro upto_split1) simp_all
  also have "[p..len - 1] = [p..2 * p - 1] @ [2 * p..len - 1]" using p by (intro upto_split1) simp_all
  also have "[2 * p..len - 1] = [2 * p..3 * p - 1] @ [3 * p..len - 1]" using p by (intro upto_split1) simp_all
  finally show "concat (map (\<lambda>(a, b). [a..b]) (piece_bounds len)) = [0..len - 1]"
    by (simp add: piece_bounds_def Let_def flip: p_def)
  show "\<forall>(a, b) \<in> set (piece_bounds len). a \<le> b" using p by (simp add: piece_bounds_def Let_def flip: p_def)
qed

section \<open>Receiving the pieces\<close>

text \<open>
  What libcurl reports of the pieces: bytes of one, of which \<open>fwrite\<close> writes so many; a socket callback for its
  request; its end, which \<open>checkFinish\<close> learns of, with any result.
\<close>

datatype dl_event = Piece_receives nat string nat | Piece_socket nat int int | Piece_ends nat int

definition dl_event_run :: "libev \<Rightarrow> dl_env \<Rightarrow> nat \<Rightarrow> dl_event \<Rightarrow> dworld \<Rightarrow> dworld res" where
  "dl_event_run L E n0 e w =
     (case e of
        Piece_receives i buf written \<Rightarrow>
          bindR (Request_writeData (dl_run_data written) buf 1 (length buf) (n0 + i) w) (\<lambda>(n, w1). Inr w1)
      | Piece_socket i fd what \<Rightarrow> socket_event_run L (n0 + i, fd, what) w
      | Piece_ends i code \<Rightarrow> Curl_message (dl_run_done E) (True, n0 + i, code) w)"

text \<open>
  A piece is reported of only before its end, and ends once; what has ended; what was written for each; and
  what libcurl watches, where the end of a piece whose socket is still watched fails the assertion of \<open>~Request\<close>.
\<close>

fun events_ok :: "nat set \<Rightarrow> dl_event list \<Rightarrow> bool" where
  "events_ok D [] = True"
| "events_ok D (Piece_receives i buf written # es) = (i < 4 \<and> i \<notin> D \<and> events_ok D es)"
| "events_ok D (Piece_socket i fd what # es) = (i < 4 \<and> i \<notin> D \<and> 0 \<le> what \<and> what \<le> 4 \<and> events_ok D es)"
| "events_ok D (Piece_ends i code # es) = (i < 4 \<and> i \<notin> D \<and> events_ok (insert i D) es)"

fun event_ended :: "dl_event \<Rightarrow> nat set" where
  "event_ended (Piece_ends i code) = {i}"
| "event_ended e = {}"

fun event_data :: "nat \<Rightarrow> dl_event \<Rightarrow> string" where
  "event_data i (Piece_receives j buf written) = (if j = i then take written buf else [])"
| "event_data i e = []"

fun event_watches :: "nat \<Rightarrow> dl_event \<Rightarrow> libcurl_watches \<Rightarrow> libcurl_watches res" where
  "event_watches n0 (Piece_receives i buf written) s = Inr s"
| "event_watches n0 (Piece_socket i fd what) s = socket_spec (n0 + i, fd, what) s"
| "event_watches n0 (Piece_ends i code) s = (if fst s (n0 + i) = None then Inr s else Inl AssertFailed)"

text \<open>While the pieces in \<open>D\<close> have ended, \<open>got i\<close> was written for each piece \<open>i\<close> and libcurl watches \<open>s\<close>.\<close>

definition piece_request :: "nat \<Rightarrow> nat \<Rightarrow> Channel option \<Rightarrow> dl_cb Request" where
  "piece_request n0 i ch =
     \<lparr>req_curl = n0 + i, req_channel = ch, dataCb = Some (Piece_onData i), headerCb = None, doneCb = Some (Piece_onDone i)\<rparr>"

lemma piece_request_simps [simp]:
  "req_curl (piece_request n0 i ch) = n0 + i" "req_channel (piece_request n0 i ch) = ch"
  "dataCb (piece_request n0 i ch) = Some (Piece_onData i)" "doneCb (piece_request n0 i ch) = Some (Piece_onDone i)"
  "(piece_request n0 i ch)\<lparr>req_channel := ch'\<rparr> = piece_request n0 i ch'"
  by (simp_all add: piece_request_def)

definition downloading :: "nat \<Rightarrow> nat set \<Rightarrow> (nat \<Rightarrow> string) \<Rightarrow> libcurl_watches \<Rightarrow> dworld \<Rightarrow> bool" where
  "downloading n0 D got s w \<longleftrightarrow>
     length (dl_pieces w) = 4 \<and> D \<subseteq> {0..<4} \<and> dl_concurrent w = 4 - int (card D) \<and>
     (Loop_quit \<in> set (loop_calls w) \<longleftrightarrow> D = {0..<4}) \<and>
     (\<forall>i<4. dl_files w (piece_name i) = Some (got i)) \<and>
     (\<forall>i<4. i \<notin> D \<longrightarrow> pc_req (dl_pieces w ! i) = Some (n0 + i) \<and> pc_out (dl_pieces w ! i) = Some (piece_name i) \<and>
        (\<exists>ch. requests w (n0 + i) = Some (piece_request n0 i ch))) \<and>
     channels_follow s w"

lemma ready_downloading:
  "pieces_ready n0 4 len lcs s w \<Longrightarrow> Loop_quit \<notin> set lcs \<Longrightarrow> downloading n0 {} (\<lambda>_. []) s w"
  by (auto simp: pieces_ready_def piece_ready_def downloading_def kConcurrent_def piece_request_def)

lemma downloading_request:
  assumes "downloading n0 D got s w" and "i < 4" and "i \<notin> D"
  shows "\<exists>ch. requests w (n0 + i) = Some (piece_request n0 i ch) \<and> channels_follow s w"
  using assms unfolding downloading_def by blast

lemma downloading_receives:
  assumes "downloading n0 D got s w" and "i < 4" and "i \<notin> D"
  shows "\<exists>w'. dl_event_run L E n0 (Piece_receives i buf written) w = Inr w' \<and>
    downloading n0 D (got(i := got i @ take written buf)) s w'"
proof -
  let ?w' = "w\<lparr>dl_files := (dl_files w)(piece_name i \<mapsto> got i @ take written buf)\<rparr>"
  obtain ch where "requests w (n0 + i) = Some (piece_request n0 i ch)" using downloading_request[OF assms] by blast
  then have "dl_event_run L E n0 (Piece_receives i buf written) w = Inr ?w'"
    using assms by (simp add: dl_event_run_def downloading_def Request_writeData_def Request_dataCallback_def
        with_request_def dl_run_data_def Piece_data_def dl_fwrite_def)
  moreover have "channels_follow s w = channels_follow s ?w'" by (simp add: channels_follow_def)
  then have "downloading n0 D (got(i := got i @ take written buf)) s ?w'"
    using assms piece_name_inj unfolding downloading_def by simp
  ultimately show ?thesis by blast
qed

lemma curl_frame_download:
  fixes w w' :: dworld
  assumes "curl_frame w w'"
  shows "dl_files w' = dl_files w" "dl_pieces w' = dl_pieces w" "dl_concurrent w' = dl_concurrent w"
    "Loop_quit \<in> set (loop_calls w') \<longleftrightarrow> Loop_quit \<in> set (loop_calls w)"
  using assms by (cases w; cases w'; simp add: curl_frame_def)+

lemma downloading_socket:
  assumes "libev_ok L" and D: "downloading n0 D got s w" and i: "i < 4" "i \<notin> D" and "0 \<le> what" "what \<le> 4"
  shows "case socket_spec (n0 + i, fd, what) s of
      Inr s' \<Rightarrow> \<exists>w'. dl_event_run L E n0 (Piece_socket i fd what) w = Inr w' \<and> downloading n0 D got s' w'
    | Inl e \<Rightarrow> dl_event_run L E n0 (Piece_socket i fd what) w = Inl e"
proof -
  obtain ch where q: "requests w (n0 + i) = Some (piece_request n0 i ch)" and follow: "channels_follow s w"
    using downloading_request[OF D i] by blast
  note step = socket_event_refines[OF assms(1) follow q assms(5,6), of fd]
  show ?thesis
  proof (cases "socket_spec (n0 + i, fd, what) s")
    case (Inl e)
    then show ?thesis using step by (simp add: dl_event_run_def)
  next
    case (Inr s')
    then obtain w' ch' where w': "socket_event_run L (n0 + i, fd, what) w = Inr w'" "channels_follow s' w'"
      "requests w' = (requests w)(n0 + i \<mapsto> piece_request n0 i ch')" "curl_frame w w'" using step by auto
    have "downloading n0 D got s' w'"
      using D w'(2,3) curl_frame_download[OF w'(4)] by (auto simp: downloading_def)
    then show ?thesis using Inr w'(1) by (simp add: dl_event_run_def)
  qed
qed

lemma downloading_ends:
  assumes D: "downloading n0 D got s w" and i: "i < 4" "i \<notin> D"
  shows "if fst s (n0 + i) = None
    then \<exists>w'. dl_event_run L E n0 (Piece_ends i code) w = Inr w' \<and> downloading n0 (insert i D) got s w'
    else dl_event_run L E n0 (Piece_ends i code) w = Inl AssertFailed"
proof -
  obtain ch where q: "requests w (n0 + i) = Some (piece_request n0 i ch)" and follow: "channels_follow s w"
    using downloading_request[OF D i] by blast
  have w: "length (dl_pieces w) = 4" "D \<subseteq> {0..<4}" "dl_concurrent w = 4 - int (card D)"
    "Loop_quit \<in> set (loop_calls w) \<longleftrightarrow> D = {0..<4}" "pc_req (dl_pieces w ! i) = Some (n0 + i)"
    using D i by (simp_all add: downloading_def)
  note F = channels_followD(2,3)[OF follow q]
  define w1 where "w1 = curl_log [Multi_remove_handle (n0 + i), Easy_cleanup (n0 + i)] (put_request (n0 + i) None w)"
  define w2 where "w2 = w1\<lparr>dl_pieces := (dl_pieces w1)[i := (dl_pieces w ! i)\<lparr>pc_req := None, pc_out := None\<rparr>]\<rparr>"
  have run: "dl_event_run L E n0 (Piece_ends i code) w =
      (if (case ch of None \<Rightarrow> True | Some ch \<Rightarrow> Channel_isNoneEvent ch) then Inr (Downloader_onDownloadDone w2)
       else Inl AssertFailed)"
    using w q F(1) i by (simp add: dl_event_run_def Curl_message_def with_request_def Request_done_def dl_run_done_def
        Piece_done_def reset_request_def Request_dtor_def Let_def w2_def w1_def)
  show ?thesis
  proof (cases "fst s (n0 + i)")
    case None
    then have run: "dl_event_run L E n0 (Piece_ends i code) w = Inr (Downloader_onDownloadDone w2)" using run F(2) by simp
    have fin: "finite D" by (rule finite_subset[OF w(2)]) simp
    then have card: "card (insert i D) = Suc (card D)" using i by simp
    have all: "insert i D = {0..<4} \<longleftrightarrow> card (insert i D) = 4"
      using card_subset_eq[of "{0..<4 :: nat}" "insert i D"] w(2) i(1) by auto
    have not_all: "D \<noteq> {0..<4}" using i by auto
    have le: "card (insert i D) \<le> 4" using card_mono[of "{0..<4 :: nat}" "insert i D"] w(2) i(1) by auto
    have w2: "length (dl_pieces w2) = 4" "dl_concurrent w2 = 4 - int (card D)" "loop_calls w2 = loop_calls w"
      "dl_files w2 = dl_files w" "requests w2 = (requests w)(n0 + i := None)"
      "\<And>j. j \<noteq> i \<Longrightarrow> dl_pieces w2 ! j = dl_pieces w ! j" "\<And>c. curl_private c w2 = curl_private c w"
      "\<And>fd. curl_socketp fd w2 = curl_socketp fd w"
      using w by (simp_all add: w2_def w1_def)
    have "channels_follow s (Downloader_onDownloadDone w2)"
      using w2 by (intro channels_follow_put[OF follow, of _ "n0 + i" None]) (auto simp: Downloader_onDownloadDone_def Let_def)
    then have "downloading n0 (insert i D) got s (Downloader_onDownloadDone w2)"
      using D i w2 w(2,4) not_all all le card unfolding downloading_def Downloader_onDownloadDone_def Let_def
      by auto
    then show ?thesis using run None by auto
  next
    case (Some a)
    then obtain c where "ch = Some c" "Channel_isReading c" using F(2) by (cases ch; cases a) auto
    then show ?thesis using run Some by (auto simp: Channel_isReading_def Channel_isNoneEvent_def ev_NONE_def)
  qed
qed

lemma downloading_run:
  assumes "libev_ok L" and "downloading n0 D got s w" and "events_ok D es"
  shows "case foldR (event_watches n0) es s of
      Inr s' \<Rightarrow> \<exists>w'. foldR (dl_event_run L E n0) es w = Inr w' \<and>
        downloading n0 (D \<union> \<Union>(event_ended ` set es)) (\<lambda>i. got i @ concat (map (event_data i) es)) s' w'
    | Inl e \<Rightarrow> foldR (dl_event_run L E n0) es w = Inl e"
  using assms(2,3)
proof (induction es arbitrary: D got s w)
  case Nil
  then show ?case by simp
next
  case (Cons e es)
  show ?case
  proof (cases "event_watches n0 e s")
    case (Inl x)
    have "dl_event_run L E n0 e w = Inl x"
    proof (cases e)
      case (Piece_socket i fd what)
      then show ?thesis using downloading_socket[OF assms(1) Cons.prems(1), where i = i and what = what and fd = fd and E = E] Cons.prems(2) Inl by simp
    next
      case (Piece_ends i code)
      then show ?thesis using downloading_ends[OF Cons.prems(1), where i = i and L = L and E = E and code = code] Cons.prems(2) Inl
        by (simp split: if_splits)
    qed (use Inl in simp)
    then show ?thesis using Inl by simp
  next
    case (Inr s1)
    let ?D = "D \<union> event_ended e" and ?got = "\<lambda>i. got i @ event_data i e"
    have "\<exists>w1. dl_event_run L E n0 e w = Inr w1 \<and> downloading n0 ?D ?got s1 w1"
    proof (cases e)
      case (Piece_receives i buf written)
      then have "?got = got(i := got i @ take written buf)" by (auto simp: fun_eq_iff)
      then show ?thesis
        using downloading_receives[OF Cons.prems(1), of i L E buf written] Cons.prems(2) Inr Piece_receives by simp
    next
      case (Piece_socket i fd what)
      then show ?thesis using downloading_socket[OF assms(1) Cons.prems(1), where i = i and what = what and fd = fd and E = E] Cons.prems(2) Inr by simp
    next
      case (Piece_ends i code)
      then show ?thesis using downloading_ends[OF Cons.prems(1), where i = i and L = L and E = E and code = code] Cons.prems(2) Inr
        by (simp split: if_splits)
    qed
    then obtain w1 where w1: "dl_event_run L E n0 e w = Inr w1" "downloading n0 ?D ?got s1 w1" by blast
    have "events_ok ?D es" using Cons.prems(2) by (cases e) simp_all
    from Cons.IH[OF w1(2) this] show ?thesis
      using Inr w1(1) by (cases "foldR (event_watches n0) es s1") (simp_all add: Un_assoc)
  qed
qed

text \<open>
  C30. A download is complete and then ends. When the header request is done, the server takes ranges,
  the length is at least 16384, and files and handles can be had: four pieces are requested, whose ranges
  are the bytes from 0 to the length without a gap or an overlap, none empty. Then let libcurl report anything of
  them in any order, each end once and with any result: bytes, socket callbacks, ends. While it uses one socket
  at a time for a request and gives it up before the request's end, no step fails, the channels follow libcurl,
  each file was given, in order, what \<open>fwrite\<close> wrote of the bytes that its piece received, all of them where no write fell
  short, and the loop is told to quit exactly when all four pieces have ended, failed writes or not. The first
  report that is different, an end with the socket still watched for example, fails the assertion of the binding.
\<close>

theorem download_complete:
  assumes "libev_ok L" and "dl_acceptRanges w" and "kConcurrent * 4096 \<le> dl_length w" and "dl_pieces w = []"
    and "Loop_quit \<notin> set (loop_calls w)"
    and "\<And>k. k < 4 \<Longrightarrow> can_open E (piece_name k) \<and> easy_inits E (next_request w + k)"
    and "channels_follow s w" and "\<And>r'. next_request w \<le> r' \<Longrightarrow> fst s r' = None"
    and "events_ok {} es"
  shows "\<exists>w1. dl_run_done E Dl_onHeaderDone r code w = Inr w1 \<and>
    (\<forall>i<4. Easy_setopt (next_request w + i) (CURLOPT_RANGE (map pc_range (dl_pieces w1) ! i)) \<in> set (curl_calls w1)) \<and>
    (\<exists>rs. map pc_range (dl_pieces w1) = map (\<lambda>(a, b). show_int a @ ''-'' @ show_int b) rs \<and>
       concat (map (\<lambda>(a, b). [a..b]) rs) = [0..dl_length w - 1] \<and> (\<forall>(a, b) \<in> set rs. a \<le> b)) \<and>
    (case foldR (event_watches (next_request w)) es s of
       Inr s' \<Rightarrow> \<exists>w2. foldR (dl_event_run L E (next_request w)) es w1 = Inr w2 \<and> channels_follow s' w2 \<and>
         (\<forall>i<4. dl_files w2 (piece_name i) = Some (concat (map (event_data i) es))) \<and>
         (Loop_quit \<in> set (loop_calls w2) \<longleftrightarrow> \<Union>(event_ended ` set es) = {0..<4})
     | Inl e \<Rightarrow> foldR (dl_event_run L E (next_request w)) es w1 = Inl e)"
proof -
  let ?n = "next_request w" and ?len = "dl_length w"
  have "channels_follow s (w\<lparr>dl_concurrent := kConcurrent\<rparr>)" using assms(7) by (simp add: channels_follow_def)
  then have "pieces_ready ?n 0 ?len (loop_calls w) s (w\<lparr>dl_concurrent := kConcurrent\<rparr>)"
    using assms(4,8) by (simp add: pieces_ready_def)
  from concurrentDownload_ready[OF this assms(6)] obtain w1
    where run: "Downloader_concurrentDownload E (w\<lparr>dl_concurrent := kConcurrent\<rparr>) = Inr w1"
      and ready: "pieces_ready ?n 4 ?len (loop_calls w) s w1" by auto
  have pc: "piece_ready ?n i ?len w1" if "i < 4" for i using ready that by (simp add: pieces_ready_def)
  have "length (dl_pieces w1) = 4" using ready by (simp add: pieces_ready_def)
  then obtain p q u t where "dl_pieces w1 = [p, q, u, t]" by (auto simp: length_Suc_conv numeral_eq_Suc)
  then have rngs: "map pc_range (dl_pieces w1) = map (piece_range ?len) [0, 1, 2, 3]"
    using pc[of 0] pc[of 1] pc[of 2] pc[of 3] by (simp add: piece_ready_def)
  have opts: "Easy_setopt (?n + i) (CURLOPT_RANGE (map pc_range (dl_pieces w1) ! i)) \<in> set (curl_calls w1)" if "i < 4" for i
    using ready that by (simp add: pieces_ready_def piece_ready_def)
  have "4 \<le> ?len" using assms(3) by (simp add: kConcurrent_def)
  note cover = piece_bounds_cover[OF this]
  have "downloading ?n {} (\<lambda>_. []) s w1" using ready_downloading[OF ready assms(5)] .
  note events = downloading_run[OF assms(1) this assms(9), of E]
  have rest: "case foldR (event_watches ?n) es s of
       Inr s' \<Rightarrow> \<exists>w2. foldR (dl_event_run L E ?n) es w1 = Inr w2 \<and> channels_follow s' w2 \<and>
         (\<forall>i<4. dl_files w2 (piece_name i) = Some (concat (map (event_data i) es))) \<and>
         (Loop_quit \<in> set (loop_calls w2) \<longleftrightarrow> \<Union>(event_ended ` set es) = {0..<4})
     | Inl e \<Rightarrow> foldR (dl_event_run L E ?n) es w1 = Inl e"
    using events by (cases "foldR (event_watches ?n) es s") (auto simp: downloading_def)
  have "dl_run_done E Dl_onHeaderDone r code w = Inr w1"
    using run assms(2,3) by (simp add: dl_run_done_def Downloader_onHeaderDone_def)
  then show ?thesis using rngs opts cover piece_range_bounds[of ?len] rest
    by (intro exI[of _ w1] conjI exI[of _ "piece_bounds ?len"]) simp_all
qed

definition kind_system :: dl_env where
  "kind_system = \<lparr>can_open = (\<lambda>_. True), easy_inits = (\<lambda>_. True)\<rparr>"

definition after_headers :: dworld where
  "after_headers = fold Downloader_onHeader
     [''HTTP/1.1 200 OK'', ''Accept-Ranges: bytes'' @ [CHR 0x0D, CHR 0x0A], ''Content-Length: 20001'']
     (case Downloader_ctor kind_system True 0 ''http://a'' of Inr w \<Rightarrow> w)"

lemma atoll_20001: "atoll '' 20001'' = 20001"
  by (simp add: atoll_def is_space_def is_digit_def digits_value_def Let_def)

lemma onHeader_frame:
  "dl_pieces (Downloader_onHeader s w) = dl_pieces w" "loop_calls (Downloader_onHeader s w) = loop_calls w"
  "next_request (Downloader_onHeader s w) = next_request w"
  by (simp_all add: Downloader_onHeader_def Let_def)

lemma onHeader_follows: "channels_follow s (Downloader_onHeader l w) = channels_follow s w"
  by (simp add: Downloader_onHeader_def Let_def channels_follow_def curl_private_def curl_socketp_def)

lemma onHeader_lines:
  "dl_acceptRanges (Downloader_onHeader (''Accept-Ranges: bytes'' @ [CHR 0x0D, CHR 0x0A]) w)"
  "dl_acceptRanges (Downloader_onHeader ''Content-Length: 20001'' w) = dl_acceptRanges w"
  "dl_length (Downloader_onHeader ''Content-Length: 20001'' w) = 20001"
  by (simp_all add: Downloader_onHeader_def startWith_def Let_def atoll_20001)

lemma ctor_world:
  "\<exists>w. Downloader_ctor kind_system True 0 url = Inr w \<and> dl_pieces w = [] \<and> loop_calls w = [] \<and> next_request w = 1 \<and>
     channels_follow (\<lambda>_. None, \<lambda>_. None) w"
  by (simp add: Downloader_ctor_def Curl_ctor_def getUrl_def Curl_getUrl_def Request_ctor_def kind_system_def
      Request_setHeaderCallback_def Request_setDoneCallback_def Request_headerOnly_def Request_setopt_def with_request_def Let_def
      curl_world.defs)
    (auto simp: channels_follow_def curl_private_def curl_socketp_def put_request_def curl_log_def)

theorem download_complete_witness:
  "\<exists>w1 w2. dl_run_done kind_system Dl_onHeaderDone 0 0 after_headers = Inr w1 \<and>
     foldR (dl_event_run libev_ref kind_system 1)
       [Piece_socket 2 9 1, Piece_receives 2 ''xy'' 2, Piece_receives 2 ''zz'' 1, Piece_socket 2 9 4, Piece_ends 0 0, Piece_ends 2 0]
       w1 = Inr w2 \<and>
     dl_files w2 (piece_name 2) = Some ''xyz'' \<and> Loop_quit \<notin> set (loop_calls w2) \<and>
     foldR (dl_event_run libev_ref kind_system 1) [Piece_socket 2 9 1, Piece_ends 2 0] w1 = Inl AssertFailed"
proof -
  obtain w0 where w0: "Downloader_ctor kind_system True 0 ''http://a'' = Inr w0"
    "dl_pieces w0 = []" "loop_calls w0 = []" "next_request w0 = 1" "channels_follow (\<lambda>_. None, \<lambda>_. None) w0"
    using ctor_world by blast
  have w: "dl_acceptRanges after_headers" "dl_length after_headers = 20001" "dl_pieces after_headers = []"
    "loop_calls after_headers = []" "next_request after_headers = 1" "channels_follow (\<lambda>_. None, \<lambda>_. None) after_headers"
    using w0 onHeader_lines by (simp_all add: after_headers_def onHeader_frame onHeader_follows)
  have "1 \<notin> {0, 2 :: nat} \<and> 1 \<in> {0..<4 :: nat}" by simp
  then have part: "{0, 2 :: nat} \<noteq> {0..<4}" by blast
  note T = download_complete[OF libev_ref_ok w(1) _ w(3) _ _ w(6), of kind_system _ 0 0, unfolded w(2,4,5)]
  have env: "kConcurrent * 4096 \<le> 20001" "\<And>k. can_open kind_system (piece_name k) \<and> easy_inits kind_system (1 + k)"
    by (simp_all add: kConcurrent_def kind_system_def)
  define es where "es = [Piece_socket 2 9 1, Piece_receives 2 ''xy'' 2, Piece_receives 2 ''zz'' 1, Piece_socket 2 9 4,
    Piece_ends 0 0, Piece_ends 2 0]"
  have es: "events_ok {} es" "\<exists>s. foldR (event_watches 1) es (\<lambda>_. None, \<lambda>_. None) = Inr s"
    "concat (map (event_data 2) es) = ''xyz''" "\<Union>(event_ended ` set es) \<noteq> {0..<4}"
    using part by (auto simp: insert_commute es_def socket_spec_def CURL_POLL_REMOVE_def)
  define ab where "ab = [Piece_socket 2 9 1, Piece_ends 2 0]"
  have ab: "events_ok {} ab" "foldR (event_watches 1) ab (\<lambda>_. None, \<lambda>_. None) = Inl AssertFailed"
    by (simp_all add: ab_def socket_spec_def CURL_POLL_REMOVE_def)
  obtain w1 w2 where w1: "dl_run_done kind_system Dl_onHeaderDone 0 0 after_headers = Inr w1"
    "foldR (dl_event_run libev_ref kind_system 1) es w1 = Inr w2" "dl_files w2 (piece_name 2) = Some ''xyz''"
    "Loop_quit \<notin> set (loop_calls w2)"
  proof -
    obtain s' where "foldR (event_watches 1) es (\<lambda>_. None, \<lambda>_. None) = Inr s'" using es(2) by blast
    then obtain w1 w2 where "dl_run_done kind_system Dl_onHeaderDone 0 0 after_headers = Inr w1"
      "foldR (dl_event_run libev_ref kind_system 1) es w1 = Inr w2"
      "\<forall>i<4. dl_files w2 (piece_name i) = Some (concat (map (event_data i) es))"
      "Loop_quit \<in> set (loop_calls w2) \<longleftrightarrow> \<Union>(event_ended ` set es) = {0..<4}"
      using T[of es] es(1) env by auto
    moreover then have "dl_files w2 (piece_name 2) = Some ''xyz''" using es(3) by simp
    ultimately show ?thesis using that es(4) by blast
  qed
  have "\<exists>u1. dl_run_done kind_system Dl_onHeaderDone 0 0 after_headers = Inr u1 \<and>
      foldR (dl_event_run libev_ref kind_system 1) ab u1 = Inl AssertFailed"
    using T[of ab] ab env by auto
  then show ?thesis using w1 unfolding es_def ab_def by auto
qed

end
