(* ===== verification/Curl_Example.thy ===== *)
theory Curl_Example
  imports Prelude
begin

text \<open>
  The example program cases/curl/curl_example.cc: the callback that collects a page in memory, and \<open>main\<close>,
  which saves the page. libcurl's deliveries and the allocator's answers are arguments. The callback is
  exact while the allocator has memory; it reports success when it has not, and then leaves a hole of bytes
  that were never written; and \<open>main\<close> passes the page to \<open>fprintf\<close> as its format.
\<close>

section \<open>The memory a page is collected in\<close>

text \<open>A block of memory: a cell without a value was never written. \<open>mem_buffer\<close> may be null.\<close>

record BufferStruct =
  mem_buffer :: "char option list option"
  mem_size :: size_t

text \<open>\<open>realloc(3)\<close> to \<open>n\<close> bytes; \<open>ok\<close> is whether the allocator has them.\<close>

definition realloc :: "bool \<Rightarrow> size_t \<Rightarrow> char option list option \<Rightarrow> char option list option" where
  "realloc ok n p =
     (if ok
      then (let old = (case p of None \<Rightarrow> [] | Some b \<Rightarrow> b)
            in Some (take (unat n) old @ replicate (unat n - length old) None))
      else None)"

definition WriteMemoryCallback ::
  "bool \<Rightarrow> string \<Rightarrow> size_t \<Rightarrow> size_t \<Rightarrow> BufferStruct \<Rightarrow> (size_t \<times> BufferStruct) res" where
  "WriteMemoryCallback ok ptr elemsize nmemb mem =
     (let realsize = elemsize * nmemb;
          mem1 = mem\<lparr>mem_buffer := realloc ok (mem_size mem + realsize + 1) (mem_buffer mem)\<rparr>
      in case mem_buffer mem1 of
           None \<Rightarrow> Inr (realsize, mem1)
         | Some b \<Rightarrow>
             bindR (read_range ptr 0 (unat realsize)) (\<lambda>bytes.
             bindR (copy_into b (unat (mem_size mem1)) (map Some bytes)) (\<lambda>b1.
             let sz = mem_size mem1 + realsize
             in bindR (copy_into b1 (unat sz) [Some (CHR 0x00)]) (\<lambda>b2.
                Inr (realsize, mem1\<lparr>mem_buffer := Some b2, mem_size := sz\<rparr>)))))"

section \<open>Saving the page\<close>

text \<open>
  What a string function of C sees of a block: the characters before the first zero; it must not meet the end
  of the block or a byte that was never written.
\<close>

fun c_string :: "char option list \<Rightarrow> string res" where
  "c_string [] = Inl OutOfBounds"
| "c_string (None # cs) = Inl Indeterminate"
| "c_string (Some c # cs) = (if c = CHR 0x00 then Inr [] else bindR (c_string cs) (\<lambda>s. Inr (c # s)))"

text \<open>\<open>fprintf\<close> of a format alone: every conversion but \<open>%%\<close> asks for an argument that was not passed.\<close>

fun printf_format :: "string \<Rightarrow> string res" where
  "printf_format [] = Inr []"
| "printf_format (c # cs) =
     (if c = CHR ''%''
      then (case cs of
              d # ds \<Rightarrow> if d = CHR ''%'' then bindR (printf_format ds) (\<lambda>s. Inr (CHR ''%'' # s)) else Inl Indeterminate
            | [] \<Rightarrow> Inl Indeterminate)
      else bindR (printf_format cs) (\<lambda>s. Inr (c # s)))"

text \<open>
  libcurl hands the page over in chunks of elements of one byte and goes on while the callback returns the
  number of bytes it was given; each chunk comes with the answer of the allocator.
\<close>

fun deliver :: "bool \<times> string \<Rightarrow> BufferStruct \<Rightarrow> BufferStruct res" where
  "deliver (ok, chunk) mem =
     bindR (WriteMemoryCallback ok chunk 1 (sizeof_list chunk) mem) (\<lambda>(n, mem1). Inr mem1)"

text \<open>\<open>main\<close>: its exit code, the contents of example.html if it could be opened, and what it printed.\<close>

definition curl_example_main :: "(bool \<times> string) list \<Rightarrow> bool \<Rightarrow> (int \<times> string option \<times> string) res" where
  "curl_example_main chunks fopen =
     bindR (foldR deliver chunks \<lparr>mem_buffer = None, mem_size = 0\<rparr>) (\<lambda>output.
     if \<not> fopen then Inr (1, None, '''')
     else case mem_buffer output of
            None \<Rightarrow> Inl NullPointer
          | Some b \<Rightarrow>
              bindR (bindR (c_string b) printf_format) (\<lambda>page.
              Inr (0, Some page, ''LibCurl rules!'' @ [CHR 0x0A])))"

section \<open>The callback while there is memory\<close>

text \<open>What the structure holds once the bytes \<open>xs\<close> have arrived.\<close>

definition holds :: "string \<Rightarrow> BufferStruct \<Rightarrow> bool" where
  "holds xs mem \<longleftrightarrow> mem_size mem = sizeof_list xs \<and>
     (mem_buffer mem = Some (map Some xs @ [Some (CHR 0x00)]) \<or> mem_buffer mem = None \<and> xs = [])"

lemma unat_sizeof: "length xs \<le> max_size \<Longrightarrow> unat (sizeof_list xs :: size_t) = length xs"
  by (simp add: size_simps)

text \<open>The size of a block that has room for more bytes and a zero.\<close>

lemma unat_room:
  "length xs + length ys < max_size \<Longrightarrow>
   unat (sizeof_list xs + sizeof_list ys + 1 :: size_t) = length xs + length ys + 1"
  by (simp add: size_simps unat_word_ariths)

lemma unat_sum:
  "length xs + length ys < max_size \<Longrightarrow> unat (sizeof_list xs + sizeof_list ys :: size_t) = length xs + length ys"
  by (simp add: size_simps)

text \<open>One chunk, on any block whose first bytes are kept: it is written after them, with a zero behind it.\<close>

lemma WriteMemory_block:
  assumes len: "k + length d < max_size" and sz: "mem_size mem = of_nat k"
    and old: "case mem_buffer mem of None \<Rightarrow> pre = replicate k None
      | Some b \<Rightarrow> k \<le> length b \<and> length b \<le> k + 1 \<and> pre = take k b"
  shows "WriteMemoryCallback True d 1 (sizeof_list d) mem =
    Inr (sizeof_list d, \<lparr>mem_buffer = Some (pre @ map Some d @ [Some (CHR 0x00)]), mem_size = of_nat (k + length d)\<rparr>)"
proof -
  let ?n = "of_nat k + sizeof_list d + 1 :: size_t"
  have n: "unat ?n = k + length d + 1" "unat (of_nat k + sizeof_list d :: size_t) = k + length d"
    "unat (of_nat k :: size_t) = k" "unat (sizeof_list d :: size_t) = length d"
    using len by (simp_all add: size_simps unat_word_ariths)
  obtain rest where b: "realloc True ?n (mem_buffer mem) = Some (pre @ rest)" "length pre = k" "length rest = length d + 1"
  proof (cases "mem_buffer mem")
    case None
    have "replicate (k + length d + 1) (None :: char option) = replicate k None @ replicate (length d + 1) None"
      by (simp only: add.assoc replicate_add)
    then have "realloc True ?n (mem_buffer mem) = Some (pre @ replicate (length d + 1) None)"
      using None old n(1) by (simp add: realloc_def del: replicate.simps)
    then show ?thesis using that None old by simp
  next
    case (Some b)
    have "take (k + length d + 1) b = take k b @ drop k b" using old Some by simp
    then show ?thesis
      using that[of "drop k b @ replicate (k + length d + 1 - length b) None"] old Some n(1) by (simp add: realloc_def)
  qed
  have w1: "copy_into (pre @ rest) k (map Some d) = Inr (pre @ map Some d @ drop (length d) rest)"
    using b(2,3) by (simp add: copy_into_def)
  obtain z where z: "drop (length d) rest = [z]"
    using b(3) by (cases "drop (length d) rest") (auto dest: arg_cong[of _ _ length])
  have w2: "copy_into (pre @ map Some d @ [z]) (k + length d) [Some (CHR 0x00)] =
      Inr (pre @ map Some d @ [Some (CHR 0x00)])"
    using b(2) by (simp add: copy_into_def)
  obtain p where mem: "mem = \<lparr>mem_buffer = p, mem_size = of_nat k\<rparr>" using sz by (cases mem) simp
  show ?thesis
    unfolding WriteMemoryCallback_def Let_def mem using n b(1)[unfolded mem]
    by (simp add: read_range_def w1 z w2)
qed

lemma deliver_holds:
  assumes "holds xs mem" and "length xs + length d < max_size"
  shows "\<exists>mem1. deliver (True, d) mem = Inr mem1 \<and> holds (xs @ d) mem1 \<and> mem_buffer mem1 \<noteq> None"
proof -
  have old: "case mem_buffer mem of None \<Rightarrow> map Some xs = replicate (length xs) None
      | Some b \<Rightarrow> length xs \<le> length b \<and> length b \<le> length xs + 1 \<and> map Some xs = take (length xs) b"
    using assms(1) by (auto simp: holds_def)
  show ?thesis
    using WriteMemory_block[OF assms(2) _ old] assms(1) by (simp add: holds_def)
qed

lemma delivers_hold:
  assumes "holds xs mem" and "list_all fst chunks" and "length xs + length (concat (map snd chunks)) < max_size"
  shows "\<exists>mem1. foldR deliver chunks mem = Inr mem1 \<and> holds (xs @ concat (map snd chunks)) mem1 \<and>
    (mem_buffer mem1 = None \<longleftrightarrow> mem_buffer mem = None \<and> chunks = [])"
  using assms
proof (induction chunks arbitrary: xs mem)
  case Nil
  then show ?case by simp
next
  case (Cons c chunks)
  obtain d where c: "c = (True, d)" using Cons.prems(2) by (cases c) simp
  obtain mem1 where m1: "deliver c mem = Inr mem1" "holds (xs @ d) mem1" "mem_buffer mem1 \<noteq> None"
    using deliver_holds[OF Cons.prems(1), of d] Cons.prems(3) c by auto
  from Cons.IH[OF m1(2)] Cons.prems(2,3) c m1(1,3) show ?case by simp
qed

lemma c_string_holds: "c_string (map Some xs @ [Some (CHR 0x00)]) = Inr (takeWhile (\<lambda>c. c \<noteq> CHR 0x00) xs)"
  by (induction xs) simp_all

lemma printf_plain: "CHR ''%'' \<notin> set s \<Longrightarrow> printf_format s = Inr s"
  by (induction s) auto

section \<open>What the example does\<close>

text \<open>
  C39. The example saves a page only if it reads well as a format. Whatever the chunks, with memory for all of
  them and less than \<open>max_size\<close> bytes, \<open>main\<close> exits with 1 when example.html cannot be opened, uses a null
  pointer when nothing was delivered, and otherwise hands the page up to its first zero to \<open>fprintf\<close>: a page
  without a percent sign is saved as it is, any other conversion than \<open>%%\<close> reads an argument that is not there.
\<close>

theorem curl_example_exact:
  assumes "list_all fst chunks" and "length (concat (map snd chunks)) < max_size"
  shows "curl_example_main chunks fopen =
      (if \<not> fopen then Inr (1, None, '''') else if chunks = [] then Inl NullPointer
       else bindR (printf_format (takeWhile (\<lambda>c. c \<noteq> CHR 0x00) (concat (map snd chunks)))) (\<lambda>page.
         Inr (0, Some page, ''LibCurl rules!'' @ [CHR 0x0A]))) \<and>
    (fopen \<and> chunks \<noteq> [] \<and> list_all (\<lambda>c. c \<noteq> CHR 0x00 \<and> c \<noteq> CHR ''%'') (concat (map snd chunks)) \<longrightarrow>
       curl_example_main chunks fopen = Inr (0, Some (concat (map snd chunks)), ''LibCurl rules!'' @ [CHR 0x0A]))"
proof -
  let ?page = "concat (map snd chunks)"
  have "holds [] \<lparr>mem_buffer = None, mem_size = 0\<rparr>" by (simp add: holds_def)
  from delivers_hold[OF this assms(1)] assms(2) obtain mem where
    mem: "foldR deliver chunks \<lparr>mem_buffer = None, mem_size = 0\<rparr> = Inr mem" "holds ?page mem"
      "mem_buffer mem = None \<longleftrightarrow> chunks = []" by auto
  have main: "curl_example_main chunks fopen =
      (if \<not> fopen then Inr (1, None, '''') else if chunks = [] then Inl NullPointer
       else bindR (printf_format (takeWhile (\<lambda>c. c \<noteq> CHR 0x00) ?page)) (\<lambda>page.
         Inr (0, Some page, ''LibCurl rules!'' @ [CHR 0x0A])))"
    using mem by (auto simp: curl_example_main_def holds_def c_string_holds)
  have "takeWhile (\<lambda>c. c \<noteq> CHR 0x00) ?page = ?page \<and> printf_format ?page = Inr ?page"
    if "list_all (\<lambda>c. c \<noteq> CHR 0x00 \<and> c \<noteq> CHR ''%'') ?page"
    using that printf_plain[of ?page] by (auto simp: list_all_iff takeWhile_eq_all_conv)
  then have "curl_example_main chunks fopen = Inr (0, Some ?page, ''LibCurl rules!'' @ [CHR 0x0A])"
    if "fopen" "chunks \<noteq> []" "list_all (\<lambda>c. c \<noteq> CHR 0x00 \<and> c \<noteq> CHR ''%'') ?page"
    unfolding main using that by (simp only: simp_thms if_True if_False bindR.simps)
  then show ?thesis using main by blast
qed

lemma curl_example_exact_witness:
  "curl_example_main [(True, ''<p>50''), (True, ''% off'')] True = Inl Indeterminate \<and>
   curl_example_main [(True, ''<p>''), (True, ''hi'')] True = Inr (0, Some ''<p>hi'', ''LibCurl rules!'' @ [CHR 0x0A])"
  using curl_example_exact[of "[(True, ''<p>50''), (True, ''% off'')]" True]
    curl_example_exact[of "[(True, ''<p>''), (True, ''hi'')]" True] by simp

text \<open>
  The callback hides that there was no memory: it returns the size it was given, as if it had kept the
  bytes, drops the whole page and keeps its size; the next chunk that finds memory is then written behind as
  many bytes that were never written.
\<close>

theorem WriteMemory_hides_failure:
  assumes "holds xs mem" and "length xs + length e < max_size"
  shows "\<exists>mem1. WriteMemoryCallback False d 1 (sizeof_list d) mem = Inr (sizeof_list d, mem1) \<and>
    mem_buffer mem1 = None \<and> mem_size mem1 = mem_size mem \<and>
    WriteMemoryCallback True e 1 (sizeof_list e) mem1 =
      Inr (sizeof_list e, \<lparr>mem_buffer = Some (replicate (length xs) None @ map Some e @ [Some (CHR 0x00)]),
        mem_size = of_nat (length xs + length e)\<rparr>)"
proof -
  have size: "mem_size mem = of_nat (length xs)" using assms(1) by (simp add: holds_def)
  have "WriteMemoryCallback False d 1 (sizeof_list d) mem = Inr (sizeof_list d, mem\<lparr>mem_buffer := None\<rparr>)"
    by (simp add: WriteMemoryCallback_def realloc_def)
  then show ?thesis
    using WriteMemory_block[OF assms(2), of "mem\<lparr>mem_buffer := None\<rparr>" "replicate (length xs) None"] size by auto
qed

end
